(* ===== verification/Prelude.thy ===== *)
theory Prelude
  imports Main "HOL-Library.Word" "HOL-Library.Sublist" "HOL-Library.Char_ord"
    "HOL-Library.List_Lexorder"
begin

text \<open>
  What every component shares: Go's failure modes as values, the byte readers of the decoders
  with their contract (the locale \<open>stream_reader\<close> and its closure rules), transition systems and
  simulations between them (the locales \<open>transition_system\<close> and \<open>simulation\<close>), the decimal conversions of \<^verbatim>\<open>strconv\<close> and the functions of \<^verbatim>\<open>strings\<close> the sources call.

  A Go \<^verbatim>\<open>string\<close> and a \<^verbatim>\<open>[]byte\<close> are both a \<^typ>\<open>string\<close>, a list of bytes
  (\<^typ>\<open>char\<close> has exactly 256 values).  A Go \<^verbatim>\<open>int\<close>, 64 bits wide, is an \<^typ>\<open>int\<close>
  with the conversions from \<^verbatim>\<open>uint64\<close> written out; unsigned and bit-level values keep their
  width as words.
\<close>

unbundle bit_operations_syntax

named_theorems stream_intros
named_theorems fault_simps

section \<open>Failures\<close>

text \<open>
  \<^verbatim>\<open>log.Panicf\<close> logs and calls \<^verbatim>\<open>os.Exit(1)\<close>: the whole task process ends.  It is the value
  \<open>LogPanicf m\<close>, with \<open>m\<close> the head of the message format.  A Go runtime panic (an index or a
  slice bound out of range, a negative allocation) is \<open>RuntimePanic m\<close>.  \<open>OutOfFuel\<close> is no
  behaviour of the program: it marks a bound of the model that was too small, and the
  theorems about fuelled functions exclude it.
\<close>

datatype fault = LogPanicf string | RuntimePanic string | OutOfFuel

type_synonym 'a res = "fault + 'a"
type_synonym 'a reader = "string \<Rightarrow> fault + ('a \<times> string)"

section \<open>Sequencing readers\<close>

definition retR :: "'a \<Rightarrow> 'a reader" where
  "retR x s = Inr (x, s)"

definition failR :: "fault \<Rightarrow> 'a reader" where
  "failR e s = Inl e"

definition bindR :: "'a reader \<Rightarrow> ('a \<Rightarrow> 'b reader) \<Rightarrow> 'b reader" where
  "bindR p f s = (case p s of Inl e \<Rightarrow> Inl e | Inr (x, s') \<Rightarrow> f x s')"

definition mapR :: "('a \<Rightarrow> 'b) \<Rightarrow> 'a reader \<Rightarrow> 'b reader" where
  "mapR f p = bindR p (\<lambda>x. retR (f x))"

text \<open>The counted loop \<^verbatim>\<open>for i := 0; i < size; i++\<close>, collecting what each round yields.\<close>

fun timesR :: "nat \<Rightarrow> 'a reader \<Rightarrow> 'a list reader" where
  "timesR 0 p = retR []"
| "timesR (Suc n) p = bindR p (\<lambda>x. bindR (timesR n p) (\<lambda>xs. retR (x # xs)))"

text \<open>\<^verbatim>\<open>io.TeeReader\<close>: the bytes a reader took, together with its result.\<close>

definition teeR :: "'a reader \<Rightarrow> ('a \<times> string) reader" where
  "teeR p s = (case p s of Inl e \<Rightarrow> Inl e
     | Inr (x, s') \<Rightarrow> Inr ((x, take (length s - length s') s), s'))"

lemma retR_simp [simp]: "retR x s = Inr (x, s)"
  by (simp add: retR_def)

lemma failR_simp [simp]: "failR e s = Inl e"
  by (simp add: failR_def)

lemma bindR_Inr [simp]: "p s = Inr (x, s') \<Longrightarrow> bindR p f s = f x s'"
  by (simp add: bindR_def)

lemma bindR_Inl [simp]: "p s = Inl e \<Longrightarrow> bindR p f s = Inl e"
  by (simp add: bindR_def)

lemma bindR_retR [simp]: "bindR (retR x) f = f x"
  by (rule ext) (simp add: bindR_def)

lemma bindR_Inr_iff:
  "bindR p f s = Inr r \<longleftrightarrow> (\<exists>x s'. p s = Inr (x, s') \<and> f x s' = Inr r)"
  by (auto simp: bindR_def split: sum.splits)

lemma bindR_InrE:
  assumes "bindR p f s = Inr r"
  obtains x s' where "p s = Inr (x, s')" and "f x s' = Inr r"
  using assms by (auto simp: bindR_Inr_iff)

lemma mapR_Inr [simp]: "p s = Inr (x, s') \<Longrightarrow> mapR f p s = Inr (f x, s')"
  by (simp add: mapR_def)

lemma map_sum_Inr [fault_simps]: "map_sum f g x = Inr y \<longleftrightarrow> (\<exists>z. x = Inr z \<and> y = g z)"
  by (cases x) auto

lemma map_sum_Inl [fault_simps]: "map_sum f g x = Inl y \<longleftrightarrow> (\<exists>z. x = Inl z \<and> y = f z)"
  by (cases x) auto

section \<open>The contract of a byte reader\<close>

text \<open>
  Every decoder of the program reads its input from the front, hands the rest on, and never
  looks past what it consumes.  This is what makes the raw bytes captured by the tee reader
  the whole encoding of a value, and what lets a value be decoded again from these bytes
  alone.  (One decoder takes the end of its input for a value; the contract is about values that
  are followed by something, as every value of a dump is.)
\<close>

locale stream_reader =
  fixes rd :: "'a reader"
  assumes consumes: "rd s = Inr (x, s') \<Longrightarrow> \<exists>v. s = v @ s'"
    and no_lookahead: "rd (v @ s') = Inr (x, s') \<Longrightarrow> s' \<noteq> [] \<Longrightarrow> rd (v @ t) = Inr (x, t)"
begin

lemma rest_le: "rd s = Inr (x, s') \<Longrightarrow> length s' \<le> length s"
  by (auto dest: consumes)

lemma tee_splits:
  assumes "teeR rd s = Inr ((x, v), s')"
  shows "s = v @ s'" and "rd s = Inr (x, s')"
proof -
  from assms obtain y where y: "rd s = Inr (y, s')" "x = y"
      "v = take (length s - length s') s"
    by (auto simp: teeR_def split: sum.splits prod.splits)
  from y(1) obtain w where "s = w @ s'" by (auto dest: consumes)
  with y(3) show "s = v @ s'" by simp
  from y show "rd s = Inr (x, s')" by simp
qed

text \<open>The captured bytes alone decode to the same value, with nothing left over.\<close>

lemma tee_replay:
  assumes "teeR rd s = Inr ((x, v), s')" "s' \<noteq> []"
  shows "rd (v @ t) = Inr (x, t)"
proof -
  from tee_splits [OF assms(1)] have "rd (v @ s') = Inr (x, s')" by simp
  then show ?thesis using assms(2) by (rule no_lookahead)
qed

end

lemma stream_retR [stream_intros]: "stream_reader (retR x)"
  by unfold_locales auto

lemma stream_failR [stream_intros]: "stream_reader (failR e)"
  by unfold_locales auto

lemma stream_bindR [stream_intros]:
  assumes p: "stream_reader p" and f: "\<And>x. stream_reader (f x)"
  shows "stream_reader (bindR p f)"
proof
  fix s x s' assume "bindR p f s = Inr (x, s')"
  then obtain y u where u: "p s = Inr (y, u)" "f y u = Inr (x, s')" by (rule bindR_InrE)
  from stream_reader.consumes [OF p u(1)] obtain v where v: "s = v @ u" by blast
  from stream_reader.consumes [OF f u(2)] obtain w where w: "u = w @ s'" by blast
  from v w have "s = (v @ w) @ s'" by simp
  then show "\<exists>v. s = v @ s'" by blast
next
  fix v s' x t assume "bindR p f (v @ s') = Inr (x, s')" and ne: "s' \<noteq> []"
  then obtain y u where u: "p (v @ s') = Inr (y, u)" "f y u = Inr (x, s')"
    by (metis bindR_Inr_iff)
  from stream_reader.consumes [OF p u(1)] obtain a where a: "v @ s' = a @ u" by blast
  from stream_reader.consumes [OF f u(2)] obtain b where b: "u = b @ s'" by blast
  from a b have v: "v = a @ b" by simp
  from u(1) a have "p (a @ u) = Inr (y, u)" by simp
  moreover from b ne have "u \<noteq> []" by simp
  ultimately have "p (a @ (b @ t)) = Inr (y, b @ t)" by (rule stream_reader.no_lookahead [OF p])
  moreover from u(2) b have "f y (b @ s') = Inr (x, s')" by simp
  then have "f y (b @ t) = Inr (x, t)" using ne by (rule stream_reader.no_lookahead [OF f])
  ultimately show "bindR p f (v @ t) = Inr (x, t)" using v by simp
qed

lemma stream_mapR [stream_intros]: "stream_reader p \<Longrightarrow> stream_reader (mapR f p)"
  unfolding mapR_def by (intro stream_intros)

lemma stream_timesR [stream_intros]: "stream_reader p \<Longrightarrow> stream_reader (timesR n p)"
  by (induction n) (auto intro!: stream_intros)

lemma stream_if [stream_intros]:
  "\<lbrakk>c \<Longrightarrow> stream_reader p; \<not> c \<Longrightarrow> stream_reader q\<rbrakk> \<Longrightarrow> stream_reader (if c then p else q)"
  by simp

lemma stream_case_option [stream_intros]:
  "\<lbrakk>stream_reader p; \<And>y. stream_reader (q y)\<rbrakk>
    \<Longrightarrow> stream_reader (case m of None \<Rightarrow> p | Some y \<Rightarrow> q y)"
  by (cases m) auto

lemma stream_case_prod [stream_intros]:
  "(\<And>a b. stream_reader (q a b)) \<Longrightarrow> stream_reader (case m of (a, b) \<Rightarrow> q a b)"
  by (cases m) auto

lemma stream_case_sum [stream_intros]:
  "\<lbrakk>\<And>a. stream_reader (p a); \<And>b. stream_reader (q b)\<rbrakk>
    \<Longrightarrow> stream_reader (case m of Inl a \<Rightarrow> p a | Inr b \<Rightarrow> q b)"
  by (cases m) auto

lemma timesR_length:
  "timesR n p s = Inr (xs, s') \<Longrightarrow> length xs = n"
  by (induction n arbitrary: s xs s') (auto elim!: bindR_InrE)

text \<open>A loop over a concatenation of encodings yields the encoded elements.\<close>

lemma timesR_concat:
  assumes "\<And>x t. x \<in> set xs \<Longrightarrow> p (enc x @ t) = Inr (x, t)"
  shows "timesR (length xs) p (concat (map enc xs) @ t) = Inr (xs, t)"
  using assms by (induction xs) auto

section \<open>Transition systems and simulations\<close>

text \<open>
  Goroutines, channels and timers are modelled by a step relation on a record of the shared state; what
  can happen is the set of reachable states.  The two locales below are what the proofs about such
  systems use: the reachable states are the least set that holds the initial state and is closed under steps,
  and a map that turns every step of one system into steps of another carries the other's reachable states
  and invariants over.
\<close>

locale transition_system =
  fixes s0 :: 's and stp :: "'s \<Rightarrow> 's \<Rightarrow> bool" and reach :: "'s \<Rightarrow> bool"
  assumes reach_s0: "reach s0"
    and reach_stp: "\<lbrakk>reach s; stp s t\<rbrakk> \<Longrightarrow> reach t"
    and reach_least: "\<lbrakk>reach s; I s0; \<And>s t. \<lbrakk>reach s; I s; stp s t\<rbrakk> \<Longrightarrow> I t\<rbrakk> \<Longrightarrow> I s"
begin

lemma invariant:
  assumes "reach s" "I s0" "\<And>s t. \<lbrakk>I s; stp s t\<rbrakk> \<Longrightarrow> I t"
  shows "I s"
  using assms(1,2) by (rule reach_least) (rule assms(3))

lemma invariant_under:
  assumes "reach s" "\<And>s. reach s \<Longrightarrow> J s" "I s0" "\<And>s t. \<lbrakk>J s; J t; I s; stp s t\<rbrakk> \<Longrightarrow> I t"
  shows "I s"
proof (rule reach_least [OF assms(1), of I])
  show "I s0" by (rule assms(3))
next
  fix s t assume "reach s" "I s" "stp s t"
  then show "I t" using assms(2) [of s] assms(2) [of t] reach_stp [of s t] assms(4) [of s t] by blast
qed

lemma runs: "stp\<^sup>*\<^sup>* s t \<Longrightarrow> reach s \<Longrightarrow> reach t"
  by (induction rule: rtranclp_induct) (auto intro: reach_stp)

lemma reach_iff_runs: "reach s \<longleftrightarrow> stp\<^sup>*\<^sup>* s0 s"
proof
  assume "reach s"
  then show "stp\<^sup>*\<^sup>* s0 s" by (rule invariant) (auto intro: rtranclp.rtrancl_into_rtrancl)
qed (auto intro: runs reach_s0)

text \<open>What grows with every step: histories, logs, the set of things that have happened.\<close>

lemma grows:
  assumes "\<And>s. R s s" "\<And>s t u. \<lbrakk>R s t; R t u\<rbrakk> \<Longrightarrow> R s u" "\<And>s t. stp s t \<Longrightarrow> R s t"
  shows "stp\<^sup>*\<^sup>* s t \<Longrightarrow> R s t"
  by (induction rule: rtranclp_induct) (use assms in blast)+

end

locale simulation =
  conc: transition_system s0 stp reach + abst: transition_system t0 astp areach
  for s0 :: 's and stp reach and t0 :: 't and astp areach +
  fixes f :: "'s \<Rightarrow> 't"
  assumes f_s0: "f s0 = t0"
    and f_stp: "\<lbrakk>reach s; stp s t\<rbrakk> \<Longrightarrow> astp\<^sup>*\<^sup>* (f s) (f t)"
begin

lemma f_reach: "reach s \<Longrightarrow> areach (f s)"
proof (erule conc.reach_least)
  show "areach (f s0)" by (simp add: f_s0 abst.reach_s0)
  show "areach (f t)" if "reach s" "areach (f s)" "stp s t" for s t
    using abst.runs [OF f_stp [OF that(1,3)] that(2)] .
qed

lemma f_runs: "stp\<^sup>*\<^sup>* s t \<Longrightarrow> reach s \<Longrightarrow> astp\<^sup>*\<^sup>* (f s) (f t)"
proof (induction rule: rtranclp_induct)
  case (step t u)
  then show ?case using f_stp [OF conc.runs [OF step.hyps(1) step.prems] step.hyps(2)] by auto
qed simp

end

end
