(* ===== verification/GoLib.thy ===== *)
theory GoLib
  imports Prelude
begin

text \<open>
  The parts of Go's standard library the sources call, as executable definitions: the decimal
  conversions of \<^verbatim>\<open>strconv\<close> (with its syntax and range errors) and the functions of
  \<^verbatim>\<open>strings\<close>.  Case mapping and white space follow Go's ASCII rules; the command names,
  option words and info lines the sources apply them to are ASCII.
  The central fact is the round trip \<open>Atoi_Itoa\<close> used by every textual protocol.
\<close>

section \<open>Decimal output\<close>

definition digit_char :: "nat \<Rightarrow> char" where
  "digit_char d = char_of (48 + d)"

definition is_digit :: "char \<Rightarrow> bool" where
  "is_digit c \<longleftrightarrow> 48 \<le> (of_char c :: nat) \<and> (of_char c :: nat) \<le> 57"

definition digit_val :: "char \<Rightarrow> nat" where
  "digit_val c = of_char c - 48"

fun FormatUint :: "nat \<Rightarrow> string" where
  "FormatUint n = (if n < 10 then [digit_char n] else FormatUint (n div 10) @ [digit_char (n mod 10)])"

declare FormatUint.simps [simp del]

definition Itoa :: "int \<Rightarrow> string" where
  "Itoa i = (if i < 0 then CHR ''-'' # FormatUint (nat (- i)) else FormatUint (nat i))"

section \<open>Decimal input\<close>

text \<open>\<^verbatim>\<open>strconv.ErrSyntax\<close> and \<^verbatim>\<open>strconv.ErrRange\<close>.\<close>

datatype num_err = ErrSyntax | ErrRange

definition maxUint64 :: nat where "maxUint64 = 18446744073709551615"
definition maxInt64 :: int where "maxInt64 = 9223372036854775807"

text \<open>The digit loop of \<^verbatim>\<open>strconv.ParseUint\<close> in base 10, 64 bits.\<close>

fun parse_digits :: "nat \<Rightarrow> string \<Rightarrow> num_err + nat" where
  "parse_digits n [] = Inr n"
| "parse_digits n (c # cs) =
     (if \<not> is_digit c then Inl ErrSyntax
      else if n * 10 + digit_val c > maxUint64 then Inl ErrRange
      else parse_digits (n * 10 + digit_val c) cs)"

definition ParseUint :: "string \<Rightarrow> num_err + nat" where
  "ParseUint s = (if s = [] then Inl ErrSyntax else parse_digits 0 s)"

text \<open>
  \<^verbatim>\<open>strconv.ParseInt(s, 10, 64)\<close> and \<^verbatim>\<open>strconv.Atoi\<close>: an optional sign, then digits, with
  the range of \<^verbatim>\<open>int64\<close>.
\<close>

definition split_sign :: "string \<Rightarrow> bool \<times> string" where
  "split_sign s = (case s of [] \<Rightarrow> (False, [])
     | c # cs \<Rightarrow> if c = CHR ''-'' then (True, cs) else if c = CHR ''+'' then (False, cs) else (False, s))"

definition ParseInt :: "string \<Rightarrow> num_err + int" where
  "ParseInt s = (case split_sign s of (neg, ds) \<Rightarrow>
     (case ParseUint ds of Inl e \<Rightarrow> Inl e
      | Inr u \<Rightarrow> if \<not> neg \<and> int u > maxInt64 then Inl ErrRange
                else if neg \<and> int u > maxInt64 + 1 then Inl ErrRange
                else Inr (if neg then - int u else int u)))"

abbreviation Atoi :: "string \<Rightarrow> num_err + int" where "Atoi \<equiv> ParseInt"

text \<open>The value Go returns when the caller drops the error: 0, or the bound of the range.\<close>

definition ParseInt_val :: "string \<Rightarrow> int" where
  "ParseInt_val s = (case ParseInt s of Inr v \<Rightarrow> v
     | Inl ErrSyntax \<Rightarrow> 0
     | Inl ErrRange \<Rightarrow> if fst (split_sign s) then - maxInt64 - 1 else maxInt64)"

text \<open>Go's integer division truncates towards zero.\<close>

definition go_quot :: "int \<Rightarrow> int \<Rightarrow> int" where
  "go_quot a b = sgn a * sgn b * (\<bar>a\<bar> div \<bar>b\<bar>)"

section \<open>Strings\<close>

definition upper_char :: "char \<Rightarrow> char" where
  "upper_char c = (if 97 \<le> (of_char c :: nat) \<and> (of_char c :: nat) \<le> 122
                   then char_of ((of_char c :: nat) - 32) else c)"

definition ToUpper :: "string \<Rightarrow> string" where
  "ToUpper s = map upper_char s"

definition EqualFold :: "string \<Rightarrow> string \<Rightarrow> bool" where
  "EqualFold a b \<longleftrightarrow> ToUpper a = ToUpper b"

abbreviation HasPrefix :: "string \<Rightarrow> string \<Rightarrow> bool" where
  "HasPrefix s p \<equiv> prefix p s"

abbreviation HasSuffix :: "string \<Rightarrow> string \<Rightarrow> bool" where
  "HasSuffix s p \<equiv> suffix p s"

abbreviation Contains :: "string \<Rightarrow> string \<Rightarrow> bool" where
  "Contains s p \<equiv> sublist p s"

definition is_space :: "char \<Rightarrow> bool" where
  "is_space c \<longleftrightarrow> (of_char c :: nat) \<in> {9, 10, 11, 12, 13, 32}"

definition TrimSpace :: "string \<Rightarrow> string" where
  "TrimSpace s = rev (dropWhile is_space (rev (dropWhile is_space s)))"

text \<open>\<^verbatim>\<open>strings.Split\<close> on a one-byte separator: always at least one part.\<close>

fun Split :: "char \<Rightarrow> string \<Rightarrow> string list" where
  "Split c [] = [[]]"
| "Split c (x # xs) =
     (if x = c then [] # Split c xs
      else (case Split c xs of [] \<Rightarrow> [[x]] | p # ps \<Rightarrow> (x # p) # ps))"

fun Join :: "string list \<Rightarrow> string \<Rightarrow> string" where
  "Join [] sep = []"
| "Join [x] sep = x"
| "Join (x # y # ys) sep = x @ sep @ Join (y # ys) sep"

section \<open>Facts\<close>

lemma of_char_digit: "d < 10 \<Longrightarrow> (of_char (digit_char d) :: nat) = 48 + d"
  by (simp add: digit_char_def)

lemma is_digit_digit_char [simp]: "d < 10 \<Longrightarrow> is_digit (digit_char d)"
  by (simp add: is_digit_def of_char_digit)

lemma digit_val_digit_char [simp]: "d < 10 \<Longrightarrow> digit_val (digit_char d) = d"
  by (simp add: digit_val_def of_char_digit)

lemma FormatUint_ne [simp]: "FormatUint n \<noteq> []"
  by (subst FormatUint.simps) simp

lemma FormatUint_digits: "\<forall>c \<in> set (FormatUint n). is_digit c"
proof (induction n rule: FormatUint.induct)
  case (1 n)
  show ?case
  proof (cases "n < 10")
    case True
    then show ?thesis by (subst FormatUint.simps) simp
  next
    case False
    with "1.IH" show ?thesis by (subst FormatUint.simps) auto
  qed
qed

lemma parse_digits_append:
  "parse_digits a xs = Inr b \<Longrightarrow> parse_digits a (xs @ ys) = parse_digits b ys"
  by (induction xs arbitrary: a) (auto split: if_splits)

lemma parse_digits_FormatUint: "n \<le> maxUint64 \<Longrightarrow> parse_digits 0 (FormatUint n) = Inr n"
proof (induction n rule: FormatUint.induct)
  case (1 n)
  show ?case
  proof (cases "n < 10")
    case True
    then show ?thesis
      by (subst FormatUint.simps) (simp add: maxUint64_def)
  next
    case False
    have "n div 10 \<le> maxUint64" using "1.prems" by simp
    with False "1.IH" have "parse_digits 0 (FormatUint (n div 10)) = Inr (n div 10)" by simp
    then have "parse_digits 0 (FormatUint n) = parse_digits (n div 10) [digit_char (n mod 10)]"
      using False parse_digits_append by (subst FormatUint.simps) simp
    with "1.prems" show ?thesis by simp
  qed
qed

lemma ParseUint_FormatUint [simp]: "n \<le> maxUint64 \<Longrightarrow> ParseUint (FormatUint n) = Inr n"
  by (simp add: ParseUint_def parse_digits_FormatUint)

lemma digit_not_sign:
  assumes "is_digit c" shows "c \<noteq> CHR ''-''" "c \<noteq> CHR ''+''"
  using assms by (auto simp: is_digit_def)

lemma split_sign_FormatUint [simp]: "split_sign (FormatUint n) = (False, FormatUint n)"
proof (cases "FormatUint n")
  case Nil then show ?thesis by simp
next
  case (Cons c cs)
  then have "is_digit c" using FormatUint_digits [of n] by simp
  then show ?thesis using Cons by (simp add: split_sign_def digit_not_sign)
qed

lemma Atoi_Itoa:
  assumes "- maxInt64 - 1 \<le> i" "i \<le> maxInt64"
  shows "Atoi (Itoa i) = Inr i"
proof (cases "i < 0")
  case True
  then have "nat (- i) \<le> maxUint64" using assms by (simp add: maxUint64_def maxInt64_def)
  then show ?thesis using True assms
    by (simp add: ParseInt_def Itoa_def split_sign_def)
next
  case False
  then have "nat i \<le> maxUint64" using assms by (simp add: maxUint64_def maxInt64_def)
  then show ?thesis using False assms
    by (simp add: ParseInt_def Itoa_def)
qed

lemma ParseInt_range: "ParseInt s = Inr v \<Longrightarrow> - maxInt64 - 1 \<le> v \<and> v \<le> maxInt64"
  by (auto simp: ParseInt_def maxInt64_def split: prod.splits sum.splits if_splits)

lemma Split_ne [simp]: "Split c s \<noteq> []"
  by (cases s) (auto split: list.splits)

lemma Join_Split: "Join (Split c s) [c] = s"
proof (induction s)
  case Nil then show ?case by simp
next
  case (Cons x xs)
  obtain p ps where ps: "Split c xs = p # ps" by (cases "Split c xs") auto
  with Cons show ?case by (cases ps) auto
qed

lemma EqualFold_refl [simp]: "EqualFold s s"
  by (simp add: EqualFold_def)

section \<open>Buffered output\<close>

text \<open>\<^verbatim>\<open>bufio.Writer.Write\<close> with its buffer of \<open>cap\<close> bytes, on the pair of the file and the buffer.\<close>

definition bufio_write :: "nat \<Rightarrow> string \<times> string \<Rightarrow> string \<Rightarrow> string \<times> string" where
  "bufio_write cap fb p = (case fb of (file, buf) \<Rightarrow>
     if length buf + length p \<le> cap then (file, buf @ p)
     else if buf = [] then (file @ p, [])
     else let n = cap - length buf; q = drop n p; file' = file @ buf @ take n p
          in if length q \<le> cap then (file', q) else (file' @ q, []))"

lemma bufio_write_content: "bufio_write cap (f, b) p = (f', b') \<Longrightarrow> f' @ b' = f @ b @ p"
  by (auto simp: bufio_write_def Let_def split: if_splits)

text \<open>To parse a literal by simplification.\<close>

lemmas parse_simps = ParseInt_def split_sign_def ParseUint_def is_digit_def digit_val_def
  maxUint64_def maxInt64_def

end
