(* ===== verification/CommandTable.thy ===== *)
theory CommandTable
  imports Prelude
begin

text \<open>
  \<^verbatim>\<open>internal/commands/types.go\<close> and \<^verbatim>\<open>table.go\<close>: the key specifications of the Redis commands.
  The records mirror the structs field by field.  The map literal \<^verbatim>\<open>redisCommands\<close> is the
  association list \<open>redisCommands_list\<close>, split into pieces in the order of the source (Go rejects
  duplicate keys in such a literal, so the first match is the only one).  Every entry is checked
  against the well-formedness condition the interpreter in \<^verbatim>\<open>keys.go\<close> relies on.
\<close>

section \<open>types.go\<close>

record keySpec =
  beginSearchType :: string
  beginSearchIndex :: int
  beginSearchKeyword :: string
  beginSearchStartFrom :: int
  findKeysType :: string
  findKeysRangeLastKey :: int
  findKeysRangeKeyStep :: int
  findKeysRangeLimit :: int
  findKeysKeynumIndex :: int
  findKeysKeynumFirstKey :: int
  findKeysKeynumKeyStep :: int

record redisCommand =
  cmd_group :: string
  cmd_keySpec :: "keySpec list"

text \<open>Struct literals with positional fields, as the table writes them.\<close>

abbreviation spec :: "string \<Rightarrow> int \<Rightarrow> string \<Rightarrow> int \<Rightarrow> string \<Rightarrow> int \<Rightarrow> int \<Rightarrow> int \<Rightarrow> int \<Rightarrow> int \<Rightarrow> int \<Rightarrow> keySpec" where
  "spec bt bi bk bs ft rl rs rm ki kf ks \<equiv>
     \<lparr>beginSearchType = bt, beginSearchIndex = bi, beginSearchKeyword = bk,
      beginSearchStartFrom = bs, findKeysType = ft, findKeysRangeLastKey = rl,
      findKeysRangeKeyStep = rs, findKeysRangeLimit = rm, findKeysKeynumIndex = ki,
      findKeysKeynumFirstKey = kf, findKeysKeynumKeyStep = ks\<rparr>"

abbreviation cmd :: "string \<Rightarrow> keySpec list \<Rightarrow> redisCommand" where
  "cmd g ks \<equiv> \<lparr>cmd_group = g, cmd_keySpec = ks\<rparr>"

section \<open>table.go\<close>

definition containers :: "string list" where
  "containers = [''ACL'', ''CLIENT'', ''CLUSTER'', ''COMMAND'', ''COMMANDLOG'', ''CONFIG'',
     ''FUNCTION'', ''LATENCY'', ''MEMORY'', ''MODULE'', ''OBJECT'', ''PUBSUB'', ''SCRIPT'',
     ''SENTINEL'', ''SLOWLOG'', ''XGROUP'', ''XINFO'']"

definition redisCommands_01 :: "(string \<times> redisCommand) list" where
  "redisCommands_01 = [
     (''ACL-CAT'', cmd ''SERVER'' []),
     (''ACL-DELUSER'', cmd ''SERVER'' []),
     (''ACL-DRYRUN'', cmd ''SERVER'' []),
     (''ACL-GENPASS'', cmd ''SERVER'' []),
     (''ACL-GETUSER'', cmd ''SERVER'' []),
     (''ACL-HELP'', cmd ''SERVER'' []),
     (''ACL-LIST'', cmd ''SERVER'' []),
     (''ACL-LOAD'', cmd ''SERVER'' []),
     (''ACL-LOG'', cmd ''SERVER'' []),
     (''ACL-SAVE'', cmd ''SERVER'' []),
     (''ACL-SETUSER'', cmd ''SERVER'' []),
     (''ACL-USERS'', cmd ''SERVER'' []),
     (''ACL-WHOAMI'', cmd ''SERVER'' []),
     (''ACL'', cmd ''SERVER'' []),
     (''BGREWRITEAOF'', cmd ''SERVER'' []),
     (''BGSAVE'', cmd ''SERVER'' []),
     (''COMMAND-COUNT'', cmd ''SERVER'' []),
     (''COMMAND-DOCS'', cmd ''SERVER'' []),
     (''COMMAND-GETKEYS'', cmd ''SERVER'' []),
     (''COMMAND-GETKEYSANDFLAGS'', cmd ''SERVER'' []),
     (''COMMAND-HELP'', cmd ''SERVER'' []),
     (''COMMAND-INFO'', cmd ''SERVER'' []),
     (''COMMAND-LIST'', cmd ''SERVER'' []),
     (''COMMAND'', cmd ''SERVER'' []),
     (''COMMANDLOG-GET'', cmd ''SERVER'' []),
     (''COMMANDLOG-HELP'', cmd ''SERVER'' []),
     (''COMMANDLOG-LEN'', cmd ''SERVER'' []),
     (''COMMANDLOG-RESET'', cmd ''SERVER'' []),
     (''COMMANDLOG'', cmd ''SERVER'' []),
     (''CONFIG-GET'', cmd ''SERVER'' []),
     (''CONFIG-HELP'', cmd ''SERVER'' []),
     (''CONFIG-RESETSTAT'', cmd ''SERVER'' []),
     (''CONFIG-REWRITE'', cmd ''SERVER'' []),
     (''CONFIG-SET'', cmd ''SERVER'' []),
     (''CONFIG'', cmd ''SERVER'' []),
     (''DBSIZE'', cmd ''SERVER'' []),
     (''DEBUG'', cmd ''SERVER'' [])]"

definition redisCommands_02 :: "(string \<times> redisCommand) list" where
  "redisCommands_02 = [
     (''FAILOVER'', cmd ''SERVER'' []),
     (''FLUSHALL'', cmd ''SERVER'' []),
     (''FLUSHDB'', cmd ''SERVER'' []),
     (''INFO'', cmd ''SERVER'' []),
     (''LASTSAVE'', cmd ''SERVER'' []),
     (''LATENCY-DOCTOR'', cmd ''SERVER'' []),
     (''LATENCY-GRAPH'', cmd ''SERVER'' []),
     (''LATENCY-HELP'', cmd ''SERVER'' []),
     (''LATENCY-HISTOGRAM'', cmd ''SERVER'' []),
     (''LATENCY-HISTORY'', cmd ''SERVER'' []),
     (''LATENCY-LATEST'', cmd ''SERVER'' []),
     (''LATENCY-RESET'', cmd ''SERVER'' []),
     (''LATENCY'', cmd ''SERVER'' []),
     (''LOLWUT'', cmd ''SERVER'' []),
     (''MEMORY-DOCTOR'', cmd ''SERVER'' []),
     (''MEMORY-HELP'', cmd ''SERVER'' []),
     (''MEMORY-MALLOC-STATS'', cmd ''SERVER'' []),
     (''MEMORY-PURGE'', cmd ''SERVER'' []),
     (''MEMORY-STATS'', cmd ''SERVER'' []),
     (''MEMORY-USAGE'', cmd ''SERVER'' [spec ''index'' 2 '''' 0 ''range'' 0 1 0 0 0 0]),
     (''MEMORY'', cmd ''SERVER'' []),
     (''MODULE-HELP'', cmd ''SERVER'' []),
     (''MODULE-LIST'', cmd ''SERVER'' []),
     (''MODULE-LOAD'', cmd ''SERVER'' []),
     (''MODULE-LOADEX'', cmd ''SERVER'' []),
     (''MODULE-UNLOAD'', cmd ''SERVER'' []),
     (''MODULE'', cmd ''SERVER'' []),
     (''MONITOR'', cmd ''SERVER'' []),
     (''PSYNC'', cmd ''SERVER'' []),
     (''REPLCONF'', cmd ''SERVER'' []),
     (''REPLICAOF'', cmd ''SERVER'' [])]"

definition redisCommands_03 :: "(string \<times> redisCommand) list" where
  "redisCommands_03 = [
     (''RESTORE-ASKING'', cmd ''SERVER'' [spec ''index'' 1 '''' 0 ''range'' 0 1 0 0 0 0]),
     (''ROLE'', cmd ''SERVER'' []),
     (''SAVE'', cmd ''SERVER'' []),
     (''SFLUSH'', cmd ''SERVER'' []),
     (''SHUTDOWN'', cmd ''SERVER'' []),
     (''SLAVEOF'', cmd ''SERVER'' []),
     (''SLOWLOG-GET'', cmd ''SERVER'' []),
     (''SLOWLOG-HELP'', cmd ''SERVER'' []),
     (''SLOWLOG-LEN'', cmd ''SERVER'' []),
     (''SLOWLOG-RESET'', cmd ''SERVER'' []),
     (''SLOWLOG'', cmd ''SERVER'' []),
     (''SWAPDB'', cmd ''SERVER'' []),
     (''SYNC'', cmd ''SERVER'' []),
     (''TIME'', cmd ''SERVER'' []),
     (''TRIMSLOTS'', cmd ''SERVER'' []),
     (''APPEND'', cmd ''STRING'' [spec ''index'' 1 '''' 0 ''range'' 0 1 0 0 0 0]),
     (''DECR'', cmd ''STRING'' [spec ''index'' 1 '''' 0 ''range'' 0 1 0 0 0 0]),
     (''DECRBY'', cmd ''STRING'' [spec ''index'' 1 '''' 0 ''range'' 0 1 0 0 0 0]),
     (''DELEX'', cmd ''STRING'' [spec ''index'' 1 '''' 0 ''range'' 0 1 0 0 0 0])]"

definition redisCommands_04 :: "(string \<times> redisCommand) list" where
  "redisCommands_04 = [
     (''DELIFEQ'', cmd ''STRING'' [spec ''index'' 1 '''' 0 ''range'' 0 1 0 0 0 0]),
     (''DIGEST'', cmd ''STRING'' [spec ''index'' 1 '''' 0 ''range'' 0 1 0 0 0 0]),
     (''GET'', cmd ''STRING'' [spec ''index'' 1 '''' 0 ''range'' 0 1 0 0 0 0]),
     (''GETDEL'', cmd ''STRING'' [spec ''index'' 1 '''' 0 ''range'' 0 1 0 0 0 0]),
     (''GETEX'', cmd ''STRING'' [spec ''index'' 1 '''' 0 ''range'' 0 1 0 0 0 0]),
     (''GETRANGE'', cmd ''STRING'' [spec ''index'' 1 '''' 0 ''range'' 0 1 0 0 0 0]),
     (''GETSET'', cmd ''STRING'' [spec ''index'' 1 '''' 0 ''range'' 0 1 0 0 0 0]),
     (''INCR'', cmd ''STRING'' [spec ''index'' 1 '''' 0 ''range'' 0 1 0 0 0 0])]"

definition redisCommands_05 :: "(string \<times> redisCommand) list" where
  "redisCommands_05 = [
     (''INCRBY'', cmd ''STRING'' [spec ''index'' 1 '''' 0 ''range'' 0 1 0 0 0 0]),
     (''INCRBYFLOAT'', cmd ''STRING'' [spec ''index'' 1 '''' 0 ''range'' 0 1 0 0 0 0]),
     (''LCS'', cmd ''STRING'' [spec ''index'' 1 '''' 0 ''range'' 1 1 0 0 0 0]),
     (''MGET'', cmd ''STRING'' [spec ''index'' 1 '''' 0 ''range'' (-1) 1 0 0 0 0]),
     (''MSET'', cmd ''STRING'' [spec ''index'' 1 '''' 0 ''range'' (-1) 2 0 0 0 0]),
     (''MSETEX'', cmd ''STRING'' [spec ''index'' 1 '''' 0 ''keynum'' 0 0 0 0 1 2]),
     (''MSETNX'', cmd ''STRING'' [spec ''index'' 1 '''' 0 ''range'' (-1) 2 0 0 0 0]),
     (''PSETEX'', cmd ''STRING'' [spec ''index'' 1 '''' 0 ''range'' 0 1 0 0 0 0])]"

definition redisCommands_06 :: "(string \<times> redisCommand) list" where
  "redisCommands_06 = [
     (''SET'', cmd ''STRING'' [spec ''index'' 1 '''' 0 ''range'' 0 1 0 0 0 0]),
     (''SETEX'', cmd ''STRING'' [spec ''index'' 1 '''' 0 ''range'' 0 1 0 0 0 0]),
     (''SETNX'', cmd ''STRING'' [spec ''index'' 1 '''' 0 ''range'' 0 1 0 0 0 0]),
     (''SETRANGE'', cmd ''STRING'' [spec ''index'' 1 '''' 0 ''range'' 0 1 0 0 0 0]),
     (''STRLEN'', cmd ''STRING'' [spec ''index'' 1 '''' 0 ''range'' 0 1 0 0 0 0]),
     (''SUBSTR'', cmd ''STRING'' [spec ''index'' 1 '''' 0 ''range'' 0 1 0 0 0 0]),
     (''ASKING'', cmd ''CLUSTER'' []),
     (''CLUSTER-ADDSLOTS'', cmd ''CLUSTER'' []),
     (''CLUSTER-ADDSLOTSRANGE'', cmd ''CLUSTER'' []),
     (''CLUSTER-BUMPEPOCH'', cmd ''CLUSTER'' []),
     (''CLUSTER-CANCELSLOTMIGRATIONS'', cmd ''CLUSTER'' []),
     (''CLUSTER-COUNT-FAILURE-REPORTS'', cmd ''CLUSTER'' []),
     (''CLUSTER-COUNTKEYSINSLOT'', cmd ''CLUSTER'' []),
     (''CLUSTER-DELSLOTS'', cmd ''CLUSTER'' []),
     (''CLUSTER-DELSLOTSRANGE'', cmd ''CLUSTER'' []),
     (''CLUSTER-FAILOVER'', cmd ''CLUSTER'' [])]"

definition redisCommands_07 :: "(string \<times> redisCommand) list" where
  "redisCommands_07 = [
     (''CLUSTER-FLUSHSLOT'', cmd ''CLUSTER'' []),
     (''CLUSTER-FLUSHSLOTS'', cmd ''CLUSTER'' []),
     (''CLUSTER-FORGET'', cmd ''CLUSTER'' []),
     (''CLUSTER-GETKEYSINSLOT'', cmd ''CLUSTER'' []),
     (''CLUSTER-GETSLOTMIGRATIONS'', cmd ''CLUSTER'' []),
     (''CLUSTER-HELP'', cmd ''CLUSTER'' []),
     (''CLUSTER-INFO'', cmd ''CLUSTER'' []),
     (''CLUSTER-KEYSLOT'', cmd ''CLUSTER'' []),
     (''CLUSTER-LINKS'', cmd ''CLUSTER'' []),
     (''CLUSTER-MEET'', cmd ''CLUSTER'' []),
     (''CLUSTER-MIGRATESLOTS'', cmd ''CLUSTER'' []),
     (''CLUSTER-MIGRATION'', cmd ''CLUSTER'' []),
     (''CLUSTER-MYID'', cmd ''CLUSTER'' []),
     (''CLUSTER-MYSHARDID'', cmd ''CLUSTER'' []),
     (''CLUSTER-NODES'', cmd ''CLUSTER'' []),
     (''CLUSTER-REPLICAS'', cmd ''CLUSTER'' []),
     (''CLUSTER-REPLICATE'', cmd ''CLUSTER'' []),
     (''CLUSTER-RESET'', cmd ''CLUSTER'' []),
     (''CLUSTER-SAVECONFIG'', cmd ''CLUSTER'' []),
     (''CLUSTER-SET-CONFIG-EPOCH'', cmd ''CLUSTER'' []),
     (''CLUSTER-SETSLOT'', cmd ''CLUSTER'' []),
     (''CLUSTER-SHARDS'', cmd ''CLUSTER'' []),
     (''CLUSTER-SLAVES'', cmd ''CLUSTER'' []),
     (''CLUSTER-SLOT-STATS'', cmd ''CLUSTER'' []),
     (''CLUSTER-SLOTS'', cmd ''CLUSTER'' []),
     (''CLUSTER-SYNCSLOTS'', cmd ''CLUSTER'' []),
     (''CLUSTER'', cmd ''CLUSTER'' []),
     (''READONLY'', cmd ''CLUSTER'' []),
     (''READWRITE'', cmd ''CLUSTER'' []),
     (''AUTH'', cmd ''CONNECTION'' []),
     (''CLIENT-CACHING'', cmd ''CONNECTION'' []),
     (''CLIENT-CAPA'', cmd ''CONNECTION'' []),
     (''CLIENT-GETNAME'', cmd ''CONNECTION'' []),
     (''CLIENT-GETREDIR'', cmd ''CONNECTION'' []),
     (''CLIENT-HELP'', cmd ''CONNECTION'' []),
     (''CLIENT-ID'', cmd ''CONNECTION'' []),
     (''CLIENT-IMPORT-SOURCE'', cmd ''CONNECTION'' [])]"

definition redisCommands_08 :: "(string \<times> redisCommand) list" where
  "redisCommands_08 = [
     (''CLIENT-INFO'', cmd ''CONNECTION'' []),
     (''CLIENT-KILL'', cmd ''CONNECTION'' []),
     (''CLIENT-LIST'', cmd ''CONNECTION'' []),
     (''CLIENT-NO-EVICT'', cmd ''CONNECTION'' []),
     (''CLIENT-NO-TOUCH'', cmd ''CONNECTION'' []),
     (''CLIENT-PAUSE'', cmd ''CONNECTION'' []),
     (''CLIENT-REPLY'', cmd ''CONNECTION'' []),
     (''CLIENT-SETINFO'', cmd ''CONNECTION'' []),
     (''CLIENT-SETNAME'', cmd ''CONNECTION'' []),
     (''CLIENT-TRACKING'', cmd ''CONNECTION'' []),
     (''CLIENT-TRACKINGINFO'', cmd ''CONNECTION'' []),
     (''CLIENT-UNBLOCK'', cmd ''CONNECTION'' []),
     (''CLIENT-UNPAUSE'', cmd ''CONNECTION'' []),
     (''CLIENT'', cmd ''CONNECTION'' []),
     (''ECHO'', cmd ''CONNECTION'' []),
     (''HELLO'', cmd ''CONNECTION'' []),
     (''PING'', cmd ''CONNECTION'' []),
     (''QUIT'', cmd ''CONNECTION'' []),
     (''RESET'', cmd ''CONNECTION'' []),
     (''SELECT'', cmd ''CONNECTION'' []),
     (''BITCOUNT'', cmd ''BITMAP'' [spec ''index'' 1 '''' 0 ''range'' 0 1 0 0 0 0]),
     (''BITFIELD'', cmd ''BITMAP'' [spec ''index'' 1 '''' 0 ''range'' 0 1 0 0 0 0]),
     (''BITFIELD_RO'', cmd ''BITMAP'' [spec ''index'' 1 '''' 0 ''range'' 0 1 0 0 0 0])]"

definition redisCommands_09 :: "(string \<times> redisCommand) list" where
  "redisCommands_09 = [
     (''BITOP'', cmd ''BITMAP'' [spec ''index'' 2 '''' 0 ''range'' 0 1 0 0 0 0,
        spec ''index'' 3 '''' 0 ''range'' (-1) 1 0 0 0 0]),
     (''BITPOS'', cmd ''BITMAP'' [spec ''index'' 1 '''' 0 ''range'' 0 1 0 0 0 0]),
     (''GETBIT'', cmd ''BITMAP'' [spec ''index'' 1 '''' 0 ''range'' 0 1 0 0 0 0]),
     (''SETBIT'', cmd ''BITMAP'' [spec ''index'' 1 '''' 0 ''range'' 0 1 0 0 0 0]),
     (''BLMOVE'', cmd ''LIST'' [spec ''index'' 1 '''' 0 ''range'' 0 1 0 0 0 0,
        spec ''index'' 2 '''' 0 ''range'' 0 1 0 0 0 0]),
     (''BLMPOP'', cmd ''LIST'' [spec ''index'' 2 '''' 0 ''keynum'' 0 0 0 0 1 1])]"

definition redisCommands_10 :: "(string \<times> redisCommand) list" where
  "redisCommands_10 = [
     (''BLPOP'', cmd ''LIST'' [spec ''index'' 1 '''' 0 ''range'' (-2) 1 0 0 0 0]),
     (''BRPOP'', cmd ''LIST'' [spec ''index'' 1 '''' 0 ''range'' (-2) 1 0 0 0 0]),
     (''BRPOPLPUSH'', cmd ''LIST'' [spec ''index'' 1 '''' 0 ''range'' 0 1 0 0 0 0,
        spec ''index'' 2 '''' 0 ''range'' 0 1 0 0 0 0]),
     (''LINDEX'', cmd ''LIST'' [spec ''index'' 1 '''' 0 ''range'' 0 1 0 0 0 0]),
     (''LINSERT'', cmd ''LIST'' [spec ''index'' 1 '''' 0 ''range'' 0 1 0 0 0 0]),
     (''LLEN'', cmd ''LIST'' [spec ''index'' 1 '''' 0 ''range'' 0 1 0 0 0 0])]"

definition redisCommands_11 :: "(string \<times> redisCommand) list" where
  "redisCommands_11 = [
     (''LMOVE'', cmd ''LIST'' [spec ''index'' 1 '''' 0 ''range'' 0 1 0 0 0 0,
        spec ''index'' 2 '''' 0 ''range'' 0 1 0 0 0 0]),
     (''LMPOP'', cmd ''LIST'' [spec ''index'' 1 '''' 0 ''keynum'' 0 0 0 0 1 1]),
     (''LPOP'', cmd ''LIST'' [spec ''index'' 1 '''' 0 ''range'' 0 1 0 0 0 0]),
     (''LPOS'', cmd ''LIST'' [spec ''index'' 1 '''' 0 ''range'' 0 1 0 0 0 0]),
     (''LPUSH'', cmd ''LIST'' [spec ''index'' 1 '''' 0 ''range'' 0 1 0 0 0 0]),
     (''LPUSHX'', cmd ''LIST'' [spec ''index'' 1 '''' 0 ''range'' 0 1 0 0 0 0]),
     (''LRANGE'', cmd ''LIST'' [spec ''index'' 1 '''' 0 ''range'' 0 1 0 0 0 0])]"

definition redisCommands_12 :: "(string \<times> redisCommand) list" where
  "redisCommands_12 = [
     (''LREM'', cmd ''LIST'' [spec ''index'' 1 '''' 0 ''range'' 0 1 0 0 0 0]),
     (''LSET'', cmd ''LIST'' [spec ''index'' 1 '''' 0 ''range'' 0 1 0 0 0 0]),
     (''LTRIM'', cmd ''LIST'' [spec ''index'' 1 '''' 0 ''range'' 0 1 0 0 0 0]),
     (''RPOP'', cmd ''LIST'' [spec ''index'' 1 '''' 0 ''range'' 0 1 0 0 0 0]),
     (''RPOPLPUSH'', cmd ''LIST'' [spec ''index'' 1 '''' 0 ''range'' 0 1 0 0 0 0,
        spec ''index'' 2 '''' 0 ''range'' 0 1 0 0 0 0]),
     (''RPUSH'', cmd ''LIST'' [spec ''index'' 1 '''' 0 ''range'' 0 1 0 0 0 0]),
     (''RPUSHX'', cmd ''LIST'' [spec ''index'' 1 '''' 0 ''range'' 0 1 0 0 0 0])]"

definition redisCommands_13 :: "(string \<times> redisCommand) list" where
  "redisCommands_13 = [
     (''BZMPOP'', cmd ''SORTED_SET'' [spec ''index'' 2 '''' 0 ''keynum'' 0 0 0 0 1 1]),
     (''BZPOPMAX'', cmd ''SORTED_SET'' [spec ''index'' 1 '''' 0 ''range'' (-2) 1 0 0 0 0]),
     (''BZPOPMIN'', cmd ''SORTED_SET'' [spec ''index'' 1 '''' 0 ''range'' (-2) 1 0 0 0 0]),
     (''ZADD'', cmd ''SORTED_SET'' [spec ''index'' 1 '''' 0 ''range'' 0 1 0 0 0 0]),
     (''ZCARD'', cmd ''SORTED_SET'' [spec ''index'' 1 '''' 0 ''range'' 0 1 0 0 0 0]),
     (''ZCOUNT'', cmd ''SORTED_SET'' [spec ''index'' 1 '''' 0 ''range'' 0 1 0 0 0 0]),
     (''ZDIFF'', cmd ''SORTED_SET'' [spec ''index'' 1 '''' 0 ''keynum'' 0 0 0 0 1 1])]"

definition redisCommands_14 :: "(string \<times> redisCommand) list" where
  "redisCommands_14 = [
     (''ZDIFFSTORE'', cmd ''SORTED_SET'' [spec ''index'' 1 '''' 0 ''range'' 0 1 0 0 0 0,
        spec ''index'' 2 '''' 0 ''keynum'' 0 0 0 0 1 1]),
     (''ZINCRBY'', cmd ''SORTED_SET'' [spec ''index'' 1 '''' 0 ''range'' 0 1 0 0 0 0]),
     (''ZINTER'', cmd ''SORTED_SET'' [spec ''index'' 1 '''' 0 ''keynum'' 0 0 0 0 1 1]),
     (''ZINTERCARD'', cmd ''SORTED_SET'' [spec ''index'' 1 '''' 0 ''keynum'' 0 0 0 0 1 1]),
     (''ZINTERSTORE'', cmd ''SORTED_SET'' [spec ''index'' 1 '''' 0 ''range'' 0 1 0 0 0 0,
        spec ''index'' 2 '''' 0 ''keynum'' 0 0 0 0 1 1]),
     (''ZLEXCOUNT'', cmd ''SORTED_SET'' [spec ''index'' 1 '''' 0 ''range'' 0 1 0 0 0 0])]"

definition redisCommands_15 :: "(string \<times> redisCommand) list" where
  "redisCommands_15 = [
     (''ZMPOP'', cmd ''SORTED_SET'' [spec ''index'' 1 '''' 0 ''keynum'' 0 0 0 0 1 1]),
     (''ZMSCORE'', cmd ''SORTED_SET'' [spec ''index'' 1 '''' 0 ''range'' 0 1 0 0 0 0]),
     (''ZPOPMAX'', cmd ''SORTED_SET'' [spec ''index'' 1 '''' 0 ''range'' 0 1 0 0 0 0]),
     (''ZPOPMIN'', cmd ''SORTED_SET'' [spec ''index'' 1 '''' 0 ''range'' 0 1 0 0 0 0]),
     (''ZRANDMEMBER'', cmd ''SORTED_SET'' [spec ''index'' 1 '''' 0 ''range'' 0 1 0 0 0 0]),
     (''ZRANGE'', cmd ''SORTED_SET'' [spec ''index'' 1 '''' 0 ''range'' 0 1 0 0 0 0]),
     (''ZRANGEBYLEX'', cmd ''SORTED_SET'' [spec ''index'' 1 '''' 0 ''range'' 0 1 0 0 0 0]),
     (''ZRANGEBYSCORE'', cmd ''SORTED_SET'' [spec ''index'' 1 '''' 0 ''range'' 0 1 0 0 0 0])]"

definition redisCommands_16 :: "(string \<times> redisCommand) list" where
  "redisCommands_16 = [
     (''ZRANGESTORE'', cmd ''SORTED_SET'' [spec ''index'' 1 '''' 0 ''range'' 0 1 0 0 0 0,
        spec ''index'' 2 '''' 0 ''range'' 0 1 0 0 0 0]),
     (''ZRANK'', cmd ''SORTED_SET'' [spec ''index'' 1 '''' 0 ''range'' 0 1 0 0 0 0]),
     (''ZREM'', cmd ''SORTED_SET'' [spec ''index'' 1 '''' 0 ''range'' 0 1 0 0 0 0]),
     (''ZREMRANGEBYLEX'', cmd ''SORTED_SET'' [spec ''index'' 1 '''' 0 ''range'' 0 1 0 0 0 0]),
     (''ZREMRANGEBYRANK'', cmd ''SORTED_SET'' [spec ''index'' 1 '''' 0 ''range'' 0 1 0 0 0 0]),
     (''ZREMRANGEBYSCORE'', cmd ''SORTED_SET'' [spec ''index'' 1 '''' 0 ''range'' 0 1 0 0 0 0]),
     (''ZREVRANGE'', cmd ''SORTED_SET'' [spec ''index'' 1 '''' 0 ''range'' 0 1 0 0 0 0])]"

definition redisCommands_17 :: "(string \<times> redisCommand) list" where
  "redisCommands_17 = [
     (''ZREVRANGEBYLEX'', cmd ''SORTED_SET'' [spec ''index'' 1 '''' 0 ''range'' 0 1 0 0 0 0]),
     (''ZREVRANGEBYSCORE'', cmd ''SORTED_SET'' [spec ''index'' 1 '''' 0 ''range'' 0 1 0 0 0 0]),
     (''ZREVRANK'', cmd ''SORTED_SET'' [spec ''index'' 1 '''' 0 ''range'' 0 1 0 0 0 0]),
     (''ZSCAN'', cmd ''SORTED_SET'' [spec ''index'' 1 '''' 0 ''range'' 0 1 0 0 0 0]),
     (''ZSCORE'', cmd ''SORTED_SET'' [spec ''index'' 1 '''' 0 ''range'' 0 1 0 0 0 0]),
     (''ZUNION'', cmd ''SORTED_SET'' [spec ''index'' 1 '''' 0 ''keynum'' 0 0 0 0 1 1]),
     (''ZUNIONSTORE'', cmd ''SORTED_SET'' [spec ''index'' 1 '''' 0 ''range'' 0 1 0 0 0 0,
        spec ''index'' 2 '''' 0 ''keynum'' 0 0 0 0 1 1])]"

definition redisCommands_18 :: "(string \<times> redisCommand) list" where
  "redisCommands_18 = [
     (''COPY'', cmd ''GENERIC'' [spec ''index'' 1 '''' 0 ''range'' 0 1 0 0 0 0,
        spec ''index'' 2 '''' 0 ''range'' 0 1 0 0 0 0]),
     (''DEL'', cmd ''GENERIC'' [spec ''index'' 1 '''' 0 ''range'' (-1) 1 0 0 0 0]),
     (''DUMP'', cmd ''GENERIC'' [spec ''index'' 1 '''' 0 ''range'' 0 1 0 0 0 0]),
     (''EXISTS'', cmd ''GENERIC'' [spec ''index'' 1 '''' 0 ''range'' (-1) 1 0 0 0 0]),
     (''EXPIRE'', cmd ''GENERIC'' [spec ''index'' 1 '''' 0 ''range'' 0 1 0 0 0 0]),
     (''EXPIREAT'', cmd ''GENERIC'' [spec ''index'' 1 '''' 0 ''range'' 0 1 0 0 0 0]),
     (''EXPIRETIME'', cmd ''GENERIC'' [spec ''index'' 1 '''' 0 ''range'' 0 1 0 0 0 0]),
     (''KEYS'', cmd ''GENERIC'' [])]"

definition redisCommands_19 :: "(string \<times> redisCommand) list" where
  "redisCommands_19 = [
     (''MOVE'', cmd ''GENERIC'' [spec ''index'' 1 '''' 0 ''range'' 0 1 0 0 0 0]),
     (''OBJECT-ENCODING'', cmd ''GENERIC'' [spec ''index'' 2 '''' 0 ''range'' 0 1 0 0 0 0]),
     (''OBJECT-FREQ'', cmd ''GENERIC'' [spec ''index'' 2 '''' 0 ''range'' 0 1 0 0 0 0]),
     (''OBJECT-HELP'', cmd ''GENERIC'' []),
     (''OBJECT-IDLETIME'', cmd ''GENERIC'' [spec ''index'' 2 '''' 0 ''range'' 0 1 0 0 0 0]),
     (''OBJECT-REFCOUNT'', cmd ''GENERIC'' [spec ''index'' 2 '''' 0 ''range'' 0 1 0 0 0 0]),
     (''OBJECT'', cmd ''GENERIC'' []),
     (''PERSIST'', cmd ''GENERIC'' [spec ''index'' 1 '''' 0 ''range'' 0 1 0 0 0 0]),
     (''PEXPIRE'', cmd ''GENERIC'' [spec ''index'' 1 '''' 0 ''range'' 0 1 0 0 0 0])]"

definition redisCommands_20 :: "(string \<times> redisCommand) list" where
  "redisCommands_20 = [
     (''PEXPIREAT'', cmd ''GENERIC'' [spec ''index'' 1 '''' 0 ''range'' 0 1 0 0 0 0]),
     (''PEXPIRETIME'', cmd ''GENERIC'' [spec ''index'' 1 '''' 0 ''range'' 0 1 0 0 0 0]),
     (''PTTL'', cmd ''GENERIC'' [spec ''index'' 1 '''' 0 ''range'' 0 1 0 0 0 0]),
     (''RANDOMKEY'', cmd ''GENERIC'' []),
     (''RENAME'', cmd ''GENERIC'' [spec ''index'' 1 '''' 0 ''range'' 0 1 0 0 0 0,
        spec ''index'' 2 '''' 0 ''range'' 0 1 0 0 0 0]),
     (''RENAMENX'', cmd ''GENERIC'' [spec ''index'' 1 '''' 0 ''range'' 0 1 0 0 0 0,
        spec ''index'' 2 '''' 0 ''range'' 0 1 0 0 0 0]),
     (''RESTORE'', cmd ''GENERIC'' [spec ''index'' 1 '''' 0 ''range'' 0 1 0 0 0 0]),
     (''SCAN'', cmd ''GENERIC'' [])]"

definition redisCommands_21 :: "(string \<times> redisCommand) list" where
  "redisCommands_21 = [
     (''TOUCH'', cmd ''GENERIC'' [spec ''index'' 1 '''' 0 ''range'' (-1) 1 0 0 0 0]),
     (''TTL'', cmd ''GENERIC'' [spec ''index'' 1 '''' 0 ''range'' 0 1 0 0 0 0]),
     (''TYPE'', cmd ''GENERIC'' [spec ''index'' 1 '''' 0 ''range'' 0 1 0 0 0 0]),
     (''UNLINK'', cmd ''GENERIC'' [spec ''index'' 1 '''' 0 ''range'' (-1) 1 0 0 0 0]),
     (''WAIT'', cmd ''GENERIC'' []),
     (''WAITAOF'', cmd ''GENERIC'' []),
     (''DISCARD'', cmd ''TRANSACTIONS'' []),
     (''EXEC'', cmd ''TRANSACTIONS'' []),
     (''MULTI'', cmd ''TRANSACTIONS'' []),
     (''UNWATCH'', cmd ''TRANSACTIONS'' []),
     (''WATCH'', cmd ''TRANSACTIONS'' [spec ''index'' 1 '''' 0 ''range'' (-1) 1 0 0 0 0]),
     (''EVAL'', cmd ''SCRIPTING'' [spec ''index'' 2 '''' 0 ''keynum'' 0 0 0 0 1 1]),
     (''EVAL_RO'', cmd ''SCRIPTING'' [spec ''index'' 2 '''' 0 ''keynum'' 0 0 0 0 1 1])]"

definition redisCommands_22 :: "(string \<times> redisCommand) list" where
  "redisCommands_22 = [
     (''EVALSHA'', cmd ''SCRIPTING'' [spec ''index'' 2 '''' 0 ''keynum'' 0 0 0 0 1 1]),
     (''EVALSHA_RO'', cmd ''SCRIPTING'' [spec ''index'' 2 '''' 0 ''keynum'' 0 0 0 0 1 1]),
     (''FCALL'', cmd ''SCRIPTING'' [spec ''index'' 2 '''' 0 ''keynum'' 0 0 0 0 1 1]),
     (''FCALL_RO'', cmd ''SCRIPTING'' [spec ''index'' 2 '''' 0 ''keynum'' 0 0 0 0 1 1]),
     (''FUNCTION-DELETE'', cmd ''SCRIPTING'' []),
     (''FUNCTION-DUMP'', cmd ''SCRIPTING'' []),
     (''FUNCTION-FLUSH'', cmd ''SCRIPTING'' []),
     (''FUNCTION-HELP'', cmd ''SCRIPTING'' []),
     (''FUNCTION-KILL'', cmd ''SCRIPTING'' []),
     (''FUNCTION-LIST'', cmd ''SCRIPTING'' []),
     (''FUNCTION-LOAD'', cmd ''SCRIPTING'' []),
     (''FUNCTION-RESTORE'', cmd ''SCRIPTING'' []),
     (''FUNCTION-STATS'', cmd ''SCRIPTING'' []),
     (''FUNCTION'', cmd ''SCRIPTING'' []),
     (''SCRIPT-DEBUG'', cmd ''SCRIPTING'' []),
     (''SCRIPT-EXISTS'', cmd ''SCRIPTING'' []),
     (''SCRIPT-FLUSH'', cmd ''SCRIPTING'' []),
     (''SCRIPT-HELP'', cmd ''SCRIPTING'' []),
     (''SCRIPT-KILL'', cmd ''SCRIPTING'' []),
     (''SCRIPT-LOAD'', cmd ''SCRIPTING'' []),
     (''SCRIPT-SHOW'', cmd ''SCRIPTING'' []),
     (''SCRIPT'', cmd ''SCRIPTING'' [])]"

definition redisCommands_23 :: "(string \<times> redisCommand) list" where
  "redisCommands_23 = [
     (''EXHSET'', cmd ''TAIRHASH'' [spec ''index'' 1 '''' 0 ''range'' 0 1 0 0 0 0]),
     (''EXSET'', cmd ''TAIRSTRING'' [spec ''index'' 1 '''' 0 ''range'' 0 1 0 0 0 0]),
     (''EXZADD'', cmd ''TAIRZSET'' [spec ''index'' 1 '''' 0 ''range'' 0 1 0 0 0 0]),
     (''GEOADD'', cmd ''GEO'' [spec ''index'' 1 '''' 0 ''range'' 0 1 0 0 0 0]),
     (''GEODIST'', cmd ''GEO'' [spec ''index'' 1 '''' 0 ''range'' 0 1 0 0 0 0]),
     (''GEOHASH'', cmd ''GEO'' [spec ''index'' 1 '''' 0 ''range'' 0 1 0 0 0 0]),
     (''GEOPOS'', cmd ''GEO'' [spec ''index'' 1 '''' 0 ''range'' 0 1 0 0 0 0])]"

definition redisCommands_24 :: "(string \<times> redisCommand) list" where
  "redisCommands_24 = [
     (''GEORADIUS'', cmd ''GEO'' [spec ''index'' 1 '''' 0 ''range'' 0 1 0 0 0 0,
        spec ''keyword'' 0 ''STORE'' 6 ''range'' 0 1 0 0 0 0,
        spec ''keyword'' 0 ''STOREDIST'' 6 ''range'' 0 1 0 0 0 0]),
     (''GEORADIUS_RO'', cmd ''GEO'' [spec ''index'' 1 '''' 0 ''range'' 0 1 0 0 0 0]),
     (''GEORADIUSBYMEMBER'', cmd ''GEO'' [spec ''index'' 1 '''' 0 ''range'' 0 1 0 0 0 0,
        spec ''keyword'' 0 ''STORE'' 5 ''range'' 0 1 0 0 0 0,
        spec ''keyword'' 0 ''STOREDIST'' 5 ''range'' 0 1 0 0 0 0]),
     (''GEORADIUSBYMEMBER_RO'', cmd ''GEO'' [spec ''index'' 1 '''' 0 ''range'' 0 1 0 0 0 0]),
     (''GEOSEARCH'', cmd ''GEO'' [spec ''index'' 1 '''' 0 ''range'' 0 1 0 0 0 0])]"

definition redisCommands_25 :: "(string \<times> redisCommand) list" where
  "redisCommands_25 = [
     (''GEOSEARCHSTORE'', cmd ''GEO'' [spec ''index'' 1 '''' 0 ''range'' 0 1 0 0 0 0,
        spec ''index'' 2 '''' 0 ''range'' 0 1 0 0 0 0]),
     (''HDEL'', cmd ''HASH'' [spec ''index'' 1 '''' 0 ''range'' 0 1 0 0 0 0]),
     (''HEXISTS'', cmd ''HASH'' [spec ''index'' 1 '''' 0 ''range'' 0 1 0 0 0 0]),
     (''HEXPIRE'', cmd ''HASH'' [spec ''index'' 1 '''' 0 ''range'' 0 1 0 0 0 0]),
     (''HEXPIREAT'', cmd ''HASH'' [spec ''index'' 1 '''' 0 ''range'' 0 1 0 0 0 0]),
     (''HEXPIRETIME'', cmd ''HASH'' [spec ''index'' 1 '''' 0 ''range'' 0 1 0 0 0 0]),
     (''HGET'', cmd ''HASH'' [spec ''index'' 1 '''' 0 ''range'' 0 1 0 0 0 0])]"

definition redisCommands_26 :: "(string \<times> redisCommand) list" where
  "redisCommands_26 = [
     (''HGETALL'', cmd ''HASH'' [spec ''index'' 1 '''' 0 ''range'' 0 1 0 0 0 0]),
     (''HGETDEL'', cmd ''HASH'' [spec ''index'' 1 '''' 0 ''range'' 0 1 0 0 0 0]),
     (''HGETEX'', cmd ''HASH'' [spec ''index'' 1 '''' 0 ''range'' 0 1 0 0 0 0]),
     (''HINCRBY'', cmd ''HASH'' [spec ''index'' 1 '''' 0 ''range'' 0 1 0 0 0 0]),
     (''HINCRBYFLOAT'', cmd ''HASH'' [spec ''index'' 1 '''' 0 ''range'' 0 1 0 0 0 0]),
     (''HKEYS'', cmd ''HASH'' [spec ''index'' 1 '''' 0 ''range'' 0 1 0 0 0 0]),
     (''HLEN'', cmd ''HASH'' [spec ''index'' 1 '''' 0 ''range'' 0 1 0 0 0 0]),
     (''HMGET'', cmd ''HASH'' [spec ''index'' 1 '''' 0 ''range'' 0 1 0 0 0 0])]"

definition redisCommands_27 :: "(string \<times> redisCommand) list" where
  "redisCommands_27 = [
     (''HMSET'', cmd ''HASH'' [spec ''index'' 1 '''' 0 ''range'' 0 1 0 0 0 0]),
     (''HPERSIST'', cmd ''HASH'' [spec ''index'' 1 '''' 0 ''range'' 0 1 0 0 0 0]),
     (''HPEXPIRE'', cmd ''HASH'' [spec ''index'' 1 '''' 0 ''range'' 0 1 0 0 0 0]),
     (''HPEXPIREAT'', cmd ''HASH'' [spec ''index'' 1 '''' 0 ''range'' 0 1 0 0 0 0]),
     (''HPEXPIRETIME'', cmd ''HASH'' [spec ''index'' 1 '''' 0 ''range'' 0 1 0 0 0 0]),
     (''HPTTL'', cmd ''HASH'' [spec ''index'' 1 '''' 0 ''range'' 0 1 0 0 0 0]),
     (''HRANDFIELD'', cmd ''HASH'' [spec ''index'' 1 '''' 0 ''range'' 0 1 0 0 0 0]),
     (''HSCAN'', cmd ''HASH'' [spec ''index'' 1 '''' 0 ''range'' 0 1 0 0 0 0])]"

definition redisCommands_28 :: "(string \<times> redisCommand) list" where
  "redisCommands_28 = [
     (''HSET'', cmd ''HASH'' [spec ''index'' 1 '''' 0 ''range'' 0 1 0 0 0 0]),
     (''HSETEX'', cmd ''HASH'' [spec ''index'' 1 '''' 0 ''range'' 0 1 0 0 0 0]),
     (''HSETNX'', cmd ''HASH'' [spec ''index'' 1 '''' 0 ''range'' 0 1 0 0 0 0]),
     (''HSTRLEN'', cmd ''HASH'' [spec ''index'' 1 '''' 0 ''range'' 0 1 0 0 0 0]),
     (''HTTL'', cmd ''HASH'' [spec ''index'' 1 '''' 0 ''range'' 0 1 0 0 0 0]),
     (''HVALS'', cmd ''HASH'' [spec ''index'' 1 '''' 0 ''range'' 0 1 0 0 0 0]),
     (''PFADD'', cmd ''HYPERLOGLOG'' [spec ''index'' 1 '''' 0 ''range'' 0 1 0 0 0 0]),
     (''PFCOUNT'', cmd ''HYPERLOGLOG'' [spec ''index'' 1 '''' 0 ''range'' (-1) 1 0 0 0 0])]"

definition redisCommands_29 :: "(string \<times> redisCommand) list" where
  "redisCommands_29 = [
     (''PFDEBUG'', cmd ''HYPERLOGLOG'' [spec ''index'' 2 '''' 0 ''range'' 0 1 0 0 0 0]),
     (''PFMERGE'', cmd ''HYPERLOGLOG'' [spec ''index'' 1 '''' 0 ''range'' 0 1 0 0 0 0,
        spec ''index'' 2 '''' 0 ''range'' (-1) 1 0 0 0 0]),
     (''PFSELFTEST'', cmd ''HYPERLOGLOG'' []),
     (''PSUBSCRIBE'', cmd ''PUBSUB'' []),
     (''PUBLISH'', cmd ''PUBSUB'' []),
     (''PUBSUB-CHANNELS'', cmd ''PUBSUB'' []),
     (''PUBSUB-HELP'', cmd ''PUBSUB'' []),
     (''PUBSUB-NUMPAT'', cmd ''PUBSUB'' []),
     (''PUBSUB-NUMSUB'', cmd ''PUBSUB'' []),
     (''PUBSUB-SHARDCHANNELS'', cmd ''PUBSUB'' []),
     (''PUBSUB-SHARDNUMSUB'', cmd ''PUBSUB'' []),
     (''PUBSUB'', cmd ''PUBSUB'' []),
     (''PUNSUBSCRIBE'', cmd ''PUBSUB'' []),
     (''SPUBLISH'', cmd ''PUBSUB'' [spec ''index'' 1 '''' 0 ''range'' 0 1 0 0 0 0]),
     (''SSUBSCRIBE'', cmd ''PUBSUB'' [spec ''index'' 1 '''' 0 ''range'' (-1) 1 0 0 0 0]),
     (''SUBSCRIBE'', cmd ''PUBSUB'' [])]"

definition redisCommands_30 :: "(string \<times> redisCommand) list" where
  "redisCommands_30 = [
     (''SUNSUBSCRIBE'', cmd ''PUBSUB'' [spec ''index'' 1 '''' 0 ''range'' (-1) 1 0 0 0 0]),
     (''UNSUBSCRIBE'', cmd ''PUBSUB'' []),
     (''SADD'', cmd ''SET'' [spec ''index'' 1 '''' 0 ''range'' 0 1 0 0 0 0]),
     (''SCARD'', cmd ''SET'' [spec ''index'' 1 '''' 0 ''range'' 0 1 0 0 0 0]),
     (''SDIFF'', cmd ''SET'' [spec ''index'' 1 '''' 0 ''range'' (-1) 1 0 0 0 0]),
     (''SDIFFSTORE'', cmd ''SET'' [spec ''index'' 1 '''' 0 ''range'' 0 1 0 0 0 0,
        spec ''index'' 2 '''' 0 ''range'' (-1) 1 0 0 0 0]),
     (''SINTER'', cmd ''SET'' [spec ''index'' 1 '''' 0 ''range'' (-1) 1 0 0 0 0]),
     (''SINTERCARD'', cmd ''SET'' [spec ''index'' 1 '''' 0 ''keynum'' 0 0 0 0 1 1])]"

definition redisCommands_31 :: "(string \<times> redisCommand) list" where
  "redisCommands_31 = [
     (''SINTERSTORE'', cmd ''SET'' [spec ''index'' 1 '''' 0 ''range'' 0 1 0 0 0 0,
        spec ''index'' 2 '''' 0 ''range'' (-1) 1 0 0 0 0]),
     (''SISMEMBER'', cmd ''SET'' [spec ''index'' 1 '''' 0 ''range'' 0 1 0 0 0 0]),
     (''SMEMBERS'', cmd ''SET'' [spec ''index'' 1 '''' 0 ''range'' 0 1 0 0 0 0]),
     (''SMISMEMBER'', cmd ''SET'' [spec ''index'' 1 '''' 0 ''range'' 0 1 0 0 0 0]),
     (''SMOVE'', cmd ''SET'' [spec ''index'' 1 '''' 0 ''range'' 0 1 0 0 0 0,
        spec ''index'' 2 '''' 0 ''range'' 0 1 0 0 0 0]),
     (''SPOP'', cmd ''SET'' [spec ''index'' 1 '''' 0 ''range'' 0 1 0 0 0 0])]"

definition redisCommands_32 :: "(string \<times> redisCommand) list" where
  "redisCommands_32 = [
     (''SRANDMEMBER'', cmd ''SET'' [spec ''index'' 1 '''' 0 ''range'' 0 1 0 0 0 0]),
     (''SREM'', cmd ''SET'' [spec ''index'' 1 '''' 0 ''range'' 0 1 0 0 0 0]),
     (''SSCAN'', cmd ''SET'' [spec ''index'' 1 '''' 0 ''range'' 0 1 0 0 0 0]),
     (''SUNION'', cmd ''SET'' [spec ''index'' 1 '''' 0 ''range'' (-1) 1 0 0 0 0]),
     (''SUNIONSTORE'', cmd ''SET'' [spec ''index'' 1 '''' 0 ''range'' 0 1 0 0 0 0,
        spec ''index'' 2 '''' 0 ''range'' (-1) 1 0 0 0 0]),
     (''SENTINEL-CKQUORUM'', cmd ''SENTINEL'' []),
     (''SENTINEL-CONFIG'', cmd ''SENTINEL'' []),
     (''SENTINEL-DEBUG'', cmd ''SENTINEL'' []),
     (''SENTINEL-FAILOVER'', cmd ''SENTINEL'' []),
     (''SENTINEL-FLUSHCONFIG'', cmd ''SENTINEL'' []),
     (''SENTINEL-GET-MASTER-ADDR-BY-NAME'', cmd ''SENTINEL'' []),
     (''SENTINEL-GET-PRIMARY-ADDR-BY-NAME'', cmd ''SENTINEL'' []),
     (''SENTINEL-HELP'', cmd ''SENTINEL'' []),
     (''SENTINEL-INFO-CACHE'', cmd ''SENTINEL'' []),
     (''SENTINEL-IS-MASTER-DOWN-BY-ADDR'', cmd ''SENTINEL'' []),
     (''SENTINEL-IS-PRIMARY-DOWN-BY-ADDR'', cmd ''SENTINEL'' [])]"

definition redisCommands_33 :: "(string \<times> redisCommand) list" where
  "redisCommands_33 = [
     (''SENTINEL-MASTER'', cmd ''SENTINEL'' []),
     (''SENTINEL-MASTERS'', cmd ''SENTINEL'' []),
     (''SENTINEL-MONITOR'', cmd ''SENTINEL'' []),
     (''SENTINEL-MYID'', cmd ''SENTINEL'' []),
     (''SENTINEL-PENDING-SCRIPTS'', cmd ''SENTINEL'' []),
     (''SENTINEL-PRIMARIES'', cmd ''SENTINEL'' []),
     (''SENTINEL-PRIMARY'', cmd ''SENTINEL'' []),
     (''SENTINEL-REMOVE'', cmd ''SENTINEL'' []),
     (''SENTINEL-REPLICAS'', cmd ''SENTINEL'' []),
     (''SENTINEL-RESET'', cmd ''SENTINEL'' []),
     (''SENTINEL-SENTINELS'', cmd ''SENTINEL'' []),
     (''SENTINEL-SET'', cmd ''SENTINEL'' []),
     (''SENTINEL-SIMULATE-FAILURE'', cmd ''SENTINEL'' []),
     (''SENTINEL-SLAVES'', cmd ''SENTINEL'' []),
     (''SENTINEL'', cmd ''SENTINEL'' []),
     (''XACK'', cmd ''STREAM'' [spec ''index'' 1 '''' 0 ''range'' 0 1 0 0 0 0]),
     (''XACKDEL'', cmd ''STREAM'' [spec ''index'' 1 '''' 0 ''range'' 0 1 0 0 0 0]),
     (''XADD'', cmd ''STREAM'' [spec ''index'' 1 '''' 0 ''range'' 0 1 0 0 0 0]),
     (''XAUTOCLAIM'', cmd ''STREAM'' [spec ''index'' 1 '''' 0 ''range'' 0 1 0 0 0 0]),
     (''XCLAIM'', cmd ''STREAM'' [spec ''index'' 1 '''' 0 ''range'' 0 1 0 0 0 0])]"

definition redisCommands_34 :: "(string \<times> redisCommand) list" where
  "redisCommands_34 = [
     (''XDEL'', cmd ''STREAM'' [spec ''index'' 1 '''' 0 ''range'' 0 1 0 0 0 0]),
     (''XDELEX'', cmd ''STREAM'' [spec ''index'' 1 '''' 0 ''range'' 0 1 0 0 0 0]),
     (''XGROUP-CREATE'', cmd ''STREAM'' [spec ''index'' 2 '''' 0 ''range'' 0 1 0 0 0 0]),
     (''XGROUP-CREATECONSUMER'', cmd ''STREAM'' [spec ''index'' 2 '''' 0 ''range'' 0 1 0 0 0 0]),
     (''XGROUP-DELCONSUMER'', cmd ''STREAM'' [spec ''index'' 2 '''' 0 ''range'' 0 1 0 0 0 0]),
     (''XGROUP-DESTROY'', cmd ''STREAM'' [spec ''index'' 2 '''' 0 ''range'' 0 1 0 0 0 0]),
     (''XGROUP-HELP'', cmd ''STREAM'' []),
     (''XGROUP-SETID'', cmd ''STREAM'' [spec ''index'' 2 '''' 0 ''range'' 0 1 0 0 0 0]),
     (''XGROUP'', cmd ''STREAM'' [])]"

definition redisCommands_35 :: "(string \<times> redisCommand) list" where
  "redisCommands_35 = [
     (''XINFO-CONSUMERS'', cmd ''STREAM'' [spec ''index'' 2 '''' 0 ''range'' 0 1 0 0 0 0]),
     (''XINFO-GROUPS'', cmd ''STREAM'' [spec ''index'' 2 '''' 0 ''range'' 0 1 0 0 0 0]),
     (''XINFO-HELP'', cmd ''STREAM'' []),
     (''XINFO-STREAM'', cmd ''STREAM'' [spec ''index'' 2 '''' 0 ''range'' 0 1 0 0 0 0]),
     (''XINFO'', cmd ''STREAM'' []),
     (''XLEN'', cmd ''STREAM'' [spec ''index'' 1 '''' 0 ''range'' 0 1 0 0 0 0]),
     (''XPENDING'', cmd ''STREAM'' [spec ''index'' 1 '''' 0 ''range'' 0 1 0 0 0 0]),
     (''XRANGE'', cmd ''STREAM'' [spec ''index'' 1 '''' 0 ''range'' 0 1 0 0 0 0]),
     (''XREAD'', cmd ''STREAM'' [spec ''keyword'' 0 ''STREAMS'' 1 ''range'' (-1) 1 2 0 0 0])]"

definition redisCommands_36 :: "(string \<times> redisCommand) list" where
  "redisCommands_36 = [
     (''XREADGROUP'', cmd ''STREAM'' [spec ''keyword'' 0 ''STREAMS'' 4 ''range'' (-1) 1 2 0 0 0]),
     (''XREVRANGE'', cmd ''STREAM'' [spec ''index'' 1 '''' 0 ''range'' 0 1 0 0 0 0]),
     (''XSETID'', cmd ''STREAM'' [spec ''index'' 1 '''' 0 ''range'' 0 1 0 0 0 0]),
     (''XTRIM'', cmd ''STREAM'' [spec ''index'' 1 '''' 0 ''range'' 0 1 0 0 0 0]),
     (''BF.ADD'', cmd ''BLOOM FILTER'' [spec ''index'' 1 '''' 0 ''range'' 0 1 0 0 0 0]),
     (''BF.CARD'', cmd ''BLOOM FILTER'' [spec ''index'' 1 '''' 0 ''range'' 0 1 0 0 0 0]),
     (''BF.EXISTS'', cmd ''BLOOM FILTER'' [spec ''index'' 1 '''' 0 ''range'' 0 1 0 0 0 0]),
     (''BF.INFO'', cmd ''BLOOM FILTER'' [spec ''index'' 1 '''' 0 ''range'' 0 1 0 0 0 0])]"

definition redisCommands_37 :: "(string \<times> redisCommand) list" where
  "redisCommands_37 = [
     (''BF.INSERT'', cmd ''BLOOM FILTER'' [spec ''index'' 1 '''' 0 ''range'' 0 1 0 0 0 0]),
     (''BF.LOADCHUNK'', cmd ''BLOOM FILTER'' [spec ''index'' 1 '''' 0 ''range'' 0 1 0 0 0 0]),
     (''BF.MADD'', cmd ''BLOOM FILTER'' [spec ''index'' 1 '''' 0 ''range'' 0 1 0 0 0 0]),
     (''BF.MEXISTS'', cmd ''BLOOM FILTER'' [spec ''index'' 1 '''' 0 ''range'' 0 1 0 0 0 0]),
     (''BF.RESERVE'', cmd ''BLOOM FILTER'' [spec ''index'' 1 '''' 0 ''range'' 0 1 0 0 0 0]),
     (''BF.SCANDUMP'', cmd ''BLOOM FILTER'' [spec ''index'' 1 '''' 0 ''range'' 0 1 0 0 0 0])]"

definition redisCommands_list :: "(string \<times> redisCommand) list" where
  "redisCommands_list = concat [
     redisCommands_01, redisCommands_02, redisCommands_03, redisCommands_04,
     redisCommands_05, redisCommands_06, redisCommands_07, redisCommands_08,
     redisCommands_09, redisCommands_10, redisCommands_11, redisCommands_12,
     redisCommands_13, redisCommands_14, redisCommands_15, redisCommands_16,
     redisCommands_17, redisCommands_18, redisCommands_19, redisCommands_20,
     redisCommands_21, redisCommands_22, redisCommands_23, redisCommands_24,
     redisCommands_25, redisCommands_26, redisCommands_27, redisCommands_28,
     redisCommands_29, redisCommands_30, redisCommands_31, redisCommands_32,
     redisCommands_33, redisCommands_34, redisCommands_35, redisCommands_36,
     redisCommands_37]"

definition redisCommands :: "string \<rightharpoonup> redisCommand" where
  "redisCommands = map_of redisCommands_list"

lemmas redisCommands_defs =
  redisCommands_01_def redisCommands_02_def redisCommands_03_def redisCommands_04_def
  redisCommands_05_def redisCommands_06_def redisCommands_07_def redisCommands_08_def
  redisCommands_09_def redisCommands_10_def redisCommands_11_def redisCommands_12_def
  redisCommands_13_def redisCommands_14_def redisCommands_15_def redisCommands_16_def
  redisCommands_17_def redisCommands_18_def redisCommands_19_def redisCommands_20_def
  redisCommands_21_def redisCommands_22_def redisCommands_23_def redisCommands_24_def
  redisCommands_25_def redisCommands_26_def redisCommands_27_def redisCommands_28_def
  redisCommands_29_def redisCommands_30_def redisCommands_31_def redisCommands_32_def
  redisCommands_33_def redisCommands_34_def redisCommands_35_def redisCommands_36_def
  redisCommands_37_def

section \<open>Well-formed specifications\<close>

text \<open>
  What the interpreter of the table relies on: the two type words are ones it knows, an
  indexed search starts behind the command name, the key loops advance, a key count is read
  at or behind the start of the search and keys follow it.
\<close>

definition spec_wf :: "keySpec \<Rightarrow> bool" where
  "spec_wf s \<longleftrightarrow>
     (beginSearchType s = ''index'' \<and> 1 \<le> beginSearchIndex s \<or>
      beginSearchType s = ''keyword'' \<and> 1 \<le> beginSearchStartFrom s) \<and>
     (findKeysType s = ''range'' \<and> 1 \<le> findKeysRangeKeyStep s \<or>
      findKeysType s = ''keynum'' \<and> 0 \<le> findKeysKeynumIndex s \<and>
        1 \<le> findKeysKeynumFirstKey s \<and> 1 \<le> findKeysKeynumKeyStep s)"

definition entry_wf :: "string \<times> redisCommand \<Rightarrow> bool" where
  "entry_wf e \<longleftrightarrow> list_all spec_wf (cmd_keySpec (snd e))"

lemma redisCommands_01_wf: "list_all entry_wf redisCommands_01"
  by (simp add: redisCommands_01_def entry_wf_def spec_wf_def)

lemma redisCommands_02_wf: "list_all entry_wf redisCommands_02"
  by (simp add: redisCommands_02_def entry_wf_def spec_wf_def)

lemma redisCommands_03_wf: "list_all entry_wf redisCommands_03"
  by (simp add: redisCommands_03_def entry_wf_def spec_wf_def)

lemma redisCommands_04_wf: "list_all entry_wf redisCommands_04"
  by (simp add: redisCommands_04_def entry_wf_def spec_wf_def)

lemma redisCommands_05_wf: "list_all entry_wf redisCommands_05"
  by (simp add: redisCommands_05_def entry_wf_def spec_wf_def)

lemma redisCommands_06_wf: "list_all entry_wf redisCommands_06"
  by (simp add: redisCommands_06_def entry_wf_def spec_wf_def)

lemma redisCommands_07_wf: "list_all entry_wf redisCommands_07"
  by (simp add: redisCommands_07_def entry_wf_def spec_wf_def)

lemma redisCommands_08_wf: "list_all entry_wf redisCommands_08"
  by (simp add: redisCommands_08_def entry_wf_def spec_wf_def)

lemma redisCommands_09_wf: "list_all entry_wf redisCommands_09"
  by (simp add: redisCommands_09_def entry_wf_def spec_wf_def)

lemma redisCommands_10_wf: "list_all entry_wf redisCommands_10"
  by (simp add: redisCommands_10_def entry_wf_def spec_wf_def)

lemma redisCommands_11_wf: "list_all entry_wf redisCommands_11"
  by (simp add: redisCommands_11_def entry_wf_def spec_wf_def)

lemma redisCommands_12_wf: "list_all entry_wf redisCommands_12"
  by (simp add: redisCommands_12_def entry_wf_def spec_wf_def)

lemma redisCommands_13_wf: "list_all entry_wf redisCommands_13"
  by (simp add: redisCommands_13_def entry_wf_def spec_wf_def)

lemma redisCommands_14_wf: "list_all entry_wf redisCommands_14"
  by (simp add: redisCommands_14_def entry_wf_def spec_wf_def)

lemma redisCommands_15_wf: "list_all entry_wf redisCommands_15"
  by (simp add: redisCommands_15_def entry_wf_def spec_wf_def)

lemma redisCommands_16_wf: "list_all entry_wf redisCommands_16"
  by (simp add: redisCommands_16_def entry_wf_def spec_wf_def)

lemma redisCommands_17_wf: "list_all entry_wf redisCommands_17"
  by (simp add: redisCommands_17_def entry_wf_def spec_wf_def)

lemma redisCommands_18_wf: "list_all entry_wf redisCommands_18"
  by (simp add: redisCommands_18_def entry_wf_def spec_wf_def)

lemma redisCommands_19_wf: "list_all entry_wf redisCommands_19"
  by (simp add: redisCommands_19_def entry_wf_def spec_wf_def)

lemma redisCommands_20_wf: "list_all entry_wf redisCommands_20"
  by (simp add: redisCommands_20_def entry_wf_def spec_wf_def)

lemma redisCommands_21_wf: "list_all entry_wf redisCommands_21"
  by (simp add: redisCommands_21_def entry_wf_def spec_wf_def)

lemma redisCommands_22_wf: "list_all entry_wf redisCommands_22"
  by (simp add: redisCommands_22_def entry_wf_def spec_wf_def)

lemma redisCommands_23_wf: "list_all entry_wf redisCommands_23"
  by (simp add: redisCommands_23_def entry_wf_def spec_wf_def)

lemma redisCommands_24_wf: "list_all entry_wf redisCommands_24"
  by (simp add: redisCommands_24_def entry_wf_def spec_wf_def)

lemma redisCommands_25_wf: "list_all entry_wf redisCommands_25"
  by (simp add: redisCommands_25_def entry_wf_def spec_wf_def)

lemma redisCommands_26_wf: "list_all entry_wf redisCommands_26"
  by (simp add: redisCommands_26_def entry_wf_def spec_wf_def)

lemma redisCommands_27_wf: "list_all entry_wf redisCommands_27"
  by (simp add: redisCommands_27_def entry_wf_def spec_wf_def)

lemma redisCommands_28_wf: "list_all entry_wf redisCommands_28"
  by (simp add: redisCommands_28_def entry_wf_def spec_wf_def)

lemma redisCommands_29_wf: "list_all entry_wf redisCommands_29"
  by (simp add: redisCommands_29_def entry_wf_def spec_wf_def)

lemma redisCommands_30_wf: "list_all entry_wf redisCommands_30"
  by (simp add: redisCommands_30_def entry_wf_def spec_wf_def)

lemma redisCommands_31_wf: "list_all entry_wf redisCommands_31"
  by (simp add: redisCommands_31_def entry_wf_def spec_wf_def)

lemma redisCommands_32_wf: "list_all entry_wf redisCommands_32"
  by (simp add: redisCommands_32_def entry_wf_def spec_wf_def)

lemma redisCommands_33_wf: "list_all entry_wf redisCommands_33"
  by (simp add: redisCommands_33_def entry_wf_def spec_wf_def)

lemma redisCommands_34_wf: "list_all entry_wf redisCommands_34"
  by (simp add: redisCommands_34_def entry_wf_def spec_wf_def)

lemma redisCommands_35_wf: "list_all entry_wf redisCommands_35"
  by (simp add: redisCommands_35_def entry_wf_def spec_wf_def)

lemma redisCommands_36_wf: "list_all entry_wf redisCommands_36"
  by (simp add: redisCommands_36_def entry_wf_def spec_wf_def)

lemma redisCommands_37_wf: "list_all entry_wf redisCommands_37"
  by (simp add: redisCommands_37_def entry_wf_def spec_wf_def)

lemmas redisCommands_wfs =
  redisCommands_01_wf redisCommands_02_wf redisCommands_03_wf redisCommands_04_wf
  redisCommands_05_wf redisCommands_06_wf redisCommands_07_wf redisCommands_08_wf
  redisCommands_09_wf redisCommands_10_wf redisCommands_11_wf redisCommands_12_wf
  redisCommands_13_wf redisCommands_14_wf redisCommands_15_wf redisCommands_16_wf
  redisCommands_17_wf redisCommands_18_wf redisCommands_19_wf redisCommands_20_wf
  redisCommands_21_wf redisCommands_22_wf redisCommands_23_wf redisCommands_24_wf
  redisCommands_25_wf redisCommands_26_wf redisCommands_27_wf redisCommands_28_wf
  redisCommands_29_wf redisCommands_30_wf redisCommands_31_wf redisCommands_32_wf
  redisCommands_33_wf redisCommands_34_wf redisCommands_35_wf redisCommands_36_wf
  redisCommands_37_wf

lemma redisCommands_list_wf: "list_all entry_wf redisCommands_list"
  by (simp add: redisCommands_list_def redisCommands_wfs)

lemma redisCommands_spec_wf:
  assumes "redisCommands name = Some c" and "s \<in> set (cmd_keySpec c)"
  shows "spec_wf s"
proof -
  have "(name, c) \<in> set redisCommands_list"
    using assms(1) by (simp add: redisCommands_def map_of_SomeD)
  then have "entry_wf (name, c)" using redisCommands_list_wf by (simp add: list_all_iff)
  then show ?thesis using assms(2) by (simp add: entry_wf_def list_all_iff)
qed

section \<open>Lookups\<close>

text \<open>Some entries of the table, for the examples of later theories.\<close>

lemma before_GET:
  "map_of redisCommands_01 ''GET'' = None" "map_of redisCommands_02 ''GET'' = None"
  "map_of redisCommands_03 ''GET'' = None"
  by (simp_all add: redisCommands_01_def redisCommands_02_def redisCommands_03_def)

lemma redisCommands_GET: "redisCommands ''GET'' = Some (cmd ''STRING'' [spec ''index'' 1 '''' 0 ''range'' 0 1 0 0 0 0])"
  by (simp add: redisCommands_def redisCommands_list_def map_add_def before_GET redisCommands_04_def)

lemma before_SET:
  "map_of redisCommands_01 ''SET'' = None" "map_of redisCommands_02 ''SET'' = None"
  "map_of redisCommands_03 ''SET'' = None" "map_of redisCommands_04 ''SET'' = None"
  "map_of redisCommands_05 ''SET'' = None"
  by (simp_all add: redisCommands_01_def redisCommands_02_def redisCommands_03_def redisCommands_04_def redisCommands_05_def)

lemma redisCommands_SET: "redisCommands ''SET'' = Some (cmd ''STRING'' [spec ''index'' 1 '''' 0 ''range'' 0 1 0 0 0 0])"
  by (simp add: redisCommands_def redisCommands_list_def map_add_def before_SET redisCommands_06_def)

lemma before_MSET:
  "map_of redisCommands_01 ''MSET'' = None" "map_of redisCommands_02 ''MSET'' = None"
  "map_of redisCommands_03 ''MSET'' = None" "map_of redisCommands_04 ''MSET'' = None"
  by (simp_all add: redisCommands_01_def redisCommands_02_def redisCommands_03_def redisCommands_04_def)

lemma redisCommands_MSET: "redisCommands ''MSET'' = Some (cmd ''STRING'' [spec ''index'' 1 '''' 0 ''range'' (-1) 2 0 0 0 0])"
  by (simp add: redisCommands_def redisCommands_list_def map_add_def before_MSET redisCommands_05_def)

lemma before_PUBLISH:
  "map_of redisCommands_01 ''PUBLISH'' = None" "map_of redisCommands_02 ''PUBLISH'' = None"
  "map_of redisCommands_03 ''PUBLISH'' = None" "map_of redisCommands_04 ''PUBLISH'' = None"
  "map_of redisCommands_05 ''PUBLISH'' = None" "map_of redisCommands_06 ''PUBLISH'' = None"
  "map_of redisCommands_07 ''PUBLISH'' = None" "map_of redisCommands_08 ''PUBLISH'' = None"
  "map_of redisCommands_09 ''PUBLISH'' = None" "map_of redisCommands_10 ''PUBLISH'' = None"
  "map_of redisCommands_11 ''PUBLISH'' = None" "map_of redisCommands_12 ''PUBLISH'' = None"
  "map_of redisCommands_13 ''PUBLISH'' = None" "map_of redisCommands_14 ''PUBLISH'' = None"
  "map_of redisCommands_15 ''PUBLISH'' = None" "map_of redisCommands_16 ''PUBLISH'' = None"
  "map_of redisCommands_17 ''PUBLISH'' = None" "map_of redisCommands_18 ''PUBLISH'' = None"
  "map_of redisCommands_19 ''PUBLISH'' = None" "map_of redisCommands_20 ''PUBLISH'' = None"
  "map_of redisCommands_21 ''PUBLISH'' = None" "map_of redisCommands_22 ''PUBLISH'' = None"
  "map_of redisCommands_23 ''PUBLISH'' = None" "map_of redisCommands_24 ''PUBLISH'' = None"
  "map_of redisCommands_25 ''PUBLISH'' = None" "map_of redisCommands_26 ''PUBLISH'' = None"
  "map_of redisCommands_27 ''PUBLISH'' = None" "map_of redisCommands_28 ''PUBLISH'' = None"
  by (simp_all add:
    redisCommands_01_def redisCommands_02_def redisCommands_03_def redisCommands_04_def redisCommands_05_def
    redisCommands_06_def redisCommands_07_def redisCommands_08_def redisCommands_09_def redisCommands_10_def
    redisCommands_11_def redisCommands_12_def redisCommands_13_def redisCommands_14_def redisCommands_15_def
    redisCommands_16_def redisCommands_17_def redisCommands_18_def redisCommands_19_def redisCommands_20_def
    redisCommands_21_def redisCommands_22_def redisCommands_23_def redisCommands_24_def redisCommands_25_def
    redisCommands_26_def redisCommands_27_def redisCommands_28_def)

lemma redisCommands_PUBLISH: "redisCommands ''PUBLISH'' = Some (cmd ''PUBSUB'' [])"
  by (simp add: redisCommands_def redisCommands_list_def map_add_def before_PUBLISH redisCommands_29_def)

lemma before_XREAD:
  "map_of redisCommands_01 ''XREAD'' = None" "map_of redisCommands_02 ''XREAD'' = None"
  "map_of redisCommands_03 ''XREAD'' = None" "map_of redisCommands_04 ''XREAD'' = None"
  "map_of redisCommands_05 ''XREAD'' = None" "map_of redisCommands_06 ''XREAD'' = None"
  "map_of redisCommands_07 ''XREAD'' = None" "map_of redisCommands_08 ''XREAD'' = None"
  "map_of redisCommands_09 ''XREAD'' = None" "map_of redisCommands_10 ''XREAD'' = None"
  "map_of redisCommands_11 ''XREAD'' = None" "map_of redisCommands_12 ''XREAD'' = None"
  "map_of redisCommands_13 ''XREAD'' = None" "map_of redisCommands_14 ''XREAD'' = None"
  "map_of redisCommands_15 ''XREAD'' = None" "map_of redisCommands_16 ''XREAD'' = None"
  "map_of redisCommands_17 ''XREAD'' = None" "map_of redisCommands_18 ''XREAD'' = None"
  "map_of redisCommands_19 ''XREAD'' = None" "map_of redisCommands_20 ''XREAD'' = None"
  "map_of redisCommands_21 ''XREAD'' = None" "map_of redisCommands_22 ''XREAD'' = None"
  "map_of redisCommands_23 ''XREAD'' = None" "map_of redisCommands_24 ''XREAD'' = None"
  "map_of redisCommands_25 ''XREAD'' = None" "map_of redisCommands_26 ''XREAD'' = None"
  "map_of redisCommands_27 ''XREAD'' = None" "map_of redisCommands_28 ''XREAD'' = None"
  "map_of redisCommands_29 ''XREAD'' = None" "map_of redisCommands_30 ''XREAD'' = None"
  "map_of redisCommands_31 ''XREAD'' = None" "map_of redisCommands_32 ''XREAD'' = None"
  "map_of redisCommands_33 ''XREAD'' = None" "map_of redisCommands_34 ''XREAD'' = None"
  by (simp_all add:
    redisCommands_01_def redisCommands_02_def redisCommands_03_def redisCommands_04_def redisCommands_05_def
    redisCommands_06_def redisCommands_07_def redisCommands_08_def redisCommands_09_def redisCommands_10_def
    redisCommands_11_def redisCommands_12_def redisCommands_13_def redisCommands_14_def redisCommands_15_def
    redisCommands_16_def redisCommands_17_def redisCommands_18_def redisCommands_19_def redisCommands_20_def
    redisCommands_21_def redisCommands_22_def redisCommands_23_def redisCommands_24_def redisCommands_25_def
    redisCommands_26_def redisCommands_27_def redisCommands_28_def redisCommands_29_def redisCommands_30_def
    redisCommands_31_def redisCommands_32_def redisCommands_33_def redisCommands_34_def)

lemma redisCommands_XREAD: "redisCommands ''XREAD'' = Some (cmd ''STREAM'' [spec ''keyword'' 0 ''STREAMS'' 1 ''range'' (-1) 1 2 0 0 0])"
  by (simp add: redisCommands_def redisCommands_list_def map_add_def before_XREAD redisCommands_35_def)

text \<open>
  C32. The generated table is well typed for its interpreter: every key specification of every command names one
  of the two ways to find the first key and one of the two ways to find the others that the
  interpreter knows, its steps are positive, and its indexes are in the range the loops need.
\<close>

theorem table_well_typed:
  assumes "redisCommands name = Some c"
  shows "list_all spec_wf (cmd_keySpec c)"
  using redisCommands_spec_wf [OF assms] by (simp add: list_all_iff)

theorem table_well_typed_witness:
  "\<exists>c. redisCommands ''GET'' = Some c \<and> cmd_keySpec c \<noteq> [] \<and> list_all spec_wf (cmd_keySpec c)"
proof -
  obtain c where c: "redisCommands ''GET'' = Some c" "cmd_keySpec c \<noteq> []" using redisCommands_GET by simp
  from table_well_typed [OF c(1)] c show ?thesis by blast
qed

end
