(* ===== verification/Commands.thy ===== *)
theory Commands
  imports GoLib Crc CommandTable
begin

text \<open>
  \<^verbatim>\<open>internal/commands/keys.go\<close>: which arguments of a command are keys (\<open>CalcKeys\<close>, an
  interpreter of the command table) and which cluster slot a key belongs to (\<open>keyHash\<close>).
  Shown here: the reported keys are the arguments at the reported positions, never the command
  name; the table drives the interpreter into none of its ``wrong type'' exits; a range
  specification yields exactly the arithmetic progression of positions it describes; a slot is
  the Redis Cluster hash of the hash tag and lies below 16384.
\<close>

section \<open>CalcKeys\<close>

record calcKeys =
  cmaName :: string
  ck_group :: string
  ck_keys :: "string list"
  keysIndexes :: "int list"

type_synonym keys_at = "string list \<times> int list"

abbreviation argc :: "string list \<Rightarrow> int" where
  "argc argv \<equiv> int (length argv)"

text \<open>Go's \<^verbatim>\<open>argv[i]\<close>.\<close>

definition argv_at :: "string list \<Rightarrow> int \<Rightarrow> string res" where
  "argv_at argv i = (if 0 \<le> i \<and> i < argc argv then Inr (argv ! nat i)
                     else Inl (RuntimePanic ''index out of range''))"

text \<open>The keyword search, forward (\<^verbatim>\<open>step = 1\<close>) or backward (\<^verbatim>\<open>step = -1\<close>).\<close>

function keyword_search :: "string list \<Rightarrow> string \<Rightarrow> bool \<Rightarrow> int \<Rightarrow> int option" where
  "keyword_search argv kw fwd inx =
     (if 0 \<le> inx \<and> inx < argc argv then
        (if ToUpper (argv ! nat inx) = kw then Some (inx + 1)
         else keyword_search argv kw fwd (if fwd then inx + 1 else inx - 1))
      else None)"
  by pat_completeness auto
termination
  by (relation "measure (\<lambda>(argv, kw, fwd, inx). if fwd then nat (argc argv - inx) else nat (inx + 1))")
    auto

text \<open>
  Where a specification starts to look for keys.  \<open>Inr None\<close> is the \<^verbatim>\<open>continue\<close> of an optional
  keyword that is absent.
\<close>

definition begin_search :: "string list \<Rightarrow> keySpec \<Rightarrow> int option res" where
  "begin_search argv s =
     (if beginSearchType s = ''index'' then Inr (Some (beginSearchIndex s))
      else if beginSearchType s = ''keyword'' then
        Inr (if beginSearchStartFrom s > 0
             then keyword_search argv (beginSearchKeyword s) True (beginSearchStartFrom s)
             else keyword_search argv (beginSearchKeyword s) False (- beginSearchStartFrom s))
      else Inl (LogPanicf ''wrong type''))"

definition consKey :: "string \<Rightarrow> int \<Rightarrow> keys_at \<Rightarrow> keys_at" where
  "consKey k inx r = (k # fst r, (inx + 1) # snd r)"

text \<open>The loop of a range specification; \<open>limit\<close> is \<^verbatim>\<open>limitCount\<close>.\<close>

function range_keys :: "string list \<Rightarrow> int \<Rightarrow> int \<Rightarrow> int \<Rightarrow> int \<Rightarrow> keys_at res" where
  "range_keys argv lastKeyInx keyStep limit inx =
     (if inx \<le> lastKeyInx \<and> limit > 0 then
        (case argv_at argv inx of Inl e \<Rightarrow> Inl e
         | Inr k \<Rightarrow> map_sum id (consKey k inx)
                     (range_keys argv lastKeyInx keyStep (limit - 1) (inx + keyStep)))
      else Inr ([], []))"
  by pat_completeness auto
termination
  by (relation "measure (\<lambda>(argv, l, st, limit, inx). nat limit)") auto

text \<open>The loop of a key-count specification.\<close>

function keynum_keys :: "string list \<Rightarrow> int \<Rightarrow> int \<Rightarrow> int \<Rightarrow> keys_at res" where
  "keynum_keys argv step keyCount inx =
     (if keyCount > 0 then
        (case argv_at argv inx of Inl e \<Rightarrow> Inl e
         | Inr k \<Rightarrow> map_sum id (consKey k inx) (keynum_keys argv step (keyCount - 1) (inx + step)))
      else Inr ([], []))"
  by pat_completeness auto
termination
  by (relation "measure (\<lambda>(argv, st, n, inx). nat n)") auto

declare keyword_search.simps [simp del] range_keys.simps [simp del] keynum_keys.simps [simp del]

definition maxInt32 :: int where "maxInt32 = 2147483647"

definition find_keys :: "string list \<Rightarrow> keySpec \<Rightarrow> int \<Rightarrow> keys_at res" where
  "find_keys argv s bgn =
     (if findKeysType s = ''range'' then
        (let lastKeyInx = (if findKeysRangeLastKey s \<ge> 0 then bgn + findKeysRangeLastKey s
                           else argc argv + findKeysRangeLastKey s);
             limitCount = (if findKeysRangeLimit s \<le> -2
                           then go_quot (argc argv - bgn) (- findKeysRangeLimit s) else maxInt32)
         in range_keys argv lastKeyInx (findKeysRangeKeyStep s) limitCount bgn)
      else if findKeysType s = ''keynum'' then
        (let keynumIdx = bgn + findKeysKeynumIndex s
         in if keynumIdx < 0 \<or> keynumIdx > argc argv then Inl (LogPanicf ''keynumInx wrong'')
            else (case argv_at argv keynumIdx of Inl e \<Rightarrow> Inl e
              | Inr a \<Rightarrow> (case Atoi a of Inl _ \<Rightarrow> Inl (LogPanicf ''strconv.Atoi'')
                  | Inr keyCount \<Rightarrow> keynum_keys argv (findKeysKeynumKeyStep s) keyCount
                                     (bgn + findKeysKeynumFirstKey s))))
      else Inl (LogPanicf ''wrong type''))"

text \<open>The loop over the specifications of a command.\<close>

fun specs_keys :: "string list \<Rightarrow> keySpec list \<Rightarrow> keys_at res" where
  "specs_keys argv [] = Inr ([], [])"
| "specs_keys argv (s # ss) =
     (case begin_search argv s of Inl e \<Rightarrow> Inl e
      | Inr None \<Rightarrow> specs_keys argv ss
      | Inr (Some b) \<Rightarrow> (case find_keys argv s b of Inl e \<Rightarrow> Inl e
          | Inr (ks, is) \<Rightarrow> map_sum id (\<lambda>(ks', is'). (ks @ ks', is @ is')) (specs_keys argv ss)))"

definition cmd_name :: "string list \<Rightarrow> string" where
  "cmd_name argv =
     (let n = ToUpper (hd argv)
      in if n \<in> set containers \<and> length argv > 1 then n @ ''-'' @ ToUpper (argv ! 1) else n)"

definition CalcKeys :: "string list \<Rightarrow> calcKeys res" where
  "CalcKeys argv =
     (if argv = [] then Inl (RuntimePanic ''index out of range'')
      else (case redisCommands (cmd_name argv) of
        None \<Rightarrow> Inr \<lparr>cmaName = cmd_name argv, ck_group = ''unknown'', ck_keys = [], keysIndexes = []\<rparr>
      | Some c \<Rightarrow> (case specs_keys argv (cmd_keySpec c) of Inl e \<Rightarrow> Inl e
          | Inr (ks, is) \<Rightarrow> Inr \<lparr>cmaName = cmd_name argv, ck_group = cmd_group c,
                                 ck_keys = ks, keysIndexes = is\<rparr>)))"

section \<open>Slots\<close>

text \<open>
  The source walks over the runes of the key; a rune equal to an opening brace is one byte and
  no multi-byte rune contains its code, so the walk visits the braces byte by byte.
  The inner loop looks for the closing brace from the opening one on.
\<close>

fun until_close :: "string \<Rightarrow> string option" where
  "until_close [] = None"
| "until_close (c # cs) = (if c = CHR ''}'' then Some [] else map_option ((#) c) (until_close cs))"

fun findHashTag :: "string \<Rightarrow> string" where
  "findHashTag [] = []"
| "findHashTag (c # cs) =
     (if c = CHR ''{'' then (case until_close (c # cs) of Some t \<Rightarrow> tl t | None \<Rightarrow> findHashTag cs)
      else findHashTag cs)"

definition keyHash :: "string \<Rightarrow> 16 word" where
  "keyHash key = Crc16 (if length (findHashTag key) > 0 then findHashTag key else key) AND 0x3FFF"

definition CalcSlots :: "string list \<Rightarrow> int list" where
  "CalcSlots keys = map (\<lambda>key. uint (keyHash key)) keys"

section \<open>Facts about CalcKeys\<close>

definition keys_ok :: "string list \<Rightarrow> keys_at \<Rightarrow> bool" where
  "keys_ok argv r \<longleftrightarrow> fst r = map (\<lambda>i. argv ! nat (i - 1)) (snd r) \<and>
     (\<forall>i \<in> set (snd r). 2 \<le> i \<and> i \<le> argc argv)"

lemma keys_ok_Nil [simp]: "keys_ok argv ([], [])"
  by (simp add: keys_ok_def)

lemma keys_ok_append:
  "keys_ok argv (ks, is) \<Longrightarrow> keys_ok argv (ks', is') \<Longrightarrow> keys_ok argv (ks @ ks', is @ is')"
  by (auto simp: keys_ok_def)

lemma argv_at_Inr: "argv_at argv i = Inr k \<longleftrightarrow> 0 \<le> i \<and> i < argc argv \<and> k = argv ! nat i"
  by (auto simp: argv_at_def)

lemma keys_ok_cons:
  "\<lbrakk>argv_at argv inx = Inr k; 1 \<le> inx; keys_ok argv r\<rbrakk> \<Longrightarrow> keys_ok argv (consKey k inx r)"
  by (auto simp: keys_ok_def argv_at_Inr consKey_def)

lemma keyword_search_pos:
  "keyword_search argv kw fwd inx = Some b \<Longrightarrow> 1 \<le> b"
proof (induction argv kw fwd inx rule: keyword_search.induct)
  case (1 argv kw fwd inx)
  then show ?case
    by (subst (asm) (2) keyword_search.simps) (auto split: if_splits)
qed

lemma range_keys_ok:
  "\<lbrakk>range_keys argv l st lim inx = Inr r; 1 \<le> inx; 1 \<le> st\<rbrakk> \<Longrightarrow> keys_ok argv r"
proof (induction argv l st lim inx arbitrary: r rule: range_keys.induct)
  case (1 argv l st lim inx)
  show ?case
  proof (cases "inx \<le> l \<and> lim > 0")
    case True
    with "1.prems"(1) obtain k r' where k: "argv_at argv inx = Inr k"
      and r': "range_keys argv l st (lim - 1) (inx + st) = Inr r'" and r: "r = consKey k inx r'"
      by (subst (asm) range_keys.simps)
        (auto split: sum.splits simp: map_sum_def)
    have "keys_ok argv r'" using "1.IH" [OF True k r'] "1.prems" by simp
    then show ?thesis using keys_ok_cons [OF k] "1.prems"(2) r by simp
  next
    case False
    with "1.prems"(1) show ?thesis by (subst (asm) range_keys.simps) auto
  qed
qed

lemma keynum_keys_ok:
  "\<lbrakk>keynum_keys argv st n inx = Inr r; 1 \<le> inx; 1 \<le> st\<rbrakk> \<Longrightarrow> keys_ok argv r"
proof (induction argv st n inx arbitrary: r rule: keynum_keys.induct)
  case (1 argv st n inx)
  show ?case
  proof (cases "n > 0")
    case True
    with "1.prems"(1) obtain k r' where k: "argv_at argv inx = Inr k"
      and r': "keynum_keys argv st (n - 1) (inx + st) = Inr r'" and r: "r = consKey k inx r'"
      by (subst (asm) keynum_keys.simps) (auto split: sum.splits simp: map_sum_def)
    have "keys_ok argv r'" using "1.IH" [OF True k r'] "1.prems" by simp
    then show ?thesis using keys_ok_cons [OF k] "1.prems"(2) r by simp
  next
    case False
    with "1.prems"(1) show ?thesis by (subst (asm) keynum_keys.simps) auto
  qed
qed

lemma begin_search_pos:
  "\<lbrakk>spec_wf s; begin_search argv s = Inr (Some b)\<rbrakk> \<Longrightarrow> 1 \<le> b"
  by (auto simp: begin_search_def spec_wf_def dest: keyword_search_pos split: if_splits)

lemma find_keys_ok:
  "\<lbrakk>spec_wf s; 1 \<le> b; find_keys argv s b = Inr r\<rbrakk> \<Longrightarrow> keys_ok argv r"
  by (auto simp: find_keys_def spec_wf_def Let_def
      dest: range_keys_ok keynum_keys_ok split: if_splits sum.splits)

lemma specs_keys_ok:
  "\<lbrakk>\<forall>s \<in> set ss. spec_wf s; specs_keys argv ss = Inr r\<rbrakk> \<Longrightarrow> keys_ok argv r"
proof (induction ss arbitrary: r)
  case Nil then show ?case by auto
next
  case (Cons s ss)
  then show ?case
    by (auto split: sum.splits option.splits prod.splits simp: map_sum_def
        intro!: keys_ok_append dest: find_keys_ok begin_search_pos)
qed

text \<open>The faults the interpreter can end in, given a well-formed table.\<close>

definition key_fault :: "fault \<Rightarrow> bool" where
  "key_fault e \<longleftrightarrow> e \<in> {RuntimePanic ''index out of range'', LogPanicf ''keynumInx wrong'',
                          LogPanicf ''strconv.Atoi''}"

lemma argv_at_fault: "argv_at argv i = Inl e \<Longrightarrow> key_fault e"
  by (auto simp: argv_at_def key_fault_def split: if_splits)

lemma range_keys_fault: "range_keys argv l st lim inx = Inl e \<Longrightarrow> key_fault e"
proof (induction argv l st lim inx rule: range_keys.induct)
  case (1 argv l st lim inx)
  from "1.prems" show ?case
    by (subst (asm) range_keys.simps)
      (auto split: if_splits sum.splits simp: map_sum_def dest: argv_at_fault "1.IH" [OF conjI])
qed

lemma keynum_keys_fault: "keynum_keys argv st n inx = Inl e \<Longrightarrow> key_fault e"
proof (induction argv st n inx rule: keynum_keys.induct)
  case (1 argv st n inx)
  from "1.prems" show ?case
    by (subst (asm) keynum_keys.simps)
      (auto split: if_splits sum.splits simp: map_sum_def dest: argv_at_fault "1.IH")
qed

lemma find_keys_fault: "\<lbrakk>spec_wf s; find_keys argv s b = Inl e\<rbrakk> \<Longrightarrow> key_fault e"
  by (auto simp: find_keys_def spec_wf_def Let_def split: if_splits sum.splits
      dest: range_keys_fault keynum_keys_fault argv_at_fault)
    (auto simp: key_fault_def)

lemma begin_search_no_fault: "spec_wf s \<Longrightarrow> begin_search argv s \<noteq> Inl e"
  by (auto simp: begin_search_def spec_wf_def)

lemma specs_keys_fault:
  "\<lbrakk>\<forall>s \<in> set ss. spec_wf s; specs_keys argv ss = Inl e\<rbrakk> \<Longrightarrow> key_fault e"
  by (induction ss)
    (auto split: sum.splits option.splits prod.splits simp: map_sum_def begin_search_no_fault
      dest: find_keys_fault)

text \<open>A range yields the arithmetic progression of its positions.\<close>

definition progression :: "int \<Rightarrow> int \<Rightarrow> nat \<Rightarrow> int list" where
  "progression b st n = map (\<lambda>j. b + int j * st) [0..<n]"

lemma progression_Suc: "progression b st (Suc n) = b # progression (b + st) st n"
proof -
  have "[0..<Suc n] = 0 # map Suc [0..<n]" by (simp add: map_Suc_upt upt_conv_Cons)
  then show ?thesis by (simp add: progression_def algebra_simps)
qed

lemma range_keys_progression:
  assumes "1 \<le> st" "0 \<le> inx" "l < argc argv" "l - inx < lim" "0 < lim"
  shows "range_keys argv l st lim inx =
    (let ps = progression inx st (if inx \<le> l then nat ((l - inx) div st + 1) else 0)
     in Inr (map (\<lambda>i. argv ! nat i) ps, map (\<lambda>i. i + 1) ps))"
  using assms
proof (induction argv l st lim inx rule: range_keys.induct)
  case (1 argv l st lim inx)
  show ?case
  proof (cases "inx \<le> l")
    case False
    then show ?thesis by (subst range_keys.simps) (simp add: progression_def)
  next
    case True
    define n where "n = nat ((l - inx) div st)"
    have count: "(if inx + st \<le> l then nat ((l - (inx + st)) div st + 1) else 0) = n"
    proof (cases "inx + st \<le> l")
      case True
      have "(l - (inx + st)) div st = (l - inx) div st - 1"
        using "1.prems"(1) div_add_self2 [of st "l - (inx + st)"] by simp
      then show ?thesis using True by (simp add: n_def)
    next
      case False
      then show ?thesis using True "1.prems"(1) by (simp add: n_def div_pos_pos_trivial)
    qed
    have at: "argv_at argv inx = Inr (argv ! nat inx)"
      using "1.prems" True by (simp add: argv_at_def)
    have "nat ((l - inx) div st + 1) = Suc n"
      using True "1.prems"(1) by (simp add: n_def nat_add_distrib pos_imp_zdiv_nonneg_iff)
    moreover have "range_keys argv l st (lim - 1) (inx + st) =
        Inr (map (\<lambda>i. argv ! nat i) (progression (inx + st) st n),
             map (\<lambda>i. i + 1) (progression (inx + st) st n))"
    proof (cases "0 < lim - 1")
      case True
      then show ?thesis
        using "1.IH" [of "argv ! nat inx"] "1.prems" \<open>inx \<le> l\<close> at count by (simp add: Let_def)
    next
      case False
      then have "n = 0" using "1.prems" True by (simp add: n_def div_pos_pos_trivial)
      then show ?thesis using False by (subst range_keys.simps) (simp add: progression_def)
    qed
    ultimately show ?thesis
      using True "1.prems" at
      by (subst range_keys.simps) (simp add: progression_Suc consKey_def Let_def)
  qed
qed

section \<open>Facts about slots\<close>

text \<open>
  The rule of the Redis Cluster specification: if the key has an opening brace with a closing
  brace behind it, and something between the first of each, only that part is hashed.
\<close>

definition redis_hash_part :: "string \<Rightarrow> string" where
  "redis_hash_part key =
     (let after = tl (dropWhile (\<lambda>c. c \<noteq> CHR ''{'') key);
          tag = takeWhile (\<lambda>c. c \<noteq> CHR ''}'') after
      in if CHR ''{'' \<in> set key \<and> CHR ''}'' \<in> set after \<and> tag \<noteq> [] then tag else key)"

lemma until_close_eq:
  "until_close s = (if CHR ''}'' \<in> set s then Some (takeWhile (\<lambda>c. c \<noteq> CHR ''}'') s) else None)"
  by (induction s) auto

lemma findHashTag_no_close: "CHR ''}'' \<notin> set s \<Longrightarrow> findHashTag s = []"
  by (induction s) (auto simp: until_close_eq)

lemma findHashTag_eq:
  "findHashTag key =
     (if CHR ''{'' \<in> set key \<and> CHR ''}'' \<in> set (tl (dropWhile (\<lambda>c. c \<noteq> CHR ''{'') key))
      then takeWhile (\<lambda>c. c \<noteq> CHR ''}'') (tl (dropWhile (\<lambda>c. c \<noteq> CHR ''{'') key)) else [])"
proof (induction key)
  case Nil then show ?case by simp
next
  case (Cons c cs)
  then show ?case
    by (cases "c = CHR ''{''") (auto simp: until_close_eq findHashTag_no_close)
qed

section \<open>Properties\<close>

text \<open>
  C29. Whenever \<^verbatim>\<open>CalcKeys\<close> succeeds, the keys it reports are the arguments at the (one-based)
  positions it reports, in the same order; each position is behind the command name and within
  the arguments.
\<close>
theorem CalcKeys_keys_at_indexes:
  assumes "CalcKeys argv = Inr r"
  shows "ck_keys r = map (\<lambda>i. argv ! nat (i - 1)) (keysIndexes r) \<and>
         (\<forall>i \<in> set (keysIndexes r). 2 \<le> i \<and> i \<le> int (length argv))"
proof (cases "redisCommands (cmd_name argv)")
  case None
  with assms show ?thesis by (auto simp: CalcKeys_def split: if_splits)
next
  case (Some c)
  with assms obtain ks "is" where "specs_keys argv (cmd_keySpec c) = Inr (ks, is)"
    and r: "ck_keys r = ks" "keysIndexes r = is"
    by (auto simp: CalcKeys_def split: if_splits sum.splits)
  then have "keys_ok argv (ks, is)" using specs_keys_ok redisCommands_spec_wf [OF Some] by blast
  with r show ?thesis by (simp add: keys_ok_def)
qed

text \<open>A command with its entry of the table.\<close>

lemma CalcKeys_found:
  assumes "cmd_name argv = name" "redisCommands name = Some c" "specs_keys argv (cmd_keySpec c) = r" "argv \<noteq> []"
  shows "CalcKeys argv = map_sum id (\<lambda>(ks, is). \<lparr>cmaName = name, ck_group = cmd_group c, ck_keys = ks, keysIndexes = is\<rparr>) r"
  using assms by (auto simp: CalcKeys_def split: sum.splits)

theorem CalcKeys_keys_at_indexes_witness:
  "\<exists>r. CalcKeys [''set'', ''k'', ''v''] = Inr r \<and> ck_keys r = [''k''] \<and> keysIndexes r = [2] \<and>
       ck_keys r = map (\<lambda>i. [''set'', ''k'', ''v''] ! nat (i - 1)) (keysIndexes r)"
proof -
  have "cmd_name [''set'', ''k'', ''v''] = ''SET''" by code_simp
  moreover have "specs_keys [''set'', ''k'', ''v''] [spec ''index'' 1 '''' 0 ''range'' 0 1 0 0 0 0] = Inr ([''k''], [2])" by code_simp
  ultimately have ok: "CalcKeys [''set'', ''k'', ''v''] =
      Inr \<lparr>cmaName = ''SET'', ck_group = ''STRING'', ck_keys = [''k''], keysIndexes = [2]\<rparr>"
    using CalcKeys_found [OF _ redisCommands_SET] by simp
  show ?thesis using CalcKeys_keys_at_indexes [OF ok] ok by simp
qed

text \<open>
  C30. The table never drives the interpreter into one of its two ``wrong type'' exits: on a
  non-empty command \<^verbatim>\<open>CalcKeys\<close> can only fail on missing arguments or on a key count that is
  not a number.
\<close>
theorem CalcKeys_faults:
  assumes "CalcKeys argv = Inl e"
  shows "e \<in> {RuntimePanic ''index out of range'', LogPanicf ''keynumInx wrong'',
               LogPanicf ''strconv.Atoi''}"
proof (cases "argv = [] \<or> redisCommands (cmd_name argv) = None")
  case True
  with assms show ?thesis by (auto simp: CalcKeys_def split: if_splits)
next
  case False
  then obtain c where c: "redisCommands (cmd_name argv) = Some c" by auto
  with assms False have "specs_keys argv (cmd_keySpec c) = Inl e"
    by (auto simp: CalcKeys_def split: sum.splits)
  then have "key_fault e" using specs_keys_fault redisCommands_spec_wf [OF c] by blast
  then show ?thesis by (simp add: key_fault_def)
qed

theorem CalcKeys_faults_witness:
  "CalcKeys [''GET''] = Inl (RuntimePanic ''index out of range'') \<and>
   RuntimePanic ''index out of range'' \<in> {RuntimePanic ''index out of range'',
     LogPanicf ''keynumInx wrong'', LogPanicf ''strconv.Atoi''}"
proof -
  have "cmd_name [''GET''] = ''GET''" by code_simp
  moreover have "specs_keys [''GET''] [spec ''index'' 1 '''' 0 ''range'' 0 1 0 0 0 0] = Inl (RuntimePanic ''index out of range'')" by code_simp
  ultimately have f: "CalcKeys [''GET''] = Inl (RuntimePanic ''index out of range'')"
    using CalcKeys_found [OF _ redisCommands_GET] by simp
  show ?thesis using CalcKeys_faults [OF f] f by simp
qed

text \<open>
  For a command whose table entry is one range specification at a fixed index (no limit), the
  keys are exactly the arguments at begin, begin + step, begin + 2 * step and so on up to the
  last key position, in order: all of them and nothing else.
\<close>
theorem CalcKeys_range:
  assumes "argv \<noteq> []" and "redisCommands (cmd_name argv) = Some c" and "cmd_keySpec c = [s]"
    and "beginSearchType s = ''index''" and "findKeysType s = ''range''"
    and "- 2 < findKeysRangeLimit s" and "length argv < 2147483647"
    and "l = (if findKeysRangeLastKey s \<ge> 0 then beginSearchIndex s + findKeysRangeLastKey s
              else int (length argv) + findKeysRangeLastKey s)"
    and "beginSearchIndex s \<le> l" and "l < int (length argv)"
    and "ps = progression (beginSearchIndex s) (findKeysRangeKeyStep s)
                (nat ((l - beginSearchIndex s) div findKeysRangeKeyStep s + 1))"
  shows "CalcKeys argv = Inr \<lparr>cmaName = cmd_name argv, ck_group = cmd_group c,
           ck_keys = map (\<lambda>i. argv ! nat i) ps, keysIndexes = map (\<lambda>i. i + 1) ps\<rparr>"
proof -
  have wf: "spec_wf s" using redisCommands_spec_wf [OF assms(2)] assms(3) by simp
  then have "1 \<le> findKeysRangeKeyStep s" "1 \<le> beginSearchIndex s"
    using assms(4,5) by (auto simp: spec_wf_def)
  then have "range_keys argv l (findKeysRangeKeyStep s) maxInt32 (beginSearchIndex s)
      = Inr (map (\<lambda>i. argv ! nat i) ps, map (\<lambda>i. i + 1) ps)"
    using range_keys_progression [of "findKeysRangeKeyStep s" "beginSearchIndex s" l argv maxInt32] assms(7,9,10,11)
    by (simp add: maxInt32_def Let_def)
  then have "specs_keys argv [s] = Inr (map (\<lambda>i. argv ! nat i) ps, map (\<lambda>i. i + 1) ps)"
    using assms(4,5,6,8) by (simp add: begin_search_def find_keys_def)
  then show ?thesis using assms(1,2,3) by (simp add: CalcKeys_def)
qed

theorem CalcKeys_range_witness:
  "CalcKeys [''MSET'', ''a'', ''1'', ''b'', ''2''] =
     Inr \<lparr>cmaName = ''MSET'', ck_group = ''STRING'', ck_keys = [''a'', ''b''], keysIndexes = [2, 4]\<rparr>"
proof -
  let ?argv = "[''MSET'', ''a'', ''1'', ''b'', ''2'']"
  let ?s = "spec ''index'' 1 '''' 0 ''range'' (-1) 2 0 0 0 0"
  have name: "cmd_name ?argv = ''MSET''" by code_simp
  have c: "redisCommands (cmd_name ?argv) = Some (cmd ''STRING'' [?s])"
    unfolding name by (rule redisCommands_MSET)
  have ps: "progression 1 2 2 = [1, 3]" by (simp add: progression_def upt_rec)
  show ?thesis
    using CalcKeys_range [of ?argv "cmd ''STRING'' [?s]" ?s 4 "progression 1 2 2"] c name ps by simp
qed

text \<open>
  C31. The slot of a key is the one of the Redis Cluster specification: the CRC16 of the hash tag
  (or of the whole key, when it has no non-empty tag) modulo 16384.
\<close>
theorem keyHash_is_redis_slot:
  "uint (keyHash key) = uint (Crc16 (redis_hash_part key)) mod 16384 \<and> uint (keyHash key) < 16384"
proof -
  have part: "(if length (findHashTag key) > 0 then findHashTag key else key) = redis_hash_part key"
    by (simp add: findHashTag_eq redis_hash_part_def Let_def)
  have "(0x3FFF :: 16 word) = mask 14" by (simp add: mask_eq_exp_minus_1)
  then have "keyHash key = take_bit 14 (Crc16 (redis_hash_part key))"
    by (simp only: keyHash_def part take_bit_eq_mask)
  then have "uint (keyHash key) = take_bit 14 (uint (Crc16 (redis_hash_part key)))"
    by (simp only: unsigned_take_bit_eq)
  then show ?thesis by (simp add: take_bit_eq_mod)
qed

text \<open>
  The stream commands keep a positive limit factor (2) in the table, but \<^verbatim>\<open>CalcKeys\<close> only
  honours factors of -2 and below: for \<^verbatim>\<open>XREAD\<close> every argument behind \<^verbatim>\<open>STREAMS\<close>, the entry IDs
  included, is reported as a key.
\<close>
theorem XREAD_ids_reported_as_keys:
  "CalcKeys [''XREAD'', ''STREAMS'', ''s'', ''0-0''] =
     Inr \<lparr>cmaName = ''XREAD'', ck_group = ''STREAM'', ck_keys = [''s'', ''0-0''],
          keysIndexes = [3, 4]\<rparr>"
proof -
  let ?argv = "[''XREAD'', ''STREAMS'', ''s'', ''0-0'']"
  have "cmd_name ?argv = ''XREAD''" by code_simp
  moreover have "specs_keys ?argv [spec ''keyword'' 0 ''STREAMS'' 1 ''range'' (- 1) 1 2 0 0 0] = Inr ([''s'', ''0-0''], [3, 4])" by code_simp
  ultimately show ?thesis using CalcKeys_found [OF _ redisCommands_XREAD] by simp
qed

end
