(* ===== verification/Resp.thy ===== *)
theory Resp
  imports GoLib
begin

text \<open>
  \<^verbatim>\<open>internal/client/proto\<close>: the RESP writer (\<open>WriteArgs\<close>) and reader (\<open>ReadReply\<close> and its
  relatives, the attribute-skipping \<open>Discard\<close> included), and the conversions of
  \<^verbatim>\<open>internal/client/reply.go\<close>.

  A reader returns a Go error as a value and leaves the stream where it stopped, so its result
  type is \<open>(rerr + 'a) reader\<close>; the outer sum keeps Go panics.  A stream is what the connection
  still delivers; its end is the error \<^verbatim>\<open>io.EOF\<close>.  Replies nest, so the recursive readers carry
  a depth bound; \<open>ReadReply_total\<close> below shows that the length of the input is always enough and
  that a bigger bound changes nothing.

  Parsing and printing of floating-point numbers is a parameter (\<open>pf\<close>, \<open>ff\<close>), a float being its
  64 bits; sizes of allocations are not bounded, except where the length computation itself
  overflows.
\<close>

section \<open>Errors and replies\<close>

text \<open>
  \<^verbatim>\<open>RedisError\<close> is an error string sent by the server (or \<^verbatim>\<open>proto.Nil\<close>, which is the one with the
  text ``redis: nil''); every other error is a \<open>GoError\<close>.
\<close>

datatype rerr = RedisError string | GoError string

abbreviation NilErr :: rerr where "NilErr \<equiv> RedisError ''redis: nil''"

datatype reply =
    RStr string | RInt int | RFloat "64 word" | RBool bool | RBigInt int
  | RArr "reply list" | RMap "(reply \<times> reply) list" | RNil | RErr string

type_synonym 'a erd = "(rerr + 'a) reader"
type_synonym parse_float = "string \<Rightarrow> (64 word) option"

definition okE :: "'a \<Rightarrow> 'a erd" where "okE x = retR (Inr x)"
definition errE :: "rerr \<Rightarrow> 'a erd" where "errE e = retR (Inl e)"

definition bindE :: "'a erd \<Rightarrow> ('a \<Rightarrow> 'b erd) \<Rightarrow> 'b erd" where
  "bindE p f = bindR p (\<lambda>r. case r of Inl e \<Rightarrow> errE e | Inr x \<Rightarrow> f x)"

text \<open>\<^verbatim>\<open>return parseInt(...)\<close> and the like: a pure conversion with an error.\<close>

definition numE :: "num_err + 'a \<Rightarrow> 'a erd" where
  "numE r = (case r of Inl _ \<Rightarrow> errE (GoError ''strconv'') | Inr v \<Rightarrow> okE v)"

section \<open>Lines and lengths\<close>

text \<open>
  \<^verbatim>\<open>readLine\<close>: up to and including the next newline, however long (a full buffer is continued by
  \<^verbatim>\<open>ReadBytes\<close>); the line must be longer than its line ending, which must be CR LF.
\<close>

definition readLine :: "string erd" where
  "readLine s =
     (if CHR 0x0A \<notin> set s then Inr (Inl (GoError ''EOF''), [])
      else let b = takeWhile (\<lambda>c. c \<noteq> CHR 0x0A) s; rest = drop (length b + 1) s
           in if length b + 1 \<le> 2 \<or> last b \<noteq> CHR 0x0D
              then Inr (Inl (GoError ''redis: invalid reply''), rest)
              else Inr (Inr (butlast b), rest))"

definition sized :: "char \<Rightarrow> bool" where
  "sized c \<longleftrightarrow> c \<in> {CHR ''$'', CHR ''='', CHR ''!'', CHR ''*'', CHR ''~'', CHR ''>'', CHR ''%'', CHR 0x7C}"

definition replyLen :: "string \<Rightarrow> rerr + int" where
  "replyLen line =
     (case Atoi (tl line) of Inl _ \<Rightarrow> Inl (GoError ''strconv'')
      | Inr n \<Rightarrow> if n < -1 then Inl (GoError ''redis: invalid reply'')
                else if sized (hd line) \<and> n = -1 then Inl NilErr
                else Inr n)"

definition IsNilReply :: "string \<Rightarrow> bool" where
  "IsNilReply line \<longleftrightarrow> length line = 3 \<and> (hd line = CHR ''$'' \<or> hd line = CHR ''*'') \<and>
     line ! 1 = CHR ''-'' \<and> line ! 2 = CHR ''1''"

definition lenE :: "string \<Rightarrow> int erd" where
  "lenE line = retR (replyLen line)"

text \<open>\<^verbatim>\<open>io.ReadFull\<close> into \<^verbatim>\<open>make([]byte, n)\<close>.\<close>

definition readFullE :: "int \<Rightarrow> string erd" where
  "readFullE n s =
     (if n < 0 then Inl (RuntimePanic ''makeslice: len out of range'')
      else if nat n \<le> length s then Inr (Inr (take (nat n) s), drop (nat n) s)
      else Inr (Inl (GoError ''unexpected EOF''), []))"

text \<open>\<^verbatim>\<open>n + 2\<close> in 64-bit arithmetic, for the payload and its line ending.\<close>

definition plus2 :: "int \<Rightarrow> int" where
  "plus2 n = (if n + 2 > maxInt64 then n + 2 - 18446744073709551616 else n + 2)"

definition readStringReply :: "string \<Rightarrow> string erd" where
  "readStringReply line =
     bindE (lenE line) (\<lambda>n. bindE (readFullE (plus2 n)) (\<lambda>b. okE (take (nat n) b)))"

definition readVerb :: "string \<Rightarrow> string erd" where
  "readVerb line = bindE (readStringReply line) (\<lambda>s.
     if length s < 4 \<or> s ! 3 \<noteq> CHR '':'' then errE (GoError ''redis: can't parse verbatim string reply'')
     else okE (drop 4 s))"

definition posInf :: "64 word" where "posInf = 0x7FF0000000000000"
definition negInf :: "64 word" where "negInf = 0xFFF0000000000000"

definition floatE :: "parse_float \<Rightarrow> string \<Rightarrow> (64 word) erd" where
  "floatE pf v = (case pf v of None \<Rightarrow> errE (GoError ''strconv.ParseFloat'') | Some f \<Rightarrow> okE f)"

definition readFloat :: "parse_float \<Rightarrow> string \<Rightarrow> (64 word) erd" where
  "readFloat pf line =
     (if tl line = ''inf'' then okE posInf
      else if tl line = ''-inf'' then okE negInf
      else floatE pf (tl line))"

definition readBool :: "string \<Rightarrow> bool erd" where
  "readBool line =
     (if tl line = ''t'' then okE True
      else if tl line = ''f'' then okE False
      else errE (GoError ''redis: can't parse bool reply''))"

text \<open>\<^verbatim>\<open>big.Int.SetString(s, 10)\<close>: an optional sign and at least one digit, without a range.\<close>

definition bigSetString :: "string \<Rightarrow> int option" where
  "bigSetString s = (case split_sign s of (neg, ds) \<Rightarrow>
     if ds \<noteq> [] \<and> list_all is_digit ds
     then (let u = foldl (\<lambda>n c. n * 10 + int (digit_val c)) 0 ds in Some (if neg then - u else u))
     else None)"

definition readBigInt :: "string \<Rightarrow> int erd" where
  "readBigInt line = (case bigSetString (tl line) of
     None \<Rightarrow> errE (GoError ''redis: can't parse bigInt reply'') | Some i \<Rightarrow> okE i)"

section \<open>Discarding\<close>

text \<open>\<^verbatim>\<open>bufio.Reader.Discard\<close>.\<close>

definition discardBytes :: "int \<Rightarrow> unit erd" where
  "discardBytes n s =
     (if n < 0 then Inr (Inl (GoError ''bufio: negative count''), s)
      else if nat n \<le> length s then Inr (Inr (), drop (nat n) s)
      else Inr (Inl (GoError ''EOF''), []))"

fun loopE :: "nat \<Rightarrow> unit erd \<Rightarrow> unit erd" where
  "loopE 0 p = okE ()"
| "loopE (Suc n) p = bindE p (\<lambda>_. loopE n p)"

definition times2 :: "int \<Rightarrow> int" where
  "times2 n = (if n * 2 > maxInt64 then n * 2 - 18446744073709551616 else n * 2)"

text \<open>The second switch of \<^verbatim>\<open>Discard\<close>; \<open>nxt\<close> is \<^verbatim>\<open>DiscardNext\<close>.\<close>

definition discardBody :: "unit erd \<Rightarrow> string \<Rightarrow> int \<Rightarrow> unit erd" where
  "discardBody nxt line n =
     (if hd line \<in> {CHR ''!'', CHR ''$'', CHR ''=''} then discardBytes (plus2 n)
      else if hd line \<in> {CHR ''*'', CHR ''~'', CHR ''>''} then loopE (nat n) nxt
      else if hd line \<in> {CHR ''%'', CHR 0x7C} then loopE (nat (times2 n)) nxt
      else errE (GoError ''redis: can't parse''))"

fun Discard_d :: "nat \<Rightarrow> string \<Rightarrow> unit erd" where
  "Discard_d 0 line = failR OutOfFuel"
| "Discard_d (Suc d) line =
     (if line = [] then errE (GoError ''redis: invalid line'')
      else if hd line \<in> {CHR ''+'', CHR ''-'', CHR '':'', CHR ''_'', CHR '','', CHR ''#'', CHR ''(''}
      then okE ()
      else (case replyLen line of
        Inl e \<Rightarrow> if e = NilErr then discardBody (bindE readLine (Discard_d d)) line 0 else errE e
      | Inr n \<Rightarrow> discardBody (bindE readLine (Discard_d d)) line n))"

definition DiscardNext_d :: "nat \<Rightarrow> unit erd" where
  "DiscardNext_d d = bindE readLine (Discard_d d)"

section \<open>Reading a reply\<close>

fun ReadLine_d :: "nat \<Rightarrow> string erd" where
  "ReadLine_d 0 = failR OutOfFuel"
| "ReadLine_d (Suc d) = bindE readLine (\<lambda>line.
     if hd line = CHR ''-'' then errE (RedisError (tl line))
     else if hd line = CHR ''_'' then errE NilErr
     else if hd line = CHR ''!'' then bindE (readStringReply line) (\<lambda>m. errE (RedisError m))
     else if hd line = CHR 0x7C then bindE (Discard_d d line) (\<lambda>_. ReadLine_d d)
     else if IsNilReply line then errE NilErr
     else okE line)"

text \<open>The loop of \<^verbatim>\<open>readSlice\<close>: an element that is a Redis error becomes a value.\<close>

definition elemE :: "reply erd \<Rightarrow> reply erd" where
  "elemE p = bindR p (\<lambda>r. case r of
     Inr v \<Rightarrow> okE v
   | Inl (RedisError m) \<Rightarrow> okE (if m = ''redis: nil'' then RNil else RErr m)
   | Inl e \<Rightarrow> errE e)"

fun sliceE :: "nat \<Rightarrow> reply erd \<Rightarrow> reply list erd" where
  "sliceE 0 p = okE []"
| "sliceE (Suc n) p = bindE (elemE p) (\<lambda>v. bindE (sliceE n p) (\<lambda>vs. okE (v # vs)))"

text \<open>
  Go map keys: comparing floats is IEEE equality, two big integers are different pointers, and
  an array or a map as a key panics.
\<close>

definition isNaN :: "64 word \<Rightarrow> bool" where
  "isNaN w \<longleftrightarrow> w AND 0x7FFFFFFFFFFFFFFF > 0x7FF0000000000000"

definition float_eq :: "64 word \<Rightarrow> 64 word \<Rightarrow> bool" where
  "float_eq a b \<longleftrightarrow> \<not> isNaN a \<and> \<not> isNaN b \<and>
     (a = b \<or> a AND 0x7FFFFFFFFFFFFFFF = 0 \<and> b AND 0x7FFFFFFFFFFFFFFF = 0)"

fun key_eq :: "reply \<Rightarrow> reply \<Rightarrow> bool" where
  "key_eq (RFloat a) (RFloat b) = float_eq a b"
| "key_eq (RBigInt a) (RBigInt b) = False"
| "key_eq a b = (a = b)"

fun hashable :: "reply \<Rightarrow> bool" where
  "hashable (RArr xs) = False"
| "hashable (RMap m) = False"
| "hashable v = True"

fun map_put :: "(reply \<times> reply) list \<Rightarrow> reply \<Rightarrow> reply \<Rightarrow> (reply \<times> reply) list" where
  "map_put [] k v = [(k, v)]"
| "map_put ((k', v') # m) k v = (if key_eq k' k then (k', v) # m else (k', v') # map_put m k v)"

fun mapE :: "nat \<Rightarrow> reply erd \<Rightarrow> (reply \<times> reply) list \<Rightarrow> (reply \<times> reply) list erd" where
  "mapE 0 p m = okE m"
| "mapE (Suc n) p m = bindE p (\<lambda>k. bindE (elemE p) (\<lambda>v.
     if hashable k then mapE n p (map_put m k v)
     else failR (RuntimePanic ''hash of unhashable type'')))"

definition readSlice :: "reply erd \<Rightarrow> string \<Rightarrow> reply list erd" where
  "readSlice p line = bindE (lenE line) (\<lambda>n.
     if n < 0 then failR (RuntimePanic ''makeslice: len out of range'') else sliceE (nat n) p)"

definition readMap :: "reply erd \<Rightarrow> string \<Rightarrow> (reply \<times> reply) list erd" where
  "readMap p line = bindE (lenE line) (\<lambda>n. mapE (nat n) p [])"

fun ReadReply_d :: "parse_float \<Rightarrow> nat \<Rightarrow> reply erd" where
  "ReadReply_d pf 0 = failR OutOfFuel"
| "ReadReply_d pf (Suc d) = bindE (ReadLine_d (Suc d)) (\<lambda>line.
     if hd line = CHR ''+'' then okE (RStr (tl line))
     else if hd line = CHR '':'' then bindE (numE (ParseInt (tl line))) (\<lambda>i. okE (RInt i))
     else if hd line = CHR '','' then bindE (readFloat pf line) (\<lambda>f. okE (RFloat f))
     else if hd line = CHR ''#'' then bindE (readBool line) (\<lambda>b. okE (RBool b))
     else if hd line = CHR ''('' then bindE (readBigInt line) (\<lambda>i. okE (RBigInt i))
     else if hd line = CHR ''$'' then bindE (readStringReply line) (\<lambda>s. okE (RStr s))
     else if hd line = CHR ''='' then bindE (readVerb line) (\<lambda>s. okE (RStr s))
     else if hd line \<in> {CHR ''*'', CHR ''~'', CHR ''>''} then
       bindE (readSlice (ReadReply_d pf d) line) (\<lambda>vs. okE (RArr vs))
     else if hd line = CHR ''%'' then
       bindE (readMap (ReadReply_d pf d) line) (\<lambda>m. okE (RMap m))
     else errE (GoError ''redis: can't parse''))"

text \<open>The exported readers: the depth bound is the length of the input.\<close>

definition Discard :: "string \<Rightarrow> unit erd" where
  "Discard line s = Discard_d (Suc (length s)) line s"

definition DiscardNext :: "unit erd" where
  "DiscardNext s = DiscardNext_d (Suc (length s)) s"

definition ReadLine :: "string erd" where
  "ReadLine s = ReadLine_d (Suc (length s)) s"

definition ReadReply :: "parse_float \<Rightarrow> reply erd" where
  "ReadReply pf s = ReadReply_d pf (Suc (length s)) s"

text \<open>
  \<^verbatim>\<open>PeekReplyType\<close>: the first byte of the next reply that is no attribute; attributes are
  consumed, the reply itself is not.
\<close>

fun PeekReplyType_d :: "nat \<Rightarrow> char erd" where
  "PeekReplyType_d 0 = failR OutOfFuel"
| "PeekReplyType_d (Suc d) = (\<lambda>s.
     if s = [] then Inr (Inl (GoError ''EOF''), [])
     else if hd s = CHR 0x7C then bindE (DiscardNext_d d) (\<lambda>_. PeekReplyType_d d) s
     else Inr (Inr (hd s), s))"

definition PeekReplyType :: "char erd" where
  "PeekReplyType s = PeekReplyType_d (Suc (length s)) s"

definition ReadInt :: "int erd" where
  "ReadInt = bindE ReadLine (\<lambda>line.
     if hd line \<in> {CHR '':'', CHR ''+''} then numE (ParseInt (tl line))
     else if hd line = CHR ''$'' then bindE (readStringReply line) (\<lambda>s. numE (ParseInt s))
     else if hd line = CHR ''('' then bindE (readBigInt line) (\<lambda>b.
       if - maxInt64 - 1 \<le> b \<and> b \<le> maxInt64 then okE b
       else errE (GoError ''bigInt value out of range''))
     else errE (GoError ''redis: can't parse int reply''))"

definition ReadFloat :: "parse_float \<Rightarrow> (64 word) erd" where
  "ReadFloat pf = bindE ReadLine (\<lambda>line.
     if hd line = CHR '','' then readFloat pf line
     else if hd line = CHR ''+'' then floatE pf (tl line)
     else if hd line = CHR ''$'' then bindE (readStringReply line) (floatE pf)
     else errE (GoError ''redis: can't parse float reply''))"

definition ReadString :: "string erd" where
  "ReadString = bindE ReadLine (\<lambda>line.
     if hd line \<in> {CHR ''+'', CHR '':'', CHR '',''} then okE (tl line)
     else if hd line = CHR ''$'' then readStringReply line
     else if hd line = CHR ''#'' then
       bindE (readBool line) (\<lambda>b. okE (if b then ''true'' else ''false''))
     else if hd line = CHR ''='' then readVerb line
     else if hd line = CHR ''('' then bindE (readBigInt line) (\<lambda>b. okE (Itoa b))
     else errE (GoError ''redis: can't parse reply reading string''))"

definition ReadBool :: "bool erd" where
  "ReadBool = bindE ReadString (\<lambda>s. okE (s = ''OK'' \<or> s = ''1'' \<or> s = ''true''))"

definition ReadSlice :: "parse_float \<Rightarrow> reply list erd" where
  "ReadSlice pf = bindE ReadLine (readSlice (ReadReply pf))"

definition ReadArrayLen :: "int erd" where
  "ReadArrayLen = bindE ReadLine (\<lambda>line.
     if hd line \<in> {CHR ''*'', CHR ''~'', CHR ''>''} then lenE line
     else errE (GoError ''redis: can't parse array/set/push reply''))"

definition ReadFixedArrayLen :: "int \<Rightarrow> unit erd" where
  "ReadFixedArrayLen fixedLen = bindE ReadArrayLen (\<lambda>n.
     if n \<noteq> fixedLen then errE (GoError ''redis: wrong number of elements in the array'') else okE ())"

definition ReadMapLen :: "int erd" where
  "ReadMapLen = bindE ReadLine (\<lambda>line.
     if hd line = CHR ''%'' then lenE line
     else if hd line \<in> {CHR ''*'', CHR ''~'', CHR ''>''} then bindE (lenE line) (\<lambda>n.
       if n mod 2 \<noteq> 0 then errE (GoError ''redis: the length of the array must be a multiple of 2'')
       else okE (n div 2))
     else errE (GoError ''redis: can't parse map reply''))"

definition ReadFixedMapLen :: "int \<Rightarrow> unit erd" where
  "ReadFixedMapLen fixedLen = bindE ReadMapLen (\<lambda>n.
     if n \<noteq> fixedLen then errE (GoError ''redis: wrong number of elements in the map'') else okE ())"

section \<open>Writing\<close>

text \<open>
  The dynamic type of an argument.  A time is given by its RFC3339 text, a binary marshaler by
  the result of its \<^verbatim>\<open>MarshalBinary\<close> (\<open>None\<close> for an error).
\<close>

datatype arg =
    ANil | AStr string | ABytes string | AInt int | AUint nat | AFloat "64 word" | ABool bool
  | ATime string | ADuration int | ABinary "string option" | AIP string | AOther

abbreviation crlf :: string where "crlf \<equiv> [CHR 0x0D, CHR 0x0A]"

definition writeLen :: "nat \<Rightarrow> string" where
  "writeLen n = FormatUint n @ crlf"

definition writeBytes :: "string \<Rightarrow> string" where
  "writeBytes b = CHR ''$'' # writeLen (length b) @ b @ crlf"

text \<open>What an argument puts on the wire; \<open>None\<close> is the marshalling error.\<close>

fun WriteArg :: "(64 word \<Rightarrow> string) \<Rightarrow> arg \<Rightarrow> string option" where
  "WriteArg ff ANil = Some (writeBytes '''')"
| "WriteArg ff (AStr v) = Some (writeBytes v)"
| "WriteArg ff (ABytes v) = Some (writeBytes v)"
| "WriteArg ff (AInt v) = Some (writeBytes (Itoa v))"
| "WriteArg ff (AUint v) = Some (writeBytes (FormatUint v))"
| "WriteArg ff (AFloat v) = Some (writeBytes (ff v))"
| "WriteArg ff (ABool v) = Some (writeBytes (Itoa (if v then 1 else 0)))"
| "WriteArg ff (ATime v) = Some (writeBytes v)"
| "WriteArg ff (ADuration v) = Some (writeBytes (Itoa v))"
| "WriteArg ff (ABinary v) = map_option writeBytes v"
| "WriteArg ff (AIP v) = Some (writeBytes v)"
| "WriteArg ff AOther = None"

text \<open>
  \<^verbatim>\<open>WriteArgs\<close> stops at the first argument it cannot marshal; what was written before stays in
  the buffer.  The flag says whether all went well.
\<close>

fun writeArgList :: "(64 word \<Rightarrow> string) \<Rightarrow> arg list \<Rightarrow> string \<times> bool" where
  "writeArgList ff [] = ([], True)"
| "writeArgList ff (a # as) =
     (case WriteArg ff a of None \<Rightarrow> ([], False)
      | Some w \<Rightarrow> (case writeArgList ff as of (ws, ok) \<Rightarrow> (w @ ws, ok)))"

definition WriteArgs :: "(64 word \<Rightarrow> string) \<Rightarrow> arg list \<Rightarrow> string \<times> bool" where
  "WriteArgs ff args =
     (case writeArgList ff args of (ws, ok) \<Rightarrow> (CHR ''*'' # writeLen (length args) @ ws, ok))"

section \<open>client/reply.go and client/func.go\<close>

definition reply_string :: "reply \<Rightarrow> string res" where
  "reply_string r = (case r of RStr s \<Rightarrow> Inr s | _ \<Rightarrow> Inl (RuntimePanic ''interface conversion''))"

fun strings_of :: "reply list \<Rightarrow> string list res" where
  "strings_of [] = Inr []"
| "strings_of (r # rs) =
     (case reply_string r of Inl e \<Rightarrow> Inl e | Inr s \<Rightarrow> map_sum id ((#) s) (strings_of rs))"

definition ArrayString :: "rerr + reply \<Rightarrow> string list res" where
  "ArrayString r = (case r of Inl _ \<Rightarrow> Inl (LogPanicf ''reply error'')
     | Inr (RArr rs) \<Rightarrow> strings_of rs
     | Inr _ \<Rightarrow> Inl (RuntimePanic ''interface conversion''))"

definition reply_String :: "rerr + reply \<Rightarrow> (rerr + string) res" where
  "reply_String r = (case r of Inl e \<Rightarrow> Inr (Inl e) | Inr v \<Rightarrow> map_sum id Inr (reply_string v))"

definition reply_Int64 :: "rerr + reply \<Rightarrow> (rerr + int) res" where
  "reply_Int64 r = (case r of Inl e \<Rightarrow> Inr (Inl e)
     | Inr (RInt i) \<Rightarrow> Inr (Inr i)
     | Inr _ \<Rightarrow> Inl (LogPanicf ''reply type is not int64 or int''))"

text \<open>\<^verbatim>\<open>EncodeArgv\<close>: strings never fail to marshal.\<close>

definition EncodeArgv :: "(64 word \<Rightarrow> string) \<Rightarrow> string list \<Rightarrow> string res" where
  "EncodeArgv ff argv = (case WriteArgs ff (map AStr argv) of
     (w, True) \<Rightarrow> Inr w | (w, False) \<Rightarrow> Inl (LogPanicf ''WriteArgs''))"

section \<open>The depth bound\<close>

text \<open>
  \<open>agree n p q\<close>: on inputs of at most \<open>n\<close> bytes the readers \<open>p\<close> and \<open>q\<close> do the same, do not run
  out of their depth bound and do not lengthen the input.
\<close>

definition agree :: "nat \<Rightarrow> 'a erd \<Rightarrow> 'a erd \<Rightarrow> bool" where
  "agree n p q \<longleftrightarrow> (\<forall>s. length s \<le> n \<longrightarrow> p s = q s \<and> p s \<noteq> Inl OutOfFuel \<and>
     (\<forall>r s'. p s = Inr (r, s') \<longrightarrow> length s' \<le> length s))"

lemma agreeD:
  assumes "agree n p q" "length s \<le> n"
  shows "p s = q s" "p s \<noteq> Inl OutOfFuel" "p s = Inr (r, s') \<Longrightarrow> length s' \<le> length s"
  using assms by (auto simp: agree_def)

named_theorems agree_intros

lemma agree_okE [agree_intros]: "agree n (okE x) (okE x)"
  by (auto simp: agree_def okE_def)

lemma agree_errE [agree_intros]: "agree n (errE x) (errE x)"
  by (auto simp: agree_def errE_def)

lemma agree_panic [agree_intros]: "e \<noteq> OutOfFuel \<Longrightarrow> agree n (failR e) (failR e)"
  by (auto simp: agree_def)

lemma agree_lenE [agree_intros]: "agree n (lenE l) (lenE l)"
  by (auto simp: agree_def lenE_def)

lemma agree_readFullE [agree_intros]: "agree n (readFullE k) (readFullE k)"
  by (auto simp: agree_def readFullE_def)

lemma agree_discardBytes [agree_intros]: "agree n (discardBytes k) (discardBytes k)"
  by (auto simp: agree_def discardBytes_def split: if_splits)

lemma agree_bindR:
  assumes p: "agree n p q" and f: "\<And>r. agree n (f r) (g r)"
  shows "agree n (bindR p f) (bindR q g)"
  unfolding agree_def
proof (intro allI impI)
  fix s :: string assume s: "length s \<le> n"
  note P = agreeD [OF p s]
  show "bindR p f s = bindR q g s \<and> bindR p f s \<noteq> Inl OutOfFuel \<and>
      (\<forall>r s'. bindR p f s = Inr (r, s') \<longrightarrow> length s' \<le> length s)"
  proof (cases "p s")
    case (Inl e)
    with P(1,2) show ?thesis by (auto simp: bindR_def split: sum.splits)
  next
    case (Inr a)
    then obtain x s1 where a: "p s = Inr (x, s1)" by (cases a) auto
    from P(3) [OF a] s have "length s1 \<le> length s" "length s1 \<le> n" by auto
    with agreeD [OF f, of s1 x] a P(1) show ?thesis by (auto intro: le_trans)
  qed
qed

lemma agree_bindE [agree_intros]:
  assumes "agree n p q" "\<And>x. agree n (f x) (g x)"
  shows "agree n (bindE p f) (bindE q g)"
  unfolding bindE_def using assms
  by (intro agree_bindR) (auto split: sum.splits intro: agree_intros)

lemma agree_elemE [agree_intros]:
  "agree n p q \<Longrightarrow> agree n (elemE p) (elemE q)"
  unfolding elemE_def
  by (intro agree_bindR) (auto split: sum.splits rerr.splits intro: agree_intros)

lemma agree_loopE [agree_intros]: "agree n p q \<Longrightarrow> agree n (loopE k p) (loopE k q)"
  by (induction k) (auto intro!: agree_intros)

lemma agree_sliceE [agree_intros]: "agree n p q \<Longrightarrow> agree n (sliceE k p) (sliceE k q)"
  by (induction k) (auto intro!: agree_intros)

lemma agree_mapE [agree_intros]: "agree n p q \<Longrightarrow> agree n (mapE k p m) (mapE k q m)"
  by (induction k arbitrary: m) (auto intro!: agree_intros)

lemma agree_discardBody [agree_intros]:
  "agree n p q \<Longrightarrow> agree n (discardBody p l k) (discardBody q l k)"
  by (auto simp: discardBody_def intro!: agree_intros)

lemma agree_readStringReply [agree_intros]: "agree n (readStringReply l) (readStringReply l)"
  by (auto simp: readStringReply_def intro!: agree_intros)

lemma agree_readVerb [agree_intros]: "agree n (readVerb l) (readVerb l)"
  by (auto simp: readVerb_def intro!: agree_intros)

lemma agree_readFloat [agree_intros]: "agree n (readFloat pf l) (readFloat pf l)"
  by (auto simp: readFloat_def floatE_def split: option.splits intro!: agree_intros)

lemma agree_readBool [agree_intros]: "agree n (readBool l) (readBool l)"
  by (auto simp: readBool_def intro!: agree_intros)

lemma agree_readBigInt [agree_intros]: "agree n (readBigInt l) (readBigInt l)"
  by (auto simp: readBigInt_def split: option.splits intro!: agree_intros)

lemma agree_numE [agree_intros]: "agree n (numE l) (numE l)"
  by (auto simp: numE_def split: sum.splits intro!: agree_intros)

text \<open>A line takes at least three bytes from the input: this is what every recursion rests on.\<close>

lemma readLine_total: "readLine s \<noteq> Inl e"
  by (auto simp: readLine_def Let_def)

lemma readLine_shorter:
  "readLine s = Inr (r, s') \<Longrightarrow> length s' \<le> length s"
  "readLine s = Inr (Inr l, s') \<Longrightarrow> length s' < length s"
  by (auto simp: readLine_def Let_def length_greater_0_conv split: if_splits
      intro!: diff_less)

lemma agree_step:
  assumes p: "agree (Suc n) p q"
    and shorter: "\<And>s l s'. length s \<le> Suc n \<Longrightarrow> p s = Inr (Inr l, s') \<Longrightarrow> length s' < length s"
    and f: "\<And>l. agree n (f l) (g l)"
  shows "agree (Suc n) (bindE p f) (bindE q g)"
  unfolding agree_def
proof (intro allI impI)
  fix s :: string assume s: "length s \<le> Suc n"
  note P = agreeD [OF p s]
  show "bindE p f s = bindE q g s \<and> bindE p f s \<noteq> Inl OutOfFuel \<and>
      (\<forall>r s'. bindE p f s = Inr (r, s') \<longrightarrow> length s' \<le> length s)"
  proof (cases "\<exists>l s1. p s = Inr (Inr l, s1)")
    case True
    then obtain l s1 where l: "p s = Inr (Inr l, s1)" by blast
    from shorter [OF s l] s have "length s1 \<le> n" "length s1 \<le> length s" by auto
    with agreeD [OF f, of s1 l] l P(1) show ?thesis
      by (auto simp: bindE_def bindR_def intro: le_trans)
  next
    case False
    with P show ?thesis
      by (auto simp: bindE_def bindR_def errE_def split: sum.splits)
  qed
qed

lemma agree_readLine [agree_intros]: "agree n readLine readLine"
  using readLine_total readLine_shorter by (fastforce simp: agree_def)

lemma agree_line:
  assumes "\<And>l. agree n (f l) (g l)"
  shows "agree (Suc n) (bindE readLine f) (bindE readLine g)"
  using agree_readLine readLine_shorter(2) assms by (rule agree_step)

lemma agree_line_0: "agree 0 (bindE readLine f) (bindE readLine g)"
  by (auto simp: agree_def readLine_def bindE_def errE_def)

lemma Discard_d_agree: "n < d \<Longrightarrow> n < e \<Longrightarrow> agree n (Discard_d d l) (Discard_d e l)"
proof (induction n arbitrary: d e l)
  case 0
  then obtain d' e' where "d = Suc d'" "e = Suc e'" by (cases d; cases e) auto
  then show ?case by (auto split: sum.splits intro!: agree_intros agree_line_0)
next
  case (Suc n)
  then obtain d' e' where de: "d = Suc d'" "e = Suc e'" "n < d'" "n < e'"
    by (cases d; cases e) auto
  from Suc.IH [OF de(3,4)] have "agree (Suc n) (bindE readLine (Discard_d d')) (bindE readLine (Discard_d e'))"
    by (rule agree_line)
  with de show ?case by (auto split: sum.splits intro!: agree_intros)
qed

lemma ReadLine_d_agree: "n < d \<Longrightarrow> n < e \<Longrightarrow> agree n (ReadLine_d d) (ReadLine_d e)"
proof (induction n arbitrary: d e)
  case 0
  then show ?case by (cases d; cases e) (auto intro: agree_line_0)
next
  case (Suc n)
  then obtain d' e' where de: "d = Suc d'" "e = Suc e'" "n < d'" "n < e'"
    by (cases d; cases e) auto
  show ?case unfolding de(1,2) ReadLine_d.simps
    by (rule agree_line)
      (auto intro!: agree_intros Suc.IH Discard_d_agree de(3,4))
qed

lemma bindE_okE:
  assumes "bindE p f s = Inr (Inr x, s')"
  obtains y u where "p s = Inr (Inr y, u)" "f y u = Inr (Inr x, s')"
  using assms by (auto simp: bindE_def errE_def elim!: bindR_InrE split: sum.splits)

lemma ReadLine_d_shorter:
  "length s < d \<Longrightarrow> ReadLine_d d s = Inr (Inr l, s') \<Longrightarrow> length s' < length s"
proof (induction d arbitrary: s)
  case (Suc d)
  from Suc.prems(2) obtain y u where y: "readLine s = Inr (Inr y, u)"
    and r: "ReadLine_d (Suc d) s = Inr (Inr l, s')"
    by (auto elim: bindE_okE)
  have u: "length u < length s" by (rule readLine_shorter(2) [OF y])
  show ?case
  proof (cases "hd y = CHR 0x7C")
    case True
    with r y have "bindE (Discard_d d y) (\<lambda>_. ReadLine_d d) u = Inr (Inr l, s')"
      by (simp add: bindE_def)
    then obtain w where w: "Discard_d d y u = Inr (Inr (), w)" "ReadLine_d d w = Inr (Inr l, s')"
      by (auto elim!: bindE_okE)
    from u Suc.prems(1) have "length u < d" by simp
    with agreeD(3) [OF Discard_d_agree [of "length u" d d y] _ w(1)] have "length w \<le> length u"
      by simp
    with u Suc.prems(1) Suc.IH [OF _ w(2)] show ?thesis by simp
  next
    case False
    with r y have "s' = u"
      by (auto simp: bindE_def errE_def okE_def bindR_def split: if_splits sum.splits prod.splits)
    with u show ?thesis by simp
  qed
qed simp

lemma ReadReply_d_agree: "n < d \<Longrightarrow> n < e \<Longrightarrow> agree n (ReadReply_d pf d) (ReadReply_d pf e)"
proof (induction n arbitrary: d e)
  case 0
  have "agree 0 (bindE (ReadLine_d (Suc a)) f) (bindE (ReadLine_d (Suc b)) g)"
    for a b and f g :: "string \<Rightarrow> reply erd"
    by (auto simp: agree_def readLine_def bindE_def errE_def)
  with 0 show ?case by (cases d; cases e) (auto simp del: ReadLine_d.simps)
next
  case (Suc n)
  then obtain d' e' where de: "d = Suc d'" "e = Suc e'" "n < d'" "n < e'"
    by (cases d; cases e) auto
  show ?case unfolding de(1,2) ReadReply_d.simps
  proof (rule agree_step [OF ReadLine_d_agree])
    show "Suc n < Suc d'" "Suc n < Suc e'" using de by auto
    show "length s' < length s"
      if "length s \<le> Suc n" "ReadLine_d (Suc d') s = Inr (Inr l, s')" for s l s'
      using ReadLine_d_shorter [OF _ that(2)] that(1) de(3) by simp
  qed (auto simp: readSlice_def readMap_def intro!: agree_intros Suc.IH de(3,4))
qed

text \<open>
  C33. reading a reply needs no bound on how deeply arrays, maps and attributes nest: on every
  input the bound \<^verbatim>\<open>ReadReply\<close> takes from the length of what is left to read is large
  enough, every larger bound gives the same result, and what is left is never longer than
  the input.
\<close>

theorem ReadReply_total:
  "length s < d \<Longrightarrow> ReadReply_d pf d s = ReadReply pf s \<and> ReadReply pf s \<noteq> Inl OutOfFuel \<and>
     (\<forall>r s'. ReadReply pf s = Inr (r, s') \<longrightarrow> length s' \<le> length s)"
  using agreeD [OF ReadReply_d_agree [of "length s" "Suc (length s)" d pf], of s]
  by (simp add: ReadReply_def del: ReadReply_d.simps)

theorem ReadReply_total_witness:
  "ReadReply_d (\<lambda>_. None) 9 (''*1'' @ crlf @ '':7'' @ crlf) = ReadReply (\<lambda>_. None) (''*1'' @ crlf @ '':7'' @ crlf)"
  using ReadReply_total [of "''*1'' @ crlf @ '':7'' @ crlf" 9 "\<lambda>_. None"] by simp

section \<open>Round trip\<close>

lemma bindE_Inr [simp]: "p s = Inr (Inr x, u) \<Longrightarrow> bindE p f s = f x u"
  by (simp add: bindE_def)

lemma okE_simp [simp]: "okE x s = Inr (Inr x, s)"
  by (simp add: okE_def)

lemma readLine_crlf:
  assumes "CHR 0x0A \<notin> set h" "h \<noteq> []"
  shows "readLine (h @ CHR 0x0D # CHR 0x0A # t) = Inr (Inr h, t)"
proof -
  have tw: "takeWhile (\<lambda>c. c \<noteq> CHR 0x0A) (h @ CHR 0x0D # CHR 0x0A # t) = h @ [CHR 0x0D]"
    using assms(1) by (subst takeWhile_append2) auto
  show ?thesis
    unfolding readLine_def tw Let_def using assms(2) by (simp add: length_greater_0_conv)
qed

lemma FormatUint_no_lf: "CHR 0x0A \<notin> set (FormatUint n)"
  using FormatUint_digits [of n] by (auto simp: is_digit_def)

lemma Atoi_FormatUint: "int n \<le> maxInt64 \<Longrightarrow> Atoi (FormatUint n) = Inr (int n)"
  using Atoi_Itoa [of "int n"] by (simp add: Itoa_def maxInt64_def)

lemma not_nil_FormatUint: "\<not> IsNilReply (c # FormatUint n)"
proof -
  obtain d ds where "FormatUint n = d # ds" by (cases "FormatUint n") auto
  moreover from this have "is_digit d" using FormatUint_digits [of n] by simp
  ultimately show ?thesis by (auto simp: IsNilReply_def dest: digit_not_sign)
qed

lemma ReadLine_d_header:
  assumes "c \<in> {CHR ''$'', CHR ''*''}"
  shows "ReadLine_d (Suc d) (c # FormatUint n @ CHR 0x0D # CHR 0x0A # t) = Inr (Inr (c # FormatUint n), t)"
proof -
  have "readLine ((c # FormatUint n) @ CHR 0x0D # CHR 0x0A # t) = Inr (Inr (c # FormatUint n), t)"
    using assms by (intro readLine_crlf) (auto simp: FormatUint_no_lf)
  with assms show ?thesis by (auto simp: not_nil_FormatUint)
qed

lemma replyLen_FormatUint: "int n \<le> maxInt64 \<Longrightarrow> replyLen (c # FormatUint n) = Inr (int n)"
  by (simp add: replyLen_def Atoi_FormatUint)

lemma ReadReply_d_bulk:
  assumes "int (length b) + 2 \<le> maxInt64"
  shows "ReadReply_d pf (Suc d) (writeBytes b @ t) = Inr (Inr (RStr b), t)"
proof -
  have l: "lenE (CHR ''$'' # FormatUint (length b)) u = Inr (Inr (int (length b)), u)" for u
    using assms by (simp add: lenE_def replyLen_FormatUint)
  have f: "readFullE (plus2 (int (length b))) (b @ CHR 0x0D # CHR 0x0A # t) = Inr (Inr (b @ crlf), t)"
    using assms by (simp add: readFullE_def plus2_def nat_add_distrib)
  have "readStringReply (CHR ''$'' # FormatUint (length b)) (b @ CHR 0x0D # CHR 0x0A # t) = Inr (Inr b, t)"
    by (simp add: readStringReply_def l f)
  then show ?thesis
    by (simp add: writeBytes_def writeLen_def ReadLine_d_header del: ReadLine_d.simps)
qed

lemma sliceE_bulks:
  assumes "\<forall>a \<in> set argv. int (length a) + 2 \<le> maxInt64"
  shows "sliceE (length argv) (ReadReply_d pf (Suc d)) (concat (map writeBytes argv) @ t)
           = Inr (Inr (map RStr argv), t)"
  using assms
proof (induction argv)
  case (Cons a as)
  have "elemE (ReadReply_d pf (Suc d)) (writeBytes a @ concat (map writeBytes as) @ t)
      = Inr (Inr (RStr a), concat (map writeBytes as) @ t)"
    using Cons.prems by (simp add: elemE_def ReadReply_d_bulk del: ReadReply_d.simps)
  with Cons show ?case by (simp del: ReadReply_d.simps)
qed simp

lemma writeArgList_strings: "writeArgList ff (map AStr argv) = (concat (map writeBytes argv), True)"
  by (induction argv) auto

lemma ReadReply_d_strings:
  assumes "\<forall>a \<in> set argv. int (length a) + 2 \<le> maxInt64" "int (length argv) \<le> maxInt64"
  shows "ReadReply_d pf (Suc (Suc d)) (CHR ''*'' # writeLen (length argv) @ concat (map writeBytes argv) @ t)
           = Inr (Inr (RArr (map RStr argv)), t)"
proof -
  have l: "lenE (CHR ''*'' # FormatUint (length argv)) u = Inr (Inr (int (length argv)), u)" for u
    using assms(2) by (simp add: lenE_def replyLen_FormatUint)
  show ?thesis
    by (subst ReadReply_d.simps)
      (simp add: writeLen_def ReadLine_d_header readSlice_def l sliceE_bulks [OF assms(1)]
        del: ReadLine_d.simps ReadReply_d.simps)
qed

lemma strings_of_RStr [simp]: "strings_of (map RStr xs) = Inr xs"
  by (induction xs) (auto simp: reply_string_def)

text \<open>
  C12. a command written by \<^verbatim>\<open>WriteArgs\<close> (as \<^verbatim>\<open>EncodeArgv\<close> does) is read back by \<^verbatim>\<open>ReadReply\<close>
  and \<^verbatim>\<open>ArrayString\<close> as the same arguments, byte for byte, whatever bytes they hold, and
  exactly the bytes of the command are taken from the stream.  The hypotheses say that the
  lengths fit a Go \<^verbatim>\<open>int\<close>.
\<close>

theorem EncodeArgv_ReadReply:
  assumes "\<forall>a \<in> set argv. int (length a) + 2 \<le> maxInt64" "int (length argv) \<le> maxInt64"
  shows "\<exists>w. EncodeArgv ff argv = Inr w \<and>
     (\<forall>t. \<exists>r. ReadReply pf (w @ t) = Inr (r, t) \<and> ArrayString r = Inr argv)"
proof -
  let ?w = "CHR ''*'' # writeLen (length argv) @ concat (map writeBytes argv)"
  have w: "EncodeArgv ff argv = Inr ?w"
    by (simp add: EncodeArgv_def WriteArgs_def writeArgList_strings)
  have "ReadReply pf (?w @ t) = Inr (Inr (RArr (map RStr argv)), t)" for t
  proof -
    obtain d where "length (?w @ t) = Suc d" by simp
    then show ?thesis
      using ReadReply_d_strings [OF assms, of pf d t] by (simp add: ReadReply_def del: ReadReply_d.simps)
  qed
  with w show ?thesis by (intro exI [of _ ?w]) (simp add: ArrayString_def)
qed

theorem EncodeArgv_ReadReply_witness:
  "\<exists>w. EncodeArgv (\<lambda>_. []) [''SET'', [CHR 0x0D, CHR 0x0A], []] = Inr w \<and>
     (\<forall>t. \<exists>r. ReadReply (\<lambda>_. None) (w @ t) = Inr (r, t) \<and>
        ArrayString r = Inr [''SET'', [CHR 0x0D, CHR 0x0A], []])"
  by (rule EncodeArgv_ReadReply) (simp_all add: maxInt64_def)

text \<open>
  Discarding a nil bulk string (\<^verbatim>\<open>$-1\<close>), as the reader does inside an attribute, also
  discards the two bytes after it, although a nil has no payload and no second line ending: the
  next reply is read from its third byte on.
\<close>

theorem Discard_nil_bulk_loses_bytes:
  "2 \<le> length t \<Longrightarrow> DiscardNext (''$-1'' @ crlf @ t) = Inr (Inr (), drop 2 t)"
  by (simp add: DiscardNext_def DiscardNext_d_def readLine_crlf [of "''$-1''", simplified]
      replyLen_def ParseInt_def split_sign_def ParseUint_def is_digit_def digit_val_def maxUint64_def
      sized_def discardBody_def discardBytes_def plus2_def maxInt64_def)

theorem Discard_nil_bulk_loses_bytes_witness:
  "DiscardNext (''$-1'' @ crlf @ ''+OK'' @ crlf) = Inr (Inr (), ''K'' @ crlf)"
  using Discard_nil_bulk_loses_bytes [of "''+OK'' @ crlf"] by simp

end
