(* ===== verification/Entry.thy ===== *)
theory Entry
  imports Commands Resp
begin

text \<open>
  \<^verbatim>\<open>internal/entry\<close>: the command that travels from a reader through the filter to a writer, and
  the completion callbacks that report it written.

  A Go callback is a name: \<open>Consumed k\<close> is the \<open>k\<close>-th callback handed out by the progress tracker,
  \<open>Part g i\<close> the \<open>i\<close>-th one of the \<open>g\<close>-th call of \<^verbatim>\<open>SplitCompletion\<close>.  The variables the closures
  share (the counter and the \<^verbatim>\<open>sync.Once\<close> of each) live in a store.  Two results are proved about
  them: the sequential effect of every sequence of calls, duplicates included, and, for calls
  that overlap, an invariant of the interleaving of their atomic steps.
\<close>

section \<open>Entries\<close>

datatype callback = Consumed nat | Part nat nat

record entry =
  DbId :: int
  Argv :: "string list"
  IsIncremental :: bool
  SourceNode :: string
  SourceOffset :: int
  ProgressOnly :: bool
  OnWritten :: "callback option"
  CmdName :: string
  Group :: string
  Keys :: "string list"
  KeyIndexes :: "int list"
  Slots :: "int list"
  SerializedSize :: int

definition NewEntry :: entry where
  "NewEntry = \<lparr>DbId = 0, Argv = [], IsIncremental = False, SourceNode = [], SourceOffset = 0,
     ProgressOnly = False, OnWritten = None, CmdName = [], Group = [], Keys = [], KeyIndexes = [],
     Slots = [], SerializedSize = 0\<rparr>"

definition entry_String :: "entry \<Rightarrow> string" where
  "entry_String e = (let str = Join (Argv e) '' ''
     in if length str > 100 then take 100 str @ ''...'' else str)"

text \<open>Every argument is a string, so the float format is never used and nothing fails.\<close>

definition Serialize :: "entry \<Rightarrow> (string \<times> entry) res" where
  "Serialize e = (case EncodeArgv (\<lambda>_. []) (Argv e) of Inl f \<Rightarrow> Inl f
     | Inr buf \<Rightarrow> Inr (buf, e\<lparr>SerializedSize := int (length buf)\<rparr>))"

definition entry_Parse :: "entry \<Rightarrow> entry res" where
  "entry_Parse e = (case CalcKeys (Argv e) of Inl f \<Rightarrow> Inl f
     | Inr c \<Rightarrow> Inr (e\<lparr>CmdName := cmaName c, Group := ck_group c, Keys := ck_keys c,
                       KeyIndexes := keysIndexes c, Slots := CalcSlots (ck_keys c)\<rparr>))"

section \<open>Completion callbacks\<close>

record group =
  g_done :: callback
  remaining :: int
  onces :: "bool list"

text \<open>\<open>fired\<close> logs the tracker callbacks that were called, in order.\<close>

record completions =
  groups :: "group list"
  fired :: "nat list"

definition is_part :: "completions \<Rightarrow> nat \<Rightarrow> nat \<Rightarrow> bool" where
  "is_part st g i \<longleftrightarrow> g < length (groups st) \<and> i < length (onces (groups st ! g))"

definition open_parts :: "completions \<Rightarrow> nat" where
  "open_parts st = (\<Sum>G\<leftarrow>groups st. length (filter Not (onces G)))"

definition mark :: "nat \<Rightarrow> nat \<Rightarrow> completions \<Rightarrow> completions" where
  "mark g i st = st\<lparr>groups := (groups st)[g := (groups st ! g)
     \<lparr>remaining := remaining (groups st ! g) - 1, onces := (onces (groups st ! g))[i := True]\<rparr>]\<rparr>"

lemma filter_Not_update:
  "i < length bs \<Longrightarrow> \<not> bs ! i \<Longrightarrow>
     Suc (length (filter Not (bs[i := True]))) = length (filter Not bs)"
  by (induction bs arbitrary: i) (auto split: nat.splits)

lemma sum_list_update_less:
  fixes f :: "'a \<Rightarrow> nat"
  shows "i < length xs \<Longrightarrow> f y < f (xs ! i) \<Longrightarrow> (\<Sum>x\<leftarrow>xs[i := y]. f x) < (\<Sum>x\<leftarrow>xs. f x)"
  by (induction xs arbitrary: i) (auto split: nat.splits)

lemma open_parts_mark:
  assumes "is_part st g i" "\<not> onces (groups st ! g) ! i"
  shows "open_parts (mark g i st) < open_parts st"
  using assms filter_Not_update [of i "onces (groups st ! g)"]
  by (auto simp: open_parts_def mark_def is_part_def intro!: sum_list_update_less)

text \<open>
  Calling a callback.  The body of \<^verbatim>\<open>once.Do\<close> runs for the first call only; the last part of a
  group calls the callback the group was split from.
\<close>

function invoke :: "callback \<Rightarrow> completions \<Rightarrow> completions" where
  "invoke (Consumed k) st = st\<lparr>fired := fired st @ [k]\<rparr>"
| "invoke (Part g i) st =
     (if is_part st g i \<and> \<not> onces (groups st ! g) ! i
      then if remaining (groups st ! g) - 1 = 0 then invoke (g_done (groups st ! g)) (mark g i st)
           else mark g i st
      else st)"
  by pat_completeness auto
termination
  by (relation "measure (\<lambda>(c, st). (case c of Consumed _ \<Rightarrow> 0 | Part _ _ \<Rightarrow> 1) + 2 * open_parts st)")
    (auto dest!: open_parts_mark split: callback.splits)

definition SplitCompletion ::
    "callback option \<Rightarrow> nat \<Rightarrow> completions \<Rightarrow> callback list \<times> completions" where
  "SplitCompletion dn cnt st = (case dn of None \<Rightarrow> ([], st)
     | Some f \<Rightarrow> if cnt = 0 then ([], invoke f st)
        else (map (Part (length (groups st))) [0..<cnt],
              st\<lparr>groups := groups st @
                [\<lparr>g_done = f, remaining = int cnt, onces = replicate cnt False\<rparr>]\<rparr>))"

fun invokes :: "callback list \<Rightarrow> completions \<Rightarrow> completions" where
  "invokes [] st = st"
| "invokes (c # cs) st = invokes cs (invoke c st)"

section \<open>Sequential calls\<close>

text \<open>The state of a fresh group after its parts \<open>is\<close> were called.\<close>

definition called :: "completions \<Rightarrow> callback \<Rightarrow> nat \<Rightarrow> nat set \<Rightarrow> completions" where
  "called st f cnt S = st\<lparr>groups := groups st @
     [\<lparr>g_done = f, remaining = int cnt - int (card S), onces = map (\<lambda>i. i \<in> S) [0..<cnt]\<rparr>]\<rparr>"

lemma invoke_called_again:
  "i \<in> S \<Longrightarrow> i < cnt \<Longrightarrow> invoke (Part (length (groups st)) i) (called st f cnt S) = called st f cnt S"
  by (simp add: called_def is_part_def)

lemma map_upt_insert:
  "i < cnt \<Longrightarrow> (map (\<lambda>j. j \<in> S) [0..<cnt])[i := True] = map (\<lambda>j. j \<in> insert i S) [0..<cnt]"
  by (intro nth_equalityI) (auto simp: nth_list_update)

lemma mark_called:
  "i < cnt \<Longrightarrow> i \<notin> S \<Longrightarrow> finite S \<Longrightarrow>
     mark (length (groups st)) i (called st f cnt S) = called st f cnt (insert i S)"
  by (simp add: mark_def called_def map_upt_insert)

lemma card_missing:
  assumes "i < cnt" "i \<notin> S" "S \<subseteq> {..<cnt}"
  shows "int cnt - int (card S) - 1 = 0 \<longleftrightarrow> insert i S = {..<cnt}"
proof -
  have fin: "finite S" using assms(3) finite_subset by blast
  have sub: "insert i S \<subseteq> {..<cnt}" using assms by auto
  have "insert i S = {..<cnt} \<longleftrightarrow> card (insert i S) = cnt"
    using sub card_subset_eq [of "{..<cnt}" "insert i S"] by (metis card_lessThan finite_lessThan)
  moreover have "card (insert i S) = Suc (card S)" using fin assms(2) by simp
  ultimately show ?thesis by linarith
qed

lemma invoke_called_new:
  assumes "i < cnt" "i \<notin> S" "S \<subseteq> {..<cnt}"
  shows "invoke (Part (length (groups st)) i) (called st f cnt S) =
    (if insert i S = {..<cnt} then invoke f (called st f cnt (insert i S))
     else called st f cnt (insert i S))"
proof -
  have fin: "finite S" using assms(3) finite_subset by blast
  have "is_part (called st f cnt S) (length (groups st)) i"
    and "\<not> onces (groups (called st f cnt S) ! length (groups st)) ! i"
    and "g_done (groups (called st f cnt S) ! length (groups st)) = f"
    and "remaining (groups (called st f cnt S) ! length (groups st)) = int cnt - int (card S)"
    using assms by (simp_all add: called_def is_part_def)
  then show ?thesis
    using card_missing [OF assms] mark_called [OF assms(1,2) fin] by simp
qed

lemma called_Consumed:
  "called (st\<lparr>fired := l\<rparr>) f cnt S = (called st f cnt S)\<lparr>fired := l\<rparr>"
  by (simp add: called_def)

lemma invokes_called_full:
  "\<forall>i \<in> set is. i < cnt \<Longrightarrow> invokes (map (Part (length (groups st))) is)
     ((called st f cnt {..<cnt})\<lparr>fired := l\<rparr>) = (called st f cnt {..<cnt})\<lparr>fired := l\<rparr>"
proof (induction "is")
  case (Cons i "is")
  then have "invoke (Part (length (groups st)) i) ((called st f cnt {..<cnt})\<lparr>fired := l\<rparr>)
      = (called st f cnt {..<cnt})\<lparr>fired := l\<rparr>"
    using invoke_called_again [of i "{..<cnt}" cnt "st\<lparr>fired := l\<rparr>" f]
    by (simp add: called_Consumed del: invoke.simps)
  with Cons show ?case by (simp del: invoke.simps)
qed simp

lemma invokes_called:
  assumes "\<forall>i \<in> set is. i < cnt" "S \<subset> {..<cnt}"
  shows "invokes (map (Part (length (groups st))) is) (called st (Consumed k) cnt S) =
    (called st (Consumed k) cnt (S \<union> set is))
      \<lparr>fired := fired st @ (if {..<cnt} \<subseteq> S \<union> set is then [k] else [])\<rparr>"
  using assms
proof (induction "is" arbitrary: S)
  case Nil
  then show ?case by (auto simp: called_def)
next
  case (Cons i "is")
  have i: "i < cnt" and S: "S \<subseteq> {..<cnt}" using Cons.prems by auto
  show ?case
  proof (cases "i \<in> S")
    case True
    then have "invokes (map (Part (length (groups st))) (i # is)) (called st (Consumed k) cnt S)
        = invokes (map (Part (length (groups st))) is) (called st (Consumed k) cnt S)"
      using i by (simp add: invoke_called_again del: invoke.simps)
    with Cons True show ?thesis by (simp add: insert_absorb)
  next
    case new: False
    show ?thesis
    proof (cases "insert i S = {..<cnt}")
      case True
      then have "S \<union> set (i # is) = {..<cnt}" using Cons.prems(1) by auto
      moreover have "invoke (Part (length (groups st)) i) (called st (Consumed k) cnt S)
          = (called st (Consumed k) cnt {..<cnt})\<lparr>fired := fired st @ [k]\<rparr>"
        using invoke_called_new [OF i new S] True by (simp add: called_def)
      ultimately show ?thesis
        using Cons.prems(1) invokes_called_full [of "is" cnt st "fired st @ [k]" "Consumed k"]
        by (simp del: invoke.simps)
    next
      case False
      with i S have "insert i S \<subset> {..<cnt}" by auto
      with Cons.IH [of "insert i S"] Cons.prems(1) invoke_called_new [OF i new S] False
      show ?thesis by (simp del: invoke.simps)
    qed
  qed
qed

text \<open>
  Whatever sequence of the callbacks of one \<^verbatim>\<open>SplitCompletion\<close> is called, in any order and
  with any duplicates, the original callback has been called exactly once if every part was
  called, and not at all otherwise: a duplicate reply never completes an entry.
\<close>

theorem SplitCompletion_fires_once:
  assumes "0 < cnt" "\<forall>i \<in> set is. i < cnt"
    and "SplitCompletion (Some (Consumed k)) cnt st = (cbs, st')"
  shows "fired (invokes (map ((!) cbs) is) st') =
    fired st @ (if {..<cnt} \<subseteq> set is then [k] else [])"
proof -
  have st': "st' = called st (Consumed k) cnt {}"
    and cbs: "cbs = map (Part (length (groups st))) [0..<cnt]"
    using assms(1,3) by (auto simp: SplitCompletion_def called_def map_replicate_const)
  have m: "map ((!) cbs) is = map (Part (length (groups st))) is"
    using assms(2) by (auto simp: cbs)
  have "{} \<subset> {..<cnt}" using assms(1) by auto
  then show ?thesis
    unfolding m st' using invokes_called [of "is" cnt "{}" st k] assms(2) by simp
qed

theorem SplitCompletion_fires_once_witness:
  "fired (invokes (map ((!) [Part 0 0, Part 0 1]) [1, 1, 0, 1])
     \<lparr>groups = [\<lparr>g_done = Consumed 7, remaining = 2, onces = [False, False]\<rparr>], fired = []\<rparr>) = [7]"
  using SplitCompletion_fires_once [of 2 "[1, 1, 0, 1]" 7 "\<lparr>groups = [], fired = []\<rparr>"
      "[Part 0 0, Part 0 1]"
      "\<lparr>groups = [\<lparr>g_done = Consumed 7, remaining = 2, onces = [False, False]\<rparr>], fired = []\<rparr>"]
  by (auto simp: SplitCompletion_def upt_rec numeral_2_eq_2 less_Suc_eq)

section \<open>Overlapping calls\<close>

text \<open>
  Replies arrive on one goroutine per target node, so the parts of one split can run at the same
  time.  The atomic steps of one part are: winning its \<^verbatim>\<open>once\<close>, the atomic decrement with its
  comparison, and the call of the original callback; a call that finds the \<^verbatim>\<open>once\<close> taken changes
  nothing.
\<close>

datatype phase = Idle | Entered | Winner | Finished

record split =
  phases :: "phase list"
  counter :: int
  done_calls :: nat

definition split_init :: "nat \<Rightarrow> split" where
  "split_init cnt = \<lparr>phases = replicate cnt Idle, counter = int cnt, done_calls = 0\<rparr>"

inductive split_step :: "split \<Rightarrow> split \<Rightarrow> bool" where
  enter: "\<lbrakk>i < length (phases s); phases s ! i = Idle\<rbrakk>
    \<Longrightarrow> split_step s (s\<lparr>phases := (phases s)[i := Entered]\<rparr>)"
| count: "\<lbrakk>i < length (phases s); phases s ! i = Entered\<rbrakk>
    \<Longrightarrow> split_step s (s\<lparr>phases := (phases s)[i := if counter s - 1 = 0 then Winner else Finished],
                         counter := counter s - 1\<rparr>)"
| fire: "\<lbrakk>i < length (phases s); phases s ! i = Winner\<rbrakk>
    \<Longrightarrow> split_step s (s\<lparr>phases := (phases s)[i := Finished], done_calls := Suc (done_calls s)\<rparr>)"

inductive split_reachable :: "nat \<Rightarrow> split \<Rightarrow> bool" for cnt where
  init: "split_reachable cnt (split_init cnt)"
| step: "split_reachable cnt s \<Longrightarrow> split_step s t \<Longrightarrow> split_reachable cnt t"

abbreviation uncounted :: "phase list \<Rightarrow> nat" where
  "uncounted ps \<equiv> length (filter (\<lambda>p. p = Idle \<or> p = Entered) ps)"

abbreviation winners :: "phase list \<Rightarrow> nat" where
  "winners ps \<equiv> length (filter (\<lambda>p. p = Winner) ps)"

definition split_inv :: "nat \<Rightarrow> split \<Rightarrow> bool" where
  "split_inv cnt s \<longleftrightarrow> length (phases s) = cnt \<and> counter s = int (uncounted (phases s)) \<and>
     done_calls s + winners (phases s) = (if counter s = 0 then 1 else 0)"

lemma filter_update_length:
  "i < length xs \<Longrightarrow> length (filter P (xs[i := y])) + (if P (xs ! i) then 1 else 0)
     = length (filter P xs) + (if P y then 1 else 0)"
proof (induction xs arbitrary: i)
  case (Cons x xs)
  then show ?case using Cons.IH [of "i - 1"] by (cases i) auto
qed simp

lemma split_inv_step: "split_inv cnt s \<Longrightarrow> split_step s t \<Longrightarrow> split_inv cnt t"
proof (erule split_step.cases, goal_cases)
  case (1 i s')
  with filter_update_length [of i "phases s" "\<lambda>p. p = Idle \<or> p = Entered" Entered]
    filter_update_length [of i "phases s" "\<lambda>p. p = Winner" Entered]
  show ?case by (simp add: split_inv_def)
next
  case (2 i s')
  let ?y = "if counter s - 1 = 0 then Winner else Finished"
  have "uncounted (phases s) > 0" using 2 by (auto simp: filter_empty_conv) (metis nth_mem)
  with 2 filter_update_length [of i "phases s" "\<lambda>p. p = Idle \<or> p = Entered" ?y]
    filter_update_length [of i "phases s" "\<lambda>p. p = Winner" ?y]
  show ?case by (auto simp: split_inv_def split: if_splits)
next
  case (3 i s')
  with filter_update_length [of i "phases s" "\<lambda>p. p = Idle \<or> p = Entered" Finished]
    filter_update_length [of i "phases s" "\<lambda>p. p = Winner" Finished]
  show ?case by (auto simp: split_inv_def split: if_splits simp del: length_0_conv)
qed

interpretation sp: transition_system "split_init cnt" split_step "split_reachable cnt" for cnt
proof
  show "I s" if "split_reachable cnt s" "I (split_init cnt)"
    "\<And>s t. \<lbrakk>split_reachable cnt s; I s; split_step s t\<rbrakk> \<Longrightarrow> I t" for s I
    using that by (induction rule: split_reachable.induct) blast+
qed (rule split_reachable.init, rule split_reachable.step)

lemma split_inv_reachable: "0 < cnt \<Longrightarrow> split_reachable cnt s \<Longrightarrow> split_inv cnt s"
  by (erule sp.invariant, simp add: split_inv_def split_init_def) (rule split_inv_step)

text \<open>
  C11. However the calls of the parts interleave, the original callback has been called at
  most once, and it has been called exactly when every part has run to its end: no entry is
  reported written while one of its commands or targets is outstanding, and none is forgotten.
\<close>

theorem SplitCompletion_interleaved:
  assumes "0 < cnt" "split_reachable cnt s"
  shows "done_calls s = (if \<forall>p \<in> set (phases s). p = Finished then 1 else 0)"
proof -
  from split_inv_reachable [OF assms] have inv: "split_inv cnt s" .
  have "(\<forall>p \<in> set (phases s). p = Finished) \<longleftrightarrow> uncounted (phases s) = 0 \<and> winners (phases s) = 0"
    by (auto simp: filter_empty_conv) (metis phase.exhaust)
  moreover have "done_calls s = 1 \<longleftrightarrow> counter s = 0 \<and> winners (phases s) = 0"
    and "done_calls s \<le> 1" and "counter s = int (uncounted (phases s))"
    using inv by (auto simp: split_inv_def split: if_splits simp del: length_0_conv)
  ultimately show ?thesis by auto
qed

theorem SplitCompletion_interleaved_witness:
  "split_reachable 1 \<lparr>phases = [Finished], counter = 0, done_calls = 1\<rparr> \<and>
   done_calls \<lparr>phases = [Finished], counter = 0, done_calls = 1\<rparr> = 1"
proof -
  have "split_reachable 1 \<lparr>phases = [Idle], counter = 1, done_calls = 0\<rparr>"
    using split_reachable.init [of 1] by (simp add: split_init_def)
  from split_reachable.step [OF this split_step.enter [of 0]]
  have "split_reachable 1 \<lparr>phases = [Entered], counter = 1, done_calls = 0\<rparr>" by simp
  from split_reachable.step [OF this split_step.count [of 0]]
  have "split_reachable 1 \<lparr>phases = [Winner], counter = 0, done_calls = 0\<rparr>" by simp
  from split_reachable.step [OF this split_step.fire [of 0]]
  have "split_reachable 1 \<lparr>phases = [Finished], counter = 0, done_calls = 1\<rparr>" by simp
  with SplitCompletion_interleaved [OF _ this] show ?thesis by simp
qed

end
