(* ===== verification/Aof.thy ===== *)
theory Aof
  imports Entry
begin

text \<open>
  \<^verbatim>\<open>internal/aof/aof.go\<close>, the loader of one append only file, and \<^verbatim>\<open>internal/writer/file_writer.go\<close>,
  the writer that exports entries to a file.

  The loader yields the entries it sent on its channel and how it ended: a return code, or the
  panic that stopped it.  The file writer is a transition system over its channel, its buffered
  writer and the wait group \<^verbatim>\<open>Close\<close> waits for.  Proved: a file written in AOF mode loads as the
  same commands; what reached the file and the buffer is always the entries written so far, in
  order; and \<^verbatim>\<open>Close\<close> can return before the buffer is flushed.
\<close>

section \<open>The loader\<close>

datatype aof_ret = OK | NotExist | Empty | OpenErr | Failed | Truncated

text \<open>
  What \<^verbatim>\<open>os.Open\<close> finds: nothing (and whether a later \<^verbatim>\<open>os.Stat\<close> agrees), a file that cannot be
  opened, or a content.
\<close>

datatype aof_file = NoFile bool | Unreadable | Content string

text \<open>
  \<^verbatim>\<open>bufio.Reader.ReadLine\<close>, continued while the line is longer than the buffer: the line without
  its \<^verbatim>\<open>\n\<close> or \<^verbatim>\<open>\r\n\<close>, a last line without newline as it is; \<open>None\<close> at the end.  (For a line longer
  than 4096 bytes, which no command header is, the source appends to a slice of a buffer that
  was overwritten; the model describes shorter lines.)
\<close>

definition ReadCompleteLine :: "string \<Rightarrow> (string \<times> string) option" where
  "ReadCompleteLine s =
     (if s = [] then None
      else let b = takeWhile (\<lambda>c. c \<noteq> CHR 0x0A) s
           in if length b = length s then Some (s, [])
              else Some (if b \<noteq> [] \<and> last b = CHR 0x0D then butlast b else b, drop (length b + 1) s))"

text \<open>One argument: \<open>Inr None\<close> is the return with code \<^verbatim>\<open>Failed\<close>.\<close>

definition readArg :: "string \<Rightarrow> (string \<times> string) option res" where
  "readArg s = (case ReadCompleteLine s of
     None \<Rightarrow> Inr None
   | Some (line, rest) \<Rightarrow>
       if line = [] \<or> hd line \<noteq> CHR ''$'' then Inr None
       else let v64 = ParseInt_val (tl line); n = plus2 v64
            in if n < 0 then Inl (RuntimePanic ''makeslice: len out of range'')
               else if length rest < nat n then Inr None
               else if v64 < 0 then Inl (RuntimePanic ''slice bounds out of range'')
               else Inr (Some (take (nat v64) rest, drop (nat n) rest)))"

fun readArgs :: "nat \<Rightarrow> string \<Rightarrow> (string list \<times> string) option res" where
  "readArgs 0 s = Inr (Some ([], s))"
| "readArgs (Suc n) s = (case readArg s of Inl f \<Rightarrow> Inl f | Inr None \<Rightarrow> Inr None
     | Inr (Some (a, s')) \<Rightarrow> (case readArgs n s' of Inl f \<Rightarrow> Inl f | Inr None \<Rightarrow> Inr None
        | Inr (Some (as, s'')) \<Rightarrow> Inr (Some (a # as, s''))))"

lemma ReadCompleteLine_shorter: "ReadCompleteLine s = Some (l, r) \<Longrightarrow> length r < length s"
  by (auto simp: ReadCompleteLine_def Let_def split: if_splits)

lemma readArg_shorter: "readArg s = Inr (Some (a, r)) \<Longrightarrow> length r < length s"
  by (auto simp: readArg_def Let_def dest!: ReadCompleteLine_shorter split: option.splits if_splits)

lemma readArgs_shorter: "readArgs n s = Inr (Some (as, r)) \<Longrightarrow> length r \<le> length s"
  by (induction n arbitrary: s as)
    (fastforce dest!: readArg_shorter split: sum.splits option.splits)+

text \<open>
  The main loop.  \<open>stop n\<close> says that the context is cancelled when round \<open>n\<close> asks; \<open>ts\<close> is the
  recovery timestamp, 0 for none.
\<close>

definition badFormat :: fault where
  "badFormat = LogPanicf ''Bad File format reading the append only File''"

definition emit :: "entry \<Rightarrow> entry list \<times> 'a \<Rightarrow> entry list \<times> 'a" where
  "emit e r = (e # fst r, snd r)"

function loadLoop :: "(nat \<Rightarrow> bool) \<Rightarrow> int \<Rightarrow> nat \<Rightarrow> string \<Rightarrow> entry list \<times> aof_ret res" where
  "loadLoop stop ts n s =
     (if stop n then ([], Inr OK)
      else (case ReadCompleteLine s of None \<Rightarrow> ([], Inr OK)
      | Some (line, rest) \<Rightarrow>
         if line = [] then ([], Inl (RuntimePanic ''index out of range''))
         else if hd line = CHR ''#'' then
           if ts \<noteq> 0 \<and> HasPrefix line ''#TS:'' then
             (case ParseInt (drop 4 line) of
                Inl _ \<Rightarrow> ([], Inl (LogPanicf ''Invalid timestamp annotation''))
              | Inr t \<Rightarrow> if t > ts then ([], Inr Truncated) else loadLoop stop ts (Suc n) rest)
           else loadLoop stop ts (Suc n) rest
         else if hd line \<noteq> CHR ''*'' then ([], Inl badFormat)
         else if ParseInt_val (tl line) < 1 then ([], Inl badFormat)
         else (case readArgs (nat (ParseInt_val (tl line))) rest of
             Inl f \<Rightarrow> ([], Inl f)
           | Inr None \<Rightarrow> ([], Inr Failed)
           | Inr (Some (argv, rest')) \<Rightarrow>
               emit (NewEntry\<lparr>Argv := argv\<rparr>) (loadLoop stop ts (Suc n) rest'))))"
  by pat_completeness auto
termination
  by (relation "measure (\<lambda>(stop, ts, n, s). length s)")
    (auto dest!: ReadCompleteLine_shorter readArgs_shorter)

declare loadLoop.simps [simp del]

definition LoadSingleAppendOnlyFile ::
    "(nat \<Rightarrow> bool) \<Rightarrow> int \<Rightarrow> aof_file \<Rightarrow> entry list \<times> aof_ret res" where
  "LoadSingleAppendOnlyFile stop ts f = (case f of
     NoFile found \<Rightarrow> ([], Inr (if found then OpenErr else NotExist))
   | Unreadable \<Rightarrow> ([], Inl (RuntimePanic ''nil pointer dereference''))
   | Content s \<Rightarrow> loadLoop stop ts 0 s)"

section \<open>The file writer\<close>

datatype fileType = CMD | AOF | JSON | OtherType

text \<open>
  What one entry adds to the file; \<open>json\<close> is \<^verbatim>\<open>json.Marshal\<close>, applied after \<^verbatim>\<open>Serialize\<close> set the
  serialized size.
\<close>

definition writeEntry :: "(entry \<Rightarrow> string) \<Rightarrow> fileType \<Rightarrow> entry \<Rightarrow> string res" where
  "writeEntry json ft e = (case ft of
     CMD \<Rightarrow> Inr (Join (Argv e) '' '' @ [CHR 0x0A])
   | AOF \<Rightarrow> map_sum id fst (Serialize e)
   | JSON \<Rightarrow> map_sum id (\<lambda>(_, e'). json e' @ [CHR 0x0A]) (Serialize e)
   | OtherType \<Rightarrow> Inr [])"

record fileWriter =
  fw_type :: fileType
  fw_file :: string
  fw_buf :: string
  EntryCount :: int
  fw_written :: "entry list"
  fw_closed :: bool
  fw_wgDone :: bool
  fw_returned :: bool

definition NewFileWriter :: "fileType \<Rightarrow> fileWriter" where
  "NewFileWriter ft = \<lparr>fw_type = ft, fw_file = [], fw_buf = [], EntryCount = 0, fw_written = [],
     fw_closed = False, fw_wgDone = False, fw_returned = False\<rparr>"

definition fw_Flush :: "fileWriter \<Rightarrow> fileWriter" where
  "fw_Flush w = w\<lparr>fw_file := fw_file w @ fw_buf w, fw_buf := []\<rparr>"

text \<open>
  The steps of \<^verbatim>\<open>processWrite\<close> and of its clients: an entry handed over on the unbuffered channel
  (\<^verbatim>\<open>Write\<close>), a tick of the 10 ms timer, \<^verbatim>\<open>close(w.ch)\<close>, and then, in this order, \<^verbatim>\<open>w.chWg.Done()\<close>
  and the last flush.  \<open>fw_written\<close> records the entries received.
\<close>

inductive fw_step :: "(entry \<Rightarrow> string) \<Rightarrow> fileWriter \<Rightarrow> fileWriter \<Rightarrow> bool" for json where
  recv: "\<lbrakk>\<not> fw_closed w; writeEntry json (fw_type w) e = Inr p;
          bufio_write 4096 (fw_file w, fw_buf w) p = (f, b)\<rbrakk>
    \<Longrightarrow> fw_step json w (w\<lparr>EntryCount := EntryCount w + 1, fw_file := f, fw_buf := b,
                             fw_written := fw_written w @ [e]\<rparr>)"
| tick: "\<not> fw_wgDone w \<Longrightarrow> fw_step json w (fw_Flush w)"
| close: "\<not> fw_closed w \<Longrightarrow> fw_step json w (w\<lparr>fw_closed := True\<rparr>)"
| wgDone: "\<lbrakk>fw_closed w; \<not> fw_wgDone w\<rbrakk> \<Longrightarrow> fw_step json w (w\<lparr>fw_wgDone := True\<rparr>)"
| finish: "\<lbrakk>fw_wgDone w; \<not> fw_returned w\<rbrakk>
    \<Longrightarrow> fw_step json w ((fw_Flush w)\<lparr>fw_returned := True\<rparr>)"

inductive fw_reachable :: "(entry \<Rightarrow> string) \<Rightarrow> fileType \<Rightarrow> fileWriter \<Rightarrow> bool" for json ft where
  init: "fw_reachable json ft (NewFileWriter ft)"
| step: "fw_reachable json ft w \<Longrightarrow> fw_step json w w' \<Longrightarrow> fw_reachable json ft w'"

text \<open>\<^verbatim>\<open>Close\<close> returns when the wait group is done.\<close>

definition Close_returned :: "fileWriter \<Rightarrow> bool" where
  "Close_returned w \<longleftrightarrow> fw_closed w \<and> fw_wgDone w"

fun writeEntries :: "(entry \<Rightarrow> string) \<Rightarrow> fileType \<Rightarrow> entry list \<Rightarrow> string" where
  "writeEntries json ft [] = []"
| "writeEntries json ft (e # es) =
     (case writeEntry json ft e of Inl _ \<Rightarrow> [] | Inr p \<Rightarrow> p @ writeEntries json ft es)"

section \<open>Loading what was written\<close>

lemma ReadCompleteLine_crlf:
  assumes "CHR 0x0A \<notin> set h"
  shows "ReadCompleteLine (h @ CHR 0x0D # CHR 0x0A # t) = Some (h, t)"
proof -
  have tw: "takeWhile (\<lambda>c. c \<noteq> CHR 0x0A) (h @ CHR 0x0D # CHR 0x0A # t) = h @ [CHR 0x0D]"
    using assms by (subst takeWhile_append2) auto
  show ?thesis unfolding ReadCompleteLine_def tw Let_def by simp
qed

lemma ParseInt_val_FormatUint: "int n \<le> maxInt64 \<Longrightarrow> ParseInt_val (FormatUint n) = int n"
  by (simp add: ParseInt_val_def Atoi_FormatUint)

text \<open>Arguments and commands whose lengths fit a Go \<^verbatim>\<open>int64\<close>.\<close>

definition argv_fits :: "string list \<Rightarrow> bool" where
  "argv_fits argv \<longleftrightarrow> argv \<noteq> [] \<and> int (length argv) \<le> maxInt64 \<and>
     (\<forall>a \<in> set argv. int (length a) + 2 \<le> maxInt64)"

lemma readArg_bulk:
  assumes "int (length a) + 2 \<le> maxInt64"
  shows "readArg (writeBytes a @ t) = Inr (Some (a, t))"
proof -
  have "ReadCompleteLine ((CHR ''$'' # FormatUint (length a)) @ CHR 0x0D # CHR 0x0A # a @ CHR 0x0D # CHR 0x0A # t)
      = Some (CHR ''$'' # FormatUint (length a), a @ CHR 0x0D # CHR 0x0A # t)"
    by (rule ReadCompleteLine_crlf) (simp add: FormatUint_no_lf)
  with assms show ?thesis
    by (simp add: readArg_def writeBytes_def writeLen_def ParseInt_val_FormatUint plus2_def
        nat_add_distrib Let_def)
qed

lemma readArgs_bulks:
  "\<forall>a \<in> set argv. int (length a) + 2 \<le> maxInt64 \<Longrightarrow>
     readArgs (length argv) (concat (map writeBytes argv) @ t) = Inr (Some (argv, t))"
  by (induction argv) (auto simp: readArg_bulk)

lemma writeEntry_AOF:
  "writeEntry json AOF e = Inr (CHR ''*'' # writeLen (length (Argv e)) @ concat (map writeBytes (Argv e)))"
  by (simp add: writeEntry_def Serialize_def EncodeArgv_def WriteArgs_def writeArgList_strings)

lemma loadLoop_command:
  assumes "argv_fits argv" "\<not> stop n"
  shows "loadLoop stop ts n (CHR ''*'' # writeLen (length argv) @ concat (map writeBytes argv) @ t)
    = emit (NewEntry\<lparr>Argv := argv\<rparr>) (loadLoop stop ts (Suc n) t)"
proof -
  have "ReadCompleteLine ((CHR ''*'' # FormatUint (length argv)) @ CHR 0x0D # CHR 0x0A #
          concat (map writeBytes argv) @ t)
      = Some (CHR ''*'' # FormatUint (length argv), concat (map writeBytes argv) @ t)"
    by (rule ReadCompleteLine_crlf) (simp add: FormatUint_no_lf)
  moreover have "readArgs (length argv) (concat (map writeBytes argv) @ t) = Inr (Some (argv, t))"
    using assms(1) by (intro readArgs_bulks) (simp add: argv_fits_def)
  moreover have "length argv \<noteq> 0" "int (length argv) \<le> maxInt64"
    using assms(1) by (auto simp: argv_fits_def)
  ultimately show ?thesis using assms(2)
    by (subst loadLoop.simps) (simp add: writeLen_def ParseInt_val_FormatUint)
qed

lemma loadLoop_written:
  "\<forall>e \<in> set es. argv_fits (Argv e) \<Longrightarrow>
     loadLoop (\<lambda>_. False) ts n (writeEntries json AOF es)
       = (map (\<lambda>e. NewEntry\<lparr>Argv := Argv e\<rparr>) es, Inr OK)"
proof (induction es arbitrary: n)
  case Nil
  then show ?case by (subst loadLoop.simps) (simp add: ReadCompleteLine_def)
next
  case (Cons e es)
  then show ?case
    using loadLoop_command [of "Argv e" "\<lambda>_. False" n ts "writeEntries json AOF es"]
    by (simp add: writeEntry_AOF emit_def)
qed

section \<open>Facts about the file writer\<close>

lemma writeEntries_snoc:
  "\<forall>e \<in> set es. \<exists>p. writeEntry json ft e = Inr p \<Longrightarrow> writeEntry json ft e = Inr p \<Longrightarrow>
     writeEntries json ft (es @ [e]) = writeEntries json ft es @ p"
  by (induction es) auto

definition fw_inv :: "(entry \<Rightarrow> string) \<Rightarrow> fileType \<Rightarrow> fileWriter \<Rightarrow> bool" where
  "fw_inv json ft w \<longleftrightarrow> fw_type w = ft \<and> fw_file w @ fw_buf w = writeEntries json ft (fw_written w) \<and>
     EntryCount w = int (length (fw_written w)) \<and> (fw_returned w \<longrightarrow> fw_buf w = []) \<and>
     (fw_returned w \<longrightarrow> fw_wgDone w) \<and> (fw_wgDone w \<longrightarrow> fw_closed w) \<and>
     (\<forall>e \<in> set (fw_written w). \<exists>p. writeEntry json ft e = Inr p)"

lemma fw_inv_step: "fw_inv json ft w \<Longrightarrow> fw_step json w w' \<Longrightarrow> fw_inv json ft w'"
  by (erule fw_step.cases)
    (auto simp: fw_inv_def fw_Flush_def writeEntries_snoc dest!: bufio_write_content)

interpretation fw: transition_system "NewFileWriter ft" "fw_step json" "fw_reachable json ft" for json ft
proof
  show "I w" if "fw_reachable json ft w" "I (NewFileWriter ft)"
    "\<And>w w'. \<lbrakk>fw_reachable json ft w; I w; fw_step json w w'\<rbrakk> \<Longrightarrow> I w'" for w I
    using that by (induction rule: fw_reachable.induct) blast+
qed (rule fw_reachable.init, rule fw_reachable.step)

lemma fw_inv_reachable: "fw_reachable json ft w \<Longrightarrow> fw_inv json ft w"
  by (erule fw.invariant, simp add: fw_inv_def NewFileWriter_def) (rule fw_inv_step)

text \<open>
  C34. In every state the file writer can reach, the file followed by the buffer holds exactly
  the entries it received, each written once and in the order received, and the entry count is
  their number; when \<^verbatim>\<open>processWrite\<close> has returned, everything is in the file, and loading the
  file of an AOF export sends the same commands and ends with \<^verbatim>\<open>OK\<close> (for commands that have a
  name and lengths that fit an \<^verbatim>\<open>int64\<close>).
\<close>

theorem fileWriter_roundtrip:
  assumes "fw_reachable json ft w"
  shows "fw_file w @ fw_buf w = writeEntries json ft (fw_written w) \<and>
    EntryCount w = int (length (fw_written w)) \<and>
    (fw_returned w \<and> ft = AOF \<and> (\<forall>e \<in> set (fw_written w). argv_fits (Argv e)) \<longrightarrow>
      LoadSingleAppendOnlyFile (\<lambda>_. False) ts (Content (fw_file w))
        = (map (\<lambda>e. NewEntry\<lparr>Argv := Argv e\<rparr>) (fw_written w), Inr OK))"
  using fw_inv_reachable [OF assms] loadLoop_written [of "fw_written w" ts 0 json]
  by (auto simp: fw_inv_def LoadSingleAppendOnlyFile_def)

text \<open>A run: one entry, then \<^verbatim>\<open>close\<close>, \<^verbatim>\<open>Done\<close> and, for the last state, the flush.\<close>

definition ping :: entry where "ping = NewEntry\<lparr>Argv := [''PING'']\<rparr>"

definition ping_bytes :: string where
  "ping_bytes = CHR ''*'' # writeLen 1 @ writeBytes ''PING''"

definition fw_done :: fileWriter where
  "fw_done = \<lparr>fw_type = AOF, fw_file = [], fw_buf = ping_bytes, EntryCount = 1,
     fw_written = [ping], fw_closed = True, fw_wgDone = True, fw_returned = False\<rparr>"

lemma fw_done_reachable: "fw_reachable json AOF fw_done"
proof -
  let ?w = "NewFileWriter AOF"
  have p: "writeEntry json AOF ping = Inr ping_bytes"
    by (simp add: writeEntry_AOF ping_def ping_bytes_def)
  have b: "bufio_write 4096 ([], []) ping_bytes = ([], ping_bytes)"
    by (simp add: bufio_write_def ping_bytes_def writeLen_def writeBytes_def FormatUint.simps)
  have "fw_step json ?w (?w\<lparr>EntryCount := EntryCount ?w + 1, fw_file := [], fw_buf := ping_bytes,
      fw_written := fw_written ?w @ [ping]\<rparr>)"
    by (rule fw_step.recv [where p = ping_bytes]) (simp_all add: p b NewFileWriter_def)
  from fw_reachable.step [OF fw_reachable.step [OF fw_reachable.step [OF fw_reachable.init this]
      fw_step.close] fw_step.wgDone]
  show ?thesis by (simp add: fw_done_def NewFileWriter_def)
qed

theorem fileWriter_roundtrip_witness:
  "LoadSingleAppendOnlyFile (\<lambda>_. False) 0 (Content ping_bytes) = ([ping], Inr OK)"
proof -
  have "fw_reachable (\<lambda>_. []) AOF ((fw_Flush fw_done)\<lparr>fw_returned := True\<rparr>)"
    by (rule fw_reachable.step [OF fw_done_reachable fw_step.finish]) (simp_all add: fw_done_def)
  from fileWriter_roundtrip [OF this, of 0] show ?thesis
    by (simp add: fw_Flush_def fw_done_def ping_def argv_fits_def maxInt64_def NewEntry_def)
qed

text \<open>
  \<^verbatim>\<open>Close\<close> of the file writer can return while the last entries are still in the buffer, since
  \<^verbatim>\<open>processWrite\<close> calls \<^verbatim>\<open>chWg.Done()\<close> before it flushes: there is a run in which \<^verbatim>\<open>Close\<close> has
  returned, an entry was received and counted, and the file is empty.  The caller releases the
  lock and ends the process right after \<^verbatim>\<open>Close\<close>.
\<close>

theorem fileWriter_Close_before_flush:
  "\<exists>w. fw_reachable json AOF w \<and> Close_returned w \<and> EntryCount w = 1 \<and> fw_file w = [] \<and> fw_buf w \<noteq> []"
  using fw_done_reachable
  by (intro exI [of _ fw_done]) (simp add: fw_done_def Close_returned_def ping_bytes_def)

end
