(* ===== verification/Progress.thy ===== *)
theory Progress
  imports Entry "HOL-Library.AList"
begin

text \<open>
  \<^verbatim>\<open>internal/progress\<close>: the tracker of target-acknowledged source positions (\<^verbatim>\<open>offsets.go\<close>), the lag
  report (\<^verbatim>\<open>report.go\<close>) and the recorder that persists both (\<^verbatim>\<open>sqlite.go\<close>).

  The tracker keeps, per source node, the queue of commands not yet consumed.  Commands are
  completed in any order; the visible position may only pass a completed prefix.  The
  specification is the plain list of all commands ever tracked with a flag for each; the theorem
  \<open>Tracker_refines\<close> shows that the queues, their drained positions and the bounded window show
  exactly what this list says after every sequence of operations.

  Each operation holds the tracker's mutex, so operations are atomic steps; the order in which
  concurrent callers get the mutex is the order of the sequence.
\<close>

section \<open>offsets.go\<close>

record position =
  pos_Node :: string
  pos_Offset :: int

text \<open>A pending command; \<open>p_id\<close> names the pointer, it is the number of the call of \<^verbatim>\<open>Track\<close>.\<close>

record pending =
  p_id :: nat
  p_offset :: int
  p_done :: bool

record source =
  src_queue :: "pending list"
  src_offset :: int
  src_known :: bool
  src_replID :: string

text \<open>
  \<open>t_slots\<close> counts the occupied places of the \<^verbatim>\<open>slots\<close> channel, \<open>t_limit\<close> is its capacity; \<open>t_owner\<close>
  holds, for each callback handed out, the node whose source the closure has captured.
\<close>

record tracker =
  t_sources :: "(string \<times> source) list"
  t_slots :: nat
  t_limit :: nat
  t_owner :: "string list"

definition newSource :: source where
  "newSource = \<lparr>src_queue = [], src_offset = 0, src_known = False, src_replID = []\<rparr>"

definition NewTracker :: "nat \<Rightarrow> tracker" where
  "NewTracker limit = \<lparr>t_sources = [], t_slots = 0, t_limit = limit, t_owner = []\<rparr>"

definition the_source :: "tracker \<Rightarrow> string \<Rightarrow> source" where
  "the_source t node = (case map_of (t_sources t) node of None \<Rightarrow> newSource | Some s \<Rightarrow> s)"

definition SetReplicationID :: "tracker \<Rightarrow> string \<Rightarrow> string \<Rightarrow> tracker" where
  "SetReplicationID t node i =
     t\<lparr>t_sources := AList.update node ((the_source t node)\<lparr>src_replID := i\<rparr>) (t_sources t)\<rparr>"

text \<open>
  \<open>None\<close>: the window is full and the call waits (it returns \<^verbatim>\<open>ctx.Err()\<close> if the context is cancelled
  meanwhile, and the command is then discarded by the caller).  Otherwise the new callback.
\<close>

definition Track :: "tracker \<Rightarrow> string \<Rightarrow> int \<Rightarrow> (callback \<times> tracker) option" where
  "Track t node offset =
     (if t_slots t < t_limit t then
        (let s = the_source t node; k = length (t_owner t);
             p = \<lparr>p_id = k, p_offset = offset, p_done = False\<rparr>
         in Some (Consumed k, t\<lparr>t_slots := t_slots t + 1, t_owner := t_owner t @ [node],
              t_sources := AList.update node (s\<lparr>src_queue := src_queue s @ [p]\<rparr>) (t_sources t)\<rparr>))
      else None)"

text \<open>The loop that drops the completed head of the queue and frees a slot for each.\<close>

fun drain :: "pending list \<Rightarrow> source \<Rightarrow> nat \<Rightarrow> source \<times> nat" where
  "drain [] s slots = (s\<lparr>src_queue := []\<rparr>, slots)"
| "drain (p # ps) s slots =
     (if p_done p then drain ps (s\<lparr>src_offset := p_offset p, src_known := True\<rparr>) (slots - 1)
      else (s\<lparr>src_queue := p # ps\<rparr>, slots))"

definition set_done :: "nat \<Rightarrow> pending \<Rightarrow> pending" where
  "set_done k p = (if p_id p = k then p\<lparr>p_done := True\<rparr> else p)"

text \<open>
  The callback of the \<open>k\<close>-th tracked command.  Its \<^verbatim>\<open>once\<close> has been used exactly when the command is
  marked done, in the queue or already taken out of it.
\<close>

definition consumed :: "nat \<Rightarrow> tracker \<Rightarrow> tracker" where
  "consumed k t =
     (if k < length (t_owner t) then
        (let node = t_owner t ! k; s = the_source t node
         in if \<exists>p \<in> set (src_queue s). p_id p = k \<and> \<not> p_done p then
              (case drain (map (set_done k) (src_queue s)) s (t_slots t) of
                 (s', slots') \<Rightarrow> t\<lparr>t_sources := AList.update node s' (t_sources t), t_slots := slots'\<rparr>)
            else t)
      else t)"

definition Snapshot :: "tracker \<Rightarrow> position list" where
  "Snapshot t = sort_key pos_Node
     (map (\<lambda>(node, s). \<lparr>pos_Node = node, pos_Offset = src_offset s\<rparr>)
       (filter (\<lambda>(node, s). src_known s) (t_sources t)))"

section \<open>What the tracker promises\<close>

text \<open>All commands tracked so far, in order: node, offset, completed.\<close>

type_synonym history = "(string \<times> int \<times> bool) list"

datatype op = OpTrack string int | OpDone nat | OpRepl string string

fun spec_step :: "history \<Rightarrow> op \<Rightarrow> history" where
  "spec_step h (OpTrack node off) = h @ [(node, off, False)]"
| "spec_step h (OpDone k) = (if k < length h then h[k := (fst (h ! k), fst (snd (h ! k)), True)] else h)"
| "spec_step h (OpRepl node i) = h"

text \<open>The last offset of the completed prefix of a node's commands.\<close>

definition completed_prefix :: "history \<Rightarrow> string \<Rightarrow> history" where
  "completed_prefix h node = takeWhile (snd \<circ> snd) (filter (\<lambda>x. fst x = node) h)"

definition visible :: "history \<Rightarrow> string \<Rightarrow> int option" where
  "visible h node = (let d = completed_prefix h node
     in if d = [] then None else Some (fst (snd (last d))))"

fun tracker_step :: "tracker \<Rightarrow> op \<Rightarrow> tracker option" where
  "tracker_step t (OpTrack node off) = map_option snd (Track t node off)"
| "tracker_step t (OpDone k) = Some (consumed k t)"
| "tracker_step t (OpRepl node i) = Some (SetReplicationID t node i)"

fun run :: "('s \<Rightarrow> op \<Rightarrow> 's option) \<Rightarrow> 's \<Rightarrow> op list \<Rightarrow> 's option" where
  "run f t [] = Some t"
| "run f t (x # xs) = (case f t x of None \<Rightarrow> None | Some t' \<Rightarrow> run f t' xs)"

definition shown :: "tracker \<Rightarrow> string \<Rightarrow> int option" where
  "shown t node = (let s = the_source t node in if src_known s then Some (src_offset s) else None)"

text \<open>
  The interface of a position tracker: a relation to the history that every step keeps and that
  determines the position shown.
\<close>

locale position_tracker =
  fixes stp :: "'s \<Rightarrow> op \<Rightarrow> 's option"
    and obs :: "'s \<Rightarrow> string \<Rightarrow> int option"
    and rel :: "'s \<Rightarrow> history \<Rightarrow> bool"
  assumes sim: "\<lbrakk>rel t h; stp t x = Some t'\<rbrakk> \<Longrightarrow> rel t' (spec_step h x)"
    and shows_visible: "rel t h \<Longrightarrow> obs t node = visible h node"
begin

lemma run_rel: "\<lbrakk>rel t h; run stp t xs = Some t'\<rbrakk> \<Longrightarrow> rel t' (foldl spec_step h xs)"
  by (induction xs arbitrary: t h) (auto split: option.splits dest: sim)

lemma run_visible:
  "\<lbrakk>rel t h; run stp t xs = Some t'\<rbrakk> \<Longrightarrow> obs t' node = visible (foldl spec_step h xs) node"
  using run_rel shows_visible by blast

end

section \<open>The history only grows\<close>

lemma takeWhile_prefix_mono:
  assumes "list_all2 (\<lambda>a b. P a \<longrightarrow> b = a) xs ys"
  shows "prefix (takeWhile P xs) (takeWhile P ys)"
  using assms by (induction rule: list_all2_induct) auto

lemma takeWhile_prefix_append: "prefix (takeWhile P xs) (takeWhile P (xs @ ys))"
  by (induction xs) auto

lemma list_all2_filter:
  "list_all2 R xs ys \<Longrightarrow> (\<And>a b. R a b \<Longrightarrow> P a = P b) \<Longrightarrow> list_all2 R (filter P xs) (filter P ys)"
  by (induction rule: list_all2_induct) auto

lemma list_all2_update:
  "(\<And>a. a \<in> set xs \<Longrightarrow> R a a) \<Longrightarrow> k < length xs \<Longrightarrow> R (xs ! k) y \<Longrightarrow> list_all2 R xs (xs[k := y])"
  by (auto simp: list_all2_conv_all_nth nth_list_update)

lemma completed_prefix_step:
  "prefix (completed_prefix h node) (completed_prefix (spec_step h x) node)"
proof (cases x)
  case (OpTrack n off)
  then show ?thesis by (simp add: completed_prefix_def takeWhile_prefix_append)
next
  case (OpDone k)
  let ?R = "\<lambda>a b :: string \<times> int \<times> bool. fst a = fst b \<and> ((snd \<circ> snd) a \<longrightarrow> b = a)"
  show ?thesis
  proof (cases "k < length h")
    case True
    have "list_all2 ?R h (h[k := (fst (h ! k), fst (snd (h ! k)), True)])"
      using True by (intro list_all2_update) (auto simp: prod_eq_iff)
    then have "list_all2 ?R (filter (\<lambda>x. fst x = node) h)
        (filter (\<lambda>x. fst x = node) (h[k := (fst (h ! k), fst (snd (h ! k)), True)]))"
      by (rule list_all2_filter) auto
    then have "list_all2 (\<lambda>a b. (snd \<circ> snd) a \<longrightarrow> b = a) (filter (\<lambda>x. fst x = node) h)
        (filter (\<lambda>x. fst x = node) (h[k := (fst (h ! k), fst (snd (h ! k)), True)]))"
      by (rule list_all2_mono) auto
    with OpDone True show ?thesis by (simp add: completed_prefix_def takeWhile_prefix_mono)
  qed (simp add: OpDone)
next
  case (OpRepl n i)
  then show ?thesis by simp
qed

lemma completed_prefix_run:
  "prefix (completed_prefix h node) (completed_prefix (foldl spec_step h xs) node)"
proof (induction xs arbitrary: h)
  case (Cons x xs)
  from completed_prefix_step [of h node x] Cons [of "spec_step h x"] show ?case by simp
qed simp

section \<open>The tracker keeps its promise\<close>

abbreviation item :: "(nat \<times> string \<times> int \<times> bool) \<Rightarrow> pending" where
  "item x \<equiv> \<lparr>p_id = fst x, p_offset = fst (snd (snd x)), p_done = snd (snd (snd x))\<rparr>"

text \<open>A node's commands as the tracker numbers them.\<close>

definition items :: "history \<Rightarrow> string \<Rightarrow> pending list" where
  "items h node = map item (filter (\<lambda>x. fst (snd x) = node) (enumerate 0 h))"

definition last_done :: "pending list \<Rightarrow> int option" where
  "last_done ps = (let d = takeWhile p_done ps in if d = [] then None else Some (p_offset (last d)))"

definition tracks :: "tracker \<Rightarrow> history \<Rightarrow> bool" where
  "tracks t h \<longleftrightarrow> t_owner t = map fst h \<and> distinct (map fst (t_sources t)) \<and>
     (\<forall>node. src_queue (the_source t node) = dropWhile p_done (items h node)) \<and>
     (\<forall>node. shown t node = last_done (items h node)) \<and>
     t_slots t = (\<Sum>x\<leftarrow>t_sources t. length (src_queue (snd x))) \<and> t_slots t \<le> t_limit t"

lemma drain_eq:
  "drain ps s n = (s\<lparr>src_queue := dropWhile p_done ps,
     src_offset := (case last_done ps of None \<Rightarrow> src_offset s | Some off \<Rightarrow> off),
     src_known := src_known s \<or> last_done ps \<noteq> None\<rparr>, n - length (takeWhile p_done ps))"
  by (induction ps arbitrary: s n) (auto simp: last_done_def Let_def)

lemma items_Track: "items (h @ [(n, off, False)]) node =
    items h node @ (if n = node then [\<lparr>p_id = length h, p_offset = off, p_done = False\<rparr>] else [])"
  by (simp add: items_def enumerate_append_eq)

lemma enumerate_update:
  "enumerate m (xs[k := y]) = map (\<lambda>x. if fst x = m + k then (fst x, y) else x) (enumerate m xs)"
  if "k < length xs"
  by (rule nth_equalityI) (auto simp: nth_enumerate_eq nth_list_update)

lemma enumerate_mem: "x \<in> set (enumerate 0 h) \<Longrightarrow> fst x < length h \<and> snd x = h ! fst x"
  by (auto simp: in_set_enumerate_eq)

lemma items_Done:
  assumes "k < length h"
  shows "items (spec_step h (OpDone k)) node = map (set_done k) (items h node)"
proof -
  let ?y = "(fst (h ! k), fst (snd (h ! k)), True)"
  let ?f = "\<lambda>x. if fst x = k then (fst x, ?y) else x"
  let ?P = "\<lambda>x. fst (snd x) = node"
  have P: "?P (?f x) = ?P x" and I: "item (?f x) = set_done k (item x)"
    if "x \<in> set (enumerate 0 h)" for x
    using enumerate_mem [OF that] by (auto simp: set_done_def)
  have "map item (filter ?P (map ?f (enumerate 0 h))) = map item (map ?f (filter (?P \<circ> ?f) (enumerate 0 h)))"
    by (simp add: filter_map)
  also have "filter (?P \<circ> ?f) (enumerate 0 h) = filter ?P (enumerate 0 h)"
    using P by (intro filter_cong) auto
  also have "map item (map ?f (filter ?P (enumerate 0 h))) = map (set_done k) (map item (filter ?P (enumerate 0 h)))"
    using I by auto
  finally show ?thesis using assms by (simp add: items_def enumerate_update)
qed

lemma visible_items: "visible h node = last_done (items h node)"
proof -
  have "filter (\<lambda>x. fst x = node) h = map snd (filter (\<lambda>x. fst (snd x) = node) (enumerate 0 h))"
  proof -
    have "filter (\<lambda>x. fst x = node) (map snd (enumerate 0 h))
        = map snd (filter ((\<lambda>x. fst x = node) \<circ> snd) (enumerate 0 h))"
      by (rule filter_map)
    then show ?thesis by (simp add: comp_def)
  qed
  then show ?thesis
    by (simp add: visible_def last_done_def completed_prefix_def items_def takeWhile_map comp_def
        Let_def last_map)
qed

lemma dropWhile_snoc: "\<not> P x \<Longrightarrow> dropWhile P (xs @ [x]) = dropWhile P xs @ [x]"
  by (induction xs) auto

lemma takeWhile_snoc: "\<not> P x \<Longrightarrow> takeWhile P (xs @ [x]) = takeWhile P xs"
  by (induction xs) auto

lemma takeWhile_map_fixed:
  assumes "\<And>x. P x \<Longrightarrow> f x = x"
  shows "takeWhile P (map f xs) = takeWhile P xs @ takeWhile P (map f (dropWhile P xs))"
    and "dropWhile P (map f xs) = dropWhile P (map f (dropWhile P xs))"
  using assms by (induction xs) auto

lemma set_done_done: "p_done p \<Longrightarrow> set_done k p = p"
  by (simp add: set_done_def)

lemma last_done_map_done:
  "last_done (map (set_done k) ps) = (case last_done (map (set_done k) (dropWhile p_done ps)) of
     None \<Rightarrow> last_done ps | Some off \<Rightarrow> Some off)"
  by (simp add: last_done_def takeWhile_map_fixed(1) [of p_done "set_done k" ps, OF set_done_done] Let_def)

lemma the_source_update:
  "the_source (t\<lparr>t_sources := AList.update node s (t_sources t)\<rparr>) n
     = (if n = node then s else the_source t n)"
  by (simp add: the_source_def update_conv)

lemma queue_sum_update:
  "distinct (map fst al) \<Longrightarrow>
     (\<Sum>x\<leftarrow>AList.update node s al. length (src_queue (snd x)))
       + length (src_queue (case map_of al node of None \<Rightarrow> newSource | Some s \<Rightarrow> s))
     = (\<Sum>x\<leftarrow>al. length (src_queue (snd x))) + length (src_queue s)"
  by (induction al) (auto simp: newSource_def)

lemma items_mem:
  "p \<in> set (items h node) \<Longrightarrow> p_id p < length h \<and> fst (h ! p_id p) = node"
  by (auto simp: items_def dest!: enumerate_mem)

lemma tracks_init: "tracks (NewTracker lim) []"
  by (simp add: tracks_def NewTracker_def the_source_def newSource_def shown_def items_def last_done_def)

lemma tracks_Track:
  assumes "tracks t h" "Track t node off = Some (cb, t')"
  shows "tracks t' (spec_step h (OpTrack node off)) \<and> cb = Consumed (length h)"
proof -
  let ?p = "\<lparr>p_id = length h, p_offset = off, p_done = False\<rparr>"
  let ?s = "the_source t node"
  have h: "t_owner t = map fst h" and dis: "distinct (map fst (t_sources t))"
    and q: "\<And>n. src_queue (the_source t n) = dropWhile p_done (items h n)"
    and sh: "\<And>n. shown t n = last_done (items h n)"
    and sl: "t_slots t = (\<Sum>x\<leftarrow>t_sources t. length (src_queue (snd x)))"
    using assms(1) by (auto simp: tracks_def)
  have free: "t_slots t < t_limit t" and cb: "cb = Consumed (length h)"
    and t': "t' = t\<lparr>t_slots := t_slots t + 1, t_owner := t_owner t @ [node],
      t_sources := AList.update node (?s\<lparr>src_queue := src_queue ?s @ [?p]\<rparr>) (t_sources t)\<rparr>"
    using assms(2) h by (auto simp: Track_def Let_def split: if_splits)
  have src: "the_source t' n = (if n = node then ?s\<lparr>src_queue := src_queue ?s @ [?p]\<rparr> else the_source t n)" for n
    by (simp add: t' the_source_def update_conv)
  have "shown t' n = last_done (items h n)" for n
    using sh [of n] by (auto simp: shown_def src Let_def)
  moreover have "last_done (items (h @ [(node, off, False)]) n) = last_done (items h n)" for n
    by (simp add: items_Track last_done_def takeWhile_snoc)
  moreover have "src_queue (the_source t' n) = dropWhile p_done (items (h @ [(node, off, False)]) n)" for n
    by (simp add: src q items_Track dropWhile_snoc)
  moreover have "t_slots t' = (\<Sum>x\<leftarrow>t_sources t'. length (src_queue (snd x)))"
    using queue_sum_update [OF dis, of node "?s\<lparr>src_queue := src_queue ?s @ [?p]\<rparr>"] sl
    by (simp add: t' the_source_def)
  moreover have "distinct (map fst (t_sources t'))" using dis by (simp add: t' distinct_update)
  ultimately show ?thesis using free h cb by (simp add: tracks_def t')
qed

lemma tracks_SetReplicationID:
  assumes "tracks t h" shows "tracks (SetReplicationID t node i) h"
proof -
  let ?t = "SetReplicationID t node i" and ?s = "(the_source t node)\<lparr>src_replID := i\<rparr>"
  have src: "the_source ?t n = (if n = node then ?s else the_source t n)" for n
    by (simp add: SetReplicationID_def the_source_update)
  have "shown ?t n = shown t n" for n by (simp add: shown_def src Let_def)
  moreover have "src_queue (the_source ?t n) = src_queue (the_source t n)" for n
    by (simp add: src)
  moreover have "(\<Sum>x\<leftarrow>t_sources ?t. length (src_queue (snd x)))
      = (\<Sum>x\<leftarrow>t_sources t. length (src_queue (snd x)))"
    using queue_sum_update [of "t_sources t" node ?s] assms
    by (simp add: tracks_def SetReplicationID_def the_source_def)
  ultimately show ?thesis using assms
    by (simp add: tracks_def) (simp add: SetReplicationID_def distinct_update)
qed

lemma tracks_consumed_new:
  assumes t: "tracks t h" and k: "k < length h"
    and new: "p \<in> set (src_queue (the_source t (fst (h ! k))))" "p_id p = k" "\<not> p_done p"
  shows "tracks (consumed k t) (spec_step h (OpDone k))"
proof -
  define node where "node = fst (h ! k)"
  define s where "s = the_source t node"
  define ps where "ps = map (set_done k) (src_queue s)"
  define s' where "s' = fst (drain ps s (t_slots t))"
  have h: "t_owner t = map fst h" and dis: "distinct (map fst (t_sources t))"
    and q: "\<And>n. src_queue (the_source t n) = dropWhile p_done (items h n)"
    and sh: "\<And>n. shown t n = last_done (items h n)"
    and sl: "t_slots t = (\<Sum>x\<leftarrow>t_sources t. length (src_queue (snd x)))" "t_slots t \<le> t_limit t"
    using t by (auto simp: tracks_def)
  have cons: "consumed k t = t\<lparr>t_sources := AList.update node s' (t_sources t),
      t_slots := t_slots t - length (takeWhile p_done ps)\<rparr>"
    using k h new by (auto simp: consumed_def node_def s_def ps_def s'_def drain_eq Let_def)
  have src: "the_source (consumed k t) n = (if n = node then s' else the_source t n)" for n
    by (simp add: cons the_source_def update_conv)
  have items: "items (spec_step h (OpDone k)) n = map (set_done k) (items h n)" for n
    by (rule items_Done [OF k])
  have other: "map (set_done k) (items h n) = items h n" if "n \<noteq> node" for n
    using that by (auto simp: node_def set_done_def dest!: items_mem intro!: map_idI)
  have ps: "ps = map (set_done k) (dropWhile p_done (items h node))"
    by (simp add: ps_def s_def q)
  have "src_queue s' = dropWhile p_done (map (set_done k) (items h node))"
    using takeWhile_map_fixed(2) [of p_done "set_done k" "items h node", OF set_done_done]
    by (simp add: s'_def drain_eq ps)
  moreover have "shown (consumed k t) node = last_done (map (set_done k) (items h node))"
    using sh [of node] last_done_map_done [of k "items h node"]
    by (auto simp: shown_def src Let_def s'_def drain_eq s_def ps [symmetric] split: option.splits if_splits)
  moreover have "shown (consumed k t) n = shown t n" if "n \<noteq> node" for n
    using that by (simp add: shown_def src)
  moreover have "length (src_queue s') + length (takeWhile p_done ps) = length (src_queue s)"
  proof -
    have "length (takeWhile p_done ps) + length (dropWhile p_done ps) = length ps"
      by (metis length_append takeWhile_dropWhile_id)
    then show ?thesis by (simp add: s'_def drain_eq ps_def)
  qed
  moreover have "map fst (spec_step h (OpDone k)) = map fst h"
    using k by (simp add: map_update list_update_same_conv)
  moreover have "t_slots t - length (takeWhile p_done ps)
      = (\<Sum>x\<leftarrow>AList.update node s' (t_sources t). length (src_queue (snd x)))"
    using queue_sum_update [OF dis, of node s'] sl(1) calculation(4)
    by (simp add: s_def the_source_def)
  note facts = calculation this
  have "shown (consumed k t) n = last_done (map (set_done k) (items h n))" for n
    using facts(2) facts(3) [of n] other [of n] sh [of n] by (cases "n = node") auto
  moreover have "src_queue (the_source (consumed k t) n) = dropWhile p_done (map (set_done k) (items h n))" for n
    using facts(1) other [of n] q [of n] by (cases "n = node") (auto simp: src)
  moreover have "map fst (spec_step h (OpDone k)) = map fst h" by (rule facts(5))
  moreover have "t_slots (consumed k t) = (\<Sum>x\<leftarrow>t_sources (consumed k t). length (src_queue (snd x)))"
    using facts(6) by (simp add: cons)
  ultimately show ?thesis
    unfolding tracks_def items using h sl(2) dis
    by (simp add: cons distinct_update del: spec_step.simps)
qed

lemma tracks_consumed:
  assumes "tracks t h" shows "tracks (consumed k t) (spec_step h (OpDone k))"
proof (cases "k < length h")
  case False
  with assms show ?thesis by (simp add: consumed_def tracks_def)
next
  case k: True
  let ?q = "src_queue (the_source t (fst (h ! k)))"
  show ?thesis
  proof (cases "\<exists>p \<in> set ?q. p_id p = k \<and> \<not> p_done p")
    case True
    with tracks_consumed_new [OF assms k] show ?thesis by blast
  next
    case False
    have same: "consumed k t = t"
      using False k assms by (auto simp: consumed_def tracks_def Let_def)
    have "p_done p" if "p \<in> set (items h n)" "p_id p = k" for p n
    proof (rule ccontr)
      assume "\<not> p_done p"
      then have "p \<in> set (dropWhile p_done (items h n))"
        using that(1) by (metis UnE set_append set_takeWhileD takeWhile_dropWhile_id)
      moreover have "n = fst (h ! k)" using items_mem [OF that(1)] that(2) by simp
      ultimately show False using False assms that(2) \<open>\<not> p_done p\<close> by (simp add: tracks_def)
    qed
    then have "map (set_done k) (items h n) = items h n" for n
      by (intro map_idI) (auto simp: set_done_def)
    then have "items (spec_step h (OpDone k)) n = items h n" for n
      by (simp add: items_Done [OF k] del: spec_step.simps)
    moreover have "map fst (spec_step h (OpDone k)) = map fst h"
      using k by (simp add: map_update list_update_same_conv)
    ultimately show ?thesis using assms by (simp add: same tracks_def del: spec_step.simps)
  qed
qed

interpretation trk: position_tracker tracker_step shown tracks
proof
  fix t h x t' assume "tracks t h" "tracker_step t x = Some t'"
  then show "tracks t' (spec_step h x)"
    by (cases x) (auto simp del: spec_step.simps(1,2)
        intro: tracks_consumed tracks_SetReplicationID dest: tracks_Track)
next
  fix t h node assume "tracks t h"
  then show "shown t node = visible h node" by (simp add: tracks_def visible_items)
qed

lemma tracks_limit: "tracks t h \<Longrightarrow> run tracker_step t xs = Some t' \<Longrightarrow> t_limit t' = t_limit t"
proof (induction xs arbitrary: t h)
  case (Cons x xs)
  then obtain u where u: "tracker_step t x = Some u" "run tracker_step u xs = Some t'"
    by (auto split: option.splits)
  have "t_limit u = t_limit t"
    using u(1) by (cases x) (auto simp: Track_def Let_def consumed_def SetReplicationID_def split: if_splits prod.splits)
  with Cons.IH [OF trk.sim [OF Cons.prems(1) u(1)] u(2)] show ?case by simp
qed simp

text \<open>
  C5. After every sequence of tracked commands, completions (in any order, with duplicates) and
  replication ids, the position the tracker shows for a node is the offset of the last command
  of the longest prefix of the node's commands that are all completed, and nothing as long as the
  first one is outstanding: the position never passes a command the target has not
  acknowledged.  The number of commands held in the queues never exceeds the window.
\<close>

theorem Tracker_refines:
  assumes "run tracker_step (NewTracker limit) ops = Some t"
  shows "shown t node = visible (foldl spec_step [] ops) node \<and>
    (\<Sum>x\<leftarrow>t_sources t. length (src_queue (snd x))) \<le> limit"
proof -
  have "tracks t (foldl spec_step [] ops)" by (rule trk.run_rel [OF tracks_init assms])
  with trk.run_visible [OF tracks_init assms] tracks_limit [OF tracks_init assms]
  show ?thesis by (simp add: tracks_def NewTracker_def)
qed

definition demo_ops :: "op list" where
  "demo_ops = [OpTrack ''n'' 10, OpTrack ''m'' 7, OpTrack ''n'' 20, OpTrack ''n'' 30, OpDone 2, OpDone 2, OpDone 0]"

theorem Tracker_refines_witness:
  "map_option (\<lambda>t. shown t ''n'') (run tracker_step (NewTracker 4) demo_ops) = Some (Some 20) \<and>
   visible (foldl spec_step [] demo_ops) ''n'' = Some 20"
proof -
  have "visible (foldl spec_step [] demo_ops) ''n'' = Some 20" by code_simp
  moreover have "run tracker_step (NewTracker 4) demo_ops \<noteq> None" by code_simp
  ultimately show ?thesis using Tracker_refines [of 4 demo_ops _ "''n''"] by fastforce
qed

text \<open>
  The position a node shows never disappears and, if the commands of the node are tracked
  with offsets that do not decrease, never moves backwards, whatever happens later.
\<close>

theorem Tracker_monotone:
  assumes "run tracker_step (NewTracker limit) ops = Some t"
    and "run tracker_step t later = Some t'"
    and "shown t node = Some off"
    and "sorted (map (fst \<circ> snd) (filter (\<lambda>x. fst x = node) (foldl spec_step [] (ops @ later))))"
  shows "\<exists>off'. shown t' node = Some off' \<and> off \<le> off'"
proof -
  let ?h = "foldl spec_step [] ops" and ?h' = "foldl spec_step [] (ops @ later)"
  have h: "tracks t ?h" by (rule trk.run_rel [OF tracks_init assms(1)])
  have v: "visible ?h node = Some off" using trk.shows_visible [OF h] assms(3) by simp
  have v': "shown t' node = visible ?h' node" using trk.run_visible [OF h assms(2)] by simp
  let ?d = "completed_prefix ?h node" and ?d' = "completed_prefix ?h' node"
  have d: "?d \<noteq> []" "off = fst (snd (last ?d))"
    using v by (auto simp: visible_def Let_def split: if_splits)
  from completed_prefix_run [of ?h node later] have p: "prefix ?d ?d'" by simp
  with d(1) have d': "?d' \<noteq> []" by auto
  have mem: "last ?d \<in> set ?d'" using last_in_set [OF d(1)] set_mono_prefix [OF p] by blast
  have "prefix ?d' (filter (\<lambda>x. fst x = node) ?h')"
    unfolding completed_prefix_def by (rule takeWhile_is_prefix)
  then obtain zs where "filter (\<lambda>x. fst x = node) ?h' = ?d' @ zs" by (auto simp: prefix_def)
  with assms(4) have s: "sorted (map (fst \<circ> snd) ?d')" by (simp add: sorted_append)
  have "fst (snd (last ?d)) \<le> fst (snd (last ?d'))"
  proof -
    from d' obtain ys y where "?d' = ys @ [y]" by (metis append_butlast_last_id)
    with s mem show ?thesis by (auto simp: sorted_append)
  qed
  with d(2) d' v' show ?thesis by (simp add: visible_def)
qed

theorem Tracker_monotone_witness:
  "\<exists>t t'. run tracker_step (NewTracker 4) demo_ops = Some t \<and> run tracker_step t [OpDone 3] = Some t' \<and>
     (\<exists>off'. shown t' ''n'' = Some off' \<and> 20 \<le> off')"
proof -
  obtain t where t: "run tracker_step (NewTracker 4) demo_ops = Some t" "shown t ''n'' = Some 20"
  proof -
    have "run tracker_step (NewTracker 4) demo_ops \<noteq> None" by code_simp
    moreover have "visible (foldl spec_step [] demo_ops) ''n'' = Some 20" by code_simp
    ultimately show thesis using that trk.run_visible [OF tracks_init] by fastforce
  qed
  obtain t' where t': "run tracker_step t [OpDone 3] = Some t'" by simp
  have "sorted (map (fst \<circ> snd) (filter (\<lambda>x. fst x = ''n'') (foldl spec_step [] (demo_ops @ [OpDone 3]))))"
    by code_simp
  from Tracker_monotone [OF t(1) t' t(2) this] t(1) t' show ?thesis by blast
qed

section \<open>client/replication.go: the position of the master\<close>

record masterPosition =
  mp_Node :: string
  mp_Offset :: int
  mp_ReplicationID :: string
  mp_PreviousReplicationID :: string
  mp_SecondReplicationOffset :: int

text \<open>\<^verbatim>\<open>strings.Cut(s, ":")\<close>.\<close>

definition Cut :: "char \<Rightarrow> string \<Rightarrow> (string \<times> string) option" where
  "Cut c s = (if c \<in> set s then Some (takeWhile (\<lambda>x. x \<noteq> c) s, tl (dropWhile (\<lambda>x. x \<noteq> c) s)) else None)"

text \<open>The \<^verbatim>\<open>info\<close> map: a later line for the same key wins.\<close>

definition parseInfo :: "string \<Rightarrow> (string \<times> string) list" where
  "parseInfo txt = rev (List.map_filter (\<lambda>line. Cut (CHR '':'') (TrimSpace line)) (Split (CHR 0x0A) txt))"

definition info_get :: "(string \<times> string) list \<Rightarrow> string \<Rightarrow> string" where
  "info_get info k = (case map_of info k of None \<Rightarrow> [] | Some v \<Rightarrow> v)"

text \<open>
  \<open>conn addr\<close> is what a fresh connection to an address yields: an error (dialling, TLS,
  authentication or reading), or the reply to \<^verbatim>\<open>INFO replication\<close>.
\<close>

definition replicationInfo :: "(string \<Rightarrow> string + reply) \<Rightarrow> string \<Rightarrow> string + (string \<times> string) list" where
  "replicationInfo conn addr = (case conn addr of Inl e \<Rightarrow> Inl e
     | Inr (RStr txt) \<Rightarrow> Inr (parseInfo txt)
     | Inr _ \<Rightarrow> Inl ''invalid INFO replication reply'')"

definition JoinHostPort :: "string \<Rightarrow> string \<Rightarrow> string" where
  "JoinHostPort host port =
     (if CHR '':'' \<in> set host \<or> CHR ''%'' \<in> set host then ''['' @ host @ '']:'' @ port
      else host @ '':'' @ port)"

definition master_of :: "string \<Rightarrow> (string \<times> string) list \<Rightarrow> string + masterPosition" where
  "master_of addr info =
     (case ParseInt (info_get info ''master_repl_offset'') of
        Inl _ \<Rightarrow> Inl ''incomplete replication info''
      | Inr off \<Rightarrow>
          if off < 0 \<or> info_get info ''master_replid'' = [] then Inl ''incomplete replication info''
          else Inr \<lparr>mp_Node = addr, mp_Offset = off, mp_ReplicationID = info_get info ''master_replid'',
                    mp_PreviousReplicationID = info_get info ''master_replid2'',
                    mp_SecondReplicationOffset = (case ParseInt (info_get info ''second_repl_offset'') of
                      Inl _ \<Rightarrow> -1 | Inr v \<Rightarrow> v)\<rparr>)"

fun readMaster_hops :: "nat \<Rightarrow> (string \<Rightarrow> string + reply) \<Rightarrow> string \<Rightarrow> string + masterPosition" where
  "readMaster_hops 0 conn addr = Inl ''master topology not stable''"
| "readMaster_hops (Suc n) conn addr = (case replicationInfo conn addr of
     Inl e \<Rightarrow> Inl e
   | Inr info \<Rightarrow>
       if info_get info ''role'' = ''master'' then master_of addr info
       else if info_get info ''role'' \<noteq> ''slave'' \<and> info_get info ''role'' \<noteq> ''replica'' then Inl ''unknown role''
       else (case Atoi (info_get info ''master_port'') of
           Inl _ \<Rightarrow> Inl ''no master address''
         | Inr port \<Rightarrow>
             if info_get info ''master_host'' = [] \<or> port < 1 \<or> port > 65535 then Inl ''no master address''
             else readMaster_hops n conn (JoinHostPort (info_get info ''master_host'') (Itoa port))))"

definition ReadMasterPosition :: "(string \<Rightarrow> string + reply) \<Rightarrow> string \<Rightarrow> string + masterPosition" where
  "ReadMasterPosition conn addr = readMaster_hops 3 conn addr"

lemma readMaster_hops_master:
  "readMaster_hops n conn addr = Inr m \<Longrightarrow>
     \<exists>info. replicationInfo conn (mp_Node m) = Inr info \<and> info_get info ''role'' = ''master'' \<and>
       ParseInt (info_get info ''master_repl_offset'') = Inr (mp_Offset m) \<and> 0 \<le> mp_Offset m \<and>
       mp_ReplicationID m \<noteq> []"
  by (induction n arbitrary: addr)
    (auto simp: master_of_def split: sum.splits if_splits)

section \<open>report.go\<close>

record nodeProgress =
  np_Node :: string
  np_Offset :: "int option"
  np_MasterNode :: string
  np_MasterOffset :: "int option"
  np_Lag :: "int option"
  np_SampledAt :: string
  np_Error :: string

text \<open>The two messages of the source, in English.\<close>

definition errHistory :: string where "errHistory = ''replication history changed''"
definition errBehind :: string where "errBehind = ''master offset behind consumed offset''"

text \<open>
  One goroutine of \<^verbatim>\<open>Report\<close>: \<open>t\<close> is the tracker when it holds the mutex, \<open>m\<close> what \<^verbatim>\<open>ReadMaster\<close> then
  returns, \<open>now\<close> the time stamp.
\<close>

definition compatible :: "string \<Rightarrow> int \<Rightarrow> masterPosition \<Rightarrow> bool" where
  "compatible replID off m \<longleftrightarrow> replID \<noteq> [] \<and> (replID = mp_ReplicationID m \<or>
     (replID = mp_PreviousReplicationID m \<and> off \<le> mp_SecondReplicationOffset m))"

definition report_node :: "tracker \<Rightarrow> string \<Rightarrow> string + masterPosition \<Rightarrow> string \<Rightarrow> nodeProgress" where
  "report_node t node m now =
     (let off = shown t node; replID = src_replID (the_source t node);
          p = \<lparr>np_Node = node, np_Offset = off, np_MasterNode = [], np_MasterOffset = None,
               np_Lag = None, np_SampledAt = now, np_Error = []\<rparr>
      in case m of Inl e \<Rightarrow> p\<lparr>np_Error := e\<rparr>
       | Inr ma \<Rightarrow>
          let p' = p\<lparr>np_MasterNode := mp_Node ma, np_MasterOffset := Some (mp_Offset ma)\<rparr>
          in (case off of None \<Rightarrow> p'
              | Some v \<Rightarrow> if \<not> compatible replID v ma then p'\<lparr>np_Error := errHistory\<rparr>
                          else if v < 0 \<or> mp_Offset ma < v then p'\<lparr>np_Error := errBehind\<rparr>
                          else p'\<lparr>np_Lag := Some (mp_Offset ma - v)\<rparr>))"

definition Report :: "(tracker \<times> string \<times> (string + masterPosition) \<times> string) list \<Rightarrow> nodeProgress list" where
  "Report samples = sort_key np_Node (map (\<lambda>(t, node, m, now). report_node t node m now) samples)"

text \<open>
  The report of a node carries a lag exactly when a position is shown, the master could be
  read, its history is the one the position belongs to (the same replication id, or the previous
  one up to the offset at which it ended), and the master is not behind; the lag is then the
  difference of the two offsets and never negative, and no error is reported with it.
\<close>

theorem report_lag:
  assumes "r = report_node t node m now"
  shows "np_Lag r = Some lag \<longleftrightarrow>
    (\<exists>off ma. m = Inr ma \<and> shown t node = Some off \<and> 0 \<le> off \<and> off \<le> mp_Offset ma \<and>
       compatible (src_replID (the_source t node)) off ma \<and> lag = mp_Offset ma - off \<and> 0 \<le> lag \<and>
       np_Error r = [])"
proof -
  show ?thesis unfolding assms
    by (cases m; cases "shown t node") (auto simp: report_node_def Let_def errHistory_def errBehind_def)
qed

theorem report_lag_witness:
  "np_Lag (report_node
     ((NewTracker 1)\<lparr>t_sources := [(''n'', \<lparr>src_queue = [], src_offset = 10, src_known = True, src_replID = ''a''\<rparr>)]\<rparr>)
     ''n'' (Inr \<lparr>mp_Node = ''m'', mp_Offset = 25, mp_ReplicationID = ''b'',
        mp_PreviousReplicationID = ''a'', mp_SecondReplicationOffset = 12\<rparr>) ''now'') = Some 15"
  by (subst report_lag [OF refl]) (simp add: shown_def the_source_def compatible_def report_node_def)

section \<open>sqlite.go\<close>

text \<open>The two tables: the offset of a node of a run, the JSON report of a run.\<close>

record offsetsDb =
  run_offsets :: "string \<times> string \<Rightarrow> int option"
  run_progress :: "string \<Rightarrow> string option"

record recorder =
  rec_runID :: string
  rec_saved :: "string \<Rightarrow> int option"

text \<open>How the transaction goes; it changes the database only when it commits.\<close>

datatype tx = BeginFails | ExecFails | MarshalFails | ProgressFails | CommitFails | Commits

definition report_positions :: "nodeProgress list \<Rightarrow> position list" where
  "report_positions reports = List.map_filter
     (\<lambda>r. map_option (\<lambda>off. \<lparr>pos_Node = np_Node r, pos_Offset = off\<rparr>) (np_Offset r)) reports"

definition changed_positions :: "recorder \<Rightarrow> position list \<Rightarrow> position list" where
  "changed_positions r ps = filter (\<lambda>p. rec_saved r (pos_Node p) \<noteq> Some (pos_Offset p)) ps"

fun save_all :: "position list \<Rightarrow> (string \<Rightarrow> int option) \<Rightarrow> string \<Rightarrow> int option" where
  "save_all [] m = m"
| "save_all (p # ps) m = save_all ps (m(pos_Node p \<mapsto> pos_Offset p))"

fun insert_all :: "string \<Rightarrow> position list \<Rightarrow> (string \<times> string \<Rightarrow> int option) \<Rightarrow> string \<times> string \<Rightarrow> int option" where
  "insert_all rid [] m = m"
| "insert_all rid (p # ps) m = insert_all rid ps (m((rid, pos_Node p) \<mapsto> pos_Offset p))"

text \<open>
  \<open>reports\<close> is empty when no sources are configured; \<open>snap\<close> is the snapshot of the tracker; \<open>json\<close>
  marshals the reports.  The result says whether an error is returned.
\<close>

definition Flush :: "(nodeProgress list \<Rightarrow> string) \<Rightarrow> tx \<Rightarrow> nodeProgress list \<Rightarrow> position list \<Rightarrow>
    recorder \<Rightarrow> offsetsDb \<Rightarrow> bool \<times> recorder \<times> offsetsDb" where
  "Flush json out reports snap r db =
     (let positions = (if reports \<noteq> [] then report_positions reports else snap);
          changed = changed_positions r positions
      in if changed = [] \<and> reports = [] then (True, r, db)
         else if out \<noteq> Commits then (False, r, db)
         else (True, r\<lparr>rec_saved := save_all changed (rec_saved r)\<rparr>,
               db\<lparr>run_offsets := insert_all (rec_runID r) changed (run_offsets db),
                  run_progress := (if reports \<noteq> [] then (run_progress db)(rec_runID r \<mapsto> json reports)
                                   else run_progress db)\<rparr>))"

definition saved_in_db :: "recorder \<Rightarrow> offsetsDb \<Rightarrow> bool" where
  "saved_in_db r db \<longleftrightarrow> (\<forall>node off. rec_saved r node = Some off \<longrightarrow> run_offsets db (rec_runID r, node) = Some off)"

lemma save_insert:
  "(\<forall>node off. m node = Some off \<longrightarrow> d (rid, node) = Some off) \<Longrightarrow>
     save_all ps m node = Some off \<Longrightarrow> insert_all rid ps d (rid, node) = Some off"
proof (induction ps arbitrary: m d)
  case (Cons p ps)
  have "\<forall>node off. (m(pos_Node p \<mapsto> pos_Offset p)) node = Some off \<longrightarrow>
      (d((rid, pos_Node p) \<mapsto> pos_Offset p)) (rid, node) = Some off"
    using Cons.prems(1) by simp
  moreover have "save_all ps (m(pos_Node p \<mapsto> pos_Offset p)) node = Some off"
    using Cons.prems(2) by simp
  ultimately have "insert_all rid ps (d((rid, pos_Node p) \<mapsto> pos_Offset p)) (rid, node) = Some off"
    by (rule Cons.IH)
  then show ?case by simp
qed simp

lemma insert_all_other: "rid' \<noteq> rid \<Longrightarrow> insert_all rid ps d (rid', node) = d (rid', node)"
  by (induction ps arbitrary: d) auto

lemma insert_all_notin: "node \<notin> pos_Node ` set ps \<Longrightarrow> insert_all rid ps d (rid, node) = d (rid, node)"
  by (induction ps arbitrary: d) auto

lemma insert_all_in:
  "distinct (map pos_Node ps) \<Longrightarrow> p \<in> set ps \<Longrightarrow> insert_all rid ps d (rid, pos_Node p) = Some (pos_Offset p)"
  by (induction ps arbitrary: d) (auto simp: insert_all_notin)

lemma insert_changed:
  assumes "saved_in_db r db" "distinct (map pos_Node ps)" "p \<in> set ps"
  shows "insert_all (rec_runID r) (changed_positions r ps) (run_offsets db) (rec_runID r, pos_Node p) = Some (pos_Offset p)"
proof (cases "p \<in> set (changed_positions r ps)")
  case True
  then show ?thesis using assms(2)
    by (intro insert_all_in) (auto simp: changed_positions_def distinct_map_filter)
next
  case False
  then have "rec_saved r (pos_Node p) = Some (pos_Offset p)"
    using assms(3) by (simp add: changed_positions_def)
  moreover have "pos_Node p \<notin> pos_Node ` set (changed_positions r ps)"
    using assms(2,3) False by (auto simp: distinct_map inj_on_def changed_positions_def)
  ultimately show ?thesis using assms(1) by (simp add: saved_in_db_def insert_all_notin)
qed



text \<open>
  \<^verbatim>\<open>Run\<close>: a flush per tick and one more when the context ends; \<open>ticks\<close> holds the outcome, the
  reports and the snapshot of each.
\<close>

fun recorder_Run :: "(nodeProgress list \<Rightarrow> string) \<Rightarrow> (tx \<times> nodeProgress list \<times> position list) list \<Rightarrow>
    recorder \<times> offsetsDb \<Rightarrow> bool list \<times> recorder \<times> offsetsDb" where
  "recorder_Run json [] s = ([], s)"
| "recorder_Run json ((out, reports, snap) # ticks) s =
     (case Flush json out reports snap (fst s) (snd s) of (ok, s') \<Rightarrow>
        (case recorder_Run json ticks s' of (oks, s'') \<Rightarrow> (ok # oks, s'')))"

end
