(* ===== verification/EntryFilter.thy ===== *)
theory EntryFilter
  imports Entry
begin

text \<open>
  \<^verbatim>\<open>internal/filter\<close>: the decision whether an entry is forwarded.

  Compiling and matching a regular expression is the parameter \<open>compile\<close> (\<open>None\<close> for an invalid
  expression).  The compiled lists are cached behind \<^verbatim>\<open>sync.Once\<close>; the options do not change while
  a task runs, so compiling at every use is the same.  The main result is a closed form of
  \<^verbatim>\<open>Filter\<close>: a conjunction of independent tests, with the two flush commands apart.
\<close>

section \<open>Options\<close>

record filterOptions =
  AllowKeys :: "string list"
  AllowKeyPrefix :: "string list"
  AllowKeySuffix :: "string list"
  BlockKeys :: "string list"
  BlockKeyPrefix :: "string list"
  BlockKeySuffix :: "string list"
  AllowKeyRegex :: "string list"
  BlockKeyRegex :: "string list"
  AllowDB :: "int list"
  BlockDB :: "int list"
  AllowCommand :: "string list"
  BlockCommand :: "string list"
  AllowCommandGroup :: "string list"
  BlockCommandGroup :: "string list"

section \<open>Key patterns\<close>

type_synonym regexp = "string \<Rightarrow> bool"
type_synonym compiler = "string \<Rightarrow> regexp option"

fun NewKeysPattern :: "compiler \<Rightarrow> string list \<Rightarrow> regexp list option" where
  "NewKeysPattern compile [] = Some []"
| "NewKeysPattern compile (k # ks) =
     (if TrimSpace k = [] then NewKeysPattern compile ks
      else (case compile (TrimSpace k) of None \<Rightarrow> None
        | Some r \<Rightarrow> map_option ((#) r) (NewKeysPattern compile ks)))"

fun MatchKey :: "regexp list \<Rightarrow> string \<Rightarrow> bool" where
  "MatchKey [] k = False"
| "MatchKey (r # rs) k = (if r k then True else MatchKey rs k)"

definition blockKeyMatch :: "compiler \<Rightarrow> string list \<Rightarrow> string \<Rightarrow> bool res" where
  "blockKeyMatch compile regList key = (case NewKeysPattern compile regList of
     None \<Rightarrow> Inl (LogPanicf ''conf.Options.BlockKeyRegex'') | Some rs \<Rightarrow> Inr (MatchKey rs key))"

definition allowKeyMatch :: "compiler \<Rightarrow> string list \<Rightarrow> string \<Rightarrow> bool res" where
  "allowKeyMatch compile regList key =
     (if length regList = 1 \<and> hd regList \<in> {''*'', ''.*'', ''^.*$''} then Inr True
      else (case NewKeysPattern compile regList of
        None \<Rightarrow> Inl (LogPanicf ''conf.Options.AllowKeyRegex'') | Some rs \<Rightarrow> Inr (MatchKey rs key)))"

fun any_prefix :: "string list \<Rightarrow> string \<Rightarrow> bool" where
  "any_prefix [] key = False"
| "any_prefix (p # ps) key = (if HasPrefix key p then True else any_prefix ps key)"

fun any_suffix :: "string list \<Rightarrow> string \<Rightarrow> bool" where
  "any_suffix [] key = False"
| "any_suffix (p # ps) key = (if HasSuffix key p then True else any_suffix ps key)"

definition blockKeyFilter :: "compiler \<Rightarrow> filterOptions \<Rightarrow> string \<Rightarrow> bool res" where
  "blockKeyFilter compile opt key =
     (if BlockKeyRegex opt = [] \<and> BlockKeyPrefix opt = [] \<and> BlockKeySuffix opt = [] \<and> BlockKeys opt = []
      then Inr False
      else if key \<in> set (BlockKeys opt) then Inr True
      else (case blockKeyMatch compile (BlockKeyRegex opt) key of Inl f \<Rightarrow> Inl f
        | Inr m \<Rightarrow> if m then Inr True
           else if any_prefix (BlockKeyPrefix opt) key then Inr True
           else if any_suffix (BlockKeySuffix opt) key then Inr True
           else Inr False))"

definition allowKeyFilter :: "compiler \<Rightarrow> filterOptions \<Rightarrow> string \<Rightarrow> bool res" where
  "allowKeyFilter compile opt key =
     (if AllowKeyRegex opt = [] \<and> AllowKeyPrefix opt = [] \<and> AllowKeySuffix opt = [] \<and> AllowKeys opt = []
      then Inr True
      else if key \<in> set (AllowKeys opt) then Inr True
      else (case allowKeyMatch compile (AllowKeyRegex opt) key of Inl f \<Rightarrow> Inl f
        | Inr m \<Rightarrow> if m then Inr True
           else if any_prefix (AllowKeyPrefix opt) key then Inr True
           else if any_suffix (AllowKeySuffix opt) key then Inr True
           else Inr False))"

section \<open>Filter\<close>

text \<open>\<^verbatim>\<open>keyResults\<close>: a blocked key is not asked whether it is allowed.\<close>

fun keyResults :: "compiler \<Rightarrow> filterOptions \<Rightarrow> string list \<Rightarrow> bool list res" where
  "keyResults compile opt [] = Inr []"
| "keyResults compile opt (k # ks) = (case blockKeyFilter compile opt k of Inl f \<Rightarrow> Inl f
     | Inr True \<Rightarrow> map_sum id ((#) False) (keyResults compile opt ks)
     | Inr False \<Rightarrow> (case allowKeyFilter compile opt k of Inl f \<Rightarrow> Inl f
         | Inr a \<Rightarrow> map_sum id ((#) a) (keyResults compile opt ks)))"

text \<open>The loop that computes \<^verbatim>\<open>allTrue\<close> and \<^verbatim>\<open>allFalse\<close>.\<close>

fun all_flags :: "bool list \<Rightarrow> bool \<times> bool \<Rightarrow> bool \<times> bool" where
  "all_flags [] fl = fl"
| "all_flags (r # rs) (at, af) = (if r then all_flags rs (at, False) else all_flags rs (False, af))"

definition requires_review :: "string \<Rightarrow> fault" where
  "requires_review name = LogPanicf (''unfiltered database-wide command '' @ name)"

definition Filter_rest :: "filterOptions \<Rightarrow> entry \<Rightarrow> bool res" where
  "Filter_rest opt e =
     (if IsIncremental e \<and> CmdName e = ''FLUSHALL'' \<and>
         (AllowCommand opt = [] \<or> ''FLUSHALL'' \<in> set (AllowCommand opt)) \<and>
         ''FLUSHALL'' \<notin> set (BlockCommand opt) then Inl (requires_review ''FLUSHALL'')
      else if AllowDB opt \<noteq> [] \<and> DbId e \<notin> set (AllowDB opt) then Inr False
      else if BlockDB opt \<noteq> [] \<and> DbId e \<in> set (BlockDB opt) then Inr False
      else if IsIncremental e \<and> AllowCommand opt \<noteq> [] \<and> CmdName e \<notin> set (AllowCommand opt) then Inr False
      else if IsIncremental e \<and> BlockCommand opt \<noteq> [] \<and> CmdName e \<in> set (BlockCommand opt) then Inr False
      else if IsIncremental e \<and> CmdName e = ''FLUSHDB'' then Inl (requires_review (CmdName e))
      else if AllowCommandGroup opt \<noteq> [] \<and> Group e \<notin> set (AllowCommandGroup opt) then Inr False
      else if BlockCommandGroup opt \<noteq> [] \<and> Group e \<in> set (BlockCommandGroup opt) then Inr False
      else Inr True)"

definition Filter :: "compiler \<Rightarrow> filterOptions \<Rightarrow> entry \<Rightarrow> bool res" where
  "Filter compile opt e = (case keyResults compile opt (Keys e) of Inl f \<Rightarrow> Inl f
     | Inr rs \<Rightarrow> (case all_flags rs (True, True) of (allTrue, allFalse) \<Rightarrow>
         if allTrue then Filter_rest opt e else Inr False))"

section \<open>What the filter means\<close>

text \<open>An expression list matches a key if one of its non-blank members does.\<close>

definition regex_matches :: "compiler \<Rightarrow> string list \<Rightarrow> string \<Rightarrow> bool" where
  "regex_matches compile regs key \<longleftrightarrow>
     (\<exists>r \<in> set regs. TrimSpace r \<noteq> [] \<and> (\<exists>m. compile (TrimSpace r) = Some m \<and> m key))"

definition regex_valid :: "compiler \<Rightarrow> string list \<Rightarrow> bool" where
  "regex_valid compile regs \<longleftrightarrow> (\<forall>r \<in> set regs. TrimSpace r \<noteq> [] \<longrightarrow> compile (TrimSpace r) \<noteq> None)"

definition key_blocked :: "compiler \<Rightarrow> filterOptions \<Rightarrow> string \<Rightarrow> bool" where
  "key_blocked compile opt key \<longleftrightarrow> key \<in> set (BlockKeys opt) \<or>
     regex_matches compile (BlockKeyRegex opt) key \<or>
     (\<exists>p \<in> set (BlockKeyPrefix opt). prefix p key) \<or> (\<exists>p \<in> set (BlockKeySuffix opt). suffix p key)"

definition key_allowed :: "compiler \<Rightarrow> filterOptions \<Rightarrow> string \<Rightarrow> bool" where
  "key_allowed compile opt key \<longleftrightarrow>
     (AllowKeys opt = [] \<and> AllowKeyRegex opt = [] \<and> AllowKeyPrefix opt = [] \<and> AllowKeySuffix opt = []) \<or>
     key \<in> set (AllowKeys opt) \<or>
     (\<exists>r. AllowKeyRegex opt = [r] \<and> r \<in> {''*'', ''.*'', ''^.*$''}) \<or>
     regex_matches compile (AllowKeyRegex opt) key \<or>
     (\<exists>p \<in> set (AllowKeyPrefix opt). prefix p key) \<or> (\<exists>p \<in> set (AllowKeySuffix opt). suffix p key)"

text \<open>An allow list that is empty allows everything; a block list blocks its members.\<close>

definition listed :: "'a list \<Rightarrow> 'a list \<Rightarrow> 'a \<Rightarrow> bool" where
  "listed allow block x \<longleftrightarrow> (allow = [] \<or> x \<in> set allow) \<and> x \<notin> set block"

definition passes :: "compiler \<Rightarrow> filterOptions \<Rightarrow> entry \<Rightarrow> bool" where
  "passes compile opt e \<longleftrightarrow>
     (\<forall>k \<in> set (Keys e). \<not> key_blocked compile opt k \<and> key_allowed compile opt k) \<and>
     listed (AllowDB opt) (BlockDB opt) (DbId e) \<and>
     (IsIncremental e \<longrightarrow> listed (AllowCommand opt) (BlockCommand opt) (CmdName e)) \<and>
     listed (AllowCommandGroup opt) (BlockCommandGroup opt) (Group e)"

text \<open>A flush command that no key, command or (for one database) database rule takes out.\<close>

definition flushes :: "compiler \<Rightarrow> filterOptions \<Rightarrow> entry \<Rightarrow> bool" where
  "flushes compile opt e \<longleftrightarrow> IsIncremental e \<and>
     (\<forall>k \<in> set (Keys e). \<not> key_blocked compile opt k \<and> key_allowed compile opt k) \<and>
     listed (AllowCommand opt) (BlockCommand opt) (CmdName e) \<and>
     (CmdName e = ''FLUSHALL'' \<or> CmdName e = ''FLUSHDB'' \<and> listed (AllowDB opt) (BlockDB opt) (DbId e))"

definition patterns_valid :: "compiler \<Rightarrow> filterOptions \<Rightarrow> bool" where
  "patterns_valid compile opt \<longleftrightarrow> regex_valid compile (BlockKeyRegex opt) \<and>
     (regex_valid compile (AllowKeyRegex opt) \<or> (\<exists>r. AllowKeyRegex opt = [r] \<and> r \<in> {''*'', ''.*'', ''^.*$''}))"

section \<open>Proofs\<close>

lemma MatchKey_iff: "MatchKey rs k \<longleftrightarrow> (\<exists>r \<in> set rs. r k)"
  by (induction rs) auto

lemma any_prefix_iff: "any_prefix ps k \<longleftrightarrow> (\<exists>p \<in> set ps. prefix p k)"
  by (induction ps) auto

lemma any_suffix_iff: "any_suffix ps k \<longleftrightarrow> (\<exists>p \<in> set ps. suffix p k)"
  by (induction ps) auto

lemma regex_matches_simps [simp]:
  "regex_matches compile [] key = False"
  "regex_matches compile (r # regs) key \<longleftrightarrow>
     TrimSpace r \<noteq> [] \<and> (case compile (TrimSpace r) of None \<Rightarrow> False | Some m \<Rightarrow> m key) \<or>
     regex_matches compile regs key"
  by (auto simp: regex_matches_def split: option.splits)

lemma regex_valid_simps [simp]:
  "regex_valid compile []"
  "regex_valid compile (r # regs) \<longleftrightarrow>
     (TrimSpace r \<noteq> [] \<longrightarrow> compile (TrimSpace r) \<noteq> None) \<and> regex_valid compile regs"
  by (auto simp: regex_valid_def)

lemma NewKeysPattern_matches:
  "regex_valid compile regs \<Longrightarrow>
     \<exists>rs. NewKeysPattern compile regs = Some rs \<and> MatchKey rs key = regex_matches compile regs key"
  by (induction regs) auto

lemma blockKeyFilter_eq:
  assumes "regex_valid compile (BlockKeyRegex opt)"
  shows "blockKeyFilter compile opt key = Inr (key_blocked compile opt key)"
proof -
  obtain rs where "NewKeysPattern compile (BlockKeyRegex opt) = Some rs"
    and "MatchKey rs key = regex_matches compile (BlockKeyRegex opt) key"
    using NewKeysPattern_matches [OF assms] by blast
  then show ?thesis
    by (auto simp: blockKeyFilter_def blockKeyMatch_def key_blocked_def any_prefix_iff any_suffix_iff)
qed

lemma allowKeyMatch_eq:
  assumes "regex_valid compile regs \<or> (\<exists>r. regs = [r] \<and> r \<in> {''*'', ''.*'', ''^.*$''})"
  shows "allowKeyMatch compile regs key =
    Inr ((\<exists>r. regs = [r] \<and> r \<in> {''*'', ''.*'', ''^.*$''}) \<or> regex_matches compile regs key)"
proof (cases "\<exists>r. regs = [r] \<and> r \<in> {''*'', ''.*'', ''^.*$''}")
  case True
  then show ?thesis by (auto simp: allowKeyMatch_def)
next
  case False
  then have "\<not> (length regs = 1 \<and> hd regs \<in> {''*'', ''.*'', ''^.*$''})"
    by (cases regs) auto
  with False assms NewKeysPattern_matches [of compile regs key] show ?thesis
    unfolding allowKeyMatch_def by auto
qed

lemma allowKeyFilter_eq:
  assumes "regex_valid compile (AllowKeyRegex opt) \<or> (\<exists>r. AllowKeyRegex opt = [r] \<and> r \<in> {''*'', ''.*'', ''^.*$''})"
  shows "allowKeyFilter compile opt key = Inr (key_allowed compile opt key)"
  unfolding allowKeyFilter_def allowKeyMatch_eq [OF assms] key_allowed_def any_prefix_iff any_suffix_iff
  by auto

lemma keyResults_eq:
  "patterns_valid compile opt \<Longrightarrow> keyResults compile opt ks =
     Inr (map (\<lambda>k. \<not> key_blocked compile opt k \<and> key_allowed compile opt k) ks)"
  by (induction ks) (auto simp: patterns_valid_def blockKeyFilter_eq allowKeyFilter_eq split: bool.splits)

lemma all_flags_eq: "all_flags rs (at, af) = (at \<and> (\<forall>r \<in> set rs. r), af \<and> (\<forall>r \<in> set rs. \<not> r))"
  by (induction rs arbitrary: at af) auto

text \<open>
  C10. With valid patterns \<^verbatim>\<open>Filter\<close> is the conjunction of four independent tests: every key is
  allowed and not blocked (so blocking beats allowing, and an entry with one rejected key is
  dropped whole), and the database, the command (for incremental entries only) and the command
  group each pass their allow and block list.  The process stops instead exactly when an
  incremental FLUSHALL, or a FLUSHDB of a replicated database, is taken out by no command rule:
  such a command is neither forwarded nor silently dropped.
\<close>

theorem Filter_spec:
  assumes "patterns_valid compile opt"
  shows "Filter compile opt e =
    (if flushes compile opt e then Inl (requires_review (CmdName e)) else Inr (passes compile opt e))"
proof -
  let ?keys = "\<forall>k \<in> set (Keys e). \<not> key_blocked compile opt k \<and> key_allowed compile opt k"
  have F: "Filter compile opt e = (if ?keys then Filter_rest opt e else Inr False)"
    by (auto simp: Filter_def keyResults_eq [OF assms] all_flags_eq)
  show ?thesis
  proof (cases "?keys")
    case True
    with F have "Filter compile opt e = Filter_rest opt e" by simp
    also have "\<dots> = (if flushes compile opt e then Inl (requires_review (CmdName e)) else Inr (passes compile opt e))"
      unfolding Filter_rest_def flushes_def passes_def listed_def using True
      by (cases "CmdName e = ''FLUSHALL''"; cases "CmdName e = ''FLUSHDB''"; cases "IsIncremental e") auto
    finally show ?thesis .
  qed (auto simp: F flushes_def passes_def)
qed

definition demo_options :: filterOptions where
  "demo_options = \<lparr>AllowKeys = [], AllowKeyPrefix = [''a''], AllowKeySuffix = [], BlockKeys = [''ab''],
     BlockKeyPrefix = [], BlockKeySuffix = [], AllowKeyRegex = [], BlockKeyRegex = [], AllowDB = [0, 1],
     BlockDB = [], AllowCommand = [], BlockCommand = [], AllowCommandGroup = [], BlockCommandGroup = []\<rparr>"

theorem Filter_spec_witness:
  "Filter (\<lambda>_. None) demo_options (NewEntry\<lparr>Keys := [''ac'']\<rparr>) = Inr True \<and>
   Filter (\<lambda>_. None) demo_options (NewEntry\<lparr>Keys := [''ac'', ''ab'']\<rparr>) = Inr False \<and>
   Filter (\<lambda>_. None) demo_options (NewEntry\<lparr>CmdName := ''FLUSHALL'', IsIncremental := True\<rparr>)
     = Inl (requires_review ''FLUSHALL'')"
proof -
  have v: "patterns_valid (\<lambda>_. None) demo_options"
    by (simp add: patterns_valid_def regex_valid_def demo_options_def)
  note simps = flushes_def passes_def listed_def key_blocked_def key_allowed_def regex_matches_def
    demo_options_def NewEntry_def
  from Filter_spec [OF v, of "NewEntry\<lparr>Keys := [''ac'']\<rparr>"]
    Filter_spec [OF v, of "NewEntry\<lparr>Keys := [''ac'', ''ab'']\<rparr>"]
    Filter_spec [OF v, of "NewEntry\<lparr>CmdName := ''FLUSHALL'', IsIncremental := True\<rparr>"]
  show ?thesis by (simp add: simps)
qed

text \<open>
  Whatever the options and patterns, an incremental FLUSHALL or FLUSHDB is never forwarded:
  if \<^verbatim>\<open>Filter\<close> lets an incremental entry pass, it is neither of them.
\<close>

theorem Filter_never_forwards_flush:
  assumes "Filter compile opt e = Inr True" "IsIncremental e"
  shows "CmdName e \<noteq> ''FLUSHALL'' \<and> CmdName e \<noteq> ''FLUSHDB''"
proof -
  have "Filter_rest opt e = Inr True"
    using assms(1) by (auto simp: Filter_def split: sum.splits prod.splits if_splits)
  with assms(2) show ?thesis by (auto simp: Filter_rest_def split: if_splits)
qed

theorem Filter_never_forwards_flush_witness:
  "Filter (\<lambda>_. None) demo_options (NewEntry\<lparr>CmdName := ''GET'', IsIncremental := True\<rparr>) = Inr True \<and>
   CmdName (NewEntry\<lparr>CmdName := ''GET'', IsIncremental := True\<rparr>) \<noteq> ''FLUSHALL''"
proof -
  have "Filter (\<lambda>_. None) demo_options (NewEntry\<lparr>CmdName := ''GET'', IsIncremental := True\<rparr>) = Inr True"
    by (simp add: Filter_def Filter_rest_def demo_options_def NewEntry_def)
  from Filter_never_forwards_flush [OF this] this show ?thesis by simp
qed

end
