(* ===== verification/Writer.thy ===== *)
theory Writer
  imports Entry
begin

text \<open>
  \<^verbatim>\<open>internal/writer/redis_standalone_writer.go\<close>: the pipelined writer to one Redis node.

  Three parties run at the same time: the caller (\<^verbatim>\<open>Write\<close>, \<^verbatim>\<open>Close\<close>), the goroutine
  \<^verbatim>\<open>processWrite\<close> and the goroutine \<^verbatim>\<open>processReply\<close>; the target answers what it has received, in
  order, with any reply.  They share two channels, the buffered connection (32 KiB) and two
  counters.  Every atomic action of theirs is a rule of the step relation \<open>w_step\<close>; where
  \<^verbatim>\<open>processWrite\<close> stands between two actions is its program counter.  Time, the rate limiter
  and logging are left out.

  Proved by an invariant over all reachable states: commands are sent in the order they were
  given, each in its own database; replies are matched to commands in order; the two counters
  are the entries and bytes outstanding; when \<^verbatim>\<open>Close\<close> has returned everything was sent,
  answered and reported, and the counters are zero.  Also proved: the wait for the target's query
  buffer can block for ever, because it does not flush.
\<close>

section \<open>State\<close>

record wOptions =
  PipelineCountLimit :: nat
  MaxQuerybufLen :: int
  RDBRestoreCommandBehavior :: string
  OffReply :: bool

datatype wpc =
    Looping | Switching entry | WaitQuota entry | Pushing entry | Accounting entry | Sending entry
  | WriteDone

text \<open>
  \<open>w_wire\<close> and \<open>w_buf\<close> are the bytes handed to the connection and those still in its buffer;
  \<open>w_replies\<close> the replies that arrived and were not yet read; \<open>w_cur\<close> the entry whose reply
  \<^verbatim>\<open>processReply\<close> waits for.  The last five fields record history: the entries accepted by
  \<^verbatim>\<open>Write\<close>, the commands written to the connection, the entries whose reply was handled, the
  number of commands answered by the target, and the callbacks called.
\<close>

record redisWriter =
  w_DbId :: int
  w_ch :: "entry list"
  w_chClosed :: bool
  w_wait :: "entry list"
  w_waitClosed :: bool
  w_pc :: wpc
  w_cur :: "entry option"
  w_wire :: string
  w_buf :: string
  w_replies :: "(rerr + reply) list"
  UnansweredBytes :: int
  UnansweredEntries :: int
  w_fault :: "fault option"
  w_accepted :: "entry list"
  w_issued :: "entry list"
  w_handled :: "entry list"
  w_answered :: nat
  w_called :: "callback list"

definition NewRedisWriter :: redisWriter where
  "NewRedisWriter = \<lparr>w_DbId = 0, w_ch = [], w_chClosed = False, w_wait = [], w_waitClosed = False,
     w_pc = Looping, w_cur = None, w_wire = [], w_buf = [], w_replies = [], UnansweredBytes = 0,
     UnansweredEntries = 0, w_fault = None, w_accepted = [], w_issued = [], w_handled = [],
     w_answered = 0, w_called = []\<rparr>"

section \<open>Actions\<close>

definition argv_bytes :: "string list \<Rightarrow> string" where
  "argv_bytes argv = CHR ''*'' # writeLen (length argv) @ concat (map writeBytes argv)"

lemma Serialize_eq: "Serialize e = Inr (argv_bytes (Argv e), e\<lparr>SerializedSize := int (length (argv_bytes (Argv e)))\<rparr>)"
  by (simp add: Serialize_def EncodeArgv_def WriteArgs_def writeArgList_strings argv_bytes_def)

text \<open>\<^verbatim>\<open>Serialize\<close> never fails; its effect on the entry.\<close>

definition serialized :: "entry \<Rightarrow> entry" where
  "serialized e = (case Serialize e of Inr (_, e') \<Rightarrow> e' | Inl _ \<Rightarrow> e)"

definition w_Flush :: "redisWriter \<Rightarrow> redisWriter" where
  "w_Flush w = w\<lparr>w_wire := w_wire w @ w_buf w, w_buf := []\<rparr>"

definition w_SendBytes :: "entry \<Rightarrow> redisWriter \<Rightarrow> redisWriter" where
  "w_SendBytes e w = (let fb = bufio_write 32768 (w_wire w, w_buf w) (argv_bytes (Argv e))
     in w\<lparr>w_wire := fst fb, w_buf := snd fb, w_issued := w_issued w @ [e]\<rparr>)"

definition select_entry :: "int \<Rightarrow> entry" where
  "select_entry n = NewEntry\<lparr>Argv := [''select'', Itoa n], CmdName := ''select''\<rparr>"

text \<open>The first half of \<^verbatim>\<open>switchDbTo\<close>: \<^verbatim>\<open>client.Send\<close> writes and flushes.\<close>

definition send_select :: "int \<Rightarrow> redisWriter \<Rightarrow> redisWriter" where
  "send_select n w = (w_Flush (w_SendBytes (select_entry n) w))\<lparr>w_DbId := n\<rparr>"

definition over_quota :: "wOptions \<Rightarrow> redisWriter \<Rightarrow> entry \<Rightarrow> bool" where
  "over_quota opt w e \<longleftrightarrow> UnansweredBytes w > 0 \<and> SerializedSize e + UnansweredBytes w > MaxQuerybufLen opt"

definition wait_full :: "wOptions \<Rightarrow> redisWriter \<Rightarrow> bool" where
  "wait_full opt w \<longleftrightarrow> length (w_wait w) \<ge> PipelineCountLimit opt * 2"

definition is_select :: "entry \<Rightarrow> bool" where
  "is_select e \<longleftrightarrow> EqualFold (CmdName e) ''select''"

definition busykey :: string where
  "busykey = ''BUSYKEY Target key name already exists.''"

text \<open>Whether a reply stops the process.\<close>

definition reply_fault :: "wOptions \<Rightarrow> rerr + reply \<Rightarrow> fault option" where
  "reply_fault opt r = (case r of Inr _ \<Rightarrow> None
     | Inl e \<Rightarrow> if e = NilErr then None
        else if (case e of RedisError m \<Rightarrow> m | GoError m \<Rightarrow> m) = busykey then
          (if RDBRestoreCommandBehavior opt = ''skip'' then None
           else if RDBRestoreCommandBehavior opt = ''panic'' then Some (LogPanicf ''received BUSYKEY reply'')
           else None)
        else Some (LogPanicf ''receive reply failed''))"

text \<open>The body of \<^verbatim>\<open>processReply\<close> after \<^verbatim>\<open>Receive\<close>.\<close>

definition handle_reply :: "wOptions \<Rightarrow> entry \<Rightarrow> rerr + reply \<Rightarrow> redisWriter \<Rightarrow> redisWriter" where
  "handle_reply opt e r w = (case reply_fault opt r of
     Some f \<Rightarrow> w\<lparr>w_fault := Some f\<rparr>
   | None \<Rightarrow>
      if is_select e then w\<lparr>w_handled := w_handled w @ [e]\<rparr>
      else w\<lparr>w_handled := w_handled w @ [e],
             UnansweredBytes := UnansweredBytes w - SerializedSize e,
             UnansweredEntries := UnansweredEntries w - 1,
             w_called := w_called w @ (case OnWritten e of None \<Rightarrow> [] | Some c \<Rightarrow> [c])\<rparr>)"

text \<open>The commands the target has received completely.\<close>

fun delivered :: "nat \<Rightarrow> entry list \<Rightarrow> nat" where
  "delivered n [] = 0"
| "delivered n (e # es) = (let k = length (argv_bytes (Argv e))
     in if k \<le> n then Suc (delivered (n - k) es) else 0)"

inductive w_step :: "wOptions \<Rightarrow> redisWriter \<Rightarrow> redisWriter \<Rightarrow> bool" for opt where
  put: "\<lbrakk>\<not> w_chClosed w; length (w_ch w) < PipelineCountLimit opt\<rbrakk>
    \<Longrightarrow> w_step opt w (w\<lparr>w_ch := w_ch w @ [e], w_accepted := w_accepted w @ [e]\<rparr>)"
| tick: "w_pc w = Looping \<Longrightarrow> w_step opt w (w_Flush w)"
| take: "\<lbrakk>w_pc w = Looping; w_ch w = e # es; w_DbId w = DbId e\<rbrakk>
    \<Longrightarrow> w_step opt w (w\<lparr>w_ch := es, w_pc := WaitQuota (serialized e)\<rparr>)"
| take_switch: "\<lbrakk>w_pc w = Looping; w_ch w = e # es; w_DbId w \<noteq> DbId e\<rbrakk>
    \<Longrightarrow> w_step opt w (send_select (DbId e) (w\<lparr>w_ch := es, w_pc := Switching e\<rparr>))"
| switched: "\<lbrakk>w_pc w = Switching e; OffReply opt \<or> \<not> wait_full opt w\<rbrakk>
    \<Longrightarrow> w_step opt w (w\<lparr>w_wait := w_wait w @ (if OffReply opt then [] else [select_entry (w_DbId w)]),
                         w_pc := WaitQuota (serialized e)\<rparr>)"
| quota: "\<lbrakk>w_pc w = WaitQuota e; \<not> over_quota opt w e\<rbrakk>
    \<Longrightarrow> w_step opt w (w\<lparr>w_pc := if OffReply opt then Sending e else Pushing e\<rparr>)"
| push_flush: "\<lbrakk>w_pc w = Pushing e; wait_full opt w\<rbrakk> \<Longrightarrow> w_step opt w (w_Flush w)"
| push: "\<lbrakk>w_pc w = Pushing e; \<not> wait_full opt w\<rbrakk>
    \<Longrightarrow> w_step opt w (w\<lparr>w_wait := w_wait w @ [e], w_pc := Accounting e\<rparr>)"
| account: "w_pc w = Accounting e
    \<Longrightarrow> w_step opt w (w\<lparr>UnansweredBytes := UnansweredBytes w + SerializedSize e,
                         UnansweredEntries := UnansweredEntries w + 1, w_pc := Sending e\<rparr>)"
| send: "w_pc w = Sending e \<Longrightarrow> w_step opt w ((w_SendBytes e w)\<lparr>w_pc := Looping\<rparr>)"
| close_ch: "\<not> w_chClosed w \<Longrightarrow> w_step opt w (w\<lparr>w_chClosed := True\<rparr>)"
| finish: "\<lbrakk>w_pc w = Looping; w_ch w = []; w_chClosed w\<rbrakk>
    \<Longrightarrow> w_step opt w ((w_Flush w)\<lparr>w_pc := WriteDone\<rparr>)"
| close_wait: "\<lbrakk>w_pc w = WriteDone; \<not> w_waitClosed w; \<not> OffReply opt\<rbrakk>
    \<Longrightarrow> w_step opt w (w\<lparr>w_waitClosed := True\<rparr>)"
| next_wait: "\<lbrakk>w_cur w = None; w_wait w = e # es\<rbrakk>
    \<Longrightarrow> w_step opt w (w\<lparr>w_cur := Some e, w_wait := es\<rparr>)"
| answer: "\<lbrakk>\<not> OffReply opt; w_answered w < delivered (length (w_wire w)) (w_issued w)\<rbrakk>
    \<Longrightarrow> w_step opt w (w\<lparr>w_replies := w_replies w @ [r], w_answered := Suc (w_answered w)\<rparr>)"
| reply: "\<lbrakk>w_cur w = Some e; w_replies w = r # rs\<rbrakk>
    \<Longrightarrow> w_step opt w (handle_reply opt e r (w\<lparr>w_cur := None, w_replies := rs\<rparr>))"

inductive w_reachable :: "wOptions \<Rightarrow> redisWriter \<Rightarrow> bool" for opt where
  init: "w_reachable opt NewRedisWriter"
| step: "\<lbrakk>w_reachable opt w; w_fault w = None; w_step opt w w'\<rbrakk> \<Longrightarrow> w_reachable opt w'"

text \<open>\<^verbatim>\<open>Close\<close> returns when \<^verbatim>\<open>processReply\<close> has left its loop over the closed channel.\<close>

definition w_Closed :: "redisWriter \<Rightarrow> bool" where
  "w_Closed w \<longleftrightarrow> w_waitClosed w \<and> w_wait w = [] \<and> w_cur w = None"

definition StatusConsistent :: "redisWriter \<Rightarrow> bool" where
  "StatusConsistent w \<longleftrightarrow> UnansweredBytes w = 0 \<and> UnansweredEntries w = 0"

text \<open>
  The same relation as a function of a scheduler's choices, so that runs can be computed:
  \<open>Advance\<close> is the next action of \<^verbatim>\<open>processWrite\<close> (or of \<^verbatim>\<open>Close\<close> after it).
\<close>

datatype wact = Put entry | Tick | Advance | CloseCh | NextWait | Answer "rerr + reply" | Handle

fun w_advance :: "wOptions \<Rightarrow> redisWriter \<Rightarrow> redisWriter option" where
  "w_advance opt w = (case w_pc w of
     Looping \<Rightarrow> (case w_ch w of
         [] \<Rightarrow> if w_chClosed w then Some ((w_Flush w)\<lparr>w_pc := WriteDone\<rparr>) else None
       | e # es \<Rightarrow> if w_DbId w = DbId e then Some (w\<lparr>w_ch := es, w_pc := WaitQuota (serialized e)\<rparr>)
                  else Some (send_select (DbId e) (w\<lparr>w_ch := es, w_pc := Switching e\<rparr>)))
   | Switching e \<Rightarrow> if OffReply opt \<or> \<not> wait_full opt w
       then Some (w\<lparr>w_wait := w_wait w @ (if OffReply opt then [] else [select_entry (w_DbId w)]),
                    w_pc := WaitQuota (serialized e)\<rparr>) else None
   | WaitQuota e \<Rightarrow> if over_quota opt w e then None
       else Some (w\<lparr>w_pc := if OffReply opt then Sending e else Pushing e\<rparr>)
   | Pushing e \<Rightarrow> if wait_full opt w then Some (w_Flush w)
       else Some (w\<lparr>w_wait := w_wait w @ [e], w_pc := Accounting e\<rparr>)
   | Accounting e \<Rightarrow> Some (w\<lparr>UnansweredBytes := UnansweredBytes w + SerializedSize e,
                             UnansweredEntries := UnansweredEntries w + 1, w_pc := Sending e\<rparr>)
   | Sending e \<Rightarrow> Some ((w_SendBytes e w)\<lparr>w_pc := Looping\<rparr>)
   | WriteDone \<Rightarrow> if w_waitClosed w \<or> OffReply opt then None else Some (w\<lparr>w_waitClosed := True\<rparr>))"

fun w_do :: "wOptions \<Rightarrow> wact \<Rightarrow> redisWriter \<Rightarrow> redisWriter option" where
  "w_do opt (Put e) w = (if \<not> w_chClosed w \<and> length (w_ch w) < PipelineCountLimit opt
     then Some (w\<lparr>w_ch := w_ch w @ [e], w_accepted := w_accepted w @ [e]\<rparr>) else None)"
| "w_do opt Tick w = (if w_pc w = Looping then Some (w_Flush w) else None)"
| "w_do opt Advance w = w_advance opt w"
| "w_do opt CloseCh w = (if w_chClosed w then None else Some (w\<lparr>w_chClosed := True\<rparr>))"
| "w_do opt NextWait w = (case w_wait w of [] \<Rightarrow> None
     | e # es \<Rightarrow> if w_cur w = None then Some (w\<lparr>w_cur := Some e, w_wait := es\<rparr>) else None)"
| "w_do opt (Answer r) w =
     (if \<not> OffReply opt \<and> w_answered w < delivered (length (w_wire w)) (w_issued w)
      then Some (w\<lparr>w_replies := w_replies w @ [r], w_answered := Suc (w_answered w)\<rparr>) else None)"
| "w_do opt Handle w = (case (w_cur w, w_replies w) of
     (Some e, r # rs) \<Rightarrow> Some (handle_reply opt e r (w\<lparr>w_cur := None, w_replies := rs\<rparr>))
   | _ \<Rightarrow> None)"

fun w_exec :: "wOptions \<Rightarrow> wact list \<Rightarrow> redisWriter \<Rightarrow> redisWriter option" where
  "w_exec opt [] w = Some w"
| "w_exec opt (a # as) w = (if w_fault w \<noteq> None then None
     else (case w_do opt a w of None \<Rightarrow> None | Some w' \<Rightarrow> w_exec opt as w'))"

lemma w_advance_step: "w_advance opt w = Some w' \<Longrightarrow> w_step opt w w'"
proof (cases "w_pc w")
  case (Switching e)
  assume "w_advance opt w = Some w'"
  then show ?thesis using Switching w_step.switched [OF Switching, of opt] by (auto split: if_splits)
next
  case (WaitQuota e)
  assume "w_advance opt w = Some w'"
  then show ?thesis using WaitQuota w_step.quota [OF WaitQuota, of opt] by (auto split: if_splits)
qed (auto split: if_splits list.splits intro: w_step.intros)

lemma w_do_step: "w_do opt a w = Some w' \<Longrightarrow> w_step opt w w'"
proof (cases a)
  case Advance
  assume "w_do opt a w = Some w'"
  then show ?thesis using Advance w_advance_step by simp
qed (auto split: if_splits list.splits option.splits intro: w_step.intros)

lemma w_step_do: "w_step opt w w' \<Longrightarrow> \<exists>a. w_do opt a w = Some w'"
proof (erule w_step.cases, goal_cases)
  case (1 v e) then show ?case by (intro exI [of _ "Put e"]) simp
next
  case (2 v) then show ?case by (intro exI [of _ Tick]) simp
next
  case (11 v) then show ?case by (intro exI [of _ CloseCh]) simp
next
  case (14 v e es) then show ?case by (intro exI [of _ NextWait]) simp
next
  case (15 v r) then show ?case by (intro exI [of _ "Answer r"]) simp
next
  case (16 v e r rs) then show ?case by (intro exI [of _ Handle]) simp
qed (intro exI [of _ Advance]; simp)+

lemma w_exec_reachable: "w_reachable opt w \<Longrightarrow> w_exec opt as w = Some w' \<Longrightarrow> w_reachable opt w'"
  by (induction "as" arbitrary: w)
    (auto split: if_splits option.splits dest: w_do_step intro: w_reachable.step)

section \<open>What the target sees\<close>

text \<open>
  The target starts in database 0; a select command changes the database, every other command
  runs in the current one.
\<close>

definition target_db :: "entry \<Rightarrow> int \<Rightarrow> int" where
  "target_db e db = (if is_select e then (case Atoi (Argv e ! 1) of Inr n \<Rightarrow> n | Inl _ \<Rightarrow> db) else db)"

fun target_runs :: "int \<Rightarrow> entry list \<Rightarrow> (int \<times> string list) list" where
  "target_runs db [] = []"
| "target_runs db (e # es) =
     (if is_select e then [] else [(db, Argv e)]) @ target_runs (target_db e db) es"

definition final_db :: "int \<Rightarrow> entry list \<Rightarrow> int" where
  "final_db db es = foldl (\<lambda>d e. target_db e d) db es"

section \<open>The invariant\<close>

abbreviation commands :: "entry list \<Rightarrow> entry list" where
  "commands es \<equiv> filter (\<lambda>e. \<not> is_select e) es"

fun inflight :: "wpc \<Rightarrow> entry list" where
  "inflight (Switching e) = [serialized e]"
| "inflight (WaitQuota e) = [e]"
| "inflight (Pushing e) = [e]"
| "inflight (Accounting e) = [e]"
| "inflight (Sending e) = [e]"
| "inflight _ = []"

text \<open>Entries the callers may write: their own databases fit an \<^verbatim>\<open>int64\<close>, and no select commands.\<close>

definition plain :: "entry \<Rightarrow> bool" where
  "plain e \<longleftrightarrow> \<not> is_select e \<and> - maxInt64 - 1 \<le> DbId e \<and> DbId e \<le> maxInt64"

text \<open>What was sent, in which order and in which database.\<close>

definition sent_inv :: "redisWriter \<Rightarrow> bool" where
  "sent_inv w \<longleftrightarrow>
     map serialized (w_accepted w) = commands (w_issued w) @ inflight (w_pc w) @ map serialized (w_ch w) \<and>
     w_wire w @ w_buf w = concat (map (argv_bytes \<circ> Argv) (w_issued w)) \<and>
     final_db 0 (w_issued w) = w_DbId w \<and>
     target_runs 0 (w_issued w) = map (\<lambda>e. (DbId e, Argv e)) (commands (w_issued w)) \<and>
     (\<forall>e \<in> set (inflight (w_pc w)). DbId e = w_DbId w) \<and>
     (w_waitClosed w \<longrightarrow> w_pc w = WriteDone) \<and>
     (w_pc w = WriteDone \<longrightarrow> w_ch w = [] \<and> w_chClosed w \<and> w_buf w = [])"

text \<open>What waits for a reply.\<close>

definition waiting :: "redisWriter \<Rightarrow> entry list" where
  "waiting w = (case w_cur w of None \<Rightarrow> [] | Some e \<Rightarrow> [e]) @ w_wait w"

definition unaccounted :: "wpc \<Rightarrow> entry list" where
  "unaccounted pc = (case pc of Accounting e \<Rightarrow> [e] | _ \<Rightarrow> [])"

definition reply_inv :: "redisWriter \<Rightarrow> bool" where
  "reply_inv w \<longleftrightarrow>
     (case w_pc w of
        Switching e \<Rightarrow> w_issued w = w_handled w @ waiting w @ [select_entry (w_DbId w)]
      | Accounting e \<Rightarrow> w_handled w @ waiting w = w_issued w @ [e]
      | Sending e \<Rightarrow> w_handled w @ waiting w = w_issued w @ [e]
      | _ \<Rightarrow> w_handled w @ waiting w = w_issued w) \<and>
     UnansweredEntries w = int (length (commands (waiting w))) - int (length (unaccounted (w_pc w))) \<and>
     UnansweredBytes w = (\<Sum>e\<leftarrow>commands (waiting w). SerializedSize e)
       - (\<Sum>e\<leftarrow>unaccounted (w_pc w). SerializedSize e) \<and>
     w_called w = List.map_filter OnWritten (commands (w_handled w)) \<and>
     w_answered w = length (w_handled w) + length (w_replies w)"

lemma bufio_content: "fst (bufio_write cap (f, b) p) @ snd (bufio_write cap (f, b) p) = f @ b @ p"
  using bufio_write_content [of cap f b p] by (metis prod.collapse)

lemma serialized_simps [simp]:
  "is_select (serialized e) = is_select e" "DbId (serialized e) = DbId e" "Argv (serialized e) = Argv e"
  "plain (serialized e) = plain e"
  by (simp_all add: serialized_def Serialize_eq is_select_def plain_def)

lemma select_entry_simps [simp]:
  "is_select (select_entry n)" "Argv (select_entry n) = [''select'', Itoa n]"
  by (simp_all add: select_entry_def is_select_def)

lemma final_db_append [simp]: "final_db db (xs @ ys) = final_db (final_db db xs) ys"
  by (simp add: final_db_def)

lemma final_db_Cons [simp]: "final_db db (e # es) = final_db (target_db e db) es" "final_db db [] = db"
  by (simp_all add: final_db_def)

lemma target_runs_append [simp]:
  "target_runs db (xs @ ys) = target_runs db xs @ target_runs (final_db db xs) ys"
  by (induction xs arbitrary: db) auto

lemma target_db_select:
  "- maxInt64 - 1 \<le> n \<Longrightarrow> n \<le> maxInt64 \<Longrightarrow> target_db (select_entry n) db = n"
  by (simp add: target_db_def Atoi_Itoa)

lemma target_db_plain [simp]: "\<not> is_select e \<Longrightarrow> target_db e db = db"
  by (simp add: target_db_def)

text \<open>Everything between \<^verbatim>\<open>Write\<close> and the connection is a plain entry.\<close>

lemma plain_parts:
  assumes "sent_inv w" "\<forall>e \<in> set (w_accepted w). plain e"
  shows "\<forall>e \<in> set (inflight (w_pc w)). plain e" "\<forall>e \<in> set (w_ch w). plain e"
proof -
  have "set (inflight (w_pc w)) \<union> serialized ` set (w_ch w) \<subseteq> serialized ` set (w_accepted w)"
    using arg_cong [where f = set, OF conjunct1 [OF assms(1) [unfolded sent_inv_def]]] by auto
  with assms(2) show "\<forall>e \<in> set (inflight (w_pc w)). plain e" "\<forall>e \<in> set (w_ch w). plain e"
    by auto (metis serialized_simps(4) image_iff subsetD)
qed

lemmas writer_defs = w_Flush_def w_SendBytes_def send_select_def Let_def

lemma sent_inv_step:
  assumes "w_step opt w w'" "sent_inv w" "\<forall>e \<in> set (w_accepted w). plain e"
  shows "sent_inv w'"
  using assms(1)
proof (cases rule: w_step.cases)
  case (take_switch e es)
  have "plain e" using plain_parts(2) [OF assms(2,3)] take_switch by simp
  with take_switch assms(2) bufio_content show ?thesis
    by (auto simp: sent_inv_def writer_defs plain_def target_db_select)
next
  case (send e)
  have "plain e" using plain_parts(1) [OF assms(2,3)] send by simp
  with send assms(2) bufio_content show ?thesis
    by (auto simp: sent_inv_def writer_defs plain_def)
next
  case (reply e r rs)
  with assms(2) show ?thesis
    by (auto simp: sent_inv_def handle_reply_def split: option.splits)
qed (use assms(2) in \<open>auto simp: sent_inv_def writer_defs\<close>)

lemma map_filter_append: "List.map_filter f (xs @ ys) = List.map_filter f xs @ List.map_filter f ys"
  by (simp add: List.map_filter_def)

lemma map_filter_serialized: "List.map_filter OnWritten (map serialized es) = List.map_filter OnWritten es"
  by (induction es) (auto simp: List.map_filter_simps serialized_def Serialize_eq split: option.splits)

lemma reply_inv_step:
  assumes "w_step opt w w'" "reply_inv w" "sent_inv w" "\<forall>e \<in> set (w_accepted w). plain e"
    and "\<not> OffReply opt" "w_fault w' = None"
  shows "reply_inv w'"
  using assms(1)
proof (cases rule: w_step.cases)
  case (take_switch e es)
  with assms(2) show ?thesis by (simp add: reply_inv_def writer_defs waiting_def unaccounted_def)
next
  case (push e)
  have "\<not> is_select e" using plain_parts(1) [OF assms(3,4)] push by (simp add: plain_def)
  with push assms(2) show ?thesis by (simp add: reply_inv_def waiting_def unaccounted_def)
next
  case (next_wait e es)
  then have "waiting w' = waiting w" by (simp add: waiting_def)
  with next_wait assms(2) show ?thesis by (auto simp: reply_inv_def split: wpc.splits)
next
  case (reply e r rs)
  then have "reply_fault opt r = None"
    using assms(6) by (auto simp: handle_reply_def split: option.splits)
  with reply assms(2) show ?thesis
    by (auto simp: reply_inv_def handle_reply_def waiting_def map_filter_append List.map_filter_simps
        split: wpc.splits option.splits)
qed (use assms(2,5) in \<open>auto simp: reply_inv_def writer_defs waiting_def unaccounted_def split: wpc.splits\<close>)

lemma accepted_mono: "w_step opt w w' \<Longrightarrow> set (w_accepted w) \<subseteq> set (w_accepted w')"
  by (cases rule: w_step.cases) (auto simp: writer_defs handle_reply_def split: option.splits)

lemma w_inv_init: "sent_inv NewRedisWriter" "reply_inv NewRedisWriter"
  by (simp_all add: sent_inv_def reply_inv_def NewRedisWriter_def waiting_def unaccounted_def
      List.map_filter_simps)

interpretation wr: transition_system NewRedisWriter "\<lambda>w w'. w_fault w = None \<and> w_step opt w w'" "w_reachable opt" for opt
proof
  show "I w" if "w_reachable opt w" "I NewRedisWriter"
    "\<And>w w'. \<lbrakk>w_reachable opt w; I w; w_fault w = None \<and> w_step opt w w'\<rbrakk> \<Longrightarrow> I w'" for w I
    using that by (induction rule: w_reachable.induct) blast+
qed (auto intro: w_reachable.intros)

lemma w_reachable_inv:
  assumes "w_reachable opt w" "\<forall>e \<in> set (w_accepted w). plain e"
  shows "sent_inv w \<and> (\<not> OffReply opt \<longrightarrow> w_fault w = None \<longrightarrow> reply_inv w)"
proof (rule wr.invariant [OF assms(1), of "\<lambda>w. (\<forall>e \<in> set (w_accepted w). plain e) \<longrightarrow>
    sent_inv w \<and> (\<not> OffReply opt \<longrightarrow> w_fault w = None \<longrightarrow> reply_inv w)", THEN mp, OF _ _ assms(2)])
  fix w w' assume inv: "(\<forall>e \<in> set (w_accepted w). plain e) \<longrightarrow>
      sent_inv w \<and> (\<not> OffReply opt \<longrightarrow> w_fault w = None \<longrightarrow> reply_inv w)" and "w_fault w = None \<and> w_step opt w w'"
  then have step: "w_fault w = None" "w_step opt w w'" by simp_all
  show "(\<forall>e \<in> set (w_accepted w'). plain e) \<longrightarrow> sent_inv w' \<and> (\<not> OffReply opt \<longrightarrow> w_fault w' = None \<longrightarrow> reply_inv w')"
  proof
    assume "\<forall>e \<in> set (w_accepted w'). plain e"
    then have plain: "\<forall>e \<in> set (w_accepted w). plain e" using accepted_mono [OF step(2)] by auto
    with inv step(1) show "sent_inv w' \<and> (\<not> OffReply opt \<longrightarrow> w_fault w' = None \<longrightarrow> reply_inv w')"
      using sent_inv_step [OF step(2) _ plain] reply_inv_step [OF step(2) _ _ plain] by blast
  qed
qed (use w_inv_init in auto)


text \<open>What the two invariants say of a closed writer.\<close>

lemma closed_drained:
  assumes s: "sent_inv w" and r: "reply_inv w" and c: "w_Closed w"
  shows "waiting w = []" "w_pc w = WriteDone" "w_buf w = []" "w_handled w = w_issued w"
    "map serialized (w_accepted w) = commands (w_issued w)" "w_called w = List.map_filter OnWritten (w_accepted w)"
proof -
  show wt: "waiting w = []" using c by (simp add: w_Closed_def waiting_def)
  show pc: "w_pc w = WriteDone" "w_buf w = []" using s c by (auto simp: sent_inv_def w_Closed_def)
  show acc: "map serialized (w_accepted w) = commands (w_issued w)" using s pc by (simp add: sent_inv_def)
  show hd: "w_handled w = w_issued w" using r pc wt by (simp add: reply_inv_def)
  show "w_called w = List.map_filter OnWritten (w_accepted w)"
    using r hd acc map_filter_serialized [of "w_accepted w"] by (simp add: reply_inv_def)
qed

lemma closed_target:
  assumes s: "sent_inv w" and r: "reply_inv w" and c: "w_Closed w"
  shows "target_runs 0 (w_issued w) = map (\<lambda>e. (DbId e, Argv e)) (w_accepted w) \<and> StatusConsistent w"
proof -
  note cl = closed_drained [OF s r c]
  have "target_runs 0 (w_issued w) = map (\<lambda>e. (DbId e, Argv e)) (map serialized (w_accepted w))"
    using s cl(5) by (simp add: sent_inv_def)
  then show ?thesis using r cl(1,2) by (simp add: reply_inv_def unaccounted_def StatusConsistent_def)
qed


section \<open>Bounds\<close>

lemma delivered_le: "delivered n es \<le> length es"
  by (induction es arbitrary: n) (auto simp: Let_def)

definition queue_inv :: "wOptions \<Rightarrow> redisWriter \<Rightarrow> bool" where
  "queue_inv opt w \<longleftrightarrow> length (w_ch w) \<le> PipelineCountLimit opt \<and> length (w_wait w) \<le> PipelineCountLimit opt * 2 \<and>
     w_answered w \<le> length (w_issued w)"

lemma queue_inv_step: "w_step opt w w' \<Longrightarrow> queue_inv opt w \<Longrightarrow> queue_inv opt w'"
  by (erule w_step.cases)
    (auto simp: queue_inv_def writer_defs wait_full_def handle_reply_def split: option.splits
      dest: order.strict_trans2 [OF _ delivered_le])

text \<open>Everything sent or waiting for a reply was accepted by \<^verbatim>\<open>Write\<close>.\<close>

lemma outstanding_accepted:
  assumes "sent_inv w" "reply_inv w"
  shows "set (commands (w_handled w @ waiting w)) \<union> set (inflight (w_pc w)) \<subseteq> serialized ` set (w_accepted w)"
proof -
  have "set (w_handled w @ waiting w) \<subseteq> set (w_issued w) \<union> set (inflight (w_pc w))"
    using assms(2) by (cases "w_pc w") (auto simp: reply_inv_def)
  moreover have "serialized ` set (w_accepted w) =
      set (commands (w_issued w)) \<union> set (inflight (w_pc w)) \<union> serialized ` set (w_ch w)"
    using arg_cong [where f = set, OF conjunct1 [OF assms(1) [unfolded sent_inv_def]]] by auto
  ultimately show ?thesis by auto
qed

lemma serialized_size: "SerializedSize (serialized e) = int (length (argv_bytes (Argv e)))"
  by (simp add: serialized_def Serialize_eq)

text \<open>The bytes in flight, with what \<^verbatim>\<open>processWrite\<close> is about to add.\<close>

definition about_to_add :: "wpc \<Rightarrow> int" where
  "about_to_add pc = (case pc of Pushing e \<Rightarrow> SerializedSize e | Accounting e \<Rightarrow> SerializedSize e | _ \<Rightarrow> 0)"

definition bytes_inv :: "wOptions \<Rightarrow> int \<Rightarrow> redisWriter \<Rightarrow> bool" where
  "bytes_inv opt S w \<longleftrightarrow> UnansweredBytes w + about_to_add (w_pc w) \<le> max (MaxQuerybufLen opt) S"

lemma bytes_inv_step:
  assumes "w_step opt w w'" "bytes_inv opt S w" "sent_inv w" "reply_inv w" "\<not> OffReply opt"
    and S: "\<forall>e \<in> set (w_accepted w). int (length (argv_bytes (Argv e))) \<le> S" and "0 \<le> S"
  shows "bytes_inv opt S w'"
  using assms(1)
proof (cases rule: w_step.cases)
  case (quota e)
  then have "SerializedSize e \<le> S"
    using outstanding_accepted [OF assms(3,4)] S by (auto simp: serialized_size)
  with quota assms(2,5,7) show ?thesis by (auto simp: bytes_inv_def about_to_add_def over_quota_def)
next
  case (reply e r rs)
  have "\<not> is_select e \<Longrightarrow> 0 \<le> SerializedSize e"
    using outstanding_accepted [OF assms(3,4)] reply by (auto simp: waiting_def serialized_size)
  with reply assms(2) show ?thesis
    by (auto simp: bytes_inv_def handle_reply_def split: option.splits)
qed (use assms(2) in \<open>auto simp: bytes_inv_def about_to_add_def writer_defs\<close>)

lemma w_reachable_bounds:
  assumes "\<not> OffReply opt" "0 \<le> S" "0 \<le> MaxQuerybufLen opt"
  shows "w_reachable opt w \<Longrightarrow> w_fault w = None \<Longrightarrow>
    \<forall>e \<in> set (w_accepted w). plain e \<and> int (length (argv_bytes (Argv e))) \<le> S \<Longrightarrow> queue_inv opt w \<and> bytes_inv opt S w"
proof (induction rule: w_reachable.induct)
  case init
  then show ?case using assms(2,3) by (simp add: queue_inv_def bytes_inv_def NewRedisWriter_def about_to_add_def)
next
  case (step w w')
  have acc: "\<forall>e \<in> set (w_accepted w). plain e \<and> int (length (argv_bytes (Argv e))) \<le> S"
    using step.prems(2) accepted_mono [OF step.hyps(3)] by blast
  from w_reachable_inv [OF step.hyps(1)] acc assms(1) step.hyps(2) have inv: "sent_inv w" "reply_inv w" by auto
  from step.IH [OF step.hyps(2) acc] show ?case
    using queue_inv_step [OF step.hyps(3)] bytes_inv_step [OF step.hyps(3) _ inv assms(1) _ assms(2)] acc by blast
qed

lemma unaccounted_waiting:
  assumes "reply_inv w" "queue_inv opt w" "w_pc w = Accounting e"
  shows "\<exists>xs. waiting w = xs @ [e]"
proof -
  have "w_handled w @ waiting w = w_issued w @ [e]" "length (w_handled w) \<le> length (w_issued w)"
    using assms by (auto simp: reply_inv_def queue_inv_def)
  then show ?thesis by (metis append_butlast_last_id append_is_Nil_conv last_appendR last_snoc length_append_singleton
        lessI less_irrefl append_Nil2 not_less)
qed


section \<open>Concrete runs\<close>

definition demo_opt :: wOptions where
  "demo_opt = \<lparr>PipelineCountLimit = 4, MaxQuerybufLen = 20, RDBRestoreCommandBehavior = ''panic'', OffReply = False\<rparr>"

definition demo_entry :: entry where
  "demo_entry = NewEntry\<lparr>Argv := [''PING''], CmdName := ''PING'', DbId := 1, OnWritten := Some (Consumed 0)\<rparr>"

definition demo_run :: "wact list" where
  "demo_run = [Put demo_entry] @ replicate 6 Advance @ [CloseCh, Advance, Advance, NextWait,
     Answer (Inr (RStr ''OK'')), Handle, NextWait, Answer (Inr (RStr ''PONG'')), Handle]"

text \<open>What the writer asks of the entries of the runs.\<close>

lemma demo_argv: "Argv demo_entry = [''PING'']" "DbId demo_entry = 1" "OnWritten demo_entry = Some (Consumed 0)"
  by (simp_all add: demo_entry_def NewEntry_def)

lemma demo_select:
  "\<not> is_select demo_entry" "\<not> is_select (demo_entry\<lparr>SerializedSize := n\<rparr>)" "\<not> is_select (demo_entry\<lparr>DbId := d, SerializedSize := n\<rparr>)"
  "is_select (select_entry 1)"
proof -
  have "\<not> EqualFold ''PING'' ''select''" by code_simp
  then show "\<not> is_select demo_entry" "\<not> is_select (demo_entry\<lparr>SerializedSize := n\<rparr>)" "\<not> is_select (demo_entry\<lparr>DbId := d, SerializedSize := n\<rparr>)"
    by (simp_all add: is_select_def demo_entry_def)
  show "is_select (select_entry 1)" by code_simp
qed

lemma demo_lengths: "length (argv_bytes [''PING'']) = 14" "length (argv_bytes (Argv (select_entry 1))) = 23"
  by code_simp+

lemma demo_serialized:
  "serialized demo_entry = demo_entry\<lparr>SerializedSize := 14\<rparr>"
  "serialized (demo_entry\<lparr>DbId := 0\<rparr>) = demo_entry\<lparr>DbId := 0, SerializedSize := 14\<rparr>"
  by (simp_all add: serialized_def Serialize_eq demo_argv demo_lengths)

lemma six_times: "replicate 6 x = [x, x, x, x, x, x]"
  by (simp add: numeral_eq_Suc)

lemmas demo_writer_simps = demo_select demo_argv demo_lengths demo_serialized six_times demo_opt_def writer_defs NewRedisWriter_def
  over_quota_def wait_full_def bufio_write_def handle_reply_def reply_fault_def w_Closed_def

lemma demo_run_ends:
  "map_option (\<lambda>w. w_Closed w \<and> w_fault w = None \<and> w_accepted w = [demo_entry] \<and> length (w_issued w) = 2)
     (w_exec demo_opt demo_run NewRedisWriter) = Some True"
  by (simp add: demo_run_def demo_writer_simps)

lemma demo_plain: "plain demo_entry"
  by code_simp




section \<open>The wait that never ends\<close>

text \<open>
  All that was delivered has been answered and handled, and the bytes that are still unanswered
  are in the buffer, when \<^verbatim>\<open>processWrite\<close> waits for the target.
\<close>

definition stuck :: "wOptions \<Rightarrow> entry \<Rightarrow> redisWriter \<Rightarrow> bool" where
  "stuck opt e w \<longleftrightarrow> w_pc w = WaitQuota e \<and> over_quota opt w e \<and> w_replies w = [] \<and>
     w_answered w = delivered (length (w_wire w)) (w_issued w)"

lemma stuck_step:
  "stuck opt e w \<Longrightarrow> w_issued w = l \<Longrightarrow> w_step opt w w' \<Longrightarrow> stuck opt e w' \<and> w_issued w' = l"
  by (erule w_step.cases) (auto simp: stuck_def over_quota_def)

text \<open>
  The wait for the target's query buffer can last for ever: there is a run of two small
  entries after which \<^verbatim>\<open>processWrite\<close> waits for a reply to the first, while the first is still
  in the connection's buffer, which only \<^verbatim>\<open>processWrite\<close> itself flushes.  Whatever happens
  afterwards, it waits, and the second entry is never sent.  (With the default limits this needs
  an entry within 32 KiB of \<^verbatim>\<open>target_redis_client_max_querybuf_len\<close> after a small one.)
\<close>

theorem writer_quota_wait_never_ends:
  "\<exists>w e. w_reachable demo_opt w \<and> w_pc w = WaitQuota e \<and>
     {w'. (w_step demo_opt)\<^sup>*\<^sup>* w w'} \<subseteq> {w'. w_pc w' = WaitQuota e \<and> w_issued w' = w_issued w}"
proof -
  let ?run = "[Put (demo_entry\<lparr>DbId := 0\<rparr>), Put (demo_entry\<lparr>DbId := 0\<rparr>)] @ replicate 6 Advance"
  have "map_option (\<lambda>w. \<exists>e \<in> set (inflight (w_pc w)). stuck demo_opt e w)
      (w_exec demo_opt ?run NewRedisWriter) = Some True"
    by (simp add: demo_writer_simps stuck_def)
  then obtain w e where w: "w_exec demo_opt ?run NewRedisWriter = Some w" "stuck demo_opt e w" by auto
  have "stuck demo_opt e w' \<and> w_issued w' = w_issued w" if "(w_step demo_opt)\<^sup>*\<^sup>* w w'" for w'
    using that
  proof induction
    case (step y z)
    then show ?case using stuck_step by blast
  qed (simp add: w(2))
  with w(2) w_exec_reachable [OF w_reachable.init w(1)] show ?thesis unfolding stuck_def by blast
qed

end
