(* ===== verification/Kernel.thy ===== *)
theory Kernel
  imports Progress EntryFilter
begin

text \<open>
  \<^verbatim>\<open>internal/kernel/run.go\<close>: the loop that moves entries from the readers to the writer, and
  \<^verbatim>\<open>internal/filter/function.go\<close>, the hook for the user's Lua function.

  One goroutine per reader channel takes an entry, registers its position with the tracker,
  parses and filters it, runs the function on it and writes the results.  The goroutines share the
  tracker, the completion callbacks and the writer; between two accesses to them any other
  goroutine may run.  A goroutine's place between accesses is its program counter \<open>kpc\<close>; every
  rule of \<open>k_step\<close> is one access.  The accesses to the writer are rules of the theory \<open>System\<close>.

  Reading the configuration, creating readers and writers, logging and the status page are left
  out; the two counters that are logged are kept.
\<close>

section \<open>function.go\<close>

text \<open>
  The Lua interpreter is a third-party package.  A script is the function from its global variables to
  the calls of \<^verbatim>\<open>shake.call\<close> it makes, or the error it ends with; without a script the entry itself is
  returned.
\<close>

record luaGlobals =
  DB :: int
  GROUP :: string
  CMD :: string
  KEYS :: "string list"
  KEY_INDEXES :: "int list"
  SLOTS :: "int list"
  ARGV :: "string list"

type_synonym script = "luaGlobals \<Rightarrow> string + (int \<times> string list) list"

definition globals_of :: "entry \<Rightarrow> luaGlobals" where
  "globals_of e = \<lparr>DB = DbId e, GROUP = Group e, CMD = CmdName e, KEYS = Keys e, KEY_INDEXES = KeyIndexes e,
     SLOTS = Slots e, ARGV = Argv e\<rparr>"

definition RunFunction :: "script option \<Rightarrow> entry \<Rightarrow> entry list res" where
  "RunFunction runtime e = (case runtime of None \<Rightarrow> Inr [e]
     | Some f \<Rightarrow> (case f (globals_of e) of Inl err \<Rightarrow> Inl (LogPanicf (''load function script failed: '' @ err))
        | Inr calls \<Rightarrow> Inr (map (\<lambda>(db, argv). NewEntry\<lparr>DbId := db, Argv := argv\<rparr>) calls)))"

section \<open>run.go\<close>

record kOptions =
  trackOffsets :: bool
  k_filter :: filterOptions
  k_compile :: compiler
  luaRuntime :: "script option"

text \<open>
  \<open>Tracked\<close> holds an entry taken from the channel and its callback; \<open>Writing\<close> the entries still to
  be written and whether they are counted.
\<close>

datatype kpc = Fetch | Tracked entry "callback option" | Writing bool "entry list" | ReaderDone

text \<open>What became of a tracked entry: history only.\<close>

datatype use = InTrack | Direct | Grouped nat | Dropped

text \<open>
  \<open>k_in\<close> holds what each reader still delivers before it closes its channel.  The last two fields are
  history: the entries tracked, in the order of their callbacks, and what became of each.
\<close>

record kernel =
  k_in :: "entry list list"
  k_pc :: "kpc list"
  k_discard :: "bool list"
  k_cancelled :: bool
  k_tracker :: tracker
  k_comp :: completions
  ReadCount :: nat
  WriteCount :: nat
  k_fault :: "fault option"
  k_src :: "entry list"
  k_use :: "use list"

definition k_init :: "nat \<Rightarrow> entry list list \<Rightarrow> kernel" where
  "k_init limit inputs = \<lparr>k_in = inputs, k_pc = map (\<lambda>_. Fetch) inputs, k_discard = map (\<lambda>_. False) inputs,
     k_cancelled = False, k_tracker = NewTracker limit, k_comp = \<lparr>groups = [], fired = []\<rparr>,
     ReadCount = 0, WriteCount = 0, k_fault = None, k_src = [], k_use = []\<rparr>"

text \<open>Calling a completion callback: the tracker callbacks it leads to run on the tracker.\<close>

definition fire :: "callback \<Rightarrow> kernel \<Rightarrow> kernel" where
  "fire cb k = (let comp' = invoke cb (k_comp k); new = drop (length (fired (k_comp k))) (fired comp')
     in k\<lparr>k_comp := comp', k_tracker := fold consumed new (k_tracker k)\<rparr>)"

definition note_use :: "callback option \<Rightarrow> use \<Rightarrow> kernel \<Rightarrow> kernel" where
  "note_use cb u k = (case cb of Some (Consumed j) \<Rightarrow> k\<lparr>k_use := (k_use k)[j := u]\<rparr> | _ \<Rightarrow> k)"

definition set_pc :: "nat \<Rightarrow> kpc \<Rightarrow> kernel \<Rightarrow> kernel" where
  "set_pc i p k = k\<lparr>k_pc := (k_pc k)[i := p]\<rparr>"

definition tracked_entry :: "kOptions \<Rightarrow> entry \<Rightarrow> bool" where
  "tracked_entry opt e \<longleftrightarrow> trackOffsets opt \<and> SourceNode e \<noteq> []"

text \<open>\<^verbatim>\<open>SplitCompletion\<close> may call the callback at once, when there is nothing to write.\<close>

definition split_entries :: "callback option \<Rightarrow> entry list \<Rightarrow> kernel \<Rightarrow> entry list \<times> kernel" where
  "split_entries cb es k = (case SplitCompletion cb (length es) (k_comp k) of (cbs, comp') \<Rightarrow>
     (if cb = None then es else map2 (\<lambda>x c. x\<lparr>OnWritten := Some c\<rparr>) es cbs,
      k\<lparr>k_comp := comp',
        k_tracker := fold consumed (drop (length (fired (k_comp k))) (fired comp')) (k_tracker k)\<rparr>))"

definition writing :: "bool \<Rightarrow> entry list \<Rightarrow> kpc" where
  "writing c es = (if es = [] then Fetch else Writing c es)"

text \<open>What a goroutine does with a tracked entry before it writes anything.\<close>

definition process :: "kOptions \<Rightarrow> nat \<Rightarrow> entry \<Rightarrow> callback option \<Rightarrow> kernel \<Rightarrow> kernel" where
  "process opt i e cb k =
     (if ProgressOnly e then note_use cb Direct (set_pc i (Writing False [e\<lparr>OnWritten := cb\<rparr>]) k)
      else (case entry_Parse e of Inl f \<Rightarrow> k\<lparr>k_fault := Some f\<rparr>
        | Inr e1 \<Rightarrow> let k1 = k\<lparr>ReadCount := ReadCount k + 1\<rparr> in
          (case Filter (k_compile opt) (k_filter opt) e1 of Inl f \<Rightarrow> k1\<lparr>k_fault := Some f\<rparr>
           | Inr False \<Rightarrow> note_use cb Dropped (set_pc i Fetch (case cb of None \<Rightarrow> k1 | Some c \<Rightarrow> fire c k1))
           | Inr True \<Rightarrow> (case RunFunction (luaRuntime opt) e1 of Inl f \<Rightarrow> k1\<lparr>k_fault := Some f\<rparr>
              | Inr es \<Rightarrow> (case split_entries cb es k1 of (es', k2) \<Rightarrow>
                  note_use cb (if es = [] then Dropped else Grouped (length (groups (k_comp k1))))
                    (set_pc i (writing True es') k2))))))"

inductive k_step :: "kOptions \<Rightarrow> kernel \<Rightarrow> kernel \<Rightarrow> bool" for opt where
  fetch_discard: "\<lbrakk>i < length (k_pc k); k_pc k ! i = Fetch; k_in k ! i = e # es; k_discard k ! i\<rbrakk>
    \<Longrightarrow> k_step opt k (k\<lparr>k_in := (k_in k)[i := es]\<rparr>)"
| fetch: "\<lbrakk>i < length (k_pc k); k_pc k ! i = Fetch; k_in k ! i = e # es; \<not> k_discard k ! i; \<not> tracked_entry opt e\<rbrakk>
    \<Longrightarrow> k_step opt k (set_pc i (Tracked e None) (k\<lparr>k_in := (k_in k)[i := es]\<rparr>))"
| fetch_track: "\<lbrakk>i < length (k_pc k); k_pc k ! i = Fetch; k_in k ! i = e # es; \<not> k_discard k ! i; tracked_entry opt e;
      Track (k_tracker k) (SourceNode e) (SourceOffset e) = Some (cb, t')\<rbrakk>
    \<Longrightarrow> k_step opt k (set_pc i (Tracked e (Some cb)) (k\<lparr>k_in := (k_in k)[i := es], k_tracker := t',
          k_src := k_src k @ [e], k_use := k_use k @ [InTrack]\<rparr>))"
| fetch_cancelled: "\<lbrakk>i < length (k_pc k); k_pc k ! i = Fetch; k_in k ! i = e # es; \<not> k_discard k ! i; tracked_entry opt e;
      k_cancelled k\<rbrakk>
    \<Longrightarrow> k_step opt k (k\<lparr>k_in := (k_in k)[i := es], k_discard := (k_discard k)[i := True]\<rparr>)"
| handle: "\<lbrakk>i < length (k_pc k); k_pc k ! i = Tracked e cb\<rbrakk> \<Longrightarrow> k_step opt k (process opt i e cb k)"
| reader_done: "\<lbrakk>i < length (k_pc k); k_pc k ! i = Fetch; k_in k ! i = []\<rbrakk> \<Longrightarrow> k_step opt k (set_pc i ReaderDone k)"
| cancel: "k_step opt k (k\<lparr>k_cancelled := True\<rparr>)"

text \<open>The next write of a goroutine: the entry after \<^verbatim>\<open>Parse\<close>, and the goroutine past it.\<close>

definition k_write :: "nat \<Rightarrow> kernel \<Rightarrow> (entry res \<times> kernel) option" where
  "k_write i k = (if i < length (k_pc k) then
     (case k_pc k ! i of Writing c (x # xs) \<Rightarrow>
        (case entry_Parse x of Inl f \<Rightarrow> Some (Inl f, k\<lparr>k_fault := Some f\<rparr>)
         | Inr x' \<Rightarrow> Some (Inr x', set_pc i (writing c xs) (k\<lparr>WriteCount := WriteCount k + (if c then 1 else 0)\<rparr>)))
      | _ \<Rightarrow> None) else None)"

text \<open>The entries the main goroutine writes: one after the start, if asked for, and one every second.\<close>

definition flushall_entry :: entry where
  "flushall_entry = NewEntry\<lparr>Argv := [''FLUSHALL'']\<rparr>"

definition ping_entry :: entry where
  "ping_entry = NewEntry\<lparr>DbId := 0, CmdName := ''PING'', Argv := [''PING''], Group := ''connection''\<rparr>"

definition all_done :: "kernel \<Rightarrow> bool" where
  "all_done k \<longleftrightarrow> (\<forall>p \<in> set (k_pc k). p = ReaderDone)"

section \<open>Signals\<close>

datatype signal = SIGINT | SIGTERM | SIGQUIT

text \<open>The count of interrupts, whether the context was cancelled, and whether the process exits at once.\<close>

definition handleShutdownSignal :: "signal \<Rightarrow> nat \<times> bool \<Rightarrow> (nat \<times> bool) \<times> bool" where
  "handleShutdownSignal sig st = (case st of (sigTimes, cancelled) \<Rightarrow>
     if sig = SIGINT then
       (if sigTimes + 1 \<ge> 2 then ((sigTimes + 1, cancelled), True) else ((sigTimes + 1, True), False))
     else ((sigTimes, True), False))"

fun waitShutdown :: "signal list \<Rightarrow> nat \<times> bool \<Rightarrow> (nat \<times> bool) \<times> bool" where
  "waitShutdown [] st = (st, False)"
| "waitShutdown (sig # sigs) st = (case handleShutdownSignal sig st of
     (st', True) \<Rightarrow> (st', True) | (st', False) \<Rightarrow> waitShutdown sigs st')"

end
