(* ===== verification/System.thy ===== *)
theory System
  imports Kernel Writer "HOL-Library.Multiset"
begin

text \<open>
  The kernel, the position tracker, the completion callbacks and the standalone writer together.
  A write of a goroutine is the \<^verbatim>\<open>Write\<close> of the writer; a callback the writer calls for a handled
  reply runs in the kernel.  The theorem \<open>position_is_acknowledged\<close> says what a position shown to the
  user means: nothing before it is lost.
\<close>

section \<open>The composed system\<close>

record sys =
  sk :: kernel
  sw :: redisWriter

definition w_put :: "entry \<Rightarrow> redisWriter \<Rightarrow> redisWriter" where
  "w_put e w = w\<lparr>w_ch := w_ch w @ [e], w_accepted := w_accepted w @ [e]\<rparr>"

definition w_room :: "wOptions \<Rightarrow> redisWriter \<Rightarrow> bool" where
  "w_room wopt w \<longleftrightarrow> \<not> w_chClosed w \<and> length (w_ch w) < PipelineCountLimit wopt"

inductive sys_step :: "kOptions \<Rightarrow> wOptions \<Rightarrow> sys \<Rightarrow> sys \<Rightarrow> bool" for opt wopt where
  kern: "k_step opt (sk s) k' \<Longrightarrow> sys_step opt wopt s (s\<lparr>sk := k'\<rparr>)"
| put_entry: "\<lbrakk>k_write i (sk s) = Some (Inr x, k'); w_room wopt (sw s)\<rbrakk>
    \<Longrightarrow> sys_step opt wopt s (s\<lparr>sk := k', sw := w_put x (sw s)\<rparr>)"
| put_fails: "k_write i (sk s) = Some (Inl f, k') \<Longrightarrow> sys_step opt wopt s (s\<lparr>sk := k'\<rparr>)"
| main_write: "\<lbrakk>x \<in> {flushall_entry, ping_entry}; \<not> all_done (sk s) \<or> k_pc (sk s) = []; w_room wopt (sw s)\<rbrakk>
    \<Longrightarrow> sys_step opt wopt s (s\<lparr>sw := w_put x (sw s)\<rparr>)"
| writer: "\<lbrakk>w_step wopt (sw s) w'; w_accepted w' = w_accepted (sw s); w_chClosed w' \<longrightarrow> w_chClosed (sw s) \<or> all_done (sk s)\<rbrakk>
    \<Longrightarrow> sys_step opt wopt s (s\<lparr>sw := w', sk := fold fire (drop (length (w_called (sw s))) (w_called w')) (sk s)\<rparr>)"

inductive sys_reachable :: "kOptions \<Rightarrow> wOptions \<Rightarrow> nat \<Rightarrow> entry list list \<Rightarrow> sys \<Rightarrow> bool"
  for opt wopt limit inputs where
  init: "sys_reachable opt wopt limit inputs \<lparr>sk = k_init limit inputs, sw = NewRedisWriter\<rparr>"
| step: "\<lbrakk>sys_reachable opt wopt limit inputs s; k_fault (sk s) = None; w_fault (sw s) = None; sys_step opt wopt s t\<rbrakk>
    \<Longrightarrow> sys_reachable opt wopt limit inputs t"

section \<open>The invariant\<close>

definition pc_pending :: "kpc \<Rightarrow> entry list" where
  "pc_pending p = (case p of Writing c xs \<Rightarrow> xs | _ \<Rightarrow> [])"

definition pc_tracked :: "kpc \<Rightarrow> callback list" where
  "pc_tracked p = (case p of Tracked e (Some cb) \<Rightarrow> [cb] | _ \<Rightarrow> [])"

definition pend :: "kernel \<Rightarrow> entry list" where
  "pend k = concat (map pc_pending (k_pc k))"

definition tracked_cbs :: "kernel \<Rightarrow> callback list" where
  "tracked_cbs k = concat (map pc_tracked (k_pc k))"

definition cbs_of :: "entry list \<Rightarrow> callback list" where
  "cbs_of es = List.map_filter OnWritten es"

text \<open>A callback handed to the writer belongs to a tracked entry, directly or as a part.\<close>

fun root_of :: "completions \<Rightarrow> callback \<Rightarrow> nat option" where
  "root_of st (Consumed j) = Some j"
| "root_of st (Part g i) = (if g < length (groups st) then
     (case g_done (groups st ! g) of Consumed j \<Rightarrow> Some j | _ \<Rightarrow> None) else None)"

fun cb_ok :: "kernel \<Rightarrow> callback \<Rightarrow> bool" where
  "cb_ok k (Consumed j) \<longleftrightarrow> j < length (k_use k) \<and> k_use k ! j = Direct"
| "cb_ok k (Part g i) \<longleftrightarrow> g < length (groups (k_comp k)) \<and> i < length (onces (groups (k_comp k) ! g))"

definition grp_ok :: "kernel \<Rightarrow> callback set \<Rightarrow> nat \<Rightarrow> bool" where
  "grp_ok k cld g \<longleftrightarrow> (let G = groups (k_comp k) ! g in
     (\<exists>j < length (k_use k). g_done G = Consumed j \<and> k_use k ! j = Grouped g) \<and>
     onces G \<noteq> [] \<and> remaining G = int (length (filter Not (onces G))) \<and>
     (\<forall>i < length (onces G). onces G ! i \<longrightarrow> Part g i \<in> cld))"

definition fired_ok :: "kernel \<Rightarrow> callback set \<Rightarrow> nat \<Rightarrow> bool" where
  "fired_ok k cld j \<longleftrightarrow> j < length (k_use k) \<and>
     (case k_use k ! j of InTrack \<Rightarrow> False | Dropped \<Rightarrow> True | Direct \<Rightarrow> Consumed j \<in> cld
      | Grouped g \<Rightarrow> g < length (groups (k_comp k)) \<and> (\<forall>b \<in> set (onces (groups (k_comp k) ! g)). b))"

definition hist :: "entry list \<Rightarrow> nat set \<Rightarrow> history" where
  "hist src F = map (\<lambda>j. (SourceNode (src ! j), SourceOffset (src ! j), j \<in> F)) [0..<length src]"

text \<open>
  \<open>cld\<close> is the set of callbacks called so far, \<open>acc\<close> the entries accepted by the writer.
\<close>

definition k_inv :: "kernel \<Rightarrow> entry list \<Rightarrow> callback set \<Rightarrow> bool" where
  "k_inv k acc cld \<longleftrightarrow>
     length (k_in k) = length (k_pc k) \<and> length (k_discard k) = length (k_pc k) \<and>
     (\<forall>es \<in> set (k_in k). \<forall>e \<in> set es. OnWritten e = None) \<and>
     (\<forall>e cb. Tracked e cb \<in> set (k_pc k) \<longrightarrow> OnWritten e = None) \<and>
     (\<forall>cb \<in> set (tracked_cbs k). \<exists>j < length (k_use k). cb = Consumed j \<and> k_use k ! j = InTrack) \<and>
     distinct (tracked_cbs k) \<and>
     (\<forall>cb \<in> set (cbs_of (pend k @ acc)). cb_ok k cb) \<and>
     distinct (cbs_of (pend k @ acc)) \<and>
     (\<forall>g < length (groups (k_comp k)). grp_ok k cld g) \<and>
     (\<forall>j \<in> set (fired (k_comp k)). fired_ok k cld j) \<and>
     cld \<subseteq> set (cbs_of acc) \<and>
     length (k_use k) = length (k_src k) \<and>
     tracks (k_tracker k) (hist (k_src k) (set (fired (k_comp k))))"

lemma cbs_of_simps [simp]:
  "cbs_of [] = []" "cbs_of (e # es) = (case OnWritten e of None \<Rightarrow> [] | Some c \<Rightarrow> [c]) @ cbs_of es"
  "cbs_of (xs @ ys) = cbs_of xs @ cbs_of ys"
  by (auto simp: cbs_of_def List.map_filter_simps List.map_filter_def split: option.splits)

text \<open>The lists over all program counters, when one of them changes.\<close>

lemma concat_update:
  "i < length ps \<Longrightarrow> concat (map f (ps[i := p])) = concat (map f (take i ps)) @ f p @ concat (map f (drop (Suc i) ps))"
  by (simp add: upd_conv_take_nth_drop)

lemma concat_at:
  "i < length ps \<Longrightarrow> concat (map f ps) = concat (map f (take i ps)) @ f (ps ! i) @ concat (map f (drop (Suc i) ps))"
  by (metis concat_update list_update_id)

lemma pend_set_pc:
  "i < length (k_pc k) \<Longrightarrow> pend (set_pc i p k) = concat (map pc_pending (take i (k_pc k))) @ pc_pending p @
     concat (map pc_pending (drop (Suc i) (k_pc k)))"
  by (simp add: pend_def set_pc_def concat_update)

lemma tracked_set_pc:
  "i < length (k_pc k) \<Longrightarrow> tracked_cbs (set_pc i p k) = concat (map pc_tracked (take i (k_pc k))) @ pc_tracked p @
     concat (map pc_tracked (drop (Suc i) (k_pc k)))"
  by (simp add: tracked_cbs_def set_pc_def concat_update)

lemma set_pc_simps [simp]:
  "k_in (set_pc i p k) = k_in k" "k_discard (set_pc i p k) = k_discard k" "k_tracker (set_pc i p k) = k_tracker k"
  "k_comp (set_pc i p k) = k_comp k" "k_src (set_pc i p k) = k_src k" "k_use (set_pc i p k) = k_use k"
  "k_fault (set_pc i p k) = k_fault k" "k_pc (set_pc i p k) = (k_pc k)[i := p]"
  by (simp_all add: set_pc_def)

section \<open>The tracker follows\<close>

lemma hist_done: "spec_step (hist src F) (OpDone j) = hist src (insert j F)"
  by (cases "j < length src") (auto simp: hist_def nth_list_update intro!: nth_equalityI)

lemma hist_track: "length src \<notin> F \<Longrightarrow>
    spec_step (hist src F) (OpTrack (SourceNode e) (SourceOffset e)) = hist (src @ [e]) F"
  by (rule nth_equalityI) (auto simp: hist_def nth_append less_Suc_eq)

lemma tracks_fold:
  "tracks t (hist src F) \<Longrightarrow> tracks (fold consumed js t) (hist src (F \<union> set js))"
proof (induction js arbitrary: t F)
  case (Cons j js)
  have "tracks (consumed j t) (hist src (insert j F))"
    using tracks_consumed [OF Cons.prems, of j] unfolding hist_done .
  then show ?case using Cons.IH [of "consumed j t" "insert j F"] by simp
qed simp

section \<open>Calling a callback\<close>

lemma mark_simps:
  "length (groups (mark g i st)) = length (groups st)" "fired (mark g i st) = fired st"
  "g' \<noteq> g \<Longrightarrow> groups (mark g i st) ! g' = groups st ! g'"
  "g < length (groups st) \<Longrightarrow> groups (mark g i st) ! g =
     (groups st ! g)\<lparr>remaining := remaining (groups st ! g) - 1, onces := (onces (groups st ! g))[i := True]\<rparr>"
  by (simp_all add: mark_def)

text \<open>What \<open>fire\<close> does, by cases.\<close>

lemma fire_cases:
  assumes "cb_ok k cb" "\<forall>g < length (groups (k_comp k)). grp_ok k cld g"
  obtains (direct) j where "cb = Consumed j" "k_use k ! j = Direct" "j < length (k_use k)"
      "fire cb k = k\<lparr>k_comp := (k_comp k)\<lparr>fired := fired (k_comp k) @ [j]\<rparr>, k_tracker := fold consumed [j] (k_tracker k)\<rparr>"
  | (again) g i where "cb = Part g i" "onces (groups (k_comp k) ! g) ! i" "fire cb k = k"
  | (part) g i where "cb = Part g i" "g < length (groups (k_comp k))" "i < length (onces (groups (k_comp k) ! g))"
      "\<not> onces (groups (k_comp k) ! g) ! i" "remaining (groups (k_comp k) ! g) \<noteq> 1"
      "fire cb k = k\<lparr>k_comp := mark g i (k_comp k)\<rparr>"
  | (last) g i j where "cb = Part g i" "g < length (groups (k_comp k))" "i < length (onces (groups (k_comp k) ! g))"
      "\<not> onces (groups (k_comp k) ! g) ! i" "remaining (groups (k_comp k) ! g) = 1"
      "g_done (groups (k_comp k) ! g) = Consumed j" "k_use k ! j = Grouped g" "j < length (k_use k)"
      "fire cb k = k\<lparr>k_comp := (mark g i (k_comp k))\<lparr>fired := fired (k_comp k) @ [j]\<rparr>, k_tracker := fold consumed [j] (k_tracker k)\<rparr>"
proof (cases cb)
  case (Consumed j)
  with assms(1) direct show thesis by (simp add: fire_def Let_def)
next
  case (Part g i)
  then have g: "g < length (groups (k_comp k))" "i < length (onces (groups (k_comp k) ! g))" using assms(1) by auto
  then have ip: "is_part (k_comp k) g i" by (simp add: is_part_def)
  obtain j where j: "j < length (k_use k)" "g_done (groups (k_comp k) ! g) = Consumed j" "k_use k ! j = Grouped g"
    using assms(2) g(1) by (auto simp: grp_ok_def Let_def)
  show thesis
  proof (cases "onces (groups (k_comp k) ! g) ! i")
    case True
    with Part again show thesis by (simp add: fire_def Let_def)
  next
    case False
    show thesis
    proof (cases "remaining (groups (k_comp k) ! g) = 1")
      case True
      with Part False ip g j show thesis
        by (intro last [of g i j]) (simp_all add: fire_def Let_def mark_simps)
    next
      case rem: False
      with Part False ip g show thesis
        by (intro part [of g i]) (simp_all add: fire_def Let_def mark_simps)
    qed
  qed
qed

lemma grp_ok_mono: "grp_ok k cld g \<Longrightarrow> cld \<subseteq> cld' \<Longrightarrow> grp_ok k cld' g"
  by (auto simp: grp_ok_def Let_def)

lemma fired_ok_mono: "fired_ok k cld j \<Longrightarrow> cld \<subseteq> cld' \<Longrightarrow> fired_ok k cld' j"
  by (auto simp: fired_ok_def split: use.splits)

lemma grp_ok_mark:
  assumes "grp_ok k cld g'" "k_use k' = k_use k" "groups (k_comp k') = groups (mark g i (k_comp k))"
    "g < length (groups (k_comp k))" "i < length (onces (groups (k_comp k) ! g))" "\<not> onces (groups (k_comp k) ! g) ! i"
  shows "grp_ok k' (insert (Part g i) cld) g'"
proof (cases "g' = g")
  case True
  then show ?thesis
    using assms filter_Not_update [OF assms(5,6)]
    by (auto simp: grp_ok_def Let_def mark_simps nth_list_update)
next
  case False
  then show ?thesis using assms by (auto simp: grp_ok_def Let_def mark_simps)
qed

lemma fired_ok_mark:
  assumes "fired_ok k cld j" "k_use k' = k_use k" "groups (k_comp k') = groups (mark g i (k_comp k))"
    "g < length (groups (k_comp k))"
  shows "fired_ok k' (insert (Part g i) cld) j"
proof -
  have "\<forall>b \<in> set (onces (groups (mark g i (k_comp k)) ! g')). b"
    if "\<forall>b \<in> set (onces (groups (k_comp k) ! g')). b" for g'
    using that assms(4) by (cases "g' = g") (auto simp: mark_simps dest!: set_update_subset_insert [THEN subsetD])
  then show ?thesis using assms by (auto simp: fired_ok_def mark_simps split: use.splits)
qed

lemma cb_ok_mark:
  assumes "k_use k' = k_use k" "groups (k_comp k') = groups (mark g i (k_comp k))"
  shows "cb_ok k' cb = cb_ok k cb"
proof (cases cb)
  case (Part g' i')
  have "length (onces (groups (mark g i (k_comp k)) ! g')) = length (onces (groups (k_comp k) ! g'))"
    if "g' < length (groups (k_comp k))"
    using that by (cases "g' = g") (simp_all add: mark_simps)
  with Part assms show ?thesis by (auto simp: mark_simps)
qed (use assms in simp)

lemma ok_cong:
  assumes "k_use k' = k_use k" "groups (k_comp k') = groups (k_comp k)"
  shows "cb_ok k' cb = cb_ok k cb" "grp_ok k' cld g = grp_ok k cld g" "fired_ok k' cld j = fired_ok k cld j"
  unfolding grp_ok_def fired_ok_def assms by (rule refl | cases cb; simp add: assms)+

lemma k_inv_fire:
  assumes inv: "k_inv k acc cld" and cb: "cb \<in> set (cbs_of acc)"
  shows "k_inv (fire cb k) acc (insert cb cld)"
proof -
  have ok: "cb_ok k cb" and grp: "\<forall>g < length (groups (k_comp k)). grp_ok k cld g"
    and fir: "\<forall>j \<in> set (fired (k_comp k)). fired_ok k cld j"
    and trk: "tracks (k_tracker k) (hist (k_src k) (set (fired (k_comp k))))"
    using inv cb by (auto simp: k_inv_def)
  note grp' = grp [rule_format, THEN grp_ok_mono, OF _ subset_insertI]
    and fir' = fir [rule_format, THEN fired_ok_mono, OF _ subset_insertI]
  from ok grp show ?thesis
  proof (cases rule: fire_cases)
    case (direct j)
    have "tracks (fold consumed [j] (k_tracker k)) (hist (k_src k) (set (fired (k_comp k)) \<union> set [j]))"
      by (rule tracks_fold [OF trk])
    moreover define k' where "k' = fire cb k"
    have k': "k_use k' = k_use k" "groups (k_comp k') = groups (k_comp k)" "k_pc k' = k_pc k" "k_in k' = k_in k"
      "k_discard k' = k_discard k" "k_src k' = k_src k" "fired (k_comp k') = fired (k_comp k) @ [j]"
      "k_tracker k' = fold consumed [j] (k_tracker k)"
      by (simp_all add: k'_def direct(4))
    moreover have "fired_ok k' (insert cb cld) j" using direct k' by (simp add: fired_ok_def)
    ultimately show ?thesis unfolding k'_def [symmetric] using inv cb grp' [of _ cb] fir' [of _ cb]
      by (auto simp: k_inv_def pend_def tracked_cbs_def ok_cong [OF k'(1,2)])
  next
    case (again g i)
    then show ?thesis using inv cb grp' [of _ cb] fir' [of _ cb] by (auto simp: k_inv_def)
  next
    case (part g i)
    let ?k = "k\<lparr>k_comp := mark g i (k_comp k)\<rparr>"
    have "grp_ok ?k (insert cb cld) g'" if "g' < length (groups (k_comp k))" for g'
      unfolding part(1) by (rule grp_ok_mark [OF grp [rule_format, OF that]]) (use part in simp_all)
    moreover have "fired_ok ?k (insert cb cld) j" if "j \<in> set (fired (k_comp k))" for j
      unfolding part(1) by (rule fired_ok_mark [OF fir [rule_format, OF that]]) (use part in simp_all)
    moreover have "cb_ok ?k c = cb_ok k c" for c by (rule cb_ok_mark) simp_all
    ultimately show ?thesis using inv cb part(6)
      by (auto simp: k_inv_def pend_def tracked_cbs_def mark_simps)
  next
    case (last g i j)
    let ?k = "k\<lparr>k_comp := (mark g i (k_comp k))\<lparr>fired := fired (k_comp k) @ [j]\<rparr>, k_tracker := fold consumed [j] (k_tracker k)\<rparr>"
    have grpk: "grp_ok ?k (insert cb cld) g'" if "g' < length (groups (k_comp k))" for g'
      unfolding last(1) by (rule grp_ok_mark [OF grp [rule_format, OF that]]) (use last in simp_all)
    moreover have "fired_ok ?k (insert cb cld) j'" if "j' \<in> set (fired (k_comp k))" for j'
      unfolding last(1) by (rule fired_ok_mark [OF fir [rule_format, OF that]]) (use last in simp_all)
    moreover have "fired_ok ?k (insert cb cld) j"
    proof -
      have "filter Not (onces (groups (mark g i (k_comp k)) ! g)) = []"
        using grpk [OF last(2)] last(2,5) by (simp add: grp_ok_def Let_def mark_simps)
      then show ?thesis using last by (auto simp: fired_ok_def mark_simps filter_empty_conv)
    qed
    moreover have "cb_ok ?k c = cb_ok k c" for c by (rule cb_ok_mark) simp_all
    moreover have "tracks (fold consumed [j] (k_tracker k)) (hist (k_src k) (set (fired (k_comp k)) \<union> set [j]))"
      by (rule tracks_fold [OF trk])
    ultimately show ?thesis using inv cb last(9)
      by (auto simp: k_inv_def pend_def tracked_cbs_def mark_simps)
  qed
qed

lemma k_inv_fold_fire:
  "k_inv k acc cld \<Longrightarrow> set cbs \<subseteq> set (cbs_of acc) \<Longrightarrow> k_inv (fold fire cbs k) acc (cld \<union> set cbs)"
proof (induction cbs arbitrary: k cld)
  case (Cons cb cbs)
  have "k_inv (fire cb k) acc (insert cb cld)" using Cons.prems by (intro k_inv_fire) auto
  with Cons.IH [of "fire cb k" "insert cb cld"] Cons.prems(2) show ?case by simp
qed simp

section \<open>Handling an entry\<close>

text \<open>A goroutine that holds a tracked entry is the only one that knows its callback.\<close>

lemma tracked_unused:
  assumes inv: "k_inv k acc cld" and i: "i < length (k_pc k)" "k_pc k ! i = Tracked e (Some cb)"
  obtains j where "cb = Consumed j" "j < length (k_use k)" "k_use k ! j = InTrack"
    "Consumed j \<notin> set (cbs_of (pend k @ acc))" "\<And>p c. p \<in> set (take i (k_pc k)) \<union> set (drop (Suc i) (k_pc k)) \<Longrightarrow> c \<in> set (pc_tracked p) \<Longrightarrow> c \<noteq> Consumed j"
    "\<And>g. g < length (groups (k_comp k)) \<Longrightarrow> g_done (groups (k_comp k) ! g) \<noteq> Consumed j" "j \<notin> set (fired (k_comp k))"
proof -
  have tc: "tracked_cbs k = concat (map pc_tracked (take i (k_pc k))) @ [cb] @ concat (map pc_tracked (drop (Suc i) (k_pc k)))"
    unfolding tracked_cbs_def using concat_at [OF i(1), of pc_tracked] i(2) by (simp add: pc_tracked_def)
  then obtain j where j: "cb = Consumed j" "j < length (k_use k)" "k_use k ! j = InTrack"
    using inv by (auto simp: k_inv_def)
  show thesis
  proof (rule that [OF j])
    have "cb_ok k c" if "c \<in> set (cbs_of (pend k @ acc))" for c using inv that by (simp add: k_inv_def)
    from this [of "Consumed j"] show "Consumed j \<notin> set (cbs_of (pend k @ acc))" using j(3) by fastforce
    show "c \<noteq> Consumed j" if "p \<in> set (take i (k_pc k)) \<union> set (drop (Suc i) (k_pc k))" "c \<in> set (pc_tracked p)" for p c
      using inv that j tc by (auto simp: k_inv_def)
    show "g_done (groups (k_comp k) ! g) \<noteq> Consumed j" if "g < length (groups (k_comp k))" for g
      using inv that j by (auto simp: k_inv_def grp_ok_def Let_def)
    show "j \<notin> set (fired (k_comp k))" using inv j by (force simp: k_inv_def fired_ok_def)
  qed
qed

text \<open>The three ways in which a tracked entry is disposed of.\<close>

definition disposed :: "kernel \<Rightarrow> nat \<Rightarrow> use \<Rightarrow> group list \<Rightarrow> nat list \<Rightarrow> callback list \<Rightarrow> bool" where
  "disposed k j u Gs Fs cbs \<longleftrightarrow>
     u = Direct \<and> Gs = [] \<and> Fs = [] \<and> cbs = [Consumed j] \<or>
     u = Dropped \<and> Gs = [] \<and> Fs = [j] \<and> cbs = [] \<or>
     (\<exists>n > 0. u = Grouped (length (groups (k_comp k))) \<and>
        Gs = [\<lparr>g_done = Consumed j, remaining = int n, onces = replicate n False\<rparr>] \<and> Fs = [] \<and>
        cbs = map (Part (length (groups (k_comp k)))) [0..<n])"

text \<open>A goroutine goes to \<open>p\<close>: with what it holds unchanged, or with the disposal of its tracked entry.\<close>

definition moves :: "kernel \<Rightarrow> nat \<Rightarrow> kpc \<Rightarrow> kernel \<Rightarrow> bool" where
  "moves k i p k' \<longleftrightarrow> k_pc k' = (k_pc k)[i := p] \<and> k_in k' = k_in k \<and> k_discard k' = k_discard k \<and> k_src k' = k_src k \<and>
     k_cancelled k' = k_cancelled k \<and> k_use k' = k_use k \<and> k_comp k' = k_comp k \<and> k_tracker k' = k_tracker k"

definition disposes :: "kernel \<Rightarrow> nat \<Rightarrow> nat \<Rightarrow> kpc \<Rightarrow> use \<Rightarrow> group list \<Rightarrow> nat list \<Rightarrow> kernel \<Rightarrow> bool" where
  "disposes k i j p u Gs Fs k' \<longleftrightarrow> pc_tracked p = [] \<and> (\<forall>e cb. p \<noteq> Tracked e cb) \<and> p \<noteq> ReaderDone \<and>
     disposed k j u Gs Fs (cbs_of (pc_pending p)) \<and>
     k_pc k' = (k_pc k)[i := p] \<and> k_in k' = k_in k \<and> k_discard k' = k_discard k \<and> k_src k' = k_src k \<and>
     k_cancelled k' = k_cancelled k \<and>
     k_use k' = (k_use k)[j := u] \<and> groups (k_comp k') = groups (k_comp k) @ Gs \<and>
     fired (k_comp k') = fired (k_comp k) @ Fs \<and> k_tracker k' = fold consumed Fs (k_tracker k)"

lemma k_inv_dispose:
  assumes inv: "k_inv k acc cld" and i: "i < length (k_pc k)" "k_pc k ! i = Tracked e (Some (Consumed j))"
    and D: "disposes k i j p u Gs Fs k'"
  shows "k_inv k' acc cld"
proof -
  obtain j' where "Consumed j = Consumed j'" and j: "j' < length (k_use k)" "k_use k ! j' = InTrack"
    "Consumed j' \<notin> set (cbs_of (pend k @ acc))"
    "\<And>p c. p \<in> set (take i (k_pc k)) \<union> set (drop (Suc i) (k_pc k)) \<Longrightarrow> c \<in> set (pc_tracked p) \<Longrightarrow> c \<noteq> Consumed j'"
    "\<And>g. g < length (groups (k_comp k)) \<Longrightarrow> g_done (groups (k_comp k) ! g) \<noteq> Consumed j'" "j' \<notin> set (fired (k_comp k))"
    using tracked_unused [OF inv i] by blast
  then have j'[simp]: "j' = j" by simp
  define cbs where "cbs = cbs_of (pc_pending p)"
  have p: "pc_tracked p = []" "\<forall>e cb. p \<noteq> Tracked e cb" "cbs_of (pc_pending p) = cbs"
    and d: "disposed k j u Gs Fs cbs"
    and k': "k_pc k' = (k_pc k)[i := p]" "k_in k' = k_in k" "k_discard k' = k_discard k" "k_src k' = k_src k"
      "k_use k' = (k_use k)[j := u]" "groups (k_comp k') = groups (k_comp k) @ Gs" "fired (k_comp k') = fired (k_comp k) @ Fs"
      "k_tracker k' = fold consumed Fs (k_tracker k)"
    using D by (simp_all add: disposes_def cbs_def)
  note [simp] = nth_list_update
  have pk: "pend k = concat (map pc_pending (take i (k_pc k))) @ concat (map pc_pending (drop (Suc i) (k_pc k)))"
    unfolding pend_def using concat_at [OF i(1), of pc_pending] i(2) by (simp add: pc_pending_def)
  have pk': "pend k' = concat (map pc_pending (take i (k_pc k))) @ pc_pending p @ concat (map pc_pending (drop (Suc i) (k_pc k)))"
    unfolding pend_def k'(1) by (rule concat_update [OF i(1)])
  have tk: "tracked_cbs k = concat (map pc_tracked (take i (k_pc k))) @ [Consumed j] @ concat (map pc_tracked (drop (Suc i) (k_pc k)))"
    unfolding tracked_cbs_def using concat_at [OF i(1), of pc_tracked] i(2) by (simp add: pc_tracked_def)
  have tk': "tracked_cbs k' = concat (map pc_tracked (take i (k_pc k))) @ concat (map pc_tracked (drop (Suc i) (k_pc k)))"
    unfolding tracked_cbs_def k'(1) using concat_update [OF i(1), of pc_tracked p] p(1) by simp
  have use: "k_use k' ! l = k_use k ! l" if "l \<noteq> j" for l using that by (simp add: k'(5))
  have Gs: "groups (k_comp k') ! g = groups (k_comp k) ! g" if "g < length (groups (k_comp k))" for g
    using that by (simp add: k'(6) nth_append)
  have fresh: "set cbs \<inter> set (cbs_of (pend k @ acc)) = {}" "distinct cbs" "\<forall>cb \<in> set cbs. cb_ok k' cb"
  proof -
    have "\<forall>cb \<in> set (cbs_of (pend k @ acc)). cb_ok k cb" using inv by (simp add: k_inv_def)
    with d j(3) show "set cbs \<inter> set (cbs_of (pend k @ acc)) = {}" by (fastforce simp: disposed_def)
    show "distinct cbs" using d by (auto simp: disposed_def distinct_map inj_on_def)
    show "\<forall>cb \<in> set cbs. cb_ok k' cb" using d j(1) k'(5,6) by (auto simp: disposed_def)
  qed
  have cbs: "\<forall>cb \<in> set (cbs_of (pend k' @ acc)). cb_ok k' cb" "distinct (cbs_of (pend k' @ acc))"
  proof -
    have old: "cb_ok k' cb" if "cb \<in> set (cbs_of (pend k @ acc))" for cb
    proof -
      have "cb_ok k cb" using inv that by (simp add: k_inv_def)
      moreover have "cb \<noteq> Consumed j" using that j(3) by auto
      ultimately show ?thesis by (cases cb) (auto simp: k'(5,6) nth_append)
    qed
    have "set (cbs_of (pend k' @ acc)) = set (cbs_of (pend k @ acc)) \<union> set cbs" unfolding pk pk' using p(3) by auto
    with old fresh(3) show "\<forall>cb \<in> set (cbs_of (pend k' @ acc)). cb_ok k' cb" by blast
    have "distinct (cbs_of (pend k @ acc))" using inv by (simp add: k_inv_def)
    with fresh(1,2) show "distinct (cbs_of (pend k' @ acc))" unfolding pk pk' using p(3) by auto
  qed
  have grp: "grp_ok k' cld g" if "g < length (groups (k_comp k'))" for g
  proof (cases "g < length (groups (k_comp k))")
    case True
    then have "grp_ok k cld g" using inv by (simp add: k_inv_def)
    with j(5) [OF True] show ?thesis by (auto simp: grp_ok_def Let_def Gs [OF True] k'(5))
  next
    case False
    with that k'(6) d have "Gs \<noteq> []" "g = length (groups (k_comp k))" by (auto simp: disposed_def)
    with d j(1) show ?thesis by (auto simp: disposed_def grp_ok_def Let_def k'(5,6))
  qed
  have fired: "fired_ok k' cld l" if "l \<in> set (fired (k_comp k'))" for l
  proof (cases "l = j")
    case True
    with that j(6) k'(7) d have "u = Dropped" by (auto simp: disposed_def)
    with True j(1) show ?thesis by (simp add: fired_ok_def k'(5))
  next
    case False
    with that k'(7) d have "l \<in> set (fired (k_comp k))" by (auto simp: disposed_def)
    then have "fired_ok k cld l" using inv by (simp add: k_inv_def)
    with False show ?thesis by (auto simp: fired_ok_def k'(5,6) nth_append split: use.splits)
  qed
  have "tracks (k_tracker k') (hist (k_src k') (set (fired (k_comp k'))))"
    using tracks_fold [of "k_tracker k" "k_src k" "set (fired (k_comp k))" Fs] inv
    by (simp add: k_inv_def k')
  moreover have "\<forall>e cb. Tracked e cb \<in> set (k_pc k') \<longrightarrow> OnWritten e = None"
    using inv p(2) unfolding k'(1) k_inv_def by (auto dest!: set_update_subset_insert [THEN subsetD])
  moreover have "\<forall>cb \<in> set (tracked_cbs k'). \<exists>l < length (k_use k'). cb = Consumed l \<and> k_use k' ! l = InTrack"
  proof
    fix cb assume c: "cb \<in> set (tracked_cbs k')"
    then have "cb \<in> set (tracked_cbs k)" "cb \<noteq> Consumed j" unfolding tk tk' using j(4) by auto
    with inv obtain l where "l < length (k_use k)" "cb = Consumed l" "k_use k ! l = InTrack" by (auto simp: k_inv_def)
    with \<open>cb \<noteq> Consumed j\<close> show "\<exists>l < length (k_use k'). cb = Consumed l \<and> k_use k' ! l = InTrack"
      by (auto simp: k'(5))
  qed
  moreover have "distinct (tracked_cbs k')" using inv unfolding tk' k_inv_def tk by auto
  ultimately show ?thesis using inv cbs grp fired by (simp add: k_inv_def k'(1-5))
qed

lemma k_inv_set_pc:
  assumes inv: "k_inv k acc cld" and i: "i < length (k_pc k)"
    and p: "pc_tracked p = []" "pc_tracked (k_pc k ! i) = []" "cbs_of (pc_pending p) = cbs_of (pc_pending (k_pc k ! i))"
      "\<forall>e cb. p = Tracked e cb \<longrightarrow> OnWritten e = None"
    and M: "moves k i p k'"
  shows "k_inv k' acc cld"
proof -
  have k': "k_pc k' = (k_pc k)[i := p]" "k_in k' = k_in k" "k_discard k' = k_discard k" "k_src k' = k_src k"
      "k_use k' = k_use k" "k_comp k' = k_comp k" "k_tracker k' = k_tracker k"
    using M by (simp_all add: moves_def)
  have "cbs_of (pend k') = cbs_of (pend k)"
    unfolding pend_def k'(1) concat_update [OF i] concat_at [OF i, of pc_pending] using p(3) by simp
  moreover have "tracked_cbs k' = tracked_cbs k"
    unfolding tracked_cbs_def k'(1) concat_update [OF i] concat_at [OF i, of pc_tracked] using p(1,2) by simp
  moreover have "\<forall>e cb. Tracked e cb \<in> set (k_pc k') \<longrightarrow> OnWritten e = None"
    using inv p(4) unfolding k'(1) k_inv_def by (auto dest!: set_update_subset_insert [THEN subsetD])
  moreover have "groups (k_comp k') = groups (k_comp k)" using k' by simp
  note ok_cong [OF k'(5) this]
  ultimately show ?thesis using inv by (auto simp: k_inv_def k')
qed

lemma OnWritten_Parse: "entry_Parse e = Inr e' \<Longrightarrow> OnWritten e' = OnWritten e"
  by (auto simp: entry_Parse_def split: sum.splits)

lemma RunFunction_OnWritten:
  "RunFunction rt e = Inr es \<Longrightarrow> OnWritten e = None \<Longrightarrow> \<forall>x \<in> set es. OnWritten x = None"
  by (auto simp: RunFunction_def NewEntry_def split: option.splits sum.splits)

lemma cbs_of_None: "\<forall>x \<in> set es. OnWritten x = None \<Longrightarrow> cbs_of es = []"
  by (induction es) auto

lemma cbs_of_map2: "length es = length cs \<Longrightarrow> cbs_of (map2 (\<lambda>x c. x\<lparr>OnWritten := Some c\<rparr>) es cs) = cs"
  by (induction es cs rule: list_induct2) auto

lemma pc_writing [simp]: "pc_pending (writing c es) = es" "pc_tracked (writing c es) = []" "writing c es \<noteq> Tracked e cb"
  "pc_pending (Writing c es) = es" "pc_tracked (Writing c es) = []" "pc_pending Fetch = []" "pc_tracked Fetch = []"
  "pc_pending (Tracked e cb) = []" "pc_tracked (Tracked e None) = []" "pc_tracked (Tracked e (Some d)) = [d]"
  "pc_pending ReaderDone = []" "pc_tracked ReaderDone = []"
  by (simp_all add: writing_def pc_pending_def pc_tracked_def)

lemma process_ok:
  assumes "k_fault (process opt i e cb k) = None" "\<not> ProgressOnly e"
  obtains (dropped) e1 where "entry_Parse e = Inr e1" "Filter (k_compile opt) (k_filter opt) e1 = Inr False"
  | (passed) e1 es where "entry_Parse e = Inr e1" "Filter (k_compile opt) (k_filter opt) e1 = Inr True"
      "RunFunction (luaRuntime opt) e1 = Inr es"
proof -
  from assms obtain e1 where e1: "entry_Parse e = Inr e1" by (auto simp: process_def split: sum.splits)
  with assms obtain b where b: "Filter (k_compile opt) (k_filter opt) e1 = Inr b"
    by (auto simp: process_def Let_def split: sum.splits)
  show thesis
  proof (cases b)
    case True
    with assms e1 b obtain es where "RunFunction (luaRuntime opt) e1 = Inr es"
      by (auto simp: process_def Let_def split: sum.splits)
    with e1 b True show thesis by (intro passed) simp_all
  qed (use e1 b dropped in simp)
qed

lemma process_None_moves:
  assumes on: "OnWritten e = None" and nf: "k_fault (process opt i e None k) = None"
  obtains p where "moves k i p (process opt i e None k)" "pc_tracked p = []" "cbs_of (pc_pending p) = []" "\<forall>e cb. p \<noteq> Tracked e cb"
    "p \<noteq> ReaderDone"
proof (cases "ProgressOnly e")
  case True
  then show thesis by (intro that [of "Writing False [e\<lparr>OnWritten := None\<rparr>]"]) (simp_all add: moves_def process_def note_use_def set_pc_def)
next
  case False
  with nf show thesis
  proof (cases rule: process_ok)
    case (dropped e1)
    with False show thesis by (intro that [of Fetch]) (simp_all add: moves_def process_def note_use_def Let_def set_pc_def)
  next
    case (passed e1 es)
    have "cbs_of es = []" using RunFunction_OnWritten [OF passed(3)] OnWritten_Parse [OF passed(1)] on by (simp add: cbs_of_None)
    with passed False show thesis
      by (intro that [of "writing True es"])
        (simp_all add: moves_def process_def note_use_def Let_def split_entries_def SplitCompletion_def set_pc_def, simp add: writing_def)
  qed
qed

lemma process_Some_disposes:
  assumes nf: "k_fault (process opt i e (Some (Consumed j)) k) = None"
  obtains p u Gs Fs where "disposes k i j p u Gs Fs (process opt i e (Some (Consumed j)) k)"
proof (cases "ProgressOnly e")
  case True
  then have "disposes k i j (Writing False [e\<lparr>OnWritten := Some (Consumed j)\<rparr>]) Direct [] [] (process opt i e (Some (Consumed j)) k)"
    by (simp add: disposes_def process_def note_use_def disposed_def set_pc_def)
  then show thesis by (rule that)
next
  case False
  with nf show thesis
  proof (cases rule: process_ok)
    case (dropped e1)
    with False have "disposes k i j Fetch Dropped [] [j] (process opt i e (Some (Consumed j)) k)"
      by (simp add: disposes_def process_def note_use_def disposed_def fire_def Let_def set_pc_def)
    then show thesis by (rule that)
  next
    case (passed e1 es)
    let ?g = "length (groups (k_comp k))"
    show thesis
    proof (cases "es = []")
      case True
      with passed False have "disposes k i j Fetch Dropped [] [j] (process opt i e (Some (Consumed j)) k)"
        by (simp add: disposes_def process_def note_use_def disposed_def Let_def split_entries_def SplitCompletion_def writing_def set_pc_def)
      then show thesis by (rule that)
    next
      case ne: False
      let ?es = "map2 (\<lambda>x c. x\<lparr>OnWritten := Some c\<rparr>) es (map (Part ?g) [0..<length es])"
      from ne have "0 < length es" "?es \<noteq> []" by auto
      with passed False ne have "disposes k i j (writing True ?es) (Grouped ?g)
          [\<lparr>g_done = Consumed j, remaining = int (length es), onces = replicate (length es) False\<rparr>] [] (process opt i e (Some (Consumed j)) k)"
        by (simp add: disposes_def process_def note_use_def disposed_def Let_def split_entries_def SplitCompletion_def cbs_of_map2
            set_pc_def) (simp add: writing_def)
      then show thesis by (rule that)
    qed
  qed
qed

lemma k_inv_process:
  assumes inv: "k_inv k acc cld" and i: "i < length (k_pc k)" "k_pc k ! i = Tracked e cb"
    and nf: "k_fault (process opt i e cb k) = None"
  shows "k_inv (process opt i e cb k) acc cld"
proof (cases cb)
  case None
  have "OnWritten e = None" using inv i by (auto simp: k_inv_def) (metis nth_mem)
  with nf None obtain p where p: "moves k i p (process opt i e cb k)" "pc_tracked p = []" "cbs_of (pc_pending p) = []"
    "\<forall>e cb. p \<noteq> Tracked e cb" by (auto elim: process_None_moves)
  show ?thesis by (rule k_inv_set_pc [OF inv i(1) _ _ _ _ p(1)]) (use p i(2) None in auto)
next
  case (Some c)
  then obtain j where c: "cb = Some (Consumed j)" using tracked_unused [OF inv i(1)] i(2) by blast
  with nf obtain p u Gs Fs where "disposes k i j p u Gs Fs (process opt i e cb k)" by (auto elim: process_Some_disposes)
  then show ?thesis using k_inv_dispose [OF inv i(1)] i(2) c by blast
qed

lemma k_inv_same:
  assumes "k_inv k acc cld" "k_pc k' = k_pc k" "k_src k' = k_src k" "k_use k' = k_use k" "k_comp k' = k_comp k"
    "k_tracker k' = k_tracker k" "length (k_in k') = length (k_pc k)" "length (k_discard k') = length (k_pc k)"
    "\<forall>es \<in> set (k_in k'). \<forall>e \<in> set es. OnWritten e = None"
  shows "k_inv k' acc cld"
proof -
  have "groups (k_comp k') = groups (k_comp k)" using assms(5) by simp
  note ok_cong [OF assms(4) this]
  with assms show ?thesis by (auto simp: k_inv_def pend_def tracked_cbs_def)
qed

lemma k_inv_pop:
  assumes "k_inv k acc cld" "i < length (k_pc k)" "k_in k ! i = e # es" "length d = length (k_pc k)"
  shows "k_inv (k\<lparr>k_in := (k_in k)[i := es], k_discard := d\<rparr>) acc cld" "OnWritten e = None"
proof -
  have "k_in k ! i \<in> set (k_in k)" using assms(1,2) by (simp add: k_inv_def)
  then have all: "\<forall>x \<in> set (e # es). OnWritten x = None" using assms(1,3) by (auto simp: k_inv_def)
  then show "OnWritten e = None" by simp
  have "set ((k_in k)[i := es]) \<subseteq> insert es (set (k_in k))" by (rule set_update_subset_insert)
  with all have "\<forall>xs \<in> set ((k_in k)[i := es]). \<forall>e \<in> set xs. OnWritten e = None"
    using assms(1) by (fastforce simp: k_inv_def)
  with assms show "k_inv (k\<lparr>k_in := (k_in k)[i := es], k_discard := d\<rparr>) acc cld"
    by (intro k_inv_same [OF assms(1)]) (auto simp: k_inv_def)
qed

lemma k_inv_track:
  assumes inv: "k_inv k acc cld" and i: "i < length (k_pc k)" "k_pc k ! i = Fetch" and on: "OnWritten e = None"
    and trk: "Track (k_tracker k) (SourceNode e) (SourceOffset e) = Some (cb, t')"
  shows "k_inv (set_pc i (Tracked e (Some cb)) (k\<lparr>k_tracker := t', k_src := k_src k @ [e], k_use := k_use k @ [InTrack]\<rparr>)) acc cld"
    (is "k_inv ?k acc cld")
proof -
  have len: "length (k_use k) = length (k_src k)" and fir: "\<forall>j \<in> set (fired (k_comp k)). fired_ok k cld j"
    and t: "tracks (k_tracker k) (hist (k_src k) (set (fired (k_comp k))))"
    using inv by (auto simp: k_inv_def)
  have fresh: "length (k_src k) \<notin> set (fired (k_comp k))" using fir len by (auto simp: fired_ok_def)
  from tracks_Track [OF t trk] have t': "tracks t' (hist (k_src k @ [e]) (set (fired (k_comp k))))"
    and cb: "cb = Consumed (length (k_src k))" unfolding hist_track [OF fresh] by (auto simp: hist_def)
  have pend: "pend ?k = pend k"
    unfolding pend_def using i concat_update [OF i(1), of pc_pending] concat_at [OF i(1), of pc_pending] by simp
  have tk: "tracked_cbs ?k = concat (map pc_tracked (take i (k_pc k))) @ [cb] @ concat (map pc_tracked (drop (Suc i) (k_pc k)))"
    "tracked_cbs k = concat (map pc_tracked (take i (k_pc k))) @ concat (map pc_tracked (drop (Suc i) (k_pc k)))"
    unfolding tracked_cbs_def using i concat_update [OF i(1), of pc_tracked] concat_at [OF i(1), of pc_tracked] by simp_all
  have old: "\<forall>c \<in> set (tracked_cbs k). \<exists>j < length (k_src k). c = Consumed j \<and> k_use k ! j = InTrack"
    using inv len by (auto simp: k_inv_def)
  have tok: "\<exists>j < length (k_use ?k). c = Consumed j \<and> k_use ?k ! j = InTrack" if "c \<in> set (tracked_cbs ?k)" for c
  proof (cases "c = cb")
    case True
    then show ?thesis using len cb by (auto simp: nth_append)
  next
    case False
    then have "c \<in> set (tracked_cbs k)" using that unfolding tk by auto
    with old len show ?thesis by (fastforce simp: nth_append)
  qed
  have "cb \<notin> set (tracked_cbs k)" using old cb by auto
  then have dist: "distinct (tracked_cbs ?k)" using inv unfolding tk k_inv_def by auto
  have use: "k_use ?k ! j = k_use k ! j" if "j < length (k_use k)" for j using that by (simp add: nth_append)
  have cbok: "cb_ok ?k c" if "cb_ok k c" for c using that by (cases c) (auto simp: nth_append)
  have grp: "grp_ok ?k cld g" if "grp_ok k cld g" for g
    using that use by (fastforce simp: grp_ok_def Let_def)
  have fok: "fired_ok ?k cld j" if "fired_ok k cld j" for j
    using that use by (auto simp: fired_ok_def split: use.splits)
  have pcs: "\<forall>e' cb'. Tracked e' cb' \<in> set (k_pc ?k) \<longrightarrow> OnWritten e' = None"
    using inv on by (auto simp: k_inv_def dest!: set_update_subset_insert [THEN subsetD])
  show ?thesis
    unfolding k_inv_def pend using inv tok dist cbok grp fok pcs t' len by (auto simp: k_inv_def)
qed

lemma k_inv_step:
  assumes "k_step opt k k'" "k_inv k acc cld" "k_fault k' = None"
  shows "k_inv k' acc cld"
proof -
  have d: "length (k_discard k) = length (k_pc k)" using assms(2) by (simp add: k_inv_def)
  show ?thesis
    using assms(1)
  proof (cases rule: k_step.cases)
    case (fetch_discard i e es)
    then show ?thesis using k_inv_pop(1) [OF assms(2), of i e es "k_discard k"] d by simp
  next
    case (fetch i e es)
    note pop = k_inv_pop [OF assms(2) fetch(2,4) d]
    have "k_inv (set_pc i (Tracked e None) (k\<lparr>k_in := (k_in k)[i := es], k_discard := k_discard k\<rparr>)) acc cld"
      by (rule k_inv_set_pc [OF pop(1), of i "Tracked e None"]) (use fetch pop(2) in \<open>auto simp: moves_def set_pc_def\<close>)
    then show ?thesis unfolding fetch(1) by simp
  next
    case (fetch_track i e es cb t')
    note pop = k_inv_pop [OF assms(2) fetch_track(2,4) d]
    have "k_inv (set_pc i (Tracked e (Some cb)) (k\<lparr>k_in := (k_in k)[i := es], k_discard := k_discard k, k_tracker := t',
        k_src := k_src k @ [e], k_use := k_use k @ [InTrack]\<rparr>)) acc cld"
      using k_inv_track [OF pop(1), of i e cb t'] fetch_track pop(2) by simp
    then show ?thesis unfolding fetch_track(1) by simp
  next
    case (fetch_cancelled i e es)
    then show ?thesis using k_inv_pop(1) [OF assms(2), of i e es "(k_discard k)[i := True]"] d by simp
  next
    case (handle i e cb)
    then show ?thesis using assms(2,3) k_inv_process by auto
  next
    case (reader_done i)
    then show ?thesis by (intro k_inv_set_pc [OF assms(2), of i ReaderDone]) (auto simp: moves_def set_pc_def)
  next
    case cancel
    then show ?thesis by (intro k_inv_same [OF assms(2)]) (use assms(2) in \<open>auto simp: k_inv_def\<close>)
  qed
qed

section \<open>The writes\<close>

lemma perm_ok:
  assumes "k_inv k acc cld" "mset (cbs_of (pend k' @ acc')) = mset (cbs_of (pend k @ acc))"
  shows "set (cbs_of (pend k' @ acc')) = set (cbs_of (pend k @ acc))" "distinct (cbs_of (pend k' @ acc'))"
  using assms mset_eq_setD [OF assms(2)] mset_eq_imp_distinct_iff [OF assms(2)] by (auto simp: k_inv_def)

lemma k_inv_write:
  assumes inv: "k_inv k acc cld" and w: "k_write i k = Some (Inr x', k')"
  shows "k_inv k' (acc @ [x']) cld"
proof -
  from w obtain c x xs where i: "i < length (k_pc k)" "k_pc k ! i = Writing c (x # xs)" and x: "entry_Parse x = Inr x'"
    and k': "k' = set_pc i (writing c xs) (k\<lparr>WriteCount := WriteCount k + (if c then 1 else 0)\<rparr>)"
    by (auto simp: k_write_def split: if_splits kpc.splits list.splits sum.splits)
  have f: "k_pc k' = (k_pc k)[i := writing c xs]" "k_in k' = k_in k" "k_discard k' = k_discard k" "k_src k' = k_src k"
    "k_use k' = k_use k" "k_comp k' = k_comp k" "k_tracker k' = k_tracker k"
    unfolding k' by simp_all
  have p: "pend k = concat (map pc_pending (take i (k_pc k))) @ (x # xs) @ concat (map pc_pending (drop (Suc i) (k_pc k)))"
    "pend k' = concat (map pc_pending (take i (k_pc k))) @ xs @ concat (map pc_pending (drop (Suc i) (k_pc k)))"
    unfolding pend_def f(1) concat_update [OF i(1)] concat_at [OF i(1), of pc_pending] i(2) by simp_all
  have "mset (cbs_of (pend k' @ acc @ [x'])) = mset (cbs_of (pend k @ acc))"
    unfolding p by (simp add: OnWritten_Parse [OF x])
  note cbs = perm_ok [OF inv this]
  have tk: "tracked_cbs k' = tracked_cbs k"
    unfolding tracked_cbs_def f(1) concat_update [OF i(1)] concat_at [OF i(1), of pc_tracked] i(2) by simp
  have pcs: "\<forall>e cb. Tracked e cb \<in> set (k_pc k') \<longrightarrow> OnWritten e = None"
    using inv unfolding f(1) k_inv_def by (auto dest!: set_update_subset_insert [THEN subsetD] sym [of "Tracked _ _"])
  have "groups (k_comp k') = groups (k_comp k)" using f by simp
  note ok = ok_cong [OF f(5) this]
  have "cld \<subseteq> set (cbs_of (acc @ [x']))" using inv by (auto simp: k_inv_def)
  then show ?thesis
    unfolding k_inv_def ok f tk cbs(1) using inv cbs(2) pcs by (intro conjI) (auto simp: k_inv_def f)
qed

lemma k_inv_main:
  assumes "k_inv k acc cld" "x \<in> {flushall_entry, ping_entry}"
  shows "k_inv k (acc @ [x]) cld"
proof -
  have "OnWritten x = None" using assms(2) by (auto simp: flushall_entry_def ping_entry_def NewEntry_def)
  then show ?thesis using assms(1) by (auto simp: k_inv_def)
qed

lemma concat_Nils [simp]: "concat (map (\<lambda>x. []) xs) = []"
  by (induction xs) auto

lemma k_inv_init:
  assumes "\<forall>es \<in> set inputs. \<forall>e \<in> set es. OnWritten e = None"
  shows "k_inv (k_init limit inputs) [] {}"
  using assms tracks_init [of limit] by (auto simp: k_inv_def k_init_def pend_def tracked_cbs_def hist_def comp_def)

section \<open>The writer's callbacks\<close>

lemma called_mono: "w_step opt w w' \<Longrightarrow> \<exists>cs. w_called w' = w_called w @ cs"
  by (cases rule: w_step.cases) (auto simp: writer_defs handle_reply_def split: option.splits)

text \<open>What was handled was accepted before.\<close>

lemma handled_accepted:
  assumes "sent_inv w" "reply_inv w"
  shows "set (commands (w_handled w)) \<subseteq> serialized ` set (w_accepted w)"
proof -
  have "set (w_handled w) \<subseteq> set (w_issued w) \<union> set (inflight (w_pc w))"
  proof -
    have "set (w_handled w @ waiting w) \<subseteq> set (w_issued w) \<union> set (inflight (w_pc w))"
      using assms(2) by (cases "w_pc w") (auto simp: reply_inv_def)
    then show ?thesis by simp
  qed
  moreover have "serialized ` set (w_accepted w) =
      set (commands (w_issued w)) \<union> set (inflight (w_pc w)) \<union> serialized ` set (w_ch w)"
    using arg_cong [where f = set, OF conjunct1 [OF assms(1) [unfolded sent_inv_def]]] by auto
  ultimately show ?thesis by auto
qed

lemma serialized_OnWritten [simp]: "OnWritten (serialized e) = OnWritten e"
  by (simp add: serialized_def Serialize_eq)

lemma set_cbs_of: "set (cbs_of es) = {c. \<exists>e \<in> set es. OnWritten e = Some c}"
  by (induction es) (auto split: option.splits)

lemma called_accepted:
  assumes "sent_inv w" "reply_inv w" "c \<in> set (w_called w)"
  obtains x where "x \<in> set (w_accepted w)" "OnWritten x = Some c" "serialized x \<in> set (w_handled w)"
proof -
  have "w_called w = cbs_of (commands (w_handled w))" using assms(2) by (simp add: reply_inv_def cbs_of_def)
  with assms(3) obtain e where e: "e \<in> set (commands (w_handled w))" "OnWritten e = Some c" by (auto simp: set_cbs_of)
  then obtain x where "x \<in> set (w_accepted w)" "e = serialized x" using handled_accepted [OF assms(1,2)] by auto
  with e that [of x] show thesis by auto
qed

section \<open>The composition\<close>

lemma sys_writer: "sys_step opt wopt s t \<Longrightarrow> sw t = sw s \<or> w_step wopt (sw s) (sw t)"
  by (erule sys_step.cases) (auto simp: w_put_def w_room_def intro: w_step.put)

text \<open>Seen from the writer alone, the system is a run of the writer: \<open>sw\<close> is a simulation.\<close>

interpretation sys: simulation "\<lparr>sk = k_init limit inputs, sw = NewRedisWriter\<rparr>"
    "\<lambda>s t. k_fault (sk s) = None \<and> w_fault (sw s) = None \<and> sys_step opt wopt s t" "sys_reachable opt wopt limit inputs"
    NewRedisWriter "\<lambda>w w'. w_fault w = None \<and> w_step wopt w w'" "w_reachable wopt" sw
  for opt wopt limit inputs
proof (unfold_locales, goal_cases)
  case (3 s I)
  from 3 show ?case by (induction rule: sys_reachable.induct) blast+
next
  case (5 s t)
  then show ?case using sys_writer [of opt wopt s t] by auto
qed (auto intro: sys_reachable.intros)

lemma sys_w_reachable: "sys_reachable opt wopt limit inputs s \<Longrightarrow> w_reachable wopt (sw s)"
  by (rule sys.f_reach)

lemma sys_accepted_mono: "sys_step opt wopt s t \<Longrightarrow> set (w_accepted (sw s)) \<subseteq> set (w_accepted (sw t))"
  using sys_writer [of opt wopt s t] accepted_mono by fastforce

abbreviation sys_inv :: "sys \<Rightarrow> bool" where
  "sys_inv s \<equiv> k_inv (sk s) (w_accepted (sw s)) (set (w_called (sw s)))"

lemma sys_inv_step:
  assumes step: "sys_step opt wopt s t" and inv: "sys_inv s"
    and f: "k_fault (sk t) = None" and t: "sent_inv (sw t)" "reply_inv (sw t)"
  shows "sys_inv t"
  using step
proof (cases rule: sys_step.cases)
  case (kern k')
  then show ?thesis using k_inv_step inv f by simp
next
  case (put_entry i x k')
  then show ?thesis using k_inv_write [OF inv put_entry(2)] by (simp add: w_put_def)
next
  case (put_fails i fl k')
  then show ?thesis using f by (auto simp: k_write_def split: if_splits kpc.splits list.splits sum.splits)
next
  case (main_write x)
  then show ?thesis using k_inv_main [OF inv] by (simp add: w_put_def)
next
  case (writer w')
  then obtain cs where cs: "w_called w' = w_called (sw s) @ cs" using called_mono by blast
  have "set cs \<subseteq> set (cbs_of (w_accepted w'))"
  proof
    fix c assume "c \<in> set cs"
    then have "c \<in> set (w_called w')" using cs by simp
    with t writer(1) obtain x where "x \<in> set (w_accepted w')" "OnWritten x = Some c" by (auto elim: called_accepted)
    then show "c \<in> set (cbs_of (w_accepted w'))" by (auto simp: set_cbs_of)
  qed
  then have "k_inv (fold fire cs (sk s)) (w_accepted (sw s)) (set (w_called (sw s)) \<union> set cs)"
    using k_inv_fold_fire [OF inv] writer(3) by simp
  then show ?thesis using writer cs by simp
qed

lemma sys_reachable_inv:
  assumes "\<not> OffReply wopt" "\<forall>es \<in> set inputs. \<forall>e \<in> set es. OnWritten e = None"
  shows "sys_reachable opt wopt limit inputs s \<Longrightarrow> \<forall>e \<in> set (w_accepted (sw s)). plain e \<Longrightarrow>
    k_fault (sk s) = None \<Longrightarrow> w_fault (sw s) = None \<Longrightarrow> sys_inv s"
proof (induction rule: sys_reachable.induct)
  case init
  then show ?case using k_inv_init [OF assms(2)] by (simp add: NewRedisWriter_def)
next
  case (step s t)
  have plain: "\<forall>e \<in> set (w_accepted (sw s)). plain e" using step.prems(1) sys_accepted_mono [OF step.hyps(4)] by auto
  have "sys_reachable opt wopt limit inputs t" using step.hyps by (rule sys_reachable.step)
  from w_reachable_inv [OF sys_w_reachable [OF this] step.prems(1)] assms(1) step.prems(3)
  have "sent_inv (sw t)" "reply_inv (sw t)" by auto
  with sys_inv_step [OF step.hyps(4) step.IH [OF plain step.hyps(2,3)] step.prems(2)] show ?case by blast
qed

section \<open>What a position means\<close>

text \<open>The callbacks made for a tracked entry.\<close>

definition parts_of :: "kernel \<Rightarrow> nat \<Rightarrow> callback list" where
  "parts_of k i = (case k_use k ! i of Direct \<Rightarrow> [Consumed i]
     | Grouped g \<Rightarrow> map (Part g) [0..<length (onces (groups (k_comp k) ! g))] | _ \<Rightarrow> [])"

text \<open>
  A tracked entry is settled: it was dropped by the filter or the function, or it led to at least one
  write, and each of its writes was accepted by the writer and its reply was handled, and no goroutine
  holds a write of it.
\<close>

definition settled :: "sys \<Rightarrow> nat \<Rightarrow> bool" where
  "settled s i \<longleftrightarrow> k_use (sk s) ! i = Dropped \<or>
     parts_of (sk s) i \<noteq> [] \<and>
     (\<forall>cb \<in> set (parts_of (sk s) i).
        (\<exists>x \<in> set (w_accepted (sw s)). OnWritten x = Some cb \<and> serialized x \<in> set (w_handled (sw s))) \<and>
        (\<forall>x \<in> set (pend (sk s)). OnWritten x \<noteq> Some cb))"

lemma fired_settled:
  assumes inv: "sys_inv s" and w: "sent_inv (sw s)" "reply_inv (sw s)" and i: "i \<in> set (fired (k_comp (sk s)))"
  shows "settled s i"
proof (cases "k_use (sk s) ! i = Dropped")
  case False
  have ok: "fired_ok (sk s) (set (w_called (sw s))) i" using inv i by (simp add: k_inv_def)
  have "parts_of (sk s) i \<noteq> [] \<and> set (parts_of (sk s) i) \<subseteq> set (w_called (sw s))"
  proof (cases "k_use (sk s) ! i")
    case (Grouped g)
    then have g: "g < length (groups (k_comp (sk s)))" and all: "\<forall>b \<in> set (onces (groups (k_comp (sk s)) ! g)). b"
      using ok by (auto simp: fired_ok_def)
    have "grp_ok (sk s) (set (w_called (sw s))) g" using inv g by (simp add: k_inv_def)
    then have "onces (groups (k_comp (sk s)) ! g) \<noteq> []"
      and called: "\<And>p. p < length (onces (groups (k_comp (sk s)) ! g)) \<Longrightarrow> Part g p \<in> set (w_called (sw s))"
      using bspec [OF all nth_mem] by (simp_all add: grp_ok_def Let_def)
    then show ?thesis unfolding parts_of_def Grouped by (simp add: image_subset_iff)
  qed (use ok False in \<open>auto simp: fired_ok_def parts_of_def\<close>)
  moreover have "\<forall>x \<in> set (pend (sk s)). OnWritten x \<noteq> Some cb" if cb: "cb \<in> set (w_called (sw s))" for cb
  proof -
    from cb w obtain y where "y \<in> set (w_accepted (sw s))" "OnWritten y = Some cb" by (auto elim: called_accepted)
    then have "cb \<in> set (cbs_of (w_accepted (sw s)))" by (auto simp: set_cbs_of)
    then have "cb \<notin> set (cbs_of (pend (sk s)))" using inv by (auto simp: k_inv_def)
    then show ?thesis by (auto simp: set_cbs_of)
  qed
  ultimately show ?thesis unfolding settled_def using w by (auto elim: called_accepted)
qed (simp add: settled_def)

text \<open>A position shown is the offset of an entry up to which all of the node have been consumed.\<close>

lemma visible_hist:
  assumes "visible (hist src F) node = Some off"
  obtains j where "j < length src" "SourceNode (src ! j) = node" "SourceOffset (src ! j) = off"
    "\<And>i. i \<le> j \<Longrightarrow> SourceNode (src ! i) = node \<Longrightarrow> i \<in> F"
proof -
  let ?is = "filter (\<lambda>j. SourceNode (src ! j) = node) [0..<length src]"
  let ?d = "takeWhile (\<lambda>j. j \<in> F) ?is"
  have "completed_prefix (hist src F) node = map (\<lambda>j. (SourceNode (src ! j), SourceOffset (src ! j), j \<in> F)) ?d"
    by (simp add: completed_prefix_def hist_def filter_map takeWhile_map comp_def)
  then have d: "?d \<noteq> []" "off = SourceOffset (src ! last ?d)"
    using assms by (auto simp: visible_def Let_def last_map split: if_splits)
  have mem: "last ?d \<in> set ?is" using last_in_set [OF d(1)] by (rule set_takeWhileD [THEN conjunct1])
  show thesis
  proof (rule that [of "last ?d"])
    show "last ?d < length src" "SourceNode (src ! last ?d) = node" using mem by auto
    show "SourceOffset (src ! last ?d) = off" using d by simp
    fix i assume i: "i \<le> last ?d" "SourceNode (src ! i) = node"
    have "sorted_wrt (<) (?d @ dropWhile (\<lambda>j. j \<in> F) ?is)"
      unfolding takeWhile_dropWhile_id by (rule sorted_wrt_filter) simp
    then have late: "\<forall>l \<in> set (dropWhile (\<lambda>j. j \<in> F) ?is). last ?d < l"
      using last_in_set [OF d(1)] unfolding sorted_wrt_append by blast
    have "i \<in> set (?d @ dropWhile (\<lambda>j. j \<in> F) ?is)" unfolding takeWhile_dropWhile_id using i mem by auto
    with late i(1) have "i \<in> set ?d" unfolding set_append by fastforce
    then show "i \<in> F" by (auto dest: set_takeWhileD)
  qed
qed

text \<open>
  C1. What a position shown for a node means, in the composed program: readers, kernel goroutines,
  filter, function, completion callbacks, tracker and writer, under every interleaving.  If the
  tracker shows an offset, it is the offset of an entry of that node, and every entry of the node
  delivered up to it is settled: it was dropped by the filter or the function, or each write made for
  it has been answered by the target and none is still held by a goroutine.  No position passes a
  command that may still be lost.
\<close>

theorem position_is_acknowledged:
  assumes "sys_reachable opt wopt limit inputs s" "k_fault (sk s) = None" "w_fault (sw s) = None"
    and "\<not> OffReply wopt" "\<forall>es \<in> set inputs. \<forall>e \<in> set es. OnWritten e = None"
    and "\<forall>e \<in> set (w_accepted (sw s)). plain e"
    and "shown (k_tracker (sk s)) node = Some off"
  shows "\<exists>j < length (k_src (sk s)). SourceNode (k_src (sk s) ! j) = node \<and> SourceOffset (k_src (sk s) ! j) = off \<and>
    (\<forall>i \<le> j. SourceNode (k_src (sk s) ! i) = node \<longrightarrow> settled s i)"
proof -
  have inv: "sys_inv s" by (rule sys_reachable_inv [OF assms(4,5,1,6,2,3)])
  have w: "sent_inv (sw s)" "reply_inv (sw s)"
    using w_reachable_inv [OF sys_w_reachable [OF assms(1)] assms(6)] assms(3,4) by auto
  have "tracks (k_tracker (sk s)) (hist (k_src (sk s)) (set (fired (k_comp (sk s)))))" using inv by (simp add: k_inv_def)
  then have "visible (hist (k_src (sk s)) (set (fired (k_comp (sk s))))) node = Some off"
    using trk.shows_visible assms(7) by metis
  then obtain j where j: "j < length (k_src (sk s))" "SourceNode (k_src (sk s) ! j) = node" "SourceOffset (k_src (sk s) ! j) = off"
    "\<And>i. i \<le> j \<Longrightarrow> SourceNode (k_src (sk s) ! i) = node \<Longrightarrow> i \<in> set (fired (k_comp (sk s)))"
    by (rule visible_hist) blast
  with fired_settled [OF inv w] show ?thesis by blast
qed

section \<open>A concrete run\<close>

text \<open>The steps as a function of the scheduler's choice, for runs that can be computed.\<close>

datatype sact = Kern nat | PutEntry nat | WriterDoes wact

definition k_do :: "kOptions \<Rightarrow> nat \<Rightarrow> kernel \<Rightarrow> kernel option" where
  "k_do opt i k = (if i < length (k_pc k) then
     (case k_pc k ! i of
        Fetch \<Rightarrow> (case k_in k ! i of [] \<Rightarrow> Some (set_pc i ReaderDone k)
          | e # es \<Rightarrow> if k_discard k ! i then Some (k\<lparr>k_in := (k_in k)[i := es]\<rparr>)
             else if \<not> tracked_entry opt e then Some (set_pc i (Tracked e None) (k\<lparr>k_in := (k_in k)[i := es]\<rparr>))
             else (case Track (k_tracker k) (SourceNode e) (SourceOffset e) of None \<Rightarrow> None
               | Some (cb, t') \<Rightarrow> Some (set_pc i (Tracked e (Some cb)) (k\<lparr>k_in := (k_in k)[i := es], k_tracker := t',
                    k_src := k_src k @ [e], k_use := k_use k @ [InTrack]\<rparr>))))
      | Tracked e cb \<Rightarrow> Some (process opt i e cb k)
      | _ \<Rightarrow> None) else None)"

lemma k_do_step: "k_do opt i k = Some k' \<Longrightarrow> k_step opt k k'"
  by (auto simp: k_do_def split: if_splits kpc.splits list.splits option.splits intro: k_step.intros)

fun sys_do :: "kOptions \<Rightarrow> wOptions \<Rightarrow> sact \<Rightarrow> sys \<Rightarrow> sys option" where
  "sys_do opt wopt (Kern i) s = map_option (\<lambda>k'. s\<lparr>sk := k'\<rparr>) (k_do opt i (sk s))"
| "sys_do opt wopt (PutEntry i) s = (case k_write i (sk s) of Some (Inr x, k') \<Rightarrow>
     if w_room wopt (sw s) then Some (s\<lparr>sk := k', sw := w_put x (sw s)\<rparr>) else None | _ \<Rightarrow> None)"
| "sys_do opt wopt (WriterDoes a) s = (case w_do wopt a (sw s) of None \<Rightarrow> None
     | Some w' \<Rightarrow> if w_accepted w' = w_accepted (sw s) \<and> (w_chClosed w' \<longrightarrow> w_chClosed (sw s) \<or> all_done (sk s))
        then Some (s\<lparr>sw := w', sk := fold fire (drop (length (w_called (sw s))) (w_called w')) (sk s)\<rparr>) else None)"

lemma sys_do_step: "sys_do opt wopt a s = Some t \<Longrightarrow> sys_step opt wopt s t"
  by (cases a) (auto split: if_splits option.splits sum.splits dest: k_do_step w_do_step intro: sys_step.intros)

fun sys_exec :: "kOptions \<Rightarrow> wOptions \<Rightarrow> sact list \<Rightarrow> sys \<Rightarrow> sys option" where
  "sys_exec opt wopt [] s = Some s"
| "sys_exec opt wopt (a # as) s = (if k_fault (sk s) \<noteq> None \<or> w_fault (sw s) \<noteq> None then None
     else (case sys_do opt wopt a s of None \<Rightarrow> None | Some t \<Rightarrow> sys_exec opt wopt as t))"

lemma sys_exec_reachable:
  "sys_reachable opt wopt limit inputs s \<Longrightarrow> sys_exec opt wopt as s = Some t \<Longrightarrow> sys_reachable opt wopt limit inputs t"
  by (induction "as" arbitrary: s) (auto split: if_splits option.splits dest: sys_do_step intro: sys_reachable.step)

definition demo_kopt :: kOptions where
  "demo_kopt = \<lparr>trackOffsets = True, k_filter = demo_options, k_compile = (\<lambda>_. None), luaRuntime = None\<rparr>"

definition demo_source :: entry where
  "demo_source = NewEntry\<lparr>Argv := [''PUBLISH'', ''c'', ''v''], SourceNode := ''n'', SourceOffset := 31\<rparr>"

definition demo_acts :: "sact list" where
  "demo_acts = [Kern 0, Kern 0, PutEntry 0] @ map WriterDoes ([Advance, Advance, Advance, Advance, Advance, Tick,
     NextWait, Answer (Inr (RStr ''OK'')), Handle])"

definition demo_parsed :: entry where
  "demo_parsed = demo_source\<lparr>CmdName := ''PUBLISH'', Group := ''PUBSUB'', Keys := [], KeyIndexes := [], Slots := []\<rparr>"

lemma demo_parse: "entry_Parse demo_source = Inr demo_parsed"
proof -
  have "cmd_name [''PUBLISH'', ''c'', ''v''] = ''PUBLISH''" by code_simp
  then have "CalcKeys [''PUBLISH'', ''c'', ''v''] = Inr \<lparr>cmaName = ''PUBLISH'', ck_group = ''PUBSUB'', ck_keys = [], keysIndexes = []\<rparr>"
    using CalcKeys_found [OF _ redisCommands_PUBLISH] by simp
  then show ?thesis by (simp add: entry_Parse_def demo_parsed_def demo_source_def NewEntry_def CalcSlots_def)
qed

lemma Parse_again: "entry_Parse e = Inr e' \<Longrightarrow> entry_Parse (e'\<lparr>OnWritten := c\<rparr>) = Inr (e'\<lparr>OnWritten := c\<rparr>)"
  by (auto simp: entry_Parse_def split: sum.splits)

lemma demo_passes: "Filter (\<lambda>_. None) demo_options demo_parsed = Inr True"
  by code_simp

text \<open>The kernel's part of the run, then the writer's.\<close>

definition demo_grouped :: sys where
  "demo_grouped = \<lparr>sk = (k_init 1 [[demo_source]])\<lparr>k_in := [[]], k_tracker := \<lparr>t_sources = [(''n'',
        \<lparr>src_queue = [\<lparr>p_id = 0, p_offset = 31, p_done = False\<rparr>], src_offset = 0, src_known = False, src_replID = []\<rparr>)],
        t_slots = 1, t_limit = 1, t_owner = [''n'']\<rparr>,
      k_comp := \<lparr>groups = [\<lparr>g_done = Consumed 0, remaining = 1, onces = [False]\<rparr>], fired = []\<rparr>,
      ReadCount := 1, WriteCount := 1, k_src := [demo_source], k_use := [Grouped 0]\<rparr>,
     sw = w_put (demo_parsed\<lparr>OnWritten := Some (Part 0 0)\<rparr>) NewRedisWriter\<rparr>"

lemma demo_kernel_part:
  "sys_exec demo_kopt demo_opt [Kern 0, Kern 0, PutEntry 0] \<lparr>sk = k_init 1 [[demo_source]], sw = NewRedisWriter\<rparr>
    = Some demo_grouped"
proof -
  have s: "SourceNode demo_source = ''n''" "SourceOffset demo_source = 31" "\<not> ProgressOnly demo_source"
    by (simp_all add: demo_source_def NewEntry_def)
  show ?thesis
    by (simp add: s k_init_def k_do_def tracked_entry_def demo_kopt_def Track_def NewTracker_def the_source_def newSource_def
        Let_def process_def demo_parse demo_passes RunFunction_def split_entries_def SplitCompletion_def writing_def
        note_use_def set_pc_def k_write_def Parse_again [OF demo_parse] w_room_def NewRedisWriter_def demo_opt_def
        demo_grouped_def)
qed

text \<open>The entry as it is written, and what the writer needs to know of it.\<close>

lemma demo_bytes: "length (argv_bytes [''PUBLISH'', ''c'', ''v'']) = 31"
  by code_simp

lemma demo_not_select: "\<not> EqualFold ''PUBLISH'' ''select''"
  by code_simp

definition demo_written :: "callback \<Rightarrow> entry" where
  "demo_written c = demo_parsed\<lparr>OnWritten := Some c\<rparr>"

lemma demo_written_simps:
  "DbId (demo_written c) = 0" "OnWritten (demo_written c) = Some c" "\<not> is_select (demo_written c)" "plain (demo_written c)"
  "length (argv_bytes (Argv (demo_written c))) = 31" "serialized (demo_written c) = (demo_written c)\<lparr>SerializedSize := 31\<rparr>"
  "\<not> is_select ((demo_written c)\<lparr>SerializedSize := 31\<rparr>)"
proof -
  have a: "Argv (demo_written c) = [''PUBLISH'', ''c'', ''v'']" by (simp add: demo_written_def demo_parsed_def demo_source_def NewEntry_def)
  have n: "CmdName (demo_written c) = ''PUBLISH''" by (simp add: demo_written_def demo_parsed_def)
  show "length (argv_bytes (Argv (demo_written c))) = 31" unfolding a by (rule demo_bytes)
  then show "serialized (demo_written c) = (demo_written c)\<lparr>SerializedSize := 31\<rparr>" by (simp add: serialized_def Serialize_eq)
  show d: "DbId (demo_written c) = 0" "OnWritten (demo_written c) = Some c"
    by (simp_all add: demo_written_def demo_parsed_def demo_source_def NewEntry_def)
  show "\<not> is_select (demo_written c)" "\<not> is_select ((demo_written c)\<lparr>SerializedSize := 31\<rparr>)"
    using demo_not_select by (simp_all add: is_select_def n)
  then show "plain (demo_written c)" using d by (simp add: plain_def maxInt64_def)
qed

lemmas demo_run_simps = demo_written_simps demo_opt_def writer_defs w_put_def NewRedisWriter_def over_quota_def wait_full_def
  bufio_write_def handle_reply_def reply_fault_def k_init_def fire_def is_part_def mark_def consumed_def shown_def the_source_def
  drain_eq last_done_def set_done_def

lemma demo_writer_part:
  "map_option (\<lambda>s. k_fault (sk s) = None \<and> w_fault (sw s) = None \<and> list_all plain (w_accepted (sw s)) \<and>
     shown (k_tracker (sk s)) ''n'' = Some 31)
     (sys_exec demo_kopt demo_opt (map WriterDoes [Advance, Advance, Advance, Advance, Advance, Tick,
        NextWait, Answer (Inr (RStr ''OK'')), Handle]) demo_grouped) = Some True"
  unfolding demo_grouped_def demo_written_def [symmetric] by (simp add: demo_run_simps)

lemma sys_exec_append:
  "sys_exec opt wopt as s = Some t \<Longrightarrow> sys_exec opt wopt (as @ bs) s = sys_exec opt wopt bs t"
  by (induction "as" arbitrary: s) (auto split: if_splits option.splits)

lemma demo_sys_ends:
  "map_option (\<lambda>s. k_fault (sk s) = None \<and> w_fault (sw s) = None \<and> list_all plain (w_accepted (sw s)) \<and>
     shown (k_tracker (sk s)) ''n'' = Some 31)
     (sys_exec demo_kopt demo_opt demo_acts \<lparr>sk = k_init 1 [[demo_source]], sw = NewRedisWriter\<rparr>) = Some True"
  unfolding demo_acts_def sys_exec_append [OF demo_kernel_part] by (rule demo_writer_part)

theorem position_is_acknowledged_witness:
  "\<exists>s. sys_reachable demo_kopt demo_opt 1 [[demo_source]] s \<and> shown (k_tracker (sk s)) ''n'' = Some 31 \<and>
     (\<exists>j < length (k_src (sk s)). SourceNode (k_src (sk s) ! j) = ''n'' \<and> SourceOffset (k_src (sk s) ! j) = 31 \<and>
       (\<forall>i \<le> j. SourceNode (k_src (sk s) ! i) = ''n'' \<longrightarrow> settled s i))"
proof -
  from demo_sys_ends obtain s where
    s: "sys_exec demo_kopt demo_opt demo_acts \<lparr>sk = k_init 1 [[demo_source]], sw = NewRedisWriter\<rparr> = Some s"
    and f: "k_fault (sk s) = None" "w_fault (sw s) = None" and p: "\<forall>e \<in> set (w_accepted (sw s)). plain e"
    and sh: "shown (k_tracker (sk s)) ''n'' = Some 31"
    by (auto simp: list_all_iff)
  have r: "sys_reachable demo_kopt demo_opt 1 [[demo_source]] s"
    by (rule sys_exec_reachable [OF sys_reachable.init s])
  have "\<not> OffReply demo_opt" "\<forall>es \<in> set [[demo_source]]. \<forall>e \<in> set es. OnWritten e = None"
    by (simp_all add: demo_opt_def demo_source_def NewEntry_def)
  from position_is_acknowledged [OF r f this p sh] r sh show ?thesis by blast
qed

end
