(* ===== verification/Finish.thy ===== *)
theory Finish
  imports System
begin

text \<open>
  The end of a run of \<^verbatim>\<open>internal/kernel/run.go\<close>: the readers have closed their channels, the goroutines have
  ended and the writer has been closed.

  The invariant of the theory \<open>System\<close> says that what has fired was settled; the one proved here says
  that nothing is forgotten: every tracked entry is still held by a goroutine, or its writes are on their way, or
  its callback has fired.  A run that was not cancelled therefore ends with the last offset of every node.
\<close>

section \<open>Nothing is forgotten\<close>

definition live :: "kernel \<Rightarrow> entry list \<Rightarrow> callback set \<Rightarrow> nat \<Rightarrow> bool" where
  "live k acc cld j \<longleftrightarrow> (case k_use k ! j of
     InTrack \<Rightarrow> Consumed j \<in> set (tracked_cbs k)
   | Dropped \<Rightarrow> j \<in> set (fired (k_comp k))
   | Direct \<Rightarrow> Consumed j \<in> set (cbs_of (pend k @ acc)) \<and> (Consumed j \<in> cld \<longrightarrow> j \<in> set (fired (k_comp k)))
   | Grouped g \<Rightarrow> g < length (groups (k_comp k)) \<and> g_done (groups (k_comp k) ! g) = Consumed j \<and>
       (\<forall>i < length (onces (groups (k_comp k) ! g)). Part g i \<in> set (cbs_of (pend k @ acc)) \<and>
          (Part g i \<in> cld \<longrightarrow> onces (groups (k_comp k) ! g) ! i)) \<and>
       ((\<forall>b \<in> set (onces (groups (k_comp k) ! g)). b) \<longrightarrow> j \<in> set (fired (k_comp k))))"

definition all_live :: "kernel \<Rightarrow> entry list \<Rightarrow> callback set \<Rightarrow> bool" where
  "all_live k acc cld \<longleftrightarrow> (\<forall>j < length (k_use k). live k acc cld j)"

lemma live_cong:
  assumes "k_use k' = k_use k" "k_comp k' = k_comp k" "set (tracked_cbs k) \<subseteq> set (tracked_cbs k')"
    "set (cbs_of (pend k @ acc)) \<subseteq> set (cbs_of (pend k' @ acc'))" "live k acc cld j"
  shows "live k' acc' cld j"
  using assms(5,3,4) unfolding live_def assms(1,2) by (auto split: use.splits)

lemma all_live_cong:
  assumes "all_live k acc cld" "k_use k' = k_use k" "k_comp k' = k_comp k" "set (tracked_cbs k) \<subseteq> set (tracked_cbs k')"
    "set (cbs_of (pend k @ acc)) \<subseteq> set (cbs_of (pend k' @ acc'))"
  shows "all_live k' acc' cld"
  using assms(1) live_cong [OF assms(2-5)] by (simp add: all_live_def assms(2))

lemma all_live_accept: "all_live k acc cld \<Longrightarrow> all_live k (acc @ [x]) cld"
  by (erule all_live_cong) auto

text \<open>A callback is called.\<close>

lemma live_marked:
  assumes l: "live k acc cld j" and g: "grp_ok k cld g" "g < length (groups (k_comp k))" "i < length (onces (groups (k_comp k) ! g))"
      "\<not> onces (groups (k_comp k) ! g) ! i"
    and k': "k_use k' = k_use k" "k_pc k' = k_pc k" "groups (k_comp k') = groups (mark g i (k_comp k))"
      "set (fired (k_comp k)) \<subseteq> set (fired (k_comp k'))"
    and dn: "remaining (groups (k_comp k) ! g) = 1 \<and> g_done (groups (k_comp k) ! g) = Consumed j \<longrightarrow> j \<in> set (fired (k_comp k'))"
  shows "live k' acc (insert (Part g i) cld) j"
proof -
  let ?os = "onces (groups (k_comp k) ! g)"
  have same: "pend k' = pend k" "tracked_cbs k' = tracked_cbs k" by (simp_all add: pend_def tracked_cbs_def k'(2))
  show ?thesis
  proof (cases "k_use k ! j = Grouped g")
    case True
    have "\<not> (\<forall>b \<in> set (?os[i := True]). b)" if "remaining (groups (k_comp k) ! g) \<noteq> 1"
    proof
      assume "\<forall>b \<in> set (?os[i := True]). b"
      then have "filter Not (?os[i := True]) = []" by (simp add: filter_empty_conv)
      with filter_Not_update [OF g(3,4)] g(1) that show False by (simp add: grp_ok_def Let_def)
    qed
    moreover have "?os[i := True] ! p" if "p < length ?os" "p = i \<or> Part g p \<in> cld" for p
      using that l True g(3) by (auto simp: live_def nth_list_update [OF g(3)])
    ultimately show ?thesis using True l dn k'(4) by (auto simp: live_def k'(1,3) same mark_simps g(2))
  next
    case False
    with l k'(4) show ?thesis by (auto simp: live_def k'(1,3) same mark_simps split: use.splits)
  qed
qed

lemma all_live_fire:
  assumes inv: "k_inv k acc cld" and L: "all_live k acc cld" and cb: "cb \<in> set (cbs_of acc)"
  shows "all_live (fire cb k) acc (insert cb cld)"
proof -
  have ok: "cb_ok k cb" and grp: "\<forall>g < length (groups (k_comp k)). grp_ok k cld g"
    using inv cb by (auto simp: k_inv_def)
  from ok grp show ?thesis
  proof (cases rule: fire_cases)
    case (direct j)
    define k' where "k' = fire cb k"
    have k': "k_use k' = k_use k" "groups (k_comp k') = groups (k_comp k)" "pend k' = pend k" "tracked_cbs k' = tracked_cbs k"
      "fired (k_comp k') = fired (k_comp k) @ [j]"
      by (simp_all add: k'_def direct(4) pend_def tracked_cbs_def)
    have "live k' acc (insert cb cld) l" if "live k acc cld l" for l
      using that unfolding live_def k' direct(1) by (auto split: use.splits)
    then show ?thesis using L by (simp add: all_live_def k'_def [symmetric] k'(1))
  next
    case (again g i)
    have "live k acc (insert cb cld) j" if "live k acc cld j" for j
      using that again(2) by (auto simp: live_def again(1) split: use.splits)
    then show ?thesis using L again(3) by (simp add: all_live_def)
  next
    case (part g i)
    have "live (fire cb k) acc (insert cb cld) j" if "live k acc cld j" for j
      unfolding part(1) by (rule live_marked [OF that grp [rule_format, OF part(2)] part(2-4)]) (use part(5,6) in \<open>simp_all add: part(1) mark_simps\<close>)
    then show ?thesis using L part(6) by (simp add: all_live_def)
  next
    case (last g i j)
    have "live (fire cb k) acc (insert cb cld) l" if "live k acc cld l" for l
      unfolding last(1) by (rule live_marked [OF that grp [rule_format, OF last(2)] last(2-4)]) (use last(5,6,9) in \<open>auto simp: last(1)\<close>)
    then show ?thesis using L last(9) by (simp add: all_live_def)
  qed
qed

lemma all_live_fold_fire:
  "\<lbrakk>k_inv k acc cld; all_live k acc cld; set cbs \<subseteq> set (cbs_of acc)\<rbrakk> \<Longrightarrow> all_live (fold fire cbs k) acc (cld \<union> set cbs)"
proof (induction cbs arbitrary: k cld)
  case (Cons cb cbs)
  have "k_inv (fire cb k) acc (insert cb cld)" "all_live (fire cb k) acc (insert cb cld)"
    using Cons.prems by (auto intro: k_inv_fire all_live_fire)
  with Cons.IH [of "fire cb k" "insert cb cld"] Cons.prems(3) show ?case by simp
qed simp

text \<open>A goroutine disposes of its entry.\<close>

lemma all_live_dispose:
  assumes inv: "k_inv k acc cld" and L: "all_live k acc cld" and i: "i < length (k_pc k)" "k_pc k ! i = Tracked e (Some (Consumed j))"
    and D: "disposes k i j p u Gs Fs k'"
  shows "all_live k' acc cld"
proof -
  define cbs where "cbs = cbs_of (pc_pending p)"
  have p: "pc_tracked p = []" and d: "disposed k j u Gs Fs cbs"
    and k': "k_pc k' = (k_pc k)[i := p]" "k_use k' = (k_use k)[j := u]" "groups (k_comp k') = groups (k_comp k) @ Gs"
      "fired (k_comp k') = fired (k_comp k) @ Fs"
    using D by (simp_all add: disposes_def cbs_def)
  obtain j' where "Consumed j = Consumed j'" and j: "j' < length (k_use k)" "k_use k ! j' = InTrack"
    "Consumed j' \<notin> set (cbs_of (pend k @ acc))"
    "\<And>p c. p \<in> set (take i (k_pc k)) \<union> set (drop (Suc i) (k_pc k)) \<Longrightarrow> c \<in> set (pc_tracked p) \<Longrightarrow> c \<noteq> Consumed j'"
    "\<And>g. g < length (groups (k_comp k)) \<Longrightarrow> g_done (groups (k_comp k) ! g) \<noteq> Consumed j'" "j' \<notin> set (fired (k_comp k))"
    using tracked_unused [OF inv i] by blast
  then have [simp]: "j' = j" by simp
  have pd: "set (cbs_of (pend k' @ acc)) = set (cbs_of (pend k @ acc)) \<union> set cbs"
    unfolding pend_def k'(1) concat_update [OF i(1)] concat_at [OF i(1), of pc_pending] i(2) by (auto simp: cbs_def)
  have tk: "set (tracked_cbs k) = insert (Consumed j) (set (tracked_cbs k'))"
    unfolding tracked_cbs_def k'(1) concat_update [OF i(1)] concat_at [OF i(1), of pc_tracked] i(2) using p by auto
  have called: "cb \<notin> cld" if "cb \<in> set cbs" for cb
  proof
    assume "cb \<in> cld"
    then have "cb \<in> set (cbs_of (pend k @ acc))" using inv by (auto simp: k_inv_def)
    moreover from this have "cb_ok k cb" using inv by (simp add: k_inv_def)
    ultimately show False using that d j(3) by (auto simp: disposed_def)
  qed
  have own: "live k' acc cld j"
    using d called j(1) by (auto simp: disposed_def live_def k' pd simp del: cbs_of_simps(3))
  have other: "live k' acc cld l" if "live k acc cld l" "l \<noteq> j" for l
    using that tk by (auto simp: live_def k' pd nth_append simp del: cbs_of_simps(3) split: use.splits)
  show ?thesis unfolding all_live_def using L own other by (auto simp: all_live_def k'(2))
qed

lemma all_live_moves:
  assumes "all_live k acc cld" "i < length (k_pc k)" "moves k i p k'" "pc_tracked (k_pc k ! i) = []" "pc_pending (k_pc k ! i) = []"
  shows "all_live k' acc cld"
proof (rule all_live_cong [OF assms(1)])
  show "k_use k' = k_use k" "k_comp k' = k_comp k" using assms(3) by (simp_all add: moves_def)
  have "k_pc k' = (k_pc k)[i := p]" using assms(3) by (simp add: moves_def)
  then show "set (tracked_cbs k) \<subseteq> set (tracked_cbs k')" "set (cbs_of (pend k @ acc)) \<subseteq> set (cbs_of (pend k' @ acc))"
    unfolding tracked_cbs_def pend_def using assms(2,4,5) by (auto simp: concat_update concat_at [of i "k_pc k"])
qed

lemma all_live_process:
  assumes inv: "k_inv k acc cld" and L: "all_live k acc cld" and i: "i < length (k_pc k)" "k_pc k ! i = Tracked e cb"
    and nf: "k_fault (process opt i e cb k) = None"
  shows "all_live (process opt i e cb k) acc cld"
proof (cases cb)
  case None
  have "OnWritten e = None" using inv i by (auto simp: k_inv_def) (metis nth_mem)
  with nf None obtain p where "moves k i p (process opt i e cb k)" by (auto elim: process_None_moves)
  from all_live_moves [OF L i(1) this] i(2) None show ?thesis by simp
next
  case (Some c)
  then obtain j where c: "cb = Some (Consumed j)" using tracked_unused [OF inv i(1)] i(2) by blast
  with nf obtain p u Gs Fs where "disposes k i j p u Gs Fs (process opt i e cb k)" by (auto elim: process_Some_disposes)
  then show ?thesis using all_live_dispose [OF inv L i(1)] i(2) c by blast
qed

lemma all_live_track:
  assumes inv: "k_inv k acc cld" and L: "all_live k acc cld" and i: "i < length (k_pc k)" "k_pc k ! i = Fetch"
    and trk: "Track (k_tracker k) (SourceNode e) (SourceOffset e) = Some (cb, t')"
    and k': "k_pc k' = (k_pc k)[i := Tracked e (Some cb)]" "k_use k' = k_use k @ [InTrack]" "k_comp k' = k_comp k"
  shows "all_live k' acc cld"
proof -
  have len: "length (k_use k) = length (k_src k)" and t: "tracks (k_tracker k) (hist (k_src k) (set (fired (k_comp k))))"
    using inv by (auto simp: k_inv_def)
  from tracks_Track [OF t trk] have cb: "cb = Consumed (length (k_use k))" by (simp add: hist_def len)
  have pd: "pend k' = pend k"
    unfolding pend_def k'(1) concat_update [OF i(1)] concat_at [OF i(1), of pc_pending] i(2) by simp
  have tk: "set (tracked_cbs k') = insert cb (set (tracked_cbs k))"
    unfolding tracked_cbs_def k'(1) concat_update [OF i(1)] concat_at [OF i(1), of pc_tracked] i(2) by auto
  have "live k' acc cld j" if "j < length (k_use k)" for j
    using that L by (auto simp: all_live_def live_def k'(2,3) nth_append pd tk split: use.splits)
  moreover have "live k' acc cld (length (k_use k))" by (simp add: live_def k'(2) tk cb)
  ultimately show ?thesis by (auto simp: all_live_def k'(2) less_Suc_eq)
qed

lemma all_live_step:
  assumes "k_step opt k k'" "k_inv k acc cld" "all_live k acc cld" "k_fault k' = None"
  shows "all_live k' acc cld"
  using assms(1)
proof (cases rule: k_step.cases)
  case (fetch_discard i e es)
  then show ?thesis by (intro all_live_cong [OF assms(3)]) (simp_all add: pend_def tracked_cbs_def)
next
  case (fetch i e es)
  have "all_live (k\<lparr>k_in := (k_in k)[i := es]\<rparr>) acc cld" by (rule all_live_cong [OF assms(3)]) (simp_all add: pend_def tracked_cbs_def)
  then show ?thesis unfolding fetch(1)
    by (rule all_live_moves [of _ _ _ i "Tracked e None"]) (use fetch in \<open>simp_all add: moves_def set_pc_def\<close>)
next
  case (fetch_track i e es cb t')
  show ?thesis by (rule all_live_track [OF assms(2,3) fetch_track(2,3,7)]) (simp_all add: fetch_track(1))
next
  case (fetch_cancelled i e es)
  then show ?thesis by (intro all_live_cong [OF assms(3)]) (simp_all add: pend_def tracked_cbs_def)
next
  case (handle i e cb)
  then show ?thesis using assms all_live_process by auto
next
  case (reader_done i)
  show ?thesis unfolding reader_done(1)
    by (rule all_live_moves [OF assms(3) reader_done(2), of ReaderDone]) (simp_all add: reader_done(3) moves_def set_pc_def)
next
  case cancel
  then show ?thesis by (intro all_live_cong [OF assms(3)]) (simp_all add: pend_def tracked_cbs_def)
qed

lemma all_live_write:
  assumes L: "all_live k acc cld" and w: "k_write i k = Some (Inr x', k')"
  shows "all_live k' (acc @ [x']) cld"
proof (rule all_live_cong [OF L])
  from w obtain c x xs where i: "i < length (k_pc k)" "k_pc k ! i = Writing c (x # xs)" and x: "entry_Parse x = Inr x'"
    and k': "k' = set_pc i (writing c xs) (k\<lparr>WriteCount := WriteCount k + (if c then 1 else 0)\<rparr>)"
    by (auto simp: k_write_def split: if_splits kpc.splits list.splits sum.splits)
  have f: "k_pc k' = (k_pc k)[i := writing c xs]" unfolding k' by simp
  show "k_use k' = k_use k" "k_comp k' = k_comp k" unfolding k' by simp_all
  show "set (tracked_cbs k) \<subseteq> set (tracked_cbs k')"
    unfolding tracked_cbs_def f concat_update [OF i(1)] concat_at [OF i(1), of pc_tracked] i(2) by simp
  show "set (cbs_of (pend k @ acc)) \<subseteq> set (cbs_of (pend k' @ acc @ [x']))"
    unfolding pend_def f concat_update [OF i(1)] concat_at [OF i(1), of pc_pending] i(2) by (auto simp: OnWritten_Parse [OF x])
qed

section \<open>What the readers delivered\<close>

text \<open>Every entry of a node comes from one reader; \<open>tracked_of\<close> are the entries of it that have a position.\<close>

definition sole :: "entry list list \<Rightarrow> nat \<Rightarrow> string \<Rightarrow> bool" where
  "sole inputs i n \<longleftrightarrow> i < length inputs \<and> (\<forall>i' < length inputs. i' \<noteq> i \<longrightarrow> (\<forall>e \<in> set (inputs ! i'). SourceNode e \<noteq> n))"

definition tracked_of :: "kOptions \<Rightarrow> string \<Rightarrow> entry list \<Rightarrow> entry list" where
  "tracked_of opt n es = filter (\<lambda>e. tracked_entry opt e \<and> SourceNode e = n) es"

definition of_node :: "string \<Rightarrow> entry list \<Rightarrow> entry list" where
  "of_node n es = filter (\<lambda>e. SourceNode e = n) es"

definition fed :: "kOptions \<Rightarrow> entry list list \<Rightarrow> kernel \<Rightarrow> bool" where
  "fed opt inputs k \<longleftrightarrow> length (k_pc k) = length inputs \<and> length (k_in k) = length inputs \<and> length (k_discard k) = length inputs \<and>
     (\<forall>i < length inputs. suffix (k_in k ! i) (inputs ! i) \<and> (k_pc k ! i = ReaderDone \<longrightarrow> k_in k ! i = [])) \<and>
     (\<not> k_cancelled k \<longrightarrow> (\<forall>i < length inputs. \<not> k_discard k ! i) \<and>
        (\<forall>i n. sole inputs i n \<longrightarrow> of_node n (k_src k) @ tracked_of opt n (k_in k ! i) = tracked_of opt n (inputs ! i)))"

lemma fed_same:
  assumes "fed opt inputs k" "k_in k' = k_in k" "k_src k' = k_src k" "k_discard k' = k_discard k" "k_cancelled k' = k_cancelled k"
    "k_pc k' = k_pc k \<or> k_pc k' = (k_pc k)[i := p] \<and> (p = ReaderDone \<longrightarrow> k_in k ! i = [])"
  shows "fed opt inputs k'"
proof -
  have "k_pc k' ! l = k_pc k ! l \<or> k_pc k' ! l = p \<and> (p = ReaderDone \<longrightarrow> k_in k ! l = [])" if "l < length (k_pc k)" for l
    using assms(6) that by (cases "l = i") auto
  moreover have "length (k_pc k') = length (k_pc k)" using assms(6) by auto
  ultimately show ?thesis using assms(1) unfolding fed_def assms(2-5) by metis
qed

lemma fed_pop:
  assumes F: "fed opt inputs k" and i: "i < length (k_pc k)" "k_in k ! i = e # es" and p: "p \<noteq> ReaderDone"
    and k': "k_in k' = (k_in k)[i := es]" "k_pc k' = (k_pc k)[i := p]"
      "k_discard k' = k_discard k \<and> (tracked_entry opt e \<longrightarrow> k_src k' = k_src k @ [e] \<or> k_discard k ! i) \<and>
         (\<not> tracked_entry opt e \<longrightarrow> k_src k' = k_src k) \<or> k_cancelled k \<and> length (k_discard k') = length (k_discard k)"
      "k_cancelled k' = k_cancelled k"
  shows "fed opt inputs k'"
proof -
  have len: "length (k_pc k) = length inputs" "length (k_in k) = length inputs" "length (k_discard k) = length inputs"
    and suf: "\<And>l. l < length inputs \<Longrightarrow> suffix (k_in k ! l) (inputs ! l)"
    and rd: "\<And>l. l < length inputs \<Longrightarrow> k_pc k ! l = ReaderDone \<Longrightarrow> k_in k ! l = []"
    using F by (auto simp: fed_def)
  have i': "i < length inputs" using i(1) len by simp
  have e: "suffix es (inputs ! i)" "e \<in> set (inputs ! i)"
    using suf [OF i'] i(2) by (auto simp: suffix_def)
  have "suffix (k_in k' ! l) (inputs ! l) \<and> (k_pc k' ! l = ReaderDone \<longrightarrow> k_in k' ! l = [])" if "l < length inputs" for l
    using that suf [OF that] rd [OF that] e(1) p len unfolding k'(1,2) by (cases "l = i") auto
  moreover have "(\<forall>l < length inputs. \<not> k_discard k' ! l) \<and>
      (\<forall>l n. sole inputs l n \<longrightarrow> of_node n (k_src k') @ tracked_of opt n (k_in k' ! l) = tracked_of opt n (inputs ! l))"
    if c: "\<not> k_cancelled k'"
  proof -
    have d: "\<forall>l < length inputs. \<not> k_discard k ! l"
      and eq: "\<And>l n. sole inputs l n \<Longrightarrow> of_node n (k_src k) @ tracked_of opt n (k_in k ! l) = tracked_of opt n (inputs ! l)"
      using F c k'(4) by (auto simp: fed_def)
    then have src: "k_discard k' = k_discard k" "k_src k' = k_src k @ (if tracked_entry opt e then [e] else [])"
      using k'(3,4) c i' by auto
    have "of_node n (k_src k') @ tracked_of opt n (k_in k' ! l) = tracked_of opt n (inputs ! l)" if s: "sole inputs l n" for l n
    proof (cases "l = i")
      case True
      then show ?thesis using eq [OF s] i(2) i' len unfolding k'(1) src(2) by (auto simp: tracked_of_def of_node_def)
    next
      case False
      then have "SourceNode e \<noteq> n" using s e(2) i' by (auto simp: sole_def)
      with False show ?thesis using eq [OF s] unfolding k'(1) src(2) by (auto simp: of_node_def)
    qed
    with d src(1) show ?thesis by simp
  qed
  ultimately show ?thesis using len k'(3) by (auto simp: fed_def k'(1,2))
qed

lemma process_keeps:
  "k_in (process opt i e cb k) = k_in k \<and> k_src (process opt i e cb k) = k_src k \<and> k_discard (process opt i e cb k) = k_discard k \<and>
     k_cancelled (process opt i e cb k) = k_cancelled k \<and>
     (k_pc (process opt i e cb k) = k_pc k \<or> (\<exists>p. p \<noteq> ReaderDone \<and> k_pc (process opt i e cb k) = (k_pc k)[i := p]))"
proof -
  have n: "k_in (note_use c u k) = k_in k" "k_src (note_use c u k) = k_src k" "k_discard (note_use c u k) = k_discard k"
    "k_cancelled (note_use c u k) = k_cancelled k" "k_pc (note_use c u k) = k_pc k" for c u k
    by (simp_all add: note_use_def split: option.splits callback.splits)
  have "writing b es \<noteq> ReaderDone" for b es by (simp add: writing_def)
  then show ?thesis
    by (auto simp: process_def n Let_def fire_def split_entries_def set_pc_def split: sum.splits bool.splits option.splits prod.splits)
qed

lemma fed_step:
  assumes "k_step opt k k'" "fed opt inputs k"
  shows "fed opt inputs k'"
  using assms(1)
proof (cases rule: k_step.cases)
  case (fetch_discard i e es)
  have "k_pc k = (k_pc k)[i := Fetch]" using list_update_id [of "k_pc k" i] fetch_discard(3) by simp
  then show ?thesis by (intro fed_pop [OF assms(2) fetch_discard(2,4), of Fetch]) (use fetch_discard in auto)
next
  case (fetch i e es)
  then show ?thesis by (intro fed_pop [OF assms(2) fetch(2,4), of "Tracked e None"]) (auto simp: set_pc_def)
next
  case (fetch_track i e es cb t')
  then show ?thesis by (intro fed_pop [OF assms(2) fetch_track(2,4), of "Tracked e (Some cb)"]) (auto simp: set_pc_def)
next
  case (fetch_cancelled i e es)
  have "k_pc k = (k_pc k)[i := Fetch]" using list_update_id [of "k_pc k" i] fetch_cancelled(3) by simp
  then show ?thesis by (intro fed_pop [OF assms(2) fetch_cancelled(2,4), of Fetch]) (use fetch_cancelled in auto)
next
  case (handle i e cb)
  note keeps = process_keeps [of opt i e cb k]
  then obtain p where "k_pc k' = k_pc k \<or> p \<noteq> ReaderDone \<and> k_pc k' = (k_pc k)[i := p]" using handle(1) by auto
  then show ?thesis using keeps handle(1) by (intro fed_same [OF assms(2), of _ i p]) auto
next
  case (reader_done i)
  then show ?thesis by (intro fed_same [OF assms(2), of _ i ReaderDone]) (simp_all add: set_pc_def)
next
  case cancel
  then show ?thesis using assms(2) by (simp add: fed_def)
qed

lemma fire_keeps:
  "k_in (fold fire cs k) = k_in k \<and> k_src (fold fire cs k) = k_src k \<and> k_discard (fold fire cs k) = k_discard k \<and>
     k_cancelled (fold fire cs k) = k_cancelled k \<and> k_pc (fold fire cs k) = k_pc k"
  by (induction cs arbitrary: k) (simp_all add: fire_def Let_def)

lemma fed_write:
  assumes "fed opt inputs k" "k_write i k = Some (Inr x, k')"
  shows "fed opt inputs k'"
proof -
  from assms(2) obtain p where p: "k_pc k' = (k_pc k)[i := p]" "p \<noteq> ReaderDone" "k_in k' = k_in k" "k_src k' = k_src k"
    "k_discard k' = k_discard k" "k_cancelled k' = k_cancelled k"
    by (auto simp: k_write_def writing_def set_pc_def split: if_splits kpc.splits list.splits sum.splits)
  show ?thesis by (rule fed_same [OF assms(1), of _ i p]) (simp_all add: p)
qed

section \<open>The composition\<close>

lemma sys_fed_step:
  assumes "sys_step opt wopt s t" "fed opt inputs (sk s)"
  shows "fed opt inputs (sk t)"
  using assms(1)
proof (cases rule: sys_step.cases)
  case (put_entry i x k')
  then show ?thesis using fed_write [OF assms(2)] by simp
next
  case (put_fails i f k')
  then have "k_in k' = k_in (sk s)" "k_src k' = k_src (sk s)" "k_discard k' = k_discard (sk s)" "k_cancelled k' = k_cancelled (sk s)"
    "k_pc k' = k_pc (sk s)"
    by (auto simp: k_write_def split: if_splits kpc.splits list.splits sum.splits)
  then show ?thesis by (intro fed_same [OF assms(2)]) (simp_all add: put_fails(1))
next
  case (writer w')
  show ?thesis using fire_keeps by (intro fed_same [OF assms(2)]) (simp_all add: writer(1))
qed (use assms(2) in \<open>auto intro: fed_step\<close>)

lemma fed_init: "fed opt inputs (k_init limit inputs)"
  by (simp add: fed_def k_init_def of_node_def)

lemma sys_fed: "sys_reachable opt wopt limit inputs s \<Longrightarrow> fed opt inputs (sk s)"
  by (erule sys.conc.invariant [where I = "\<lambda>s. fed opt inputs (sk s)"]) (auto simp: fed_init intro: sys_fed_step)

abbreviation sys_live :: "sys \<Rightarrow> bool" where
  "sys_live s \<equiv> all_live (sk s) (w_accepted (sw s)) (set (w_called (sw s)))"

lemma sys_live_step:
  assumes step: "sys_step opt wopt s t" and inv: "sys_inv s" and L: "sys_live s"
    and f: "k_fault (sk t) = None" and t: "sent_inv (sw t)" "reply_inv (sw t)"
  shows "sys_live t"
  using step
proof (cases rule: sys_step.cases)
  case (kern k')
  then show ?thesis using all_live_step [OF _ inv L] f by simp
next
  case (put_entry i x k')
  then show ?thesis using all_live_write [OF L put_entry(2)] by (simp add: w_put_def)
next
  case (put_fails i fl k')
  then show ?thesis using f by (auto simp: k_write_def split: if_splits kpc.splits list.splits sum.splits)
next
  case (main_write x)
  then show ?thesis using all_live_accept [OF L] by (simp add: w_put_def)
next
  case (writer w')
  then obtain cs where cs: "w_called w' = w_called (sw s) @ cs" using called_mono by blast
  have "set cs \<subseteq> set (cbs_of (w_accepted (sw s)))"
    using t cs writer(1,3) by (auto simp: set_cbs_of elim!: called_accepted)
  then have "all_live (fold fire cs (sk s)) (w_accepted (sw s)) (set (w_called (sw s)) \<union> set cs)"
    by (rule all_live_fold_fire [OF inv L])
  then show ?thesis using writer cs by simp
qed

lemma sys_reachable_live:
  assumes "\<not> OffReply wopt" "\<forall>es \<in> set inputs. \<forall>e \<in> set es. OnWritten e = None"
  shows "sys_reachable opt wopt limit inputs s \<Longrightarrow> \<forall>e \<in> set (w_accepted (sw s)). plain e \<Longrightarrow>
    k_fault (sk s) = None \<Longrightarrow> w_fault (sw s) = None \<Longrightarrow> sys_live s"
proof (induction rule: sys_reachable.induct)
  case init
  then show ?case by (simp add: all_live_def k_init_def)
next
  case (step s t)
  have plain: "\<forall>e \<in> set (w_accepted (sw s)). plain e" using step.prems(1) sys_accepted_mono [OF step.hyps(4)] by auto
  have "sys_reachable opt wopt limit inputs t" using step.hyps by (rule sys_reachable.step)
  from w_reachable_inv [OF sys_w_reachable [OF this] step.prems(1)] assms(1) step.prems(3)
  have "sent_inv (sw t)" "reply_inv (sw t)" by auto
  with sys_live_step [OF step.hyps(4) sys_reachable_inv [OF assms step.hyps(1) plain step.hyps(2,3)] step.IH [OF plain step.hyps(2,3)] step.prems(2)]
  show ?case by blast
qed

section \<open>The end\<close>

lemma all_fired:
  assumes L: "sys_live s" and d: "all_done (sk s)" and c: "w_called (sw s) = cbs_of (w_accepted (sw s))"
    and j: "j < length (k_use (sk s))"
  shows "j \<in> set (fired (k_comp (sk s)))"
proof -
  have n: "pend (sk s) = []" "tracked_cbs (sk s) = []" using d by (auto simp: pend_def tracked_cbs_def all_done_def)
  from L j have "live (sk s) (w_accepted (sw s)) (set (w_called (sw s))) j" by (simp add: all_live_def)
  then show ?thesis by (auto simp: live_def n c in_set_conv_nth split: use.splits)
qed

lemma fed_all:
  assumes F: "fed opt inputs k" and "all_done k" "\<not> k_cancelled k" "sole inputs i node"
  shows "of_node node (k_src k) = tracked_of opt node (inputs ! i)"
proof -
  have "k_pc k ! i = ReaderDone" using F assms(2,4) by (auto simp: all_done_def fed_def sole_def)
  then have "k_in k ! i = []" using F assms(4) by (auto simp: fed_def sole_def)
  then show ?thesis using F assms(3,4) by (metis fed_def tracked_of_def filter.simps(1) append_Nil2)
qed

lemma visible_all:
  assumes "\<forall>j < length src. j \<in> F"
  shows "visible (hist src F) n = (if of_node n src = [] then None else Some (SourceOffset (last (of_node n src))))"
proof -
  have "hist src F = map (\<lambda>e. (SourceNode e, SourceOffset e, True)) src"
    by (rule nth_equalityI) (use assms in \<open>simp_all add: hist_def\<close>)
  then have "completed_prefix (hist src F) n = map (\<lambda>e. (SourceNode e, SourceOffset e, True)) (of_node n src)"
    by (simp add: completed_prefix_def filter_map of_node_def comp_def)
  then show ?thesis by (simp add: visible_def Let_def last_map)
qed

text \<open>
  C2. A run that ends in the regular way forgets nothing: when the readers have closed their channels, the goroutines
  have ended and the writer is closed, without a fault and without having been cancelled, every entry with a
  position was taken from its reader in order and is settled (dropped by filter or function, or written and
  acknowledged), and the position shown for a node is that of the last entry its reader delivered.
\<close>

theorem finished_run_position:
  assumes "sys_reachable opt wopt limit inputs s" "k_fault (sk s) = None" "w_fault (sw s) = None"
    and "\<not> OffReply wopt" "\<forall>es \<in> set inputs. \<forall>e \<in> set es. OnWritten e = None"
    and "\<forall>e \<in> set (w_accepted (sw s)). plain e"
    and "all_done (sk s)" "w_Closed (sw s)" "\<not> k_cancelled (sk s)" "sole inputs i node"
  shows "of_node node (k_src (sk s)) = tracked_of opt node (inputs ! i) \<and>
    (\<forall>j < length (k_src (sk s)). settled s j) \<and>
    shown (k_tracker (sk s)) node =
      (if tracked_of opt node (inputs ! i) = [] then None else Some (SourceOffset (last (tracked_of opt node (inputs ! i)))))"
proof -
  have inv: "sys_inv s" by (rule sys_reachable_inv [OF assms(4,5,1,6,2,3)])
  have w: "sent_inv (sw s)" "reply_inv (sw s)"
    using w_reachable_inv [OF sys_w_reachable [OF assms(1)] assms(6)] assms(3,4) by auto
  have "w_called (sw s) = cbs_of (w_accepted (sw s))" using closed_drained(6) [OF w assms(8)] by (simp add: cbs_of_def)
  then have all: "\<forall>j < length (k_src (sk s)). j \<in> set (fired (k_comp (sk s)))"
    using all_fired [OF sys_reachable_live [OF assms(4,5,1,6,2,3)] assms(7)] inv by (simp add: k_inv_def)
  have src: "of_node node (k_src (sk s)) = tracked_of opt node (inputs ! i)"
    by (rule fed_all [OF sys_fed [OF assms(1)] assms(7,9,10)])
  have "tracks (k_tracker (sk s)) (hist (k_src (sk s)) (set (fired (k_comp (sk s)))))" using inv by (simp add: k_inv_def)
  then have "shown (k_tracker (sk s)) node = visible (hist (k_src (sk s)) (set (fired (k_comp (sk s))))) node"
    by (rule trk.shows_visible)
  then show ?thesis using visible_all [OF all] src fired_settled [OF inv w] all by simp
qed

text \<open>The run of the theory \<open>System\<close>, continued to its end.\<close>

definition demo_end :: "sact list" where
  "demo_end = map WriterDoes [Advance, Advance, Advance, Advance, Advance, Tick, NextWait, Answer (Inr (RStr ''OK'')), Handle] @
     [Kern 0, WriterDoes CloseCh, WriterDoes Advance, WriterDoes Advance]"

lemma demo_finishes:
  "map_option (\<lambda>s. k_fault (sk s) = None \<and> w_fault (sw s) = None \<and> list_all plain (w_accepted (sw s)) \<and>
     all_done (sk s) \<and> w_Closed (sw s) \<and> \<not> k_cancelled (sk s))
     (sys_exec demo_kopt demo_opt demo_end demo_grouped) = Some True"
  unfolding demo_end_def demo_grouped_def demo_written_def [symmetric]
  by (simp add: demo_run_simps k_do_def set_pc_def all_done_def w_Closed_def)

theorem finished_run_position_witness:
  "\<exists>s. sys_reachable demo_kopt demo_opt 1 [[demo_source]] s \<and> all_done (sk s) \<and> w_Closed (sw s) \<and>
     shown (k_tracker (sk s)) ''n'' = Some 31"
proof -
  from demo_finishes obtain s where s: "sys_exec demo_kopt demo_opt demo_end demo_grouped = Some s"
    and f: "k_fault (sk s) = None" "w_fault (sw s) = None" and p: "\<forall>e \<in> set (w_accepted (sw s)). plain e"
    and e: "all_done (sk s)" "w_Closed (sw s)" "\<not> k_cancelled (sk s)"
    by (auto simp: list_all_iff)
  have r: "sys_reachable demo_kopt demo_opt 1 [[demo_source]] s"
    by (rule sys_exec_reachable [OF sys_exec_reachable [OF sys_reachable.init demo_kernel_part] s])
  have o: "\<not> OffReply demo_opt" "\<forall>es \<in> set [[demo_source]]. \<forall>e \<in> set es. OnWritten e = None"
    by (simp_all add: demo_opt_def demo_source_def NewEntry_def)
  have t: "sole [[demo_source]] 0 ''n''" "tracked_of demo_kopt ''n'' ([[demo_source]] ! 0) = [demo_source]" "SourceOffset demo_source = 31"
    by (simp_all add: sole_def tracked_of_def tracked_entry_def demo_kopt_def demo_source_def NewEntry_def)
  from finished_run_position [OF r f o p e t(1)] t(2,3) r e show ?thesis by auto
qed

end
