(* ===== verification/Cluster.thy ===== *)
theory Cluster
  imports Entry "HOL-Library.AList"
begin

text \<open>
  \<^verbatim>\<open>internal/utils/cluster_nodes.go\<close>, the parser of \<^verbatim>\<open>CLUSTER NODES\<close>, and
  \<^verbatim>\<open>internal/writer/redis_cluster_writer.go\<close>, the writer that routes entries by slot to one writer
  per master.

  Proved: a topology that is accepted assigns every slot to exactly one writer; an entry with
  keys goes to the owner of their slot, or the process stops because they differ; an entry
  without keys goes to every writer, each copy with its own part of the completion.
\<close>

section \<open>CLUSTER NODES\<close>

record clusterNodes =
  masters :: "(string \<times> string) list"
  replicas :: "(string \<times> string list) list"
  nodeIds :: "string list"
  nodeSlots :: "int list list"
  slotsCount :: nat

abbreviation outOfRange :: fault where
  "outOfRange \<equiv> RuntimePanic ''index out of range''"

definition atoi_or_panic :: "string \<Rightarrow> int res" where
  "atoi_or_panic s = (case Atoi s of Inl _ \<Rightarrow> Inl (LogPanicf ''strconv.Atoi'') | Inr n \<Rightarrow> Inr n)"

text \<open>One slot word, a number or a range \<^verbatim>\<open>start-end\<close>.\<close>

definition slot_range :: "string \<Rightarrow> int list res" where
  "slot_range w =
     (if Contains w ''-'' then
        (let seg = Split (CHR ''-'') w
         in (case atoi_or_panic (seg ! 0) of Inl f \<Rightarrow> Inl f
             | Inr start \<Rightarrow> (case atoi_or_panic (seg ! 1) of Inl f \<Rightarrow> Inl f
                 | Inr en \<Rightarrow> Inr [start..en])))
      else map_sum id (\<lambda>n. [n]) (atoi_or_panic w))"

text \<open>The words after the eighth; a word in brackets (a migration) ends the list.\<close>

fun slot_words :: "string list \<Rightarrow> int list res" where
  "slot_words [] = Inr []"
| "slot_words (w # ws) =
     (if HasPrefix (TrimSpace w) ''['' then Inr []
      else (case slot_range (TrimSpace w) of Inl f \<Rightarrow> Inl f
        | Inr ss \<Rightarrow> map_sum id ((@) ss) (slot_words ws)))"

text \<open>The address of a node: IPv6 addresses get brackets, an announced host name wins.\<close>

definition node_address :: "string \<Rightarrow> string" where
  "node_address w =
     (let address = hd (Split (CHR ''@'') w);
          tok = Split (CHR '':'') address;
          address' = (if length tok > 2 then ''['' @ Join (butlast tok) '':'' @ '']:'' @ last tok else address);
          hostname = Split (CHR '','') w
      in if length hostname > 1 then hostname ! 1 @ '':'' @ last tok else address')"

definition add_node :: "string \<Rightarrow> clusterNodes \<Rightarrow> clusterNodes res" where
  "add_node line c =
     (let words = Split (CHR '' '') (TrimSpace line)
      in if length words < 3 then Inl outOfRange
         else let isMaster = Contains (words ! 2) ''master''
         in if length words < 8 then Inl (LogPanicf ''invalid cluster nodes line'')
         else let address = node_address (words ! 1)
         in if isMaster \<and> length words < 9 then Inr c
         else if \<not> isMaster then
           (if Contains (words ! 2) ''fail'' \<or> Contains (words ! 2) ''noaddr'' then Inr c
            else Inr (c\<lparr>replicas := AList.update (words ! 3)
                   ((case map_of (replicas c) (words ! 3) of None \<Rightarrow> [] | Some as \<Rightarrow> as) @ [address])
                   (replicas c)\<rparr>))
         else (case slot_words (drop 8 words) of Inl f \<Rightarrow> Inl f
           | Inr ss \<Rightarrow> Inr (c\<lparr>masters := AList.update (words ! 0) address (masters c),
                             nodeSlots := nodeSlots c @ [ss], nodeIds := nodeIds c @ [words ! 0],
                             slotsCount := slotsCount c + length ss\<rparr>)))"

fun add_nodes :: "string list \<Rightarrow> clusterNodes \<Rightarrow> clusterNodes res" where
  "add_nodes [] c = Inr c"
| "add_nodes (l # ls) c = (case add_node l c of Inl f \<Rightarrow> Inl f | Inr c' \<Rightarrow> add_nodes ls c')"

fun node_addresses :: "bool \<Rightarrow> clusterNodes \<Rightarrow> string list \<Rightarrow> string list res" where
  "node_addresses preferReplica c [] = Inr []"
| "node_addresses preferReplica c (i # is) =
     (case (map_of (replicas c) i, preferReplica, map_of (masters c) i) of
        (Some as, True, _) \<Rightarrow> map_sum id ((#) (hd as)) (node_addresses preferReplica c is)
      | (_, _, Some a) \<Rightarrow> map_sum id ((#) a) (node_addresses preferReplica c is)
      | _ \<Rightarrow> Inl (LogPanicf ''unknown id''))"

definition emptyNodes :: clusterNodes where
  "emptyNodes = \<lparr>masters = [], replicas = [], nodeIds = [], nodeSlots = [], slotsCount = 0\<rparr>"

text \<open>From the reply of the node that was asked.\<close>

definition GetRedisClusterNodes :: "bool \<Rightarrow> string \<Rightarrow> (string list \<times> int list list) res" where
  "GetRedisClusterNodes preferReplica reply =
     (case add_nodes (Split (CHR 0x0A) (TrimSpace reply)) emptyNodes of Inl f \<Rightarrow> Inl f
      | Inr c \<Rightarrow> if slotsCount c \<noteq> 16384 then Inl (LogPanicf ''invalid cluster nodes slots'')
                else map_sum id (\<lambda>as. (as, nodeSlots c)) (node_addresses preferReplica c (nodeIds c)))"

section \<open>The routing table\<close>

definition KeySlots :: nat where "KeySlots = 16384"

fun occupy :: "nat \<Rightarrow> int list \<Rightarrow> nat option list \<Rightarrow> nat option list res" where
  "occupy i [] router = Inr router"
| "occupy i (s # ss) router =
     (if s < 0 \<or> int (length router) \<le> s then Inl outOfRange
      else if router ! nat s \<noteq> None then Inl (LogPanicf ''slot already occupied'')
      else occupy i ss (router[nat s := Some i]))"

fun occupy_all :: "nat \<Rightarrow> int list list \<Rightarrow> nat option list \<Rightarrow> nat option list res" where
  "occupy_all i [] router = Inr router"
| "occupy_all i (ss # sss) router =
     (case occupy i ss router of Inl f \<Rightarrow> Inl f | Inr router' \<Rightarrow> occupy_all (Suc i) sss router')"

text \<open>Writer \<open>i\<close> is the standalone writer of the \<open>i\<close>-th address.\<close>

definition loadClusterNodes :: "string list \<times> int list list \<Rightarrow> nat option list res" where
  "loadClusterNodes nodes =
     (case occupy_all 0 (take (length (fst nodes)) (snd nodes)) (replicate KeySlots None) of Inl f \<Rightarrow> Inl f
      | Inr router \<Rightarrow> if None \<in> set router then Inl (LogPanicf ''slot not occupied'') else Inr router)"

section \<open>Write\<close>

text \<open>The loop over the slots: \<open>None\<close> if two of them differ.\<close>

fun same_slot :: "int \<Rightarrow> int list \<Rightarrow> int option" where
  "same_slot lastSlot [] = Some lastSlot"
| "same_slot lastSlot (s # ss) =
     (let l = (if lastSlot = -1 then s else lastSlot) in if s \<noteq> l then None else same_slot l ss)"

text \<open>What each writer is given, as pairs of its index and the entry.\<close>

definition cluster_Write ::
    "nat \<Rightarrow> nat option list \<Rightarrow> entry \<Rightarrow> completions \<Rightarrow> ((nat \<times> entry) list \<times> completions) res" where
  "cluster_Write n router e st =
     (if Slots e = [] then
        (case SplitCompletion (OnWritten e) n st of (cbs, st') \<Rightarrow>
           Inr (map (\<lambda>i. (i, if OnWritten e = None then e else e\<lparr>OnWritten := Some (cbs ! i)\<rparr>)) [0..<n], st'))
      else (case same_slot (-1) (Slots e) of
          None \<Rightarrow> Inl (LogPanicf ''CROSSSLOT Keys in request don't hash to the same slot'')
        | Some s \<Rightarrow>
            if s < 0 \<or> int (length router) \<le> s then Inl outOfRange
            else (case router ! nat s of None \<Rightarrow> Inl (RuntimePanic ''nil pointer dereference'')
              | Some i \<Rightarrow> Inr ([(i, e)], st))))"

section \<open>Every slot has one owner\<close>

text \<open>The two loops as one over pairs of a slot and its owner.\<close>

fun occ :: "(int \<times> nat) list \<Rightarrow> nat option list \<Rightarrow> nat option list res" where
  "occ [] router = Inr router"
| "occ ((s, i) # ps) router =
     (if s < 0 \<or> int (length router) \<le> s then Inl outOfRange
      else if router ! nat s \<noteq> None then Inl (LogPanicf ''slot already occupied'')
      else occ ps (router[nat s := Some i]))"

definition owners :: "nat \<Rightarrow> int list list \<Rightarrow> (int \<times> nat) list" where
  "owners i sss = concat (map (\<lambda>(k, ss). map (\<lambda>s. (s, k)) ss) (enumerate i sss))"

lemma occ_append: "occ (ps @ qs) r = (case occ ps r of Inl f \<Rightarrow> Inl f | Inr r' \<Rightarrow> occ qs r')"
  by (induction ps arbitrary: r) auto

lemma occupy_occ: "occupy i ss r = occ (map (\<lambda>s. (s, i)) ss) r"
  by (induction ss arbitrary: r) auto

lemma occupy_all_occ: "occupy_all i sss r = occ (owners i sss) r"
  by (induction sss arbitrary: i r) (auto simp: owners_def occupy_occ occ_append split: sum.splits)

lemma occ_ok:
  "occ ps r = Inr r' \<Longrightarrow> length r' = length r \<and> distinct (map fst ps) \<and>
     (\<forall>s \<in> fst ` set ps. 0 \<le> s \<and> s < int (length r) \<and> r ! nat s = None) \<and>
     (\<forall>s < length r. r' ! s = (case map_of ps (int s) of Some i \<Rightarrow> Some i | None \<Rightarrow> r ! s))"
proof (induction ps arbitrary: r)
  case (Cons p ps)
  obtain s i where p: "p = (s, i)" by (cases p)
  with Cons.prems have s: "0 \<le> s" "s < int (length r)" "r ! nat s = None"
    and rest: "occ ps (r[nat s := Some i]) = Inr r'" by (auto split: if_splits)
  note IH = Cons.IH [OF rest]
  have s_new: "s \<notin> fst ` set ps"
  proof
    assume "s \<in> fst ` set ps"
    with IH have "r[nat s := Some i] ! nat s = None" by auto
    with s show False by simp
  qed
  have none: "r ! nat x = None" if "x \<in> fst ` set ps" for x
  proof -
    have x: "0 \<le> x" "r[nat s := Some i] ! nat x = None" using IH that by auto
    have "x \<noteq> s" using s_new that by auto
    then have "nat x \<noteq> nat s" using x(1) s(1) by (simp add: eq_nat_nat_iff)
    with x(2) show ?thesis by simp
  qed
  have "map_of ps s = None" using s_new by (auto simp: map_of_eq_None_iff)
  moreover have "r' ! k = (case map_of ps (int k) of Some i \<Rightarrow> Some i | None \<Rightarrow> r[nat s := Some i] ! k)"
    if "k < length r" for k
    using IH that by simp
  ultimately have "r' ! k = (case map_of (p # ps) (int k) of Some i \<Rightarrow> Some i | None \<Rightarrow> r ! k)"
    if "k < length r" for k
    using that s by (auto simp: p nth_list_update split: option.splits)
  with IH s s_new none show ?case by (auto simp: p)
qed simp

lemma owners_mem: "(s, k) \<in> set (owners i sss) \<longleftrightarrow> i \<le> k \<and> k < i + length sss \<and> s \<in> set (sss ! (k - i))"
proof -
  have "(s, k) \<in> set (owners i sss) \<longleftrightarrow> (\<exists>ss. (k, ss) \<in> set (enumerate i sss) \<and> s \<in> set ss)"
    by (force simp: owners_def)
  then show ?thesis by (auto simp: in_set_enumerate_eq)
qed

lemma map_of_owner:
  "distinct (map fst ps) \<Longrightarrow> map_of ps x = Some v \<longleftrightarrow> (x, v) \<in> set ps"
  by (simp add: map_of_eq_Some_iff)

lemma add_nodes_count:
  "add_nodes ls c = Inr c' \<Longrightarrow> length (nodeIds c) = length (nodeSlots c) \<and>
     slotsCount c = length (concat (nodeSlots c)) \<Longrightarrow>
   length (nodeIds c') = length (nodeSlots c') \<and> slotsCount c' = length (concat (nodeSlots c'))"
proof (induction ls arbitrary: c)
  case (Cons l ls)
  then obtain c1 where c1: "add_node l c = Inr c1" "add_nodes ls c1 = Inr c'" by (auto split: sum.splits)
  have "length (nodeIds c1) = length (nodeSlots c1) \<and> slotsCount c1 = length (concat (nodeSlots c1))"
    using c1(1) Cons.prems(2) by (auto simp: add_node_def Let_def split: if_splits sum.splits)
  with Cons.IH [OF c1(2)] show ?case by blast
qed simp

lemma node_addresses_length: "node_addresses pr c is = Inr as \<Longrightarrow> length as = length is"
  by (induction "is" arbitrary: "as") (auto simp: fault_simps split: option.splits bool.splits)

text \<open>
  C14. When the topology read from \<^verbatim>\<open>CLUSTER NODES\<close> is accepted and the routing table is built, every
  one of the 16384 slots has exactly one owner among the addresses, and the table names it; any
  gap, overlap or slot out of range stops the process instead.
\<close>

theorem cluster_router_total:
  assumes "GetRedisClusterNodes pr txt = Inr (addresses, slots)"
    and "loadClusterNodes (addresses, slots) = Inr router"
  shows "length slots = length addresses \<and> length router = 16384 \<and>
    (\<forall>s < 16384. \<exists>!i. i < length addresses \<and> int s \<in> set (slots ! i) \<and> router ! s = Some i) \<and>
    (\<forall>i < length addresses. \<forall>s \<in> set (slots ! i). 0 \<le> s \<and> s < 16384 \<and> router ! nat s = Some i)"
proof -
  obtain c where c: "add_nodes (Split (CHR 0x0A) (TrimSpace txt)) emptyNodes = Inr c"
    and a: "node_addresses pr c (nodeIds c) = Inr addresses" and sl: "slots = nodeSlots c"
    using assms(1) by (auto simp: GetRedisClusterNodes_def fault_simps split: sum.splits if_splits)
  have len: "length slots = length addresses"
    using add_nodes_count [OF c] node_addresses_length [OF a] by (simp add: emptyNodes_def sl)
  have o: "occ (owners 0 slots) (replicate KeySlots None) = Inr router" and full: "None \<notin> set router"
    using assms(2) by (auto simp: loadClusterNodes_def len [symmetric] occupy_all_occ split: sum.splits if_splits)
  note ok = occ_ok [OF o]
  have n: "length router = 16384" using ok by (simp add: KeySlots_def)
  have r: "router ! s = map_of (owners 0 slots) (int s)" if "s < 16384" for s
    using ok that by (auto simp: KeySlots_def split: option.splits)
  have own: "router ! s = Some i \<longleftrightarrow> i < length slots \<and> int s \<in> set (slots ! i)" if "s < 16384" for s i
    using ok by (simp add: r [OF that] map_of_owner owners_mem)
  have "router ! s \<noteq> None" if "s < 16384" for s using full n that nth_mem by metis
  then have "\<exists>!i. i < length addresses \<and> int s \<in> set (slots ! i) \<and> router ! s = Some i" if "s < 16384" for s
    using own [OF that] len that by (metis option.exhaust option.inject)
  moreover have "0 \<le> s \<and> s < 16384 \<and> router ! nat s = Some i" if "i < length addresses" "s \<in> set (slots ! i)" for i s
  proof -
    have "(s, i) \<in> set (owners 0 slots)" using that len by (simp add: owners_mem)
    then have "s \<in> fst ` set (owners 0 slots)" by force
    with ok have "0 \<le> s" "s < 16384" by (auto simp: KeySlots_def)
    with own [of "nat s" i] that len show ?thesis by simp
  qed
  ultimately show ?thesis using len n by simp
qed

section \<open>A one-node topology\<close>

definition one_node :: string where
  "one_node = ''a 1.2.3.4:6379@16379 master - 0 0 1 connected 0-16383''"

lemma occupy_upto:
  "k \<le> n \<Longrightarrow> occupy i [int k..int n - 1] (replicate k (Some i) @ replicate (n - k) None) = Inr (replicate n (Some i))"
proof (induction "n - k" arbitrary: k)
  case 0
  then show ?case by simp
next
  case (Suc d)
  then have k: "k < n" by simp
  have u: "[int k..int n - 1] = int k # [int (Suc k)..int n - 1]"
    using k by (subst upto_rec1) (auto simp: add.commute)
  have "(replicate k (Some i) @ replicate (n - k) None)[k := Some i]
      = replicate (Suc k) (Some i) @ replicate (n - Suc k) None"
    using k list_update_length [of "replicate k (Some i)" None "replicate (n - Suc k) None" "Some i"]
    by (simp add: Suc_diff_Suc [symmetric] replicate_app_Cons_same)
  moreover have "occupy i [int (Suc k)..int n - 1] (replicate (Suc k) (Some i) @ replicate (n - Suc k) None)
      = Inr (replicate n (Some i))"
    using Suc k by (intro Suc.hyps) auto
  ultimately show ?case using k by (simp add: u nth_append)
qed

lemma one_node_topology:
  "GetRedisClusterNodes False one_node = Inr ([''1.2.3.4:6379''], [[0..16383]])"
proof -
  have w: "Split (CHR '' '') (TrimSpace one_node)
      = [''a'', ''1.2.3.4:6379@16379'', ''master'', ''-'', ''0'', ''0'', ''1'', ''connected'', ''0-16383'']"
    and l: "Split (CHR 0x0A) (TrimSpace one_node) = [one_node]" by code_simp+
  have s: "slot_words [''0-16383''] = Inr [0..16383]"
  proof -
    have "HasPrefix (TrimSpace ''0-16383'') ''['' = False" "TrimSpace ''0-16383'' = ''0-16383''"
      "Contains ''0-16383'' ''-''" "Split (CHR ''-'') ''0-16383'' = [''0'', ''16383'']" by code_simp+
    moreover have "atoi_or_panic ''0'' = Inr 0" "atoi_or_panic ''16383'' = Inr 16383"
      by (simp_all add: atoi_or_panic_def parse_simps)
    ultimately show ?thesis by (simp add: slot_range_def)
  qed
  have a: "node_address ''1.2.3.4:6379@16379'' = ''1.2.3.4:6379''" "Contains ''master'' ''master''" by code_simp+
  show ?thesis
    unfolding GetRedisClusterNodes_def l
    by (simp add: add_node_def w a s emptyNodes_def Let_def del: slot_words.simps)
qed

theorem cluster_router_total_witness:
  "\<exists>router. loadClusterNodes ([''1.2.3.4:6379''], [[0..16383]]) = Inr router \<and> router ! 5000 = Some 0"
proof -
  have "occupy 0 [0..16383] (replicate KeySlots None) = Inr (replicate KeySlots (Some 0))"
    using occupy_upto [of 0 16384 0] by (simp add: KeySlots_def)
  then have l: "loadClusterNodes ([''1.2.3.4:6379''], [[0..16383]]) = Inr (replicate KeySlots (Some 0))"
    by (simp add: loadClusterNodes_def)
  from cluster_router_total [OF one_node_topology l]
  have "\<forall>s \<in> set [0..16383]. replicate KeySlots (Some (0::nat)) ! nat s = Some 0" by simp
  from bspec [OF this, of 5000] have "replicate KeySlots (Some (0::nat)) ! 5000 = Some 0" by simp
  with l show ?thesis by blast
qed

section \<open>Routing\<close>

lemma keyHash_less: "uint (keyHash key) < 16384"
proof -
  have "(0x3FFF :: 16 word) = mask 14" by (simp add: mask_eq_exp_minus_1)
  then have "keyHash key = take_bit 14 (Crc16 (if length (findHashTag key) > 0 then findHashTag key else key))"
    by (simp only: keyHash_def take_bit_eq_mask)
  then have "uint (keyHash key) = take_bit 14 (uint (Crc16 (if length (findHashTag key) > 0 then findHashTag key else key)))"
    by (simp only: unsigned_take_bit_eq)
  then show ?thesis by (simp add: take_bit_eq_mod)
qed

lemma same_slot_eq:
  "\<forall>s \<in> set ss. 0 \<le> s \<Longrightarrow> 0 \<le> l \<Longrightarrow>
     same_slot l ss = (if \<forall>s \<in> set ss. s = l then Some l else None)"
  by (induction ss) (auto simp: Let_def)

lemma same_slot_start:
  "ss \<noteq> [] \<Longrightarrow> \<forall>s \<in> set ss. 0 \<le> s \<Longrightarrow>
     same_slot (-1) ss = (if \<forall>s \<in> set ss. s = hd ss then Some (hd ss) else None)"
  by (cases ss) (auto simp: Let_def same_slot_eq)

text \<open>
  C13. With a total routing table a parsed entry whose keys hash to one slot is given, unchanged
  and alone, to the writer that owns the slot; an entry whose keys hash to different slots stops
  the process; an entry without keys is given to every writer exactly once, the \<open>i\<close>-th copy
  carrying the \<open>i\<close>-th part of its completion.
\<close>

theorem cluster_Write_routes:
  assumes "entry_Parse e0 = Inr e" "length router = 16384" "None \<notin> set router" "0 < n"
  shows "cluster_Write n router e st =
    (if Keys e = [] then
       Inr (map (\<lambda>i. (i, e\<lparr>OnWritten := map_option (\<lambda>_. Part (length (groups st)) i) (OnWritten e)\<rparr>)) [0..<n],
            snd (SplitCompletion (OnWritten e) n st))
     else if \<forall>k \<in> set (Keys e). keyHash k = keyHash (hd (Keys e))
     then Inr ([(the (router ! unat (keyHash (hd (Keys e)))), e)], st)
     else Inl (LogPanicf ''CROSSSLOT Keys in request don't hash to the same slot''))"
proof (cases "Keys e = []")
  case True
  have "Slots e = []" using assms(1) True
    by (auto simp: entry_Parse_def CalcSlots_def split: sum.splits)
  then show ?thesis
    using True assms(4) by (auto simp: cluster_Write_def SplitCompletion_def split: option.splits)
next
  case False
  have sl: "Slots e = map (\<lambda>k. uint (keyHash k)) (Keys e)" using assms(1)
    by (auto simp: entry_Parse_def CalcSlots_def split: sum.splits)
  have eq: "(\<forall>s \<in> set (Slots e). s = hd (Slots e)) \<longleftrightarrow> (\<forall>k \<in> set (Keys e). keyHash k = keyHash (hd (Keys e)))"
    using False by (simp add: sl hd_map word_uint_eq_iff)
  have ss: "same_slot (-1) (Slots e) =
      (if \<forall>k \<in> set (Keys e). keyHash k = keyHash (hd (Keys e)) then Some (uint (keyHash (hd (Keys e)))) else None)"
  proof -
    have "hd (Slots e) = uint (keyHash (hd (Keys e)))" "Slots e \<noteq> []" "\<forall>s \<in> set (Slots e). 0 \<le> s"
      using False by (simp_all add: sl hd_map)
    then show ?thesis using same_slot_start [of "Slots e"] unfolding eq by simp
  qed
  define h where "h = keyHash (hd (Keys e))"
  have lt: "0 \<le> uint h" "uint h < int (length router)" using keyHash_less assms(2) by (simp_all add: h_def)
  have nat_h: "nat (uint h) = unat h" by (rule unat_eq_nat_uint [symmetric])
  have "unat h < length router" unfolding nat_h [symmetric] using lt by (simp only: nat_less_iff)
  then have "router ! unat h \<noteq> None" using assms(3) nth_mem by metis
  then obtain i where i: "router ! unat h = Some i" by blast
  have ne: "Slots e \<noteq> []" using False by (simp add: sl)
  show ?thesis
  proof (cases "\<forall>k \<in> set (Keys e). keyHash k = h")
    case True
    then have "same_slot (-1) (Slots e) = Some (uint h)" using ss unfolding h_def [symmetric] by simp
    then have "cluster_Write n router e st = Inr ([(i, e)], st)"
      unfolding cluster_Write_def using ne lt i by (simp only: nat_h) simp
    with True False i show ?thesis unfolding h_def [symmetric] by simp
  next
    case diff: False
    then have "same_slot (-1) (Slots e) = None" using ss unfolding h_def [symmetric] by simp
    with diff False ne show ?thesis unfolding h_def [symmetric] by (simp add: cluster_Write_def)
  qed
qed

definition tagged_keys :: entry where
  "tagged_keys = NewEntry\<lparr>Argv := [''MSET'', ''{x}a'', ''1'', ''{x}b'', ''2'']\<rparr>"

theorem cluster_Write_routes_witness:
  "\<exists>e. entry_Parse tagged_keys = Inr e \<and>
     cluster_Write 5 (replicate 16384 (Some 3)) e \<lparr>groups = [], fired = []\<rparr>
       = Inr ([(3, e)], \<lparr>groups = [], fired = []\<rparr>)"
proof -
  let ?argv = "[''MSET'', ''{x}a'', ''1'', ''{x}b'', ''2'']"
  have "cmd_name ?argv = ''MSET''" by code_simp
  moreover have "specs_keys ?argv [spec ''index'' 1 '''' 0 ''range'' (-1) 2 0 0 0 0] = Inr ([''{x}a'', ''{x}b''], [2, 4])" by code_simp
  ultimately have "CalcKeys ?argv = Inr \<lparr>cmaName = ''MSET'', ck_group = ''STRING'', ck_keys = [''{x}a'', ''{x}b''], keysIndexes = [2, 4]\<rparr>"
    using CalcKeys_found [OF _ redisCommands_MSET] by simp
  then obtain e where e: "entry_Parse tagged_keys = Inr e" "Keys e = [''{x}a'', ''{x}b'']"
    by (simp add: entry_Parse_def tagged_keys_def)
  have h: "keyHash ''{x}b'' = keyHash ''{x}a''" by (simp add: keyHash_def)
  have "unat (keyHash ''{x}a'') < 16384"
    using keyHash_less [of "''{x}a''"] unat_eq_nat_uint [of "keyHash ''{x}a''"] by linarith
  then have r: "replicate 16384 (Some (3::nat)) ! unat (keyHash ''{x}a'') = Some 3" by (rule nth_replicate)
  have p: "length (replicate 16384 (Some 3)) = 16384" "None \<notin> set (replicate 16384 (Some 3))"
    "0 < (5 :: nat)" by simp_all
  from cluster_Write_routes [OF e(1) p, of "\<lparr>groups = [], fired = []\<rparr>"] e h r show ?thesis by simp
qed

end
