(* ===== verification/Ownership.thy ===== *)
theory Ownership
  imports Entry "HOL-Library.Multiset"
begin

text \<open>
  Who has to call a completion callback.  Splitting a callback hands its parts out and keeps the callback
  itself in the group of the parts; parts may be split again (the kernel splits per entry made by the function, the
  cluster writer per node).  At every moment a callback that was not called has exactly one owner: someone
  outside, or a group with an open part.  Hence nothing is called as long as something split from it is
  outside, and when nothing is outside everything has been called.
\<close>

section \<open>Owners\<close>

definition gopen :: "completions \<Rightarrow> nat \<Rightarrow> bool" where
  "gopen st g \<longleftrightarrow> g < length (groups st) \<and> False \<in> set (onces (groups st ! g))"

text \<open>Not called yet; \<open>R\<close> are the numbers of the tracked entries.\<close>

fun uncalled :: "completions \<Rightarrow> nat set \<Rightarrow> callback \<Rightarrow> bool" where
  "uncalled st R (Consumed j) \<longleftrightarrow> j \<in> R \<and> j \<notin> set (fired st)"
| "uncalled st R (Part g i) \<longleftrightarrow> is_part st g i \<and> \<not> onces (groups st ! g) ! i"

fun earlier :: "nat \<Rightarrow> callback \<Rightarrow> bool" where
  "earlier g (Consumed j) \<longleftrightarrow> True"
| "earlier g (Part g' i) \<longleftrightarrow> g' < g"

definition owns :: "completions \<Rightarrow> nat set \<Rightarrow> callback set \<Rightarrow> bool" where
  "owns st R held \<longleftrightarrow>
     (\<forall>g < length (groups st). remaining (groups st ! g) = int (length (filter Not (onces (groups st ! g)))) \<and>
        earlier g (g_done (groups st ! g))) \<and>
     set (fired st) \<subseteq> R \<and>
     (\<forall>cb \<in> held. uncalled st R cb) \<and>
     (\<forall>g. gopen st g \<longrightarrow> uncalled st R (g_done (groups st ! g)) \<and> g_done (groups st ! g) \<notin> held) \<and>
     (\<forall>g g'. gopen st g \<longrightarrow> gopen st g' \<longrightarrow> g_done (groups st ! g) = g_done (groups st ! g') \<longrightarrow> g = g') \<and>
     (\<forall>cb. uncalled st R cb \<longrightarrow> cb \<in> held \<or> (\<exists>g. gopen st g \<and> g_done (groups st ! g) = cb))"

text \<open>The callbacks made from the one of a tracked entry.\<close>

inductive from_root :: "completions \<Rightarrow> nat \<Rightarrow> callback \<Rightarrow> bool" for st j where
  root: "from_root st j (Consumed j)"
| part: "\<lbrakk>is_part st g i; from_root st j (g_done (groups st ! g))\<rbrakk> \<Longrightarrow> from_root st j (Part g i)"

lemma owns_held: "owns st R held \<Longrightarrow> cb \<in> held \<Longrightarrow> uncalled st R cb"
  unfolding owns_def by blast

lemma open_part: "is_part st g i \<Longrightarrow> \<not> onces (groups st ! g) ! i \<Longrightarrow> gopen st g"
  by (auto simp: is_part_def gopen_def in_set_conv_nth)

lemma gopen_part: "gopen st g \<Longrightarrow> \<exists>i. is_part st g i \<and> \<not> onces (groups st ! g) ! i"
  by (auto simp: is_part_def gopen_def in_set_conv_nth)

text \<open>What is uncalled was made from something uncalled.\<close>

lemma uncalled_root:
  assumes "owns st R held" "from_root st j cb" "uncalled st R cb"
  shows "j \<in> R \<and> j \<notin> set (fired st)"
  using assms(2,3)
proof induction
  case (part g i)
  then have "gopen st g" by (auto intro: open_part)
  then show ?case using part.IH assms(1) by (simp add: owns_def)
qed simp

lemma fired_not_held:
  assumes "owns st R held" "j \<in> set (fired st)" "from_root st j cb"
  shows "cb \<notin> held"
  using assms uncalled_root [OF assms(1,3)] by (auto simp: owns_def)

text \<open>When nothing is outside, everything has been called: the last open group would have a part without owner.\<close>

lemma nothing_held:
  assumes "owns st R {}"
  shows "R = set (fired st)"
proof -
  have "\<not> gopen st g" for g
  proof
    assume g: "gopen st g"
    let ?m = "Max {g. gopen st g}"
    have fin: "finite {g. gopen st g}" by (rule finite_subset [of _ "{..<length (groups st)}"]) (auto simp: gopen_def)
    then have m: "gopen st ?m" "\<And>g'. gopen st g' \<Longrightarrow> g' \<le> ?m" using Max_in [OF fin] Max_ge [OF fin] g by auto
    obtain i where "is_part st ?m i" "\<not> onces (groups st ! ?m) ! i" using gopen_part [OF m(1)] by blast
    then have "uncalled st R (Part ?m i)" by simp
    then obtain g' where g': "gopen st g'" "g_done (groups st ! g') = Part ?m i" using assms unfolding owns_def by blast
    then have "earlier g' (Part ?m i)" using assms unfolding owns_def by (metis gopen_def)
    then have "?m < g'" by simp
    with m(2) [OF g'(1)] show False by simp
  qed
  then have "\<not> uncalled st R (Consumed j)" for j using assms unfolding owns_def by blast
  then show ?thesis using assms by (auto simp: owns_def)
qed

section \<open>Operations\<close>

lemma uncalled_mark:
  "\<lbrakk>is_part st g i; uncalled st R (Part g i)\<rbrakk> \<Longrightarrow> uncalled (mark g i st) R cb \<longleftrightarrow> uncalled st R cb \<and> cb \<noteq> Part g i"
  by (cases cb) (auto simp: is_part_def mark_def nth_list_update split: if_splits)

lemma gopen_mark:
  assumes "is_part st g i" "\<not> onces (groups st ! g) ! i" "remaining (groups st ! g) = int (length (filter Not (onces (groups st ! g))))"
  shows "gopen (mark g i st) g' \<longleftrightarrow> gopen st g' \<and> (g' = g \<longrightarrow> remaining (groups st ! g) - 1 \<noteq> 0)"
proof (cases "g' = g")
  case True
  have "False \<in> set ((onces (groups st ! g))[i := True]) \<longleftrightarrow> filter Not ((onces (groups st ! g))[i := True]) \<noteq> []"
    by (auto simp: filter_empty_conv)
  also have "\<dots> \<longleftrightarrow> remaining (groups st ! g) - 1 \<noteq> 0"
    using assms filter_Not_update [of i "onces (groups st ! g)"] by (auto simp: is_part_def)
  finally show ?thesis using True assms(1) open_part [OF assms(1,2)] by (auto simp: gopen_def mark_def is_part_def)
qed (auto simp: gopen_def mark_def)

lemma owns_mark:
  assumes O: "owns st R held" and cb: "Part g i \<in> held"
  defines "f \<equiv> g_done (groups st ! g)"
  shows "owns (mark g i st) R ((if remaining (groups st ! g) - 1 = 0 then insert f else id) (held - {Part g i}))"
proof -
  have u: "uncalled st R (Part g i)" by (rule owns_held [OF O cb])
  then have p: "is_part st g i" "\<not> onces (groups st ! g) ! i" by simp_all
  then have g: "g < length (groups st)" "i < length (onces (groups st ! g))" by (auto simp: is_part_def)
  have rem: "remaining (groups st ! g) = int (length (filter Not (onces (groups st ! g))))" using O g by (simp add: owns_def)
  note un = uncalled_mark [OF p(1) u] and op = gopen_mark [OF p rem]
  have dn: "g_done (groups (mark g i st) ! g') = g_done (groups st ! g')" for g'
    by (cases "g' = g") (use g in \<open>auto simp: mark_def\<close>)
  have fi: "fired (mark g i st) = fired st" "length (groups (mark g i st)) = length (groups st)" by (simp_all add: mark_def)
  have f: "gopen st g" "uncalled st R f" "f \<notin> held" using O open_part [OF p] by (auto simp: owns_def f_def)
  have "remaining (groups (mark g i st) ! g') = int (length (filter Not (onces (groups (mark g i st) ! g'))))" if "g' < length (groups st)" for g'
    using that O rem filter_Not_update [OF g(2) p(2)] by (cases "g' = g") (auto simp: owns_def mark_def)
  moreover have "f \<noteq> Part g i" using f(3) cb by blast
  ultimately show ?thesis
    using O f cb unfolding owns_def un op dn fi f_def by (cases "remaining (groups st ! g) - 1 = 0") auto
qed

lemma owns_invoke: "owns st R held \<Longrightarrow> cb \<in> held \<Longrightarrow> owns (invoke cb st) R (held - {cb})"
proof (induction cb st arbitrary: held rule: invoke.induct)
  case (1 k st)
  have "gopen (st\<lparr>fired := l\<rparr>) g = gopen st g" for l g by (simp add: gopen_def)
  moreover have "uncalled (st\<lparr>fired := fired st @ [k]\<rparr>) R cb \<longleftrightarrow> uncalled st R cb \<and> cb \<noteq> Consumed k" for cb
    by (cases cb) (auto simp: is_part_def)
  ultimately show ?case using 1 by (auto simp: owns_def)
next
  case (2 g i st)
  have p: "is_part st g i" "\<not> onces (groups st ! g) ! i" using owns_held [OF 2(2,3)] by simp_all
  note m = owns_mark [OF 2(2,3)]
  show ?case
  proof (cases "remaining (groups st ! g) - 1 = 0")
    case True
    let ?f = "g_done (groups st ! g)"
    have "?f \<notin> held" using 2(2) open_part [OF p] by (simp add: owns_def)
    then have "insert ?f (held - {Part g i}) - {?f} = held - {Part g i}" by auto
    with 2(1) [OF conjI [OF p] True, of "insert ?f (held - {Part g i})"] m True p show ?thesis by simp
  next
    case False
    with m p show ?thesis by simp
  qed
qed

text \<open>A callback outside is split: it goes into a new group, the parts go outside.\<close>

lemma owns_split:
  assumes O: "owns st R held" and f: "f \<in> held" and n: "0 < n"
  shows "owns (snd (SplitCompletion (Some f) n st)) R (held - {f} \<union> Part (length (groups st)) ` {..<n})" (is "owns ?st R ?held")
proof -
  let ?g = "length (groups st)" and ?G = "\<lparr>g_done = f, remaining = int n, onces = replicate n False\<rparr>"
  have st: "groups ?st = groups st @ [?G]" "fired ?st = fired st" using n by (simp_all add: SplitCompletion_def)
  have nth: "groups ?st ! g = groups st ! g" if "g < ?g" for g using that by (simp add: st nth_append)
  have new: "groups ?st ! ?g = ?G" by (simp add: st)
  have op: "gopen ?st g \<longleftrightarrow> gopen st g \<or> g = ?g" for g
    using n by (cases "g < ?g") (auto simp: gopen_def st nth_append less_Suc_eq)
  have un: "uncalled ?st R cb \<longleftrightarrow> uncalled st R cb \<or> cb \<in> Part ?g ` {..<n}" for cb
    by (cases cb) (auto simp: is_part_def st nth_append less_Suc_eq)
  have old: "g < ?g" if "gopen st g" for g using that by (simp add: gopen_def)
  have uf: "uncalled st R f" by (rule owns_held [OF O f])
  then have ef: "earlier ?g f" by (cases f) (auto simp: is_part_def)
  have pn: "\<not> uncalled st R (Part ?g i)" for i by (simp add: is_part_def)
  have fp: "f \<notin> Part ?g ` {..<n}" using uf pn by auto
  have d: "g_done (groups st ! g) \<noteq> f" if "gopen st g" for g using O f that by (auto simp: owns_def)
  have "remaining (groups ?st ! g) = int (length (filter Not (onces (groups ?st ! g)))) \<and> earlier g (g_done (groups ?st ! g))"
    if "g < length (groups ?st)" for g
  proof (cases "g < ?g")
    case True
    with O show ?thesis unfolding nth [OF True] by (simp add: owns_def)
  next
    case False
    with that have "g = ?g" by (simp add: st(1))
    then show ?thesis unfolding \<open>g = ?g\<close> new using ef by simp
  qed
  moreover have "uncalled ?st R (g_done (groups ?st ! g)) \<and> g_done (groups ?st ! g) \<notin> ?held" if "gopen ?st g" for g
  proof (cases "g = ?g")
    case True
    then show ?thesis using uf fp by (simp add: new un)
  next
    case False
    then have "gopen st g" using that by (simp add: op)
    then have "uncalled st R (g_done (groups st ! g))" "g_done (groups st ! g) \<notin> held" using O by (auto simp: owns_def)
    moreover from this(1) pn have "g_done (groups st ! g) \<notin> Part ?g ` {..<n}" by auto
    ultimately show ?thesis using nth [OF old [OF \<open>gopen st g\<close>]] by (simp add: un)
  qed
  moreover have "g = g'" if "gopen ?st g" "gopen ?st g'" "g_done (groups ?st ! g) = g_done (groups ?st ! g')" for g g'
    using that O d [of g] d [of g'] by (auto simp: op new nth old owns_def)
  moreover have "cb \<in> ?held \<or> (\<exists>g. gopen ?st g \<and> g_done (groups ?st ! g) = cb)" if "uncalled ?st R cb" for cb
  proof -
    have "cb \<in> held \<or> (\<exists>g. gopen st g \<and> g_done (groups st ! g) = cb) \<or> cb \<in> Part ?g ` {..<n}"
      using that O unfolding un owns_def by blast
    then show ?thesis using new op nth old by (metis DiffI UnI1 UnI2 group.select_convs(1) singletonD)
  qed
  ultimately show ?thesis using O unfolding owns_def by (auto simp: st(2) un)
qed

lemma owns_new:
  assumes "owns st R held" "j \<notin> R"
  shows "owns st (insert j R) (insert (Consumed j) held)"
proof -
  have un: "uncalled st (insert j R) cb \<longleftrightarrow> uncalled st R cb \<or> cb = Consumed j" for cb
    using assms by (cases cb) (auto simp: owns_def)
  have "\<not> uncalled st R (Consumed j)" using assms(2) by simp
  then show ?thesis using assms(1) unfolding owns_def un by auto
qed

section \<open>Lists of callbacks\<close>

definition owned :: "completions \<Rightarrow> nat set \<Rightarrow> callback list \<Rightarrow> bool" where
  "owned st R hs \<longleftrightarrow> distinct hs \<and> owns st R (set hs)"

lemma owned_perm: "mset hs = mset hs' \<Longrightarrow> owned st R hs \<Longrightarrow> owned st R hs'"
  unfolding owned_def using mset_eq_setD mset_eq_imp_distinct_iff by metis

lemma owned_invoke: "owned st R (cb # hs) \<Longrightarrow> owned (invoke cb st) R hs"
  using owns_invoke [of st R "set (cb # hs)" cb] by (auto simp: owned_def simp del: invoke.simps)

lemma owned_split:
  assumes "owned st R (f # hs)" "SplitCompletion (Some f) n st = (cbs, st')"
  shows "owned st' R (cbs @ hs)"
proof (cases "n = 0")
  case True
  then show ?thesis using owned_invoke [OF assms(1)] assms(2) by (auto simp: SplitCompletion_def)
next
  case False
  let ?g = "length (groups st)"
  have o: "owns st R (set (f # hs))" and d: "distinct (f # hs)" using assms(1) by (auto simp: owned_def)
  have cbs: "cbs = map (Part ?g) [0..<n]" using assms(2) False by (auto simp: SplitCompletion_def)
  have "Part ?g i \<notin> set hs" for i
    using owns_held [OF o, of "Part ?g i"] by (auto simp: is_part_def)
  then have "distinct (cbs @ hs)" "set (f # hs) - {f} \<union> Part ?g ` {..<n} = set (cbs @ hs)"
    using d by (auto simp: cbs distinct_map inj_on_def)
  then show ?thesis using owns_split [OF o, of f n] False assms(2) by (simp add: owned_def)
qed

lemma owned_new: "owned st R hs \<Longrightarrow> j \<notin> R \<Longrightarrow> owned st (insert j R) (Consumed j # hs)"
  using owns_held [of st R "set hs" "Consumed j"] owns_new [of st R "set hs" j] by (auto simp: owned_def)

lemma owned_empty: "owned \<lparr>groups = [], fired = []\<rparr> {} []"
proof -
  have "\<not> uncalled \<lparr>groups = [], fired = []\<rparr> {} cb" for cb by (cases cb) (simp_all add: is_part_def)
  then show ?thesis by (simp add: owned_def owns_def gopen_def)
qed

text \<open>Calling only appends to the log of tracker callbacks.\<close>

lemma invoke_fired: "\<exists>l. fired (invoke cb st) = fired st @ l"
proof (induction cb st rule: invoke.induct)
  case (2 g i st)
  then show ?case by (auto simp: mark_def)
qed simp

lemma Split_fired: "\<exists>l. fired (snd (SplitCompletion f n st)) = fired st @ l"
  using invoke_fired by (auto simp: SplitCompletion_def split: option.splits)

end
