(* ===== verification/ClusterSystem.thy ===== *)
theory ClusterSystem
  imports Finish Cluster Ownership
begin

text \<open>
  The kernel with the cluster writer (\<^verbatim>\<open>internal/writer/redis_cluster_writer.go\<close>): one standalone writer per node, and
  \<^verbatim>\<open>Write\<close> hands an entry to the owner of its slot, or a copy with a part of the completion to every node.

  A \<^verbatim>\<open>Write\<close> is not one step: while a goroutine goes through the nodes, other goroutines and the writers run.
  Callbacks are split twice, by the kernel and by the cluster writer; the theory \<open>Ownership\<close> says who owes
  which call.  Proved for every interleaving: a position shown passes nothing that some node may still lose, and a
  run that ends in the regular way ends with the position of the last entry of every node.
\<close>

section \<open>The composed system\<close>

text \<open>
  \<open>cout\<close> holds, for a goroutine inside \<^verbatim>\<open>Write\<close>, what it still has to hand to the nodes; \<open>cmain\<close> the
  same for the main goroutine.
\<close>

record csys =
  ck :: kernel
  cws :: "redisWriter list"
  cout :: "(nat \<times> entry) list option list"
  cmain :: "(nat \<times> entry) list"

text \<open>New completions, with the tracker callbacks they led to.\<close>

definition complete :: "completions \<Rightarrow> kernel \<Rightarrow> kernel" where
  "complete comp' k = k\<lparr>k_comp := comp', k_tracker := fold consumed (drop (length (fired (k_comp k))) (fired comp')) (k_tracker k)\<rparr>"

text \<open>\<^verbatim>\<open>Close\<close> closes the writers one after the other, each after the one before it is closed.\<close>

definition may_close :: "csys \<Rightarrow> nat \<Rightarrow> bool" where
  "may_close s n \<longleftrightarrow> all_done (ck s) \<and> cmain s = [] \<and> (\<forall>m < n. w_Closed (cws s ! m))"

definition cluster_Consistent :: "csys \<Rightarrow> bool" where
  "cluster_Consistent s \<longleftrightarrow> list_all StatusConsistent (cws s)"

inductive cs_step :: "kOptions \<Rightarrow> wOptions \<Rightarrow> nat option list \<Rightarrow> csys \<Rightarrow> csys \<Rightarrow> bool" for opt wopt router where
  kern: "k_step opt (ck s) k' \<Longrightarrow> cs_step opt wopt router s (s\<lparr>ck := k'\<rparr>)"
| begin_write: "\<lbrakk>i < length (k_pc (ck s)); k_pc (ck s) ! i = Writing c (x # xs); cout s ! i = None; entry_Parse x = Inr x';
      cluster_Write (length (cws s)) router x' (k_comp (ck s)) = Inr (ws, comp')\<rbrakk>
    \<Longrightarrow> cs_step opt wopt router s (s\<lparr>ck := complete comp' (ck s), cout := (cout s)[i := Some ws]\<rparr>)"
| write_fails: "\<lbrakk>i < length (k_pc (ck s)); k_pc (ck s) ! i = Writing c (x # xs); cout s ! i = None;
      (case entry_Parse x of Inl f' \<Rightarrow> Inl f' | Inr x' \<Rightarrow> cluster_Write (length (cws s)) router x' (k_comp (ck s))) = Inl f\<rbrakk>
    \<Longrightarrow> cs_step opt wopt router s (s\<lparr>ck := (ck s)\<lparr>k_fault := Some f\<rparr>\<rparr>)"
| node_put: "\<lbrakk>i < length (cout s); cout s ! i = Some ((n, y) # ws); n < length (cws s); w_room wopt (cws s ! n)\<rbrakk>
    \<Longrightarrow> cs_step opt wopt router s (s\<lparr>cws := (cws s)[n := w_put y (cws s ! n)], cout := (cout s)[i := Some ws]\<rparr>)"
| end_write: "\<lbrakk>i < length (cout s); cout s ! i = Some []; k_write i (ck s) = Some (Inr x, k')\<rbrakk>
    \<Longrightarrow> cs_step opt wopt router s (s\<lparr>ck := k', cout := (cout s)[i := None]\<rparr>)"
| main_write: "\<lbrakk>x \<in> {flushall_entry, ping_entry}; \<not> all_done (ck s) \<or> k_pc (ck s) = []; cmain s = [];
      cluster_Write (length (cws s)) router x (k_comp (ck s)) = Inr (ws, comp')\<rbrakk>
    \<Longrightarrow> cs_step opt wopt router s (s\<lparr>ck := complete comp' (ck s), cmain := ws\<rparr>)"
| main_put: "\<lbrakk>cmain s = (n, y) # ws; n < length (cws s); w_room wopt (cws s ! n)\<rbrakk>
    \<Longrightarrow> cs_step opt wopt router s (s\<lparr>cws := (cws s)[n := w_put y (cws s ! n)], cmain := ws\<rparr>)"
| node: "\<lbrakk>n < length (cws s); w_step wopt (cws s ! n) w'; w_accepted w' = w_accepted (cws s ! n);
      w_chClosed w' \<longrightarrow> w_chClosed (cws s ! n) \<or> may_close s n\<rbrakk>
    \<Longrightarrow> cs_step opt wopt router s (s\<lparr>cws := (cws s)[n := w'],
          ck := fold fire (drop (length (w_called (cws s ! n))) (w_called w')) (ck s)\<rparr>)"

definition cs_init :: "nat \<Rightarrow> nat \<Rightarrow> entry list list \<Rightarrow> csys" where
  "cs_init N limit inputs = \<lparr>ck = k_init limit inputs, cws = replicate N NewRedisWriter, cout = map (\<lambda>_. None) inputs, cmain = []\<rparr>"

definition faultless :: "csys \<Rightarrow> bool" where
  "faultless s \<longleftrightarrow> k_fault (ck s) = None \<and> (\<forall>w \<in> set (cws s). w_fault w = None)"

inductive cs_reachable :: "kOptions \<Rightarrow> wOptions \<Rightarrow> nat option list \<Rightarrow> nat \<Rightarrow> nat \<Rightarrow> entry list list \<Rightarrow> csys \<Rightarrow> bool"
  for opt wopt router N limit inputs where
  init: "cs_reachable opt wopt router N limit inputs (cs_init N limit inputs)"
| step: "\<lbrakk>cs_reachable opt wopt router N limit inputs s; faultless s; cs_step opt wopt router s t\<rbrakk>
    \<Longrightarrow> cs_reachable opt wopt router N limit inputs t"

section \<open>Each node\<close>

text \<open>Seen from one node, the system is a run of its writer.\<close>

lemma cs_step_node:
  assumes "cs_step opt wopt router s t"
  shows "length (cws t) = length (cws s) \<and> (\<forall>n < length (cws s). cws t ! n = cws s ! n \<or> w_step wopt (cws s ! n) (cws t ! n))"
  using assms by cases (auto simp: nth_list_update w_put_def w_room_def intro: w_step.put)

lemma cs_nodes: "cs_reachable opt wopt router N limit inputs s \<Longrightarrow> length (cws s) = N"
  by (induction rule: cs_reachable.induct) (auto simp: cs_init_def dest: cs_step_node)

interpretation cn: simulation "cs_init N limit inputs" "\<lambda>s t. faultless s \<and> cs_step opt wopt router s t"
    "cs_reachable opt wopt router N limit inputs" NewRedisWriter "\<lambda>w w'. w_fault w = None \<and> w_step wopt w w'" "w_reachable wopt"
    "\<lambda>s. if n < N then cws s ! n else NewRedisWriter"
  for opt wopt router N limit inputs n
proof (unfold_locales, goal_cases)
  case (3 s I)
  from 3 show ?case by (induction rule: cs_reachable.induct) blast+
next
  case (5 s t)
  then have step: "cs_step opt wopt router s t" and ok: "\<forall>w \<in> set (cws s). w_fault w = None" by (auto simp: faultless_def)
  show ?case
  proof (cases "n < N")
    case True
    then have "cws t ! n = cws s ! n \<or> w_step wopt (cws s ! n) (cws t ! n)" "w_fault (cws s ! n) = None"
      using cs_step_node [OF step] cs_nodes [OF 5(1)] ok by auto
    with True show ?thesis by (elim disjE) (simp_all add: r_into_rtranclp)
  qed simp
qed (rule cs_reachable.init | blast intro: cs_reachable.step | simp add: cs_init_def)+

lemma node_reachable:
  assumes "cs_reachable opt wopt router N limit inputs s" "w \<in> set (cws s)"
  shows "w_reachable wopt w"
proof -
  from assms obtain n where "n < N" "w = cws s ! n" using cs_nodes [OF assms(1)] by (auto simp: in_set_conv_nth)
  with cn.f_reach [OF assms(1), of n] show ?thesis by simp
qed

section \<open>What is owed\<close>

text \<open>Callbacks held by a goroutine, and those of the entries a node has accepted and not acknowledged.\<close>

definition pc_holds :: "kpc \<Rightarrow> (nat \<times> entry) list option \<Rightarrow> callback list" where
  "pc_holds p out = (case p of Tracked e (Some cb) \<Rightarrow> [cb]
     | Writing c xs \<Rightarrow> (case out of None \<Rightarrow> cbs_of xs | Some ws \<Rightarrow> cbs_of (map snd ws) @ cbs_of (tl xs))
     | _ \<Rightarrow> [])"

definition k_holds :: "csys \<Rightarrow> callback list" where
  "k_holds s = concat (map2 pc_holds (k_pc (ck s)) (cout s))"

definition w_holds :: "redisWriter \<Rightarrow> callback list" where
  "w_holds w = drop (length (w_called w)) (cbs_of (w_accepted w))"

definition holds :: "csys \<Rightarrow> callback list" where
  "holds s = k_holds s @ concat (map w_holds (cws s))"

text \<open>The kernel owes exactly the calls in \<open>hs\<close>, and the tracker has seen those that were made.\<close>

definition owes :: "kernel \<Rightarrow> callback list \<Rightarrow> bool" where
  "owes k hs \<longleftrightarrow> owned (k_comp k) {..<length (k_src k)} hs \<and> tracks (k_tracker k) (hist (k_src k) (set (fired (k_comp k))))"

lemma owes_perm: "mset hs = mset hs' \<Longrightarrow> owes k hs \<Longrightarrow> owes k hs'"
  by (auto simp: owes_def intro: owned_perm)

lemma owes_cong: "\<lbrakk>owes k hs; k_comp k' = k_comp k; k_src k' = k_src k; k_tracker k' = k_tracker k\<rbrakk> \<Longrightarrow> owes k' hs"
  by (simp add: owes_def)

lemma owes_complete:
  assumes "owes k hs" "owned comp' {..<length (k_src k)} hs'" "fired comp' = fired (k_comp k) @ l"
  shows "owes (complete comp' k) hs'"
proof -
  have "set (fired comp') = set (fired (k_comp k)) \<union> set l" using assms(3) by simp
  with tracks_fold [of "k_tracker k" "k_src k" "set (fired (k_comp k))" l] assms show ?thesis
    by (simp add: owes_def complete_def)
qed

lemma fire_complete: "fire cb k = complete (invoke cb (k_comp k)) k"
  by (simp add: fire_def complete_def Let_def)

lemma owes_fire: "owes k (cb # hs) \<Longrightarrow> owes (fire cb k) hs"
  using invoke_fired [of cb "k_comp k"] owned_invoke [of "k_comp k" "{..<length (k_src k)}" cb hs] owes_complete
  unfolding fire_complete owes_def [of k] by (metis owes_def)

lemma owes_fold_fire: "owes k (cs @ hs) \<Longrightarrow> owes (fold fire cs k) hs"
  by (induction cs arbitrary: k) (auto dest: owes_fire)

lemma owes_split:
  assumes "owes k (f # hs)" "SplitCompletion (Some f) n (k_comp k) = (cbs, comp')"
  shows "owes (complete comp' k) (cbs @ hs)"
proof -
  obtain l where "fired comp' = fired (k_comp k) @ l" using Split_fired [of "Some f" n "k_comp k"] assms(2) by auto
  moreover have "owned comp' {..<length (k_src k)} (cbs @ hs)" using owned_split [OF _ assms(2)] assms(1) by (simp add: owes_def)
  ultimately show ?thesis using owes_complete [OF assms(1)] by blast
qed

lemma complete_same: "complete (k_comp k) k = k"
  by (simp add: complete_def)

lemma owes_cluster_Write:
  assumes o: "owes k (cbs_of [x] @ hs)" and w: "cluster_Write n router x (k_comp k) = Inr (ws, comp')"
  shows "owes (complete comp' k) (cbs_of (map snd ws) @ hs)"
proof (cases "Slots x = []")
  case False
  then obtain i where "ws = [(i, x)]" "comp' = k_comp k"
    using w by (auto simp: cluster_Write_def split: option.splits if_splits)
  with o show ?thesis by (simp add: complete_same)
next
  case True
  obtain cbs where sp: "SplitCompletion (OnWritten x) n (k_comp k) = (cbs, comp')"
    and ws: "ws = map (\<lambda>i. (i, if OnWritten x = None then x else x\<lparr>OnWritten := Some (cbs ! i)\<rparr>)) [0..<n]"
    using w True by (auto simp: cluster_Write_def split: prod.splits)
  show ?thesis
  proof (cases "OnWritten x")
    case None
    then have "cbs_of (map snd ws) = []" "comp' = k_comp k" using sp ws by (auto simp: SplitCompletion_def intro!: cbs_of_None)
    with o None show ?thesis by (simp add: complete_same)
  next
    case (Some f)
    have "length cbs = n" using sp Some by (auto simp: SplitCompletion_def split: if_splits)
    then have "map snd ws = map2 (\<lambda>x c. x\<lparr>OnWritten := Some c\<rparr>) (replicate n x) cbs"
      by (intro nth_equalityI) (simp_all add: ws Some)
    then have "cbs_of (map snd ws) = cbs" using cbs_of_map2 [of "replicate n x" cbs] \<open>length cbs = n\<close> by simp
    with owes_split [of k f hs n cbs comp'] o sp Some show ?thesis by simp
  qed
qed

section \<open>The invariant\<close>

lemma at_goroutine:
  assumes "i < length ps" "length outs = length ps"
  obtains rest where "\<And>p out. mset (concat (map2 pc_holds (ps[i := p]) (outs[i := out]))) = mset (pc_holds p out @ rest)"
proof
  fix p out
  show "mset (concat (map2 pc_holds (ps[i := p]) (outs[i := out]))) = mset (pc_holds p out @
      concat (map2 pc_holds (take i ps) (take i outs)) @ concat (map2 pc_holds (drop (Suc i) ps) (drop (Suc i) outs)))"
    using assms by (simp add: upd_conv_take_nth_drop zip_append)
qed

lemma at_node:
  assumes "n < length ws"
  obtains rest where "\<And>w. mset (concat (map w_holds (ws[n := w]))) = mset (w_holds w @ rest)"
proof
  fix w
  show "mset (concat (map w_holds (ws[n := w]))) = mset (w_holds w @ concat (map w_holds (take n ws)) @ concat (map w_holds (drop (Suc n) ws)))"
    using assms by (simp add: upd_conv_take_nth_drop)
qed

text \<open>Entries come without callbacks; a goroutine inside \<^verbatim>\<open>Write\<close> is at an entry to be written.\<close>

definition k_clean :: "kernel \<Rightarrow> bool" where
  "k_clean k \<longleftrightarrow> length (k_in k) = length (k_pc k) \<and> (\<forall>es \<in> set (k_in k). \<forall>e \<in> set es. OnWritten e = None) \<and>
     (\<forall>e cb. Tracked e cb \<in> set (k_pc k) \<longrightarrow> OnWritten e = None)"

definition cs_inv :: "csys \<Rightarrow> bool" where
  "cs_inv s \<longleftrightarrow> k_clean (ck s) \<and> length (cout s) = length (k_pc (ck s)) \<and>
     (\<forall>i < length (cout s). cout s ! i \<noteq> None \<longrightarrow> (\<exists>c x xs. k_pc (ck s) ! i = Writing c (x # xs))) \<and>
     cbs_of (map snd (cmain s)) = [] \<and> owes (ck s) (holds s)"

lemma cs_inv_init: "\<forall>es \<in> set inputs. \<forall>e \<in> set es. OnWritten e = None \<Longrightarrow> cs_inv (cs_init N limit inputs)"
proof -
  assume "\<forall>es \<in> set inputs. \<forall>e \<in> set es. OnWritten e = None"
  moreover have "holds (cs_init N limit inputs) = []"
    by (auto simp: holds_def k_holds_def cs_init_def k_init_def w_holds_def NewRedisWriter_def pc_holds_def set_zip)
  moreover have "owes (k_init limit inputs) []"
    using owned_empty tracks_init [of limit] by (simp add: owes_def k_init_def hist_def)
  ultimately show ?thesis by (auto simp: cs_inv_def cs_init_def k_clean_def k_init_def)
qed

text \<open>One goroutine changes its place and what it holds.\<close>

lemma cs_inv_goroutine:
  assumes inv: "cs_inv s" and i: "i < length (k_pc (ck s))"
    and k': "k_pc k' = (k_pc (ck s))[i := p]" "k_clean k'" "out \<noteq> None \<Longrightarrow> \<exists>c x xs. p = Writing c (x # xs)"
    and owe: "\<And>rest. owes (ck s) (pc_holds (k_pc (ck s) ! i) (cout s ! i) @ rest) \<Longrightarrow> owes k' (pc_holds p out @ rest)"
    and t: "t = s\<lparr>ck := k', cout := (cout s)[i := out]\<rparr>"
  shows "cs_inv t"
proof -
  have len: "length (cout s) = length (k_pc (ck s))" using inv by (simp add: cs_inv_def)
  obtain rest where rest: "\<And>p out. mset (concat (map2 pc_holds ((k_pc (ck s))[i := p]) ((cout s)[i := out]))) = mset (pc_holds p out @ rest)"
    using at_goroutine [OF i len] by blast
  let ?r = "rest @ concat (map w_holds (cws s))"
  have "mset (holds s) = mset (pc_holds (k_pc (ck s) ! i) (cout s ! i) @ ?r)"
    using rest [of "k_pc (ck s) ! i" "cout s ! i"] by (simp add: holds_def k_holds_def)
  then have "owes (ck s) (pc_holds (k_pc (ck s) ! i) (cout s ! i) @ ?r)" using inv owes_perm by (metis cs_inv_def)
  then have "owes k' (pc_holds p out @ ?r)" by (rule owe)
  moreover have "mset (pc_holds p out @ ?r) = mset (holds t)" using rest [of p out] by (simp add: t holds_def k_holds_def k'(1))
  moreover have "ck t = k'" by (simp add: t)
  ultimately have "owes (ck t) (holds t)" using owes_perm by metis
  moreover have "\<exists>c x xs. k_pc k' ! l = Writing c (x # xs)" if "l < length (cout s)" "(cout s)[i := out] ! l \<noteq> None" for l
    using that inv k'(1,3) len i by (cases "l = i") (auto simp: cs_inv_def)
  ultimately show ?thesis using inv k'(1,2) len by (auto simp: cs_inv_def t)
qed

lemma cs_inv_same:
  assumes "cs_inv s" "k_pc k' = k_pc (ck s)" "k_clean k'" "k_comp k' = k_comp (ck s)" "k_src k' = k_src (ck s)" "k_tracker k' = k_tracker (ck s)"
  shows "cs_inv (s\<lparr>ck := k'\<rparr>)"
proof -
  have "holds (s\<lparr>ck := k'\<rparr>) = holds s" by (simp add: holds_def k_holds_def assms(2))
  with assms show ?thesis by (auto simp: cs_inv_def intro: owes_cong)
qed

lemma pc_holds_simps [simp]:
  "pc_holds Fetch out = []" "pc_holds ReaderDone out = []" "pc_holds (Tracked e None) out = []" "pc_holds (Tracked e (Some cb)) out = [cb]"
  "pc_holds (Writing c xs) None = cbs_of xs" "pc_holds (Writing c (x # xs)) (Some ws) = cbs_of (map snd ws) @ cbs_of xs"
  "pc_holds (writing c xs) None = cbs_of xs"
  by (simp_all add: pc_holds_def writing_def)

lemma complete_simps [simp]:
  "k_pc (complete comp' k) = k_pc k" "k_in (complete comp' k) = k_in k" "k_src (complete comp' k) = k_src k"
  "k_discard (complete comp' k) = k_discard k" "k_cancelled (complete comp' k) = k_cancelled k" "k_fault (complete comp' k) = k_fault k"
  "k_comp (complete comp' k) = comp'"
  by (simp_all add: complete_def)

lemma note_use_simps [simp]:
  "k_pc (note_use c u k) = k_pc k" "k_in (note_use c u k) = k_in k" "k_src (note_use c u k) = k_src k" "k_comp (note_use c u k) = k_comp k"
  "k_tracker (note_use c u k) = k_tracker k"
  by (simp_all add: note_use_def split: option.splits callback.splits)

lemma split_entries_complete:
  "split_entries cb es k = (if cb = None then es else map2 (\<lambda>x c. x\<lparr>OnWritten := Some c\<rparr>) es (fst (SplitCompletion cb (length es) (k_comp k))),
     complete (snd (SplitCompletion cb (length es) (k_comp k))) k)"
  by (simp add: split_entries_def complete_def split: prod.splits)

text \<open>A goroutine disposes of its tracked entry: what it owed passes to the entries it made.\<close>

lemma owes_split_entries:
  assumes o: "owes k (pc_holds (Tracked e cb) None @ rest)" and es: "\<forall>x \<in> set es. OnWritten x = None"
    and sp: "split_entries cb es k = (es', k')"
  shows "owes k' (cbs_of es' @ rest)"
proof (cases cb)
  case None
  then show ?thesis using o sp cbs_of_None [OF es] by (auto simp: split_entries_def SplitCompletion_def intro: owes_cong)
next
  case (Some f)
  obtain cbs comp' where s: "SplitCompletion (Some f) (length es) (k_comp k) = (cbs, comp')" by force
  then have "length cbs = length es" by (auto simp: SplitCompletion_def split: if_splits)
  then have "cbs_of es' = cbs" "k' = complete comp' k" using sp Some s by (auto simp: split_entries_complete cbs_of_map2)
  with owes_split [of k f rest, OF _ s] o Some show ?thesis by simp
qed

lemma process_owes:
  assumes on: "OnWritten e = None" and nf: "k_fault (process opt i e cb k) = None"
  obtains p where "k_pc (process opt i e cb k) = (k_pc k)[i := p]" "\<And>e cb. p \<noteq> Tracked e cb"
    "\<And>rest. owes k (pc_holds (Tracked e cb) None @ rest) \<Longrightarrow> owes (process opt i e cb k) (pc_holds p None @ rest)"
proof (cases "ProgressOnly e")
  case True
  have "pc_holds (Writing False [e\<lparr>OnWritten := cb\<rparr>]) None = pc_holds (Tracked e cb) None" by (cases cb) simp_all
  then show thesis using True
    by (intro that [of "Writing False [e\<lparr>OnWritten := cb\<rparr>]"]) (auto simp: process_def elim!: owes_cong)
next
  case False
  let ?k = "k\<lparr>ReadCount := ReadCount k + 1\<rparr>"
  have k1: "owes ?k hs" if "owes k hs" for hs using that by (rule owes_cong) simp_all
  from nf False show thesis
  proof (cases rule: process_ok)
    case (dropped e1)
    with False have pr: "process opt i e cb k = note_use cb Dropped (set_pc i Fetch (case cb of None \<Rightarrow> ?k | Some c \<Rightarrow> fire c ?k))"
      by (cases cb) (simp_all add: process_def Let_def)
    show thesis
    proof (rule that [of Fetch])
      show "owes (process opt i e cb k) (pc_holds Fetch None @ rest)" if "owes k (pc_holds (Tracked e cb) None @ rest)" for rest
      proof -
        have "owes (case cb of None \<Rightarrow> ?k | Some c \<Rightarrow> fire c ?k) rest" using k1 [OF that] by (cases cb) (auto dest: owes_fire)
        then show ?thesis unfolding pr by (simp add: owes_cong)
      qed
    qed (auto simp: pr fire_complete split: option.splits)
  next
    case (passed e1 es)
    obtain es' k2 where sp: "split_entries cb es ?k = (es', k2)" by force
    have pc: "k_pc k2 = k_pc k" using sp by (auto simp: split_entries_complete)
    obtain u where pr: "process opt i e cb k = note_use cb u (set_pc i (writing True es') k2)"
      using False passed sp by (simp add: process_def Let_def)
    have es: "\<forall>x \<in> set es. OnWritten x = None" using RunFunction_OnWritten [OF passed(3)] OnWritten_Parse [OF passed(1)] on by simp
    show thesis
    proof (rule that [of "writing True es'"])
      show "owes (process opt i e cb k) (pc_holds (writing True es') None @ rest)" if "owes k (pc_holds (Tracked e cb) None @ rest)" for rest
        using owes_split_entries [OF k1 [OF that] es sp] unfolding pr by (auto elim!: owes_cong)
    qed (auto simp: pr pc)
  qed
qed

lemma k_clean_step:
  assumes "k_clean k" "i < length (k_pc k)" "k_pc k' = (k_pc k)[i := p]" "k_in k' = k_in k \<or> (\<exists>e. k_in k ! i = e # es) \<and> k_in k' = (k_in k)[i := es]"
    "\<And>e cb. p = Tracked e cb \<Longrightarrow> OnWritten e = None"
  shows "k_clean k'"
proof -
  have "\<forall>xs \<in> set (k_in k'). \<forall>e \<in> set xs. OnWritten e = None"
  proof (cases "k_in k' = k_in k")
    case False
    then obtain e where e: "k_in k ! i = e # es" "k_in k' = (k_in k)[i := es]" using assms(4) by blast
    have "k_in k ! i \<in> set (k_in k)" using assms(1,2) by (simp add: k_clean_def)
    with e assms(1) show ?thesis by (auto simp: k_clean_def dest!: set_update_subset_insert [THEN subsetD])
  qed (use assms(1) in \<open>simp add: k_clean_def\<close>)
  moreover have "length (k_in k') = length (k_in k)" using assms(4) by auto
  ultimately show ?thesis using assms(1,3,5) by (auto simp: k_clean_def dest!: set_update_subset_insert [THEN subsetD])
qed

lemma k_clean_head: "\<lbrakk>k_clean k; i < length (k_pc k); k_in k ! i = e # es\<rbrakk> \<Longrightarrow> OnWritten e = None"
  using nth_mem [of i "k_in k"] by (fastforce simp: k_clean_def)

lemma owes_track:
  assumes "owes k hs" "Track (k_tracker k) (SourceNode e) (SourceOffset e) = Some (cb, t')"
    and "k_comp k' = k_comp k" "k_src k' = k_src k @ [e]" "k_tracker k' = t'"
  shows "owes k' (cb # hs)"
proof -
  have t: "tracks (k_tracker k) (hist (k_src k) (set (fired (k_comp k))))" and o: "owned (k_comp k) {..<length (k_src k)} hs"
    using assms(1) by (simp_all add: owes_def)
  have fresh: "length (k_src k) \<notin> set (fired (k_comp k))" using o by (auto simp: owned_def owns_def)
  from tracks_Track [OF t assms(2)] have "tracks t' (hist (k_src k @ [e]) (set (fired (k_comp k))))"
    and cb: "cb = Consumed (length (k_src k))" unfolding hist_track [OF fresh] by (auto simp: hist_def)
  moreover have "owned (k_comp k) {..<length (k_src k @ [e])} (cb # hs)"
    using owned_new [OF o, of "length (k_src k)"] by (simp add: cb lessThan_Suc)
  ultimately show ?thesis using assms(3-5) by (simp add: owes_def)
qed

lemma outside_Write:
  "\<lbrakk>cs_inv s; i < length (k_pc (ck s)); \<And>c x xs. k_pc (ck s) ! i \<noteq> Writing c (x # xs)\<rbrakk> \<Longrightarrow> cout s ! i = None \<and> (cout s)[i := None] = cout s"
proof -
  assume "cs_inv s" "i < length (k_pc (ck s))" "\<And>c x xs. k_pc (ck s) ! i \<noteq> Writing c (x # xs)"
  then have "cout s ! i = None" unfolding cs_inv_def by metis
  then show ?thesis using list_update_id [of "cout s" i] by simp
qed

lemma cs_inv_kern:
  assumes inv: "cs_inv s" and i: "i < length (k_pc (ck s))" "\<And>c x xs. k_pc (ck s) ! i \<noteq> Writing c (x # xs)"
    and k': "k_pc k' = (k_pc (ck s))[i := p]" "k_clean k'"
    and owe: "\<And>rest. owes (ck s) (pc_holds (k_pc (ck s) ! i) None @ rest) \<Longrightarrow> owes k' (pc_holds p None @ rest)"
  shows "cs_inv (s\<lparr>ck := k'\<rparr>)"
  using outside_Write [OF inv i] by (intro cs_inv_goroutine [OF inv i(1) k', of None]) (use owe in auto)

lemma cs_inv_k_step:
  assumes step: "k_step opt (ck s) k'" and inv: "cs_inv s" and nf: "k_fault k' = None"
  shows "cs_inv (s\<lparr>ck := k'\<rparr>)"
proof -
  have cl: "k_clean (ck s)" using inv by (simp add: cs_inv_def)
  have pc_same: "k_pc (ck s) = (k_pc (ck s))[i := Fetch]" if "k_pc (ck s) ! i = Fetch" for i
    using list_update_id [of "k_pc (ck s)" i] that by simp
  from step show ?thesis
  proof (cases rule: k_step.cases)
    case (fetch_discard i e es)
    have "k_clean k'" by (rule k_clean_step [OF cl fetch_discard(2), of _ Fetch es]) (use fetch_discard pc_same in auto)
    then show ?thesis by (intro cs_inv_same [OF inv]) (simp_all add: fetch_discard(1))
  next
    case (fetch i e es)
    have "k_clean k'" by (rule k_clean_step [OF cl fetch(2), of _ "Tracked e None" es]) (use fetch k_clean_head [OF cl fetch(2,4)] in auto)
    then show ?thesis by (intro cs_inv_kern [OF inv fetch(2), of _ "Tracked e None"]) (auto simp: fetch(1,3) elim!: owes_cong)
  next
    case (fetch_track i e es cb t')
    have "k_clean k'" by (rule k_clean_step [OF cl fetch_track(2), of _ "Tracked e (Some cb)" es]) (use fetch_track k_clean_head [OF cl fetch_track(2,4)] in auto)
    then show ?thesis by (intro cs_inv_kern [OF inv fetch_track(2), of _ "Tracked e (Some cb)"])
      (auto simp: fetch_track(1,3) intro: owes_track [OF _ fetch_track(7)])
  next
    case (fetch_cancelled i e es)
    have "k_clean k'" by (rule k_clean_step [OF cl fetch_cancelled(2), of _ Fetch es]) (use fetch_cancelled pc_same in auto)
    then show ?thesis by (intro cs_inv_same [OF inv]) (simp_all add: fetch_cancelled(1))
  next
    case (handle i e cb)
    have on: "OnWritten e = None" using cl handle(2,3) unfolding k_clean_def by (metis nth_mem)
    obtain p where p: "k_pc k' = (k_pc (ck s))[i := p]" "\<And>e cb. p \<noteq> Tracked e cb"
      "\<And>rest. owes (ck s) (pc_holds (Tracked e cb) None @ rest) \<Longrightarrow> owes k' (pc_holds p None @ rest)"
      using process_owes [OF on, of opt i cb "ck s"] nf unfolding handle(1) by metis
    have "k_clean k'" by (rule k_clean_step [OF cl handle(2) p(1)]) (use p(2) process_keeps [of opt i e cb "ck s"] handle(1) in auto)
    with p show ?thesis by (intro cs_inv_kern [OF inv handle(2) _ p(1)]) (auto simp: handle(3))
  next
    case (reader_done i)
    have "k_clean k'" by (rule k_clean_step [OF cl reader_done(2), of _ ReaderDone]) (use reader_done in auto)
    then show ?thesis by (intro cs_inv_kern [OF inv reader_done(2), of _ ReaderDone]) (auto simp: reader_done(1,3) elim!: owes_cong)
  next
    case cancel
    then show ?thesis using cl by (intro cs_inv_same [OF inv]) (simp_all add: k_clean_def)
  qed
qed

section \<open>Writing\<close>

lemma called_prefix:
  assumes "sent_inv w" "reply_inv w"
  shows "cbs_of (w_accepted w) = w_called w @ w_holds w"
proof -
  have "cbs_of (map serialized es) = cbs_of es" for es by (induction es) auto
  then have acc: "cbs_of (w_accepted w) = cbs_of (commands (w_issued w)) @ cbs_of (inflight (w_pc w)) @ cbs_of (w_ch w)"
    using arg_cong [where f = cbs_of, OF conjunct1 [OF assms(1) [unfolded sent_inv_def]]] by simp
  have "prefix (cbs_of (commands (w_handled w))) (cbs_of (commands (w_issued w)) @ cbs_of (inflight (w_pc w)))"
  proof -
    have "(\<exists>l. w_handled w @ l = w_issued w) \<or> (\<exists>e. w_handled w @ waiting w = w_issued w @ [e] \<and> inflight (w_pc w) = [e])"
      using assms(2) by (cases "w_pc w") (auto simp: reply_inv_def)
    then obtain l m where eq: "w_handled w @ l = w_issued w @ m" and m: "m = [] \<or> m = inflight (w_pc w) \<and> (\<exists>e. m = [e])"
      by (metis append_Nil2)
    have "cbs_of (commands (w_handled w)) @ cbs_of (commands l) = cbs_of (commands (w_issued w)) @ cbs_of (commands m)"
      using arg_cong [where f = "\<lambda>x. cbs_of (commands x)", OF eq] by simp
    moreover have "prefix (cbs_of (commands m)) (cbs_of (inflight (w_pc w)))" using m by auto
    ultimately show ?thesis by (metis append_prefixD prefixI same_prefix_prefix)
  qed
  moreover have "w_called w = cbs_of (commands (w_handled w))" using assms(2) by (simp add: reply_inv_def cbs_of_def)
  ultimately have "prefix (w_called w) (cbs_of (w_accepted w))" by (simp add: acc prefix_def) (metis append.assoc)
  then show ?thesis by (auto simp: w_holds_def prefix_def)
qed

lemma called_drop: "\<lbrakk>sent_inv w; reply_inv w; w_called w = cs @ ds; w_accepted w = es\<rbrakk> \<Longrightarrow> drop (length cs) (cbs_of es) = ds @ w_holds w"
  using called_prefix [of w] by simp

lemma w_holds_put: "cbs_of (w_accepted w) = w_called w @ w_holds w \<Longrightarrow> w_holds (w_put y w) = w_holds w @ cbs_of [y]"
  unfolding w_holds_def [of "w_put y w"] by (simp add: w_put_def)

text \<open>An entry passes from a goroutine to a node, and a callback is called for a reply.\<close>

lemma cs_inv_begin:
  assumes inv: "cs_inv s" and i: "i < length (k_pc (ck s))" "k_pc (ck s) ! i = Writing c (x # xs)" "cout s ! i = None"
    and w: "entry_Parse x = Inr x'" "cluster_Write (length (cws s)) router x' (k_comp (ck s)) = Inr (ws, comp')"
  shows "cs_inv (s\<lparr>ck := complete comp' (ck s), cout := (cout s)[i := Some ws]\<rparr>)"
proof (rule cs_inv_goroutine [OF inv i(1), of "complete comp' (ck s)" "Writing c (x # xs)" "Some ws"])
  show "k_pc (complete comp' (ck s)) = (k_pc (ck s))[i := Writing c (x # xs)]" using list_update_id [of "k_pc (ck s)" i] i(2) by simp
  show "k_clean (complete comp' (ck s))" using inv by (simp add: cs_inv_def k_clean_def)
  show "owes (complete comp' (ck s)) (pc_holds (Writing c (x # xs)) (Some ws) @ rest)"
    if "owes (ck s) (pc_holds (k_pc (ck s) ! i) (cout s ! i) @ rest)" for rest
    using owes_cluster_Write [OF _ w(2), of "cbs_of xs @ rest"] that i(2,3) OnWritten_Parse [OF w(1)] by simp
qed simp_all

lemma cs_inv_end:
  assumes inv: "cs_inv s" and i: "i < length (cout s)" "cout s ! i = Some []" and w: "k_write i (ck s) = Some (Inr x', k')"
  shows "cs_inv (s\<lparr>ck := k', cout := (cout s)[i := None]\<rparr>)"
proof -
  from w obtain c x xs where p: "i < length (k_pc (ck s))" "k_pc (ck s) ! i = Writing c (x # xs)"
    and k': "k' = set_pc i (writing c xs) ((ck s)\<lparr>WriteCount := WriteCount (ck s) + (if c then 1 else 0)\<rparr>)"
    by (auto simp: k_write_def split: if_splits kpc.splits list.splits sum.splits)
  have cl: "k_clean (ck s)" using inv by (simp add: cs_inv_def)
  show ?thesis
  proof (rule cs_inv_goroutine [OF inv p(1), of k' "writing c xs" None])
    show "k_clean k'" by (rule k_clean_step [OF cl p(1), of _ "writing c xs"]) (auto simp: k' dest: sym)
    show "owes k' (pc_holds (writing c xs) None @ rest)" if "owes (ck s) (pc_holds (k_pc (ck s) ! i) (cout s ! i) @ rest)" for rest
      using that p(2) i(2) by (auto simp: k' elim!: owes_cong)
  qed (simp_all add: k')
qed

lemma cs_inv_put:
  assumes inv: "cs_inv s" and i: "i < length (cout s)" "cout s ! i = Some ((n, y) # ws)" and n: "n < length (cws s)"
    and pre: "cbs_of (w_accepted (cws s ! n)) = w_called (cws s ! n) @ w_holds (cws s ! n)"
  shows "cs_inv (s\<lparr>cws := (cws s)[n := w_put y (cws s ! n)], cout := (cout s)[i := Some ws]\<rparr>)" (is "cs_inv ?t")
proof -
  have len: "length (cout s) = length (k_pc (ck s))" using inv by (simp add: cs_inv_def)
  then have ik: "i < length (k_pc (ck s))" using i by simp
  obtain c x xs where p: "k_pc (ck s) ! i = Writing c (x # xs)" using inv i unfolding cs_inv_def by blast
  obtain r1 where r1: "\<And>p out. mset (concat (map2 pc_holds ((k_pc (ck s))[i := p]) ((cout s)[i := out]))) = mset (pc_holds p out @ r1)"
    using at_goroutine [OF ik len] by blast
  obtain r2 where r2: "\<And>w. mset (concat (map w_holds ((cws s)[n := w]))) = mset (w_holds w @ r2)" using at_node [OF n] by blast
  have h1: "mset (k_holds s) = mset (pc_holds (k_pc (ck s) ! i) (cout s ! i) @ r1)"
    "mset (k_holds ?t) = mset (pc_holds (k_pc (ck s) ! i) (Some ws) @ r1)"
    using r1 [of "k_pc (ck s) ! i" "cout s ! i"] r1 [of "k_pc (ck s) ! i" "Some ws"] by (simp_all add: k_holds_def)
  have h2: "mset (concat (map w_holds (cws s))) = mset (w_holds (cws s ! n) @ r2)"
    "mset (concat (map w_holds (cws ?t))) = mset (w_holds (cws s ! n) @ cbs_of [y] @ r2)"
    using r2 [of "cws s ! n"] r2 [of "w_put y (cws s ! n)"] by (simp_all add: w_holds_put [OF pre])
  have "mset (holds s) = mset (holds ?t)"
    unfolding holds_def mset_append h1 h2 p i(2) by (simp add: ac_simps)
  then have "owes (ck s) (holds ?t)" by (rule owes_perm) (use inv in \<open>simp add: cs_inv_def\<close>)
  moreover have "\<exists>c x xs. k_pc (ck s) ! l = Writing c (x # xs)" if "l < length (cout s)" "(cout s)[i := Some ws] ! l \<noteq> None" for l
    using that inv p by (cases "l = i") (auto simp: cs_inv_def)
  ultimately show ?thesis using inv len by (auto simp: cs_inv_def)
qed

lemma cs_inv_main_put:
  assumes inv: "cs_inv s" and y: "cmain s = (n, y) # ws" and n: "n < length (cws s)"
    and pre: "cbs_of (w_accepted (cws s ! n)) = w_called (cws s ! n) @ w_holds (cws s ! n)"
  shows "cs_inv (s\<lparr>cws := (cws s)[n := w_put y (cws s ! n)], cmain := ws\<rparr>)" (is "cs_inv ?t")
proof -
  obtain r where r: "\<And>w. mset (concat (map w_holds ((cws s)[n := w]))) = mset (w_holds w @ r)" using at_node [OF n] by blast
  have none: "cbs_of [y] = []" "cbs_of (map snd ws) = []" using inv y by (auto simp: cs_inv_def)
  have "mset (concat (map w_holds (cws s))) = mset (concat (map w_holds (cws ?t)))"
    using r [of "cws s ! n"] r [of "w_put y (cws s ! n)"] none(1) by (simp add: w_holds_put [OF pre])
  then have "mset (holds s) = mset (holds ?t)" by (simp add: holds_def k_holds_def)
  then have "owes (ck s) (holds ?t)" by (rule owes_perm) (use inv in \<open>simp add: cs_inv_def\<close>)
  then show ?thesis using inv none(2) by (simp add: cs_inv_def)
qed

lemma cs_inv_main:
  assumes inv: "cs_inv s" and x: "x \<in> {flushall_entry, ping_entry}"
    and w: "cluster_Write (length (cws s)) router x (k_comp (ck s)) = Inr (ws, comp')"
  shows "cs_inv (s\<lparr>ck := complete comp' (ck s), cmain := ws\<rparr>)"
proof -
  have x': "OnWritten x = None" "Slots x = []" using x by (auto simp: flushall_entry_def ping_entry_def NewEntry_def)
  then have "comp' = k_comp (ck s)" "ws = map (\<lambda>i. (i, x)) [0..<length (cws s)]" using w by (simp_all add: cluster_Write_def SplitCompletion_def)
  moreover from this have "cbs_of (map snd ws) = []" using x'(1) by (intro cbs_of_None) auto
  ultimately show ?thesis using inv by (simp add: cs_inv_def complete_same holds_def k_holds_def)
qed

lemma fold_fire_clean: "k_clean k \<Longrightarrow> k_clean (fold fire cs k)"
  using fire_keeps [of cs k] by (simp add: k_clean_def)

lemma cs_inv_node:
  assumes inv: "cs_inv s" and n: "n < length (cws s)" and w': "w_called w' = w_called (cws s ! n) @ cs" "w_accepted w' = w_accepted (cws s ! n)"
    and t: "sent_inv w'" "reply_inv w'"
  shows "cs_inv (s\<lparr>cws := (cws s)[n := w'], ck := fold fire cs (ck s)\<rparr>)" (is "cs_inv ?t")
proof -
  obtain r where r: "\<And>w. mset (concat (map w_holds ((cws s)[n := w]))) = mset (w_holds w @ r)" using at_node [OF n] by blast
  have "w_holds (cws s ! n) = cs @ w_holds w'"
    using called_prefix [OF t] unfolding w' w_holds_def [of "cws s ! n"] by simp
  then have "mset (holds s) = mset (cs @ holds ?t)"
    using r [of "cws s ! n"] r [of w'] fire_keeps [of cs "ck s"] by (simp add: holds_def k_holds_def)
  then have "owes (ck s) (cs @ holds ?t)" by (rule owes_perm) (use inv in \<open>simp add: cs_inv_def\<close>)
  then have "owes (fold fire cs (ck s)) (holds ?t)" by (rule owes_fold_fire)
  then show ?thesis using inv fire_keeps [of cs "ck s"] fold_fire_clean by (simp add: cs_inv_def)
qed

lemma cs_inv_step:
  assumes step: "cs_step opt wopt router s t" and inv: "cs_inv s" and f: "faultless t"
    and S: "\<forall>w \<in> set (cws s). sent_inv w \<and> reply_inv w" and T: "\<forall>w \<in> set (cws t). sent_inv w \<and> reply_inv w"
  shows "cs_inv t"
  using step
proof (cases rule: cs_step.cases)
  case (kern k')
  then show ?thesis using cs_inv_k_step [OF _ inv] f by (simp add: faultless_def)
next
  case (begin_write i c x xs x' ws comp')
  then show ?thesis using cs_inv_begin [OF inv begin_write(2-6)] by simp
next
  case (write_fails i c x xs fl)
  then show ?thesis using f by (simp add: faultless_def)
next
  case (node_put i n y ws)
  then show ?thesis using cs_inv_put [OF inv node_put(2-4)] S called_prefix by auto
next
  case (end_write i x k')
  then show ?thesis using cs_inv_end [OF inv end_write(2-4)] by simp
next
  case (main_write x ws comp')
  then show ?thesis using cs_inv_main [OF inv main_write(2,5)] by simp
next
  case (main_put n y ws)
  then show ?thesis using cs_inv_main_put [OF inv main_put(2,3)] S called_prefix by auto
next
  case (node n w')
  obtain cs where cs: "w_called w' = w_called (cws s ! n) @ cs" using called_mono [OF node(3)] by blast
  have "w' \<in> set (cws t)" using node(1,2) by (simp add: set_update_memI)
  with T have "sent_inv w'" "reply_inv w'" by auto
  from cs_inv_node [OF inv node(2) cs node(4) this] show ?thesis unfolding node(1) by (simp add: cs)
qed

lemma cs_accepted_mono:
  assumes "cs_step opt wopt router s t" "\<forall>w \<in> set (cws t). \<forall>e \<in> set (w_accepted w). plain e"
  shows "\<forall>w \<in> set (cws s). \<forall>e \<in> set (w_accepted w). plain e"
proof
  fix w assume "w \<in> set (cws s)"
  then obtain n where n: "n < length (cws s)" "w = cws s ! n" by (auto simp: in_set_conv_nth)
  then have "set (w_accepted w) \<subseteq> set (w_accepted (cws t ! n))" "cws t ! n \<in> set (cws t)"
    using cs_step_node [OF assms(1)] accepted_mono by (fastforce, auto)
  with assms(2) show "\<forall>e \<in> set (w_accepted w). plain e" by blast
qed

lemma node_inv:
  assumes "cs_reachable opt wopt router N limit inputs s" "faultless s" "\<not> OffReply wopt" "\<forall>w \<in> set (cws s). \<forall>e \<in> set (w_accepted w). plain e"
  shows "\<forall>w \<in> set (cws s). sent_inv w \<and> reply_inv w"
  using w_reachable_inv [OF node_reachable [OF assms(1)]] assms(2-4) by (auto simp: faultless_def)

lemma cs_reachable_inv:
  assumes "\<not> OffReply wopt" "\<forall>es \<in> set inputs. \<forall>e \<in> set es. OnWritten e = None"
  shows "cs_reachable opt wopt router N limit inputs s \<Longrightarrow> faultless s \<Longrightarrow> \<forall>w \<in> set (cws s). \<forall>e \<in> set (w_accepted w). plain e \<Longrightarrow> cs_inv s"
proof (induction rule: cs_reachable.induct)
  case init
  show ?case by (rule cs_inv_init [OF assms(2)])
next
  case (step s t)
  have plain: "\<forall>w \<in> set (cws s). \<forall>e \<in> set (w_accepted w). plain e" by (rule cs_accepted_mono [OF step.hyps(3) step.prems(2)])
  have t: "cs_reachable opt wopt router N limit inputs t" using step.hyps by (rule cs_reachable.step)
  show ?case
    by (rule cs_inv_step [OF step.hyps(3) step.IH [OF step.hyps(2) plain] step.prems(1)
          node_inv [OF step.hyps(1,2) assms(1) plain] node_inv [OF t step.prems(1) assms(1) step.prems(2)]])
qed

section \<open>Positions\<close>

text \<open>
  Nothing is open for a tracked entry: no goroutine holds a callback made from its own, and whatever a node has
  accepted with such a callback has been acknowledged.
\<close>

definition c_settled :: "csys \<Rightarrow> nat \<Rightarrow> bool" where
  "c_settled s j \<longleftrightarrow> (\<forall>cb. from_root (k_comp (ck s)) j cb \<longrightarrow> cb \<notin> set (k_holds s) \<and>
     (\<forall>w \<in> set (cws s). cb \<in> set (cbs_of (w_accepted w)) \<longrightarrow> cb \<in> set (w_called w)))"

lemma fired_c_settled:
  assumes inv: "cs_inv s" and w: "\<forall>w \<in> set (cws s). sent_inv w \<and> reply_inv w" and j: "j \<in> set (fired (k_comp (ck s)))"
  shows "c_settled s j"
  unfolding c_settled_def
proof (intro allI impI)
  fix cb assume "from_root (k_comp (ck s)) j cb"
  moreover have "owns (k_comp (ck s)) {..<length (k_src (ck s))} (set (holds s))" using inv by (simp add: cs_inv_def owes_def owned_def)
  ultimately have out: "cb \<notin> set (holds s)" using fired_not_held j by blast
  have "cb \<in> set (w_called v)" if "v \<in> set (cws s)" "cb \<in> set (cbs_of (w_accepted v))" for v
  proof -
    have "cb \<notin> set (w_holds v)" using out that(1) by (auto simp: holds_def)
    then show ?thesis using called_prefix [of v] w that by auto
  qed
  with out show "cb \<notin> set (k_holds s) \<and> (\<forall>w \<in> set (cws s). cb \<in> set (cbs_of (w_accepted w)) \<longrightarrow> cb \<in> set (w_called w))"
    by (simp add: holds_def)
qed


section \<open>The end of a run\<close>

lemma cs_fed: "cs_reachable opt wopt router N limit inputs s \<Longrightarrow> fed opt inputs (ck s)"
proof (induction rule: cs_reachable.induct)
  case init
  then show ?case by (simp add: cs_init_def fed_init)
next
  case (step s t)
  from step.hyps(3) show ?case
  proof (cases rule: cs_step.cases)
    case (kern k')
    then show ?thesis using fed_step step.IH by simp
  next
    case (end_write i x k')
    then show ?thesis using fed_write [OF step.IH] by simp
  next
    case (node n w')
    then show ?thesis using fire_keeps by (intro fed_same [OF step.IH]) simp_all
  qed (auto intro: fed_same [OF step.IH])
qed

lemma all_closed_holds:
  assumes inv: "cs_inv s" and d: "all_done (ck s)" and w: "\<forall>w \<in> set (cws s). sent_inv w \<and> reply_inv w \<and> w_Closed w"
  shows "holds s = []"
proof -
  have "w_holds w = []" if "w \<in> set (cws s)" for w
    using closed_drained(6) [of w] w that by (simp add: w_holds_def cbs_of_def)
  moreover have "pc_holds (k_pc (ck s) ! i) (cout s ! i) = []" if "i < length (k_pc (ck s))" for i
  proof -
    have "k_pc (ck s) ! i = ReaderDone" using d nth_mem [OF that] unfolding all_done_def by blast
    then show ?thesis by simp
  qed
  ultimately show ?thesis by (auto simp: holds_def k_holds_def set_zip)
qed


section \<open>A concrete run\<close>

datatype cact = CKern nat | CBegin nat | CPut nat | CEnd nat | CNode nat wact

fun cs_do :: "kOptions \<Rightarrow> wOptions \<Rightarrow> nat option list \<Rightarrow> cact \<Rightarrow> csys \<Rightarrow> csys option" where
  "cs_do opt wopt router (CKern i) s = map_option (\<lambda>k'. s\<lparr>ck := k'\<rparr>) (k_do opt i (ck s))"
| "cs_do opt wopt router (CBegin i) s = (if i < length (k_pc (ck s)) \<and> cout s ! i = None then
     (case k_pc (ck s) ! i of Writing c (x # xs) \<Rightarrow>
        (case entry_Parse x of Inl f \<Rightarrow> None
         | Inr x' \<Rightarrow> (case cluster_Write (length (cws s)) router x' (k_comp (ck s)) of Inl f \<Rightarrow> None
            | Inr (ws, comp') \<Rightarrow> Some (s\<lparr>ck := complete comp' (ck s), cout := (cout s)[i := Some ws]\<rparr>)))
      | _ \<Rightarrow> None) else None)"
| "cs_do opt wopt router (CPut i) s = (if i < length (cout s) then
     (case cout s ! i of Some ((n, y) # ws) \<Rightarrow> if n < length (cws s) \<and> w_room wopt (cws s ! n)
        then Some (s\<lparr>cws := (cws s)[n := w_put y (cws s ! n)], cout := (cout s)[i := Some ws]\<rparr>) else None
      | _ \<Rightarrow> None) else None)"
| "cs_do opt wopt router (CEnd i) s = (if i < length (cout s) \<and> cout s ! i = Some [] then
     (case k_write i (ck s) of Some (Inr x, k') \<Rightarrow> Some (s\<lparr>ck := k', cout := (cout s)[i := None]\<rparr>) | _ \<Rightarrow> None) else None)"
| "cs_do opt wopt router (CNode n a) s = (if n < length (cws s) then
     (case w_do wopt a (cws s ! n) of None \<Rightarrow> None
      | Some w' \<Rightarrow> if w_accepted w' = w_accepted (cws s ! n) \<and> (w_chClosed w' \<longrightarrow> w_chClosed (cws s ! n) \<or> may_close s n)
          then Some (s\<lparr>cws := (cws s)[n := w'], ck := fold fire (drop (length (w_called (cws s ! n))) (w_called w')) (ck s)\<rparr>) else None)
     else None)"

lemma cs_do_step: "cs_do opt wopt router a s = Some t \<Longrightarrow> cs_step opt wopt router s t"
  by (cases a) (auto split: if_splits option.splits sum.splits prod.splits kpc.splits list.splits dest: k_do_step w_do_step intro: cs_step.intros)

fun cs_exec :: "kOptions \<Rightarrow> wOptions \<Rightarrow> nat option list \<Rightarrow> cact list \<Rightarrow> csys \<Rightarrow> csys option" where
  "cs_exec opt wopt router [] s = Some s"
| "cs_exec opt wopt router (a # as) s = (if faultless s then
     (case cs_do opt wopt router a s of None \<Rightarrow> None | Some t \<Rightarrow> cs_exec opt wopt router as t) else None)"

lemma cs_exec_reachable:
  "cs_reachable opt wopt router N limit inputs s \<Longrightarrow> cs_exec opt wopt router as s = Some t \<Longrightarrow> cs_reachable opt wopt router N limit inputs t"
  by (induction "as" arbitrary: s) (auto split: if_splits option.splits dest: cs_do_step intro: cs_reachable.step)

text \<open>A command without keys goes to both nodes of a cluster; its callback is split twice.\<close>

definition demo_answers :: "wact list" where
  "demo_answers = [Advance, Advance, Advance, Advance, Advance, Tick, NextWait, Answer (Inr (RStr ''OK'')), Handle]"

lemma demo_written_parse: "entry_Parse (demo_written c) = Inr (demo_written c)"
  unfolding demo_written_def by (rule Parse_again [OF demo_parse])

definition demo_spread :: csys where
  "demo_spread = \<lparr>ck = (k_init 1 [[demo_source]])\<lparr>k_in := [[]], k_pc := [Writing True [demo_parsed\<lparr>OnWritten := Some (Part 0 0)\<rparr>]],
      k_tracker := \<lparr>t_sources = [(''n'',
        \<lparr>src_queue = [\<lparr>p_id = 0, p_offset = 31, p_done = False\<rparr>], src_offset = 0, src_known = False, src_replID = []\<rparr>)],
        t_slots = 1, t_limit = 1, t_owner = [''n'']\<rparr>,
      k_comp := \<lparr>groups = [\<lparr>g_done = Consumed 0, remaining = 1, onces = [False]\<rparr>, \<lparr>g_done = Part 0 0, remaining = 2, onces = [False, False]\<rparr>],
        fired = []\<rparr>,
      ReadCount := 1, k_src := [demo_source], k_use := [Grouped 0]\<rparr>,
     cws = [NewRedisWriter, NewRedisWriter],
     cout = [Some [(0, demo_parsed\<lparr>OnWritten := Some (Part 1 0)\<rparr>), (1, demo_parsed\<lparr>OnWritten := Some (Part 1 1)\<rparr>)]], cmain = []\<rparr>"

lemma demo_spreads: "cs_exec demo_kopt demo_opt [] [CKern 0, CKern 0, CBegin 0] (cs_init 2 1 [[demo_source]]) = Some demo_spread"
proof -
  have s: "SourceNode demo_source = ''n''" "SourceOffset demo_source = 31" "\<not> ProgressOnly demo_source"
    by (simp_all add: demo_source_def NewEntry_def)
  have sl: "Slots (demo_parsed\<lparr>OnWritten := c\<rparr>) = []" for c by (simp add: demo_parsed_def)
  show ?thesis
    by (simp add: s sl cs_init_def faultless_def k_init_def k_do_def tracked_entry_def demo_kopt_def Track_def NewTracker_def the_source_def
        newSource_def Let_def process_def demo_parse demo_passes RunFunction_def split_entries_def SplitCompletion_def writing_def
        note_use_def set_pc_def Parse_again [OF demo_parse] NewRedisWriter_def demo_opt_def complete_def cluster_Write_def
        demo_spread_def numeral_2_eq_2)
qed

definition demo_cluster_acts :: "cact list" where
  "demo_cluster_acts = [CPut 0, CPut 0] @ map (CNode 1) demo_answers @ map (CNode 0) demo_answers @ [CEnd 0, CKern 0] @
     map (CNode 0) [CloseCh, Advance, Advance] @ map (CNode 1) [CloseCh, Advance, Advance]"

lemma demo_cluster_ends:
  "map_option (\<lambda>s. faultless s \<and> list_all (\<lambda>w. list_all plain (w_accepted w)) (cws s) \<and> shown (k_tracker (ck s)) ''n'' = Some 31 \<and>
     all_done (ck s) \<and> list_all w_Closed (cws s) \<and> \<not> k_cancelled (ck s) \<and> length (cws s) = 2)
     (cs_exec demo_kopt demo_opt [] demo_cluster_acts demo_spread) = Some True"
  unfolding demo_cluster_acts_def demo_answers_def demo_spread_def demo_written_def [symmetric]
  by (simp add: demo_run_simps faultless_def w_room_def k_write_def k_do_def set_pc_def all_done_def w_Closed_def may_close_def
      demo_written_parse writing_def)

lemma demo_cluster_state:
  obtains s where "cs_reachable demo_kopt demo_opt [] 2 1 [[demo_source]] s" "faultless s"
    "\<forall>w \<in> set (cws s). \<forall>e \<in> set (w_accepted w). plain e" "shown (k_tracker (ck s)) ''n'' = Some 31"
    "all_done (ck s)" "\<forall>w \<in> set (cws s). w_Closed w" "\<not> k_cancelled (ck s)" "length (cws s) = 2"
proof -
  from demo_cluster_ends obtain s where s: "cs_exec demo_kopt demo_opt [] demo_cluster_acts demo_spread = Some s"
    and h: "faultless s" "\<forall>w \<in> set (cws s). \<forall>e \<in> set (w_accepted w). plain e" "shown (k_tracker (ck s)) ''n'' = Some 31"
      "all_done (ck s)" "\<forall>w \<in> set (cws s). w_Closed w" "\<not> k_cancelled (ck s)" "length (cws s) = 2"
    by (auto simp: list_all_iff)
  have "cs_reachable demo_kopt demo_opt [] 2 1 [[demo_source]] s"
    by (rule cs_exec_reachable [OF cs_exec_reachable [OF cs_reachable.init demo_spreads] s])
  from that [OF this h] show thesis .
qed

lemma demo_options_ok: "\<not> OffReply demo_opt" "\<forall>es \<in> set [[demo_source]]. \<forall>e \<in> set es. OnWritten e = None"
  by (simp_all add: demo_opt_def demo_source_def NewEntry_def)



end
