(* ===== verification/RdbStructure.thy ===== *)
theory RdbStructure
  imports GoLib
begin

text \<open>
  \<^verbatim>\<open>internal/rdb/structure\<close>: the decoders of the RDB format, from single bytes to the packed
  containers (intset, listpack, ziplist), the LZF decompressor and the module values.

  Every decoder is a \<open>reader\<close>; a byte is its number.  All of them keep the contract
  \<open>stream_reader\<close>.  The decoders are then compared with the encodings of the Redis
  documentation, written here as reference encoders: lengths, strings, compressed strings,
  listpack entries.

  Parsing and formatting of floating-point numbers are the parameters of the record \<open>floatLib\<close>,
  a float being its 64 bits.
\<close>

section \<open>byte.go, int.go, float.go\<close>

definition ReadBytes :: "int \<Rightarrow> string reader" where
  "ReadBytes n s =
     (if n < 0 then Inl (RuntimePanic ''makeslice: len out of range'')
      else if nat n \<le> length s then Inr (take (nat n) s, drop (nat n) s)
      else Inl (LogPanicf ''EOF''))"

definition ReadByte :: "nat reader" where
  "ReadByte = mapR (\<lambda>b. of_char (b ! 0)) (ReadBytes 1)"

fun le_nat :: "string \<Rightarrow> nat" where
  "le_nat [] = 0"
| "le_nat (c # cs) = of_char c + 256 * le_nat cs"

definition be_nat :: "string \<Rightarrow> nat" where
  "be_nat s = le_nat (rev s)"

text \<open>The signed value of \<open>w\<close> bits.\<close>

definition signed :: "nat \<Rightarrow> nat \<Rightarrow> int" where
  "signed w v = (if v < 2 ^ (w - 1) then int v else int v - 2 ^ w)"

definition ReadUint8 :: "nat reader" where "ReadUint8 = ReadByte"
definition ReadUint16 :: "nat reader" where "ReadUint16 = mapR le_nat (ReadBytes 2)"
definition ReadUint24 :: "nat reader" where
  "ReadUint24 = mapR (\<lambda>b. le_nat (b @ [CHR 0x00])) (ReadBytes 3)"
definition ReadUint32 :: "nat reader" where "ReadUint32 = mapR le_nat (ReadBytes 4)"
definition ReadUint64 :: "nat reader" where "ReadUint64 = mapR le_nat (ReadBytes 8)"
definition ReadInt8 :: "int reader" where "ReadInt8 = mapR (signed 8) ReadByte"
definition ReadInt16 :: "int reader" where "ReadInt16 = mapR (signed 16 \<circ> le_nat) (ReadBytes 2)"

text \<open>Three bytes shifted into the top of an \<^verbatim>\<open>int32\<close> and arithmetically back.\<close>

definition ReadInt24 :: "int reader" where
  "ReadInt24 = mapR (\<lambda>b. signed 32 (le_nat (CHR 0x00 # b)) div 256) (ReadBytes 3)"
definition ReadInt32 :: "int reader" where "ReadInt32 = mapR (signed 32 \<circ> le_nat) (ReadBytes 4)"
definition ReadInt64 :: "int reader" where "ReadInt64 = mapR (signed 64 \<circ> le_nat) (ReadBytes 8)"

record floatLib =
  ParseFloat :: "string \<Rightarrow> (64 word) option"
  fmt_17g :: "64 word \<Rightarrow> string"
  fmt_f :: "64 word \<Rightarrow> string"
  fmt_15f :: "64 word \<Rightarrow> string"

definition float_NaN :: "64 word" where "float_NaN = 0x7FF8000000000001"
definition float_PosInf :: "64 word" where "float_PosInf = 0x7FF0000000000000"
definition float_NegInf :: "64 word" where "float_NegInf = 0xFFF0000000000000"

text \<open>A score that ends early is read as 0.\<close>

definition ReadFloat :: "floatLib \<Rightarrow> (64 word) reader" where
  "ReadFloat fl = bindR ReadUint8 (\<lambda>u.
     if u = 253 then retR float_NaN
     else if u = 254 then retR float_PosInf
     else if u = 255 then retR float_NegInf
     else (\<lambda>s. if length s < u then Inr (0, [])
       else (case ParseFloat fl (take u s) of None \<Rightarrow> Inl (LogPanicf ''strconv.ParseFloat'')
         | Some v \<Rightarrow> Inr (v, drop u s))))"

definition ReadDouble :: "(64 word) reader" where
  "ReadDouble = mapR (\<lambda>b. word_of_nat (le_nat b)) (ReadBytes 8)"

section \<open>length.go\<close>

definition first2bits :: "nat \<Rightarrow> nat" where
  "first2bits b = drop_bit 6 (b AND 0xC0)"

text \<open>The value and whether it is a special encoding; both callers stop at an error.\<close>

definition readEncodedLength :: "(nat \<times> bool) reader" where
  "readEncodedLength = bindR ReadByte (\<lambda>b.
     if first2bits b = 0 then retR (b AND 0x3F, False)
     else if first2bits b = 1 then mapR (\<lambda>b'. (push_bit 8 (b AND 0x3F) OR b', False)) ReadByte
     else if first2bits b = 2 then
       (if b = 0x80 then mapR (\<lambda>s. (be_nat s, False)) (ReadBytes 4)
        else if b = 0x81 then mapR (\<lambda>s. (be_nat s, False)) (ReadBytes 8)
        else failR (LogPanicf ''illegal length encoding''))
     else retR (b AND 0x3F, True))"

definition ReadLength :: "nat reader" where
  "ReadLength = bindR readEncodedLength (\<lambda>(len, special).
     if special then failR (LogPanicf ''illegal length special=true'') else retR len)"

text \<open>\<^verbatim>\<open>int(x)\<close> and \<^verbatim>\<open>int64(x)\<close> of a \<^verbatim>\<open>uint64\<close>.\<close>

definition int64 :: "nat \<Rightarrow> int" where "int64 = signed 64"

section \<open>string.go\<close>

fun lz_copy :: "nat \<Rightarrow> nat \<Rightarrow> string \<Rightarrow> string" where
  "lz_copy 0 ref out = out"
| "lz_copy (Suc k) ref out = lz_copy k (Suc ref) (out @ [out ! ref])"

definition lz_index :: fault where "lz_index = RuntimePanic ''index out of range''"

text \<open>
  The loop, on the input left and the bytes written so far (\<^verbatim>\<open>out[:o]\<close>); \<open>n\<close> is the length of \<^verbatim>\<open>out\<close>.
  A back reference always points below \<^verbatim>\<open>o\<close>, so what lies above is never read.
\<close>

definition lz_backref :: "nat \<Rightarrow> nat \<Rightarrow> nat \<Rightarrow> nat \<Rightarrow> string \<Rightarrow> string res" where
  "lz_backref n ctrl len low out =
     (let ref = int (length out) - int (push_bit 8 (ctrl AND 0x1F)) - int low - 1
      in if ref < 0 \<or> length out + len + 2 > n then Inl lz_index
         else Inr (lz_copy (len + 2) (nat ref) out))"

function lzf_loop :: "nat \<Rightarrow> string \<Rightarrow> string \<Rightarrow> string res" where
  "lzf_loop n [] out = (if length out \<noteq> n then Inl (LogPanicf ''lzf decompress failed'') else Inr out)"
| "lzf_loop n (c # cs) out =
     (let ctrl = (of_char c :: nat) in
      if ctrl < 32 then
        (if length cs < ctrl + 1 \<or> length out + ctrl + 1 > n then Inl lz_index
         else lzf_loop n (drop (ctrl + 1) cs) (out @ take (ctrl + 1) cs))
      else if drop_bit 5 ctrl = 7 then
        (case cs of
           l # d # ds \<Rightarrow> (case lz_backref n ctrl (7 + of_char l) (of_char d) out of
              Inl f \<Rightarrow> Inl f | Inr out' \<Rightarrow> lzf_loop n ds out')
         | _ \<Rightarrow> Inl lz_index)
      else
        (case cs of
           d # ds \<Rightarrow> (case lz_backref n ctrl (drop_bit 5 ctrl) (of_char d) out of
              Inl f \<Rightarrow> Inl f | Inr out' \<Rightarrow> lzf_loop n ds out')
         | _ \<Rightarrow> Inl lz_index))"
  by pat_completeness auto
termination by (relation "measure (\<lambda>(n, s, out). length s)") auto

definition lzfDecompress :: "string \<Rightarrow> int \<Rightarrow> string res" where
  "lzfDecompress inp outLen =
     (if outLen < 0 then Inl (RuntimePanic ''makeslice: len out of range'')
      else lzf_loop (nat outLen) inp [])"

text \<open>A pure step inside a reader.\<close>

definition liftR :: "'a res \<Rightarrow> 'a reader" where
  "liftR r = (case r of Inl f \<Rightarrow> failR f | Inr x \<Rightarrow> retR x)"

definition ReadString :: "string reader" where
  "ReadString = bindR readEncodedLength (\<lambda>(len, special).
     if special then
       (if len = 0 then mapR Itoa ReadInt8
        else if len = 1 then mapR Itoa ReadInt16
        else if len = 2 then mapR Itoa ReadInt32
        else if len = 3 then
          bindR ReadLength (\<lambda>inLen. bindR ReadLength (\<lambda>outLen.
            bindR (ReadBytes (int64 inLen)) (\<lambda>inp. liftR (lzfDecompress inp (int64 outLen)))))
        else failR (LogPanicf ''Unknown string encode type''))
     else ReadBytes (int64 len))"

section \<open>Containers inside a string\<close>

text \<open>
  \<^verbatim>\<open>bufio.NewReader(strings.NewReader(ReadString(rd)))\<close>: a container is decoded from the string that
  holds it; what it leaves of the string is dropped.
\<close>

definition within :: "'a reader \<Rightarrow> 'a reader" where
  "within p = bindR ReadString (\<lambda>s. liftR (map_sum id fst (p s)))"

definition intset_elem :: "nat \<Rightarrow> string reader" where
  "intset_elem enc = mapR (\<lambda>b.
     if enc = 2 then Itoa (signed 16 (le_nat b))
     else if enc = 4 then Itoa (signed 32 (le_nat b))
     else if enc = 8 then Itoa (signed 64 (le_nat b))
     else []) (ReadBytes (int enc))"

definition intset_body :: "string list reader" where
  "intset_body = bindR ReadUint32 (\<lambda>enc. bindR ReadUint32 (\<lambda>size. timesR size (intset_elem enc)))"

definition ReadIntset :: "string list reader" where
  "ReadIntset = within intset_body"

subsection \<open>listpack.go\<close>

definition lpEncodeBacklen :: "int \<Rightarrow> int" where
  "lpEncodeBacklen len =
     (if len \<le> 127 then 1 else if len < 16383 then 2 else if len < 2097151 then 3
      else if len < 268435455 then 4 else 5)"

definition skip_backlen :: "int \<Rightarrow> 'a \<Rightarrow> 'a reader" where
  "skip_backlen len x = mapR (\<lambda>_. x) (ReadBytes (lpEncodeBacklen len))"

text \<open>The unsigned value read as two's complement.\<close>

definition lp_int :: "nat \<Rightarrow> nat \<Rightarrow> nat \<Rightarrow> string" where
  "lp_int uval negstart negmax =
     Itoa (if uval \<ge> negstart then - int (negmax - uval) - 1 else int uval)"

definition lp_str :: "int \<Rightarrow> int \<Rightarrow> string reader" where
  "lp_str hdr len = bindR (ReadBytes len) (\<lambda>ele. skip_backlen (hdr + len) ele)"

definition readListpackEntry :: "string reader" where
  "readListpackEntry = bindR ReadByte (\<lambda>b.
     if b AND 0x80 = 0x00 then skip_backlen 1 (lp_int (b AND 0x7F) 18446744073709551615 0)
     else if b AND 0xC0 = 0x80 then lp_str 1 (int (b AND 0x3F))
     else if b AND 0xE0 = 0xC0 then
       bindR ReadByte (\<lambda>b2. skip_backlen 2 (lp_int (push_bit 8 (b AND 0x1F) + b2) (2 ^ 12) 8191))
     else if b = 0xF1 then bindR ReadUint16 (\<lambda>u. skip_backlen 3 (lp_int u (2 ^ 15) 65535))
     else if b = 0xF2 then bindR ReadUint24 (\<lambda>u. skip_backlen 4 (lp_int u (2 ^ 23) 16777215))
     else if b = 0xF3 then bindR ReadUint32 (\<lambda>u. skip_backlen 5 (lp_int u (2 ^ 31) 4294967295))
     else if b = 0xF4 then bindR ReadUint64 (\<lambda>u. skip_backlen 9 (lp_int u (2 ^ 63) 18446744073709551615))
     else if b AND 0xF0 = 0xE0 then
       bindR ReadByte (\<lambda>b2. lp_str 2 (int (push_bit 8 (b AND 0x0F) + b2)))
     else if b = 0xF0 then bindR ReadUint32 (\<lambda>len. lp_str 5 (int len))
     else failR (LogPanicf ''unknown encoding''))"

definition end_byte :: "string \<Rightarrow> 'a \<Rightarrow> 'a reader" where
  "end_byte msg x = bindR ReadByte (\<lambda>b. if b \<noteq> 0xFF then failR (LogPanicf msg) else retR x)"

definition listpack_body :: "string list reader" where
  "listpack_body = bindR ReadUint32 (\<lambda>_. bindR ReadUint16 (\<lambda>size.
     bindR (timesR size readListpackEntry) (end_byte ''ReadListpack: last byte is not 0xFF'')))"

definition ReadListpack :: "string list reader" where
  "ReadListpack = within listpack_body"

subsection \<open>ziplist.go\<close>

definition zip_value :: "nat \<Rightarrow> string reader" where
  "zip_value b =
     (if first2bits b = 0 then ReadBytes (int (b AND 0x3F))
      else if first2bits b = 1 then
        bindR ReadByte (\<lambda>b2. ReadBytes (int (push_bit 8 (b AND 0x3F) OR b2)))
      else if first2bits b = 2 then bindR (ReadBytes 4) (\<lambda>l. ReadBytes (int (be_nat l)))
      else if b = 0xFE then mapR Itoa ReadInt8
      else if b = 0xC0 then mapR Itoa ReadInt16
      else if b = 0xF0 then mapR Itoa ReadInt24
      else if b = 0xD0 then mapR Itoa ReadInt32
      else if b = 0xE0 then mapR Itoa ReadInt64
      else if drop_bit 4 b = 0x0F then
        (let v = int (b AND 0x0F) - 1
         in if v < 0 \<or> v > 12 then failR (LogPanicf ''invalid zipInt04B encoding'') else retR (Itoa v))
      else failR (LogPanicf ''invalid encoding''))"

definition readZipListEntry :: "nat \<Rightarrow> string reader" where
  "readZipListEntry b0 =
     bindR (if b0 = 0xFE then mapR (\<lambda>_. ()) ReadUint32 else retR ()) (\<lambda>_. bindR ReadByte zip_value)"

section \<open>The contract\<close>

lemma stream_ReadBytes [stream_intros]: "stream_reader (ReadBytes n)"
proof
  fix s x s' assume "ReadBytes n s = Inr (x, s')"
  then have "s = take (nat n) s @ s'" by (auto simp: ReadBytes_def split: if_splits)
  then show "\<exists>v. s = v @ s'" by blast
next
  fix v s' x t assume a: "ReadBytes n (v @ s') = Inr (x, s')"
  then have n: "\<not> n < 0" "nat n \<le> length (v @ s')" "drop (nat n) (v @ s') = s'" "x = take (nat n) (v @ s')"
    by (auto simp: ReadBytes_def split: if_splits)
  from arg_cong [where f = length, OF n(3)] n(2) have "nat n = length v" by simp
  with n show "ReadBytes n (v @ t) = Inr (x, t)" by (simp add: ReadBytes_def)
qed

lemmas reader_defs = ReadByte_def ReadUint8_def ReadUint16_def ReadUint24_def ReadUint32_def
  ReadUint64_def ReadInt8_def ReadInt16_def ReadInt24_def ReadInt32_def ReadInt64_def ReadDouble_def

lemma stream_numbers [stream_intros]:
  "stream_reader ReadByte" "stream_reader ReadUint8" "stream_reader ReadUint16" "stream_reader ReadUint24"
  "stream_reader ReadUint32" "stream_reader ReadUint64" "stream_reader ReadInt8" "stream_reader ReadInt16"
  "stream_reader ReadInt24" "stream_reader ReadInt32" "stream_reader ReadInt64" "stream_reader ReadDouble"
  unfolding reader_defs by (intro stream_intros)+

lemma stream_liftR [stream_intros]: "stream_reader (liftR r)"
  unfolding liftR_def by (intro stream_intros)

lemma stream_float_tail:
  "stream_reader (\<lambda>s. if length s < u then Inr (z, [])
     else (case g (take u s) of None \<Rightarrow> Inl e | Some v \<Rightarrow> Inr (v, drop u s)))" (is "stream_reader ?rd")
proof
  fix s x s' assume a: "?rd s = Inr (x, s')"
  then have "s = (if length s < u then s else take u s) @ s'"
    by (auto split: if_splits option.splits)
  then show "\<exists>v. s = v @ s'" by blast
next
  fix v s' x t assume a: "?rd (v @ s') = Inr (x, s')" and ne: "s' \<noteq> []"
  from a ne have n: "u \<le> length (v @ s')" "drop u (v @ s') = s'" "g (take u (v @ s')) = Some x"
    by (auto split: if_splits option.splits)
  from arg_cong [where f = length, OF n(2)] n(1) have u: "u = length v" by simp
  from n(3) show "?rd (v @ t) = Inr (x, t)" unfolding u by simp
qed

lemma stream_ReadFloat [stream_intros]: "stream_reader (ReadFloat fl)"
  unfolding ReadFloat_def by (intro stream_intros stream_float_tail)

lemma stream_readEncodedLength [stream_intros]: "stream_reader readEncodedLength"
  unfolding readEncodedLength_def by (intro stream_intros)

lemma stream_ReadLength [stream_intros]: "stream_reader ReadLength"
  unfolding ReadLength_def by (intro stream_intros)

lemma stream_ReadString [stream_intros]: "stream_reader ReadString"
  unfolding ReadString_def by (intro stream_intros)

lemma stream_within [stream_intros]: "stream_reader (within p)"
  unfolding within_def by (intro stream_intros)

lemma stream_skip_backlen [stream_intros]: "stream_reader (skip_backlen len x)"
  unfolding skip_backlen_def by (intro stream_intros)

lemma stream_zip_value [stream_intros]: "stream_reader (zip_value b)"
  unfolding zip_value_def Let_def by (intro stream_intros)

lemma stream_readZipListEntry [stream_intros]: "stream_reader (readZipListEntry b)"
  unfolding readZipListEntry_def by (intro stream_intros)

subsection \<open>ReadZipList\<close>

text \<open>
  The loop for a ziplist whose element count is not stored; it stops at the byte 0xFE.
\<close>

lemma ReadByte_shorter: "ReadByte s = Inr (b, s') \<Longrightarrow> length s' < length s"
  by (auto simp: ReadByte_def mapR_def ReadBytes_def bindR_def split: if_splits)

function zip_until :: "string list reader" where
  "zip_until s = (case ReadByte s of Inl f \<Rightarrow> Inl f
     | Inr (b, s1) \<Rightarrow> if b = 0xFE then Inr ([], s1)
         else (case readZipListEntry b s1 of Inl f \<Rightarrow> Inl f
           | Inr (x, s2) \<Rightarrow> (case zip_until s2 of Inl f \<Rightarrow> Inl f
               | Inr (xs, s3) \<Rightarrow> Inr (x # xs, s3))))"
  by pat_completeness auto
termination
  by (relation "measure length")
    (auto dest!: ReadByte_shorter stream_reader.rest_le [OF stream_readZipListEntry])

declare zip_until.simps [simp del]

definition ziplist_body :: "string list reader" where
  "ziplist_body = bindR ReadUint32 (\<lambda>_. bindR ReadUint32 (\<lambda>_. bindR ReadUint16 (\<lambda>size.
     if size = 65535 then zip_until
     else bindR (timesR size (bindR ReadByte readZipListEntry))
            (end_byte ''invalid zipList lastByte encoding''))))"

definition ReadZipList :: "string list reader" where
  "ReadZipList = within ziplist_body"

section \<open>module2\_struct.go\<close>

definition module_op :: "nat \<Rightarrow> string \<Rightarrow> 'a reader \<Rightarrow> 'a reader" where
  "module_op opcode msg p = bindR ReadByte (\<lambda>b. if b \<noteq> opcode then failR (RuntimePanic msg) else p)"

definition ReadModuleUnsigned :: "string reader" where
  "ReadModuleUnsigned = module_op 2 ''Unknown module unsigned encode type'' (mapR FormatUint ReadLength)"

definition ReadModuleSigned :: "string reader" where
  "ReadModuleSigned = module_op 1 ''Unknown module signed encode type'' (mapR FormatUint ReadLength)"

definition ReadModuleFloat :: "floatLib \<Rightarrow> string reader" where
  "ReadModuleFloat fl = module_op 4 ''Unknown module double encode type'' (mapR (fmt_f fl) ReadDouble)"

definition ReadModuleDouble :: "floatLib \<Rightarrow> string reader" where
  "ReadModuleDouble fl = module_op 4 ''Unknown module double encode type'' (mapR (fmt_15f fl) ReadDouble)"

definition ReadModuleString :: "string reader" where
  "ReadModuleString = module_op 5 ''Unknown module string encode type'' ReadString"

definition ReadModuleEof :: "unit reader" where
  "ReadModuleEof = bindR ReadLength (\<lambda>v.
     if v \<noteq> 0 then failR (RuntimePanic ''not teminated by the proper module value EOF marker'') else retR ())"

lemma stream_containers [stream_intros]:
  "stream_reader ReadIntset" "stream_reader ReadListpack" "stream_reader ReadZipList"
  unfolding ReadIntset_def ReadListpack_def ReadZipList_def by (intro stream_intros)+

lemma stream_module [stream_intros]:
  "stream_reader ReadModuleUnsigned" "stream_reader ReadModuleSigned" "stream_reader (ReadModuleFloat fl)"
  "stream_reader (ReadModuleDouble fl)" "stream_reader ReadModuleString" "stream_reader ReadModuleEof"
  unfolding ReadModuleUnsigned_def ReadModuleSigned_def ReadModuleFloat_def ReadModuleDouble_def
    ReadModuleString_def ReadModuleEof_def module_op_def
  by (intro stream_intros)+

section \<open>Bytes and bits\<close>

definition byte :: "nat \<Rightarrow> char" where "byte n = char_of n"

lemma of_char_byte [simp]: "n < 256 \<Longrightarrow> (of_char (byte n) :: nat) = n"
  by (simp add: byte_def)

lemma ReadByte_byte [simp]: "n < 256 \<Longrightarrow> ReadByte (byte n # t) = Inr (n, t)"
  by (simp add: ReadByte_def mapR_def bindR_def ReadBytes_def)

lemma ReadBytes_append [simp]: "n = int (length b) \<Longrightarrow> ReadBytes n (b @ t) = Inr (b, t)"
  by (simp add: ReadBytes_def)

fun le_bytes :: "nat \<Rightarrow> nat \<Rightarrow> string" where
  "le_bytes 0 n = []"
| "le_bytes (Suc k) n = byte (n mod 256) # le_bytes k (n div 256)"

definition be_bytes :: "nat \<Rightarrow> nat \<Rightarrow> string" where
  "be_bytes k n = rev (le_bytes k n)"

lemma length_le_bytes [simp]: "length (le_bytes k n) = k"
  by (induction k arbitrary: n) auto

lemma length_be_bytes [simp]: "length (be_bytes k n) = k"
  by (simp add: be_bytes_def)

lemma le_nat_le_bytes [simp]: "n < 256 ^ k \<Longrightarrow> le_nat (le_bytes k n) = n"
proof (induction k arbitrary: n)
  case (Suc k)
  have "n div 256 < 256 ^ k" using Suc.prems by (simp add: less_mult_imp_div_less mult.commute)
  with Suc.IH show ?case by (simp add: mod_div_decomp)
qed simp

lemma be_nat_be_bytes [simp]: "n < 256 ^ k \<Longrightarrow> be_nat (be_bytes k n) = n"
  by (simp add: be_nat_def be_bytes_def)

lemma and_push_bit: "a AND push_bit n m = push_bit n (drop_bit n a AND m)" for a m :: nat
  by (rule bit_eqI) (auto simp: bit_simps)

lemma low_bits [simp]:
  fixes b :: nat
  shows "b AND 0x0F = b mod 16" "b AND 0x1F = b mod 32" "b AND 0x3F = b mod 64" "b AND 0x7F = b mod 128"
  using take_bit_eq_mask [of 4 b] take_bit_eq_mask [of 5 b] take_bit_eq_mask [of 6 b] take_bit_eq_mask [of 7 b]
  by (simp_all add: take_bit_eq_mod mask_eq_exp_minus_1)

lemma high_bits [simp]:
  fixes b :: nat assumes "b < 256"
  shows "b AND 0x80 = 128 * (b div 128)" "b AND 0xC0 = 64 * (b div 64)"
    "b AND 0xE0 = 32 * (b div 32)" "b AND 0xF0 = 16 * (b div 16)"
proof -
  have m: "x AND 1 = x mod 2" "x AND 3 = x mod 4" "x AND 7 = x mod 8" "x AND 15 = x mod 16" for x :: nat
    using take_bit_eq_mask [of 1 x] take_bit_eq_mask [of 2 x] take_bit_eq_mask [of 3 x] take_bit_eq_mask [of 4 x]
    by (simp_all add: take_bit_eq_mod mask_eq_exp_minus_1)
  have "b AND push_bit 7 1 = push_bit 7 (drop_bit 7 b AND 1)" "b AND push_bit 6 3 = push_bit 6 (drop_bit 6 b AND 3)"
    "b AND push_bit 5 7 = push_bit 5 (drop_bit 5 b AND 7)" "b AND push_bit 4 15 = push_bit 4 (drop_bit 4 b AND 15)"
    by (simp_all only: and_push_bit)
  then show "b AND 0x80 = 128 * (b div 128)" "b AND 0xC0 = 64 * (b div 64)"
    "b AND 0xE0 = 32 * (b div 32)" "b AND 0xF0 = 16 * (b div 16)"
    using assms by (simp_all add: m push_bit_eq_mult drop_bit_eq_div mult.commute)
qed

lemma first2bits_eq [simp]: "b < 256 \<Longrightarrow> first2bits b = b div 64"
  by (simp add: first2bits_def drop_bit_eq_div)

lemma or_low: "b2 < 256 \<Longrightarrow> push_bit 8 a OR b2 = 256 * a + b2" for a b2 :: nat
proof -
  assume "b2 < 256"
  then have "b2 = take_bit 8 b2" by (simp add: take_bit_eq_mod)
  then have "push_bit 8 a OR b2 = push_bit 8 a + b2"
    by (intro disjunctive_add [symmetric]) (metis bit_push_bit_iff bit_take_bit_iff not_le)
  then show ?thesis by (simp add: push_bit_eq_mult)
qed

lemma hi_lo: "q < m \<Longrightarrow> (a * m + q) div m = a" "q < m \<Longrightarrow> (a * m + q) mod m = q" for a m q :: nat
  by simp_all

section \<open>Lengths and strings\<close>

text \<open>The length encoding of the RDB format: 6, 14, 32 or 64 bits.\<close>

definition enc_len :: "nat \<Rightarrow> string" where
  "enc_len n =
     (if n < 64 then [byte n]
      else if n < 16384 then [byte (64 + n div 256), byte (n mod 256)]
      else if n < 2 ^ 32 then byte 0x80 # be_bytes 4 n
      else byte 0x81 # be_bytes 8 n)"

lemma readEncodedLength_enc:
  assumes "n < 2 ^ 64"
  shows "readEncodedLength (enc_len n @ t) = Inr ((n, False), t)"
proof -
  have [simp]: "(64 + n div 256) div 64 = 1" "(64 + n div 256) mod 64 = n div 256" if "n < 16384"
    using that by auto
  have [simp]: "256 * (n div 256) + n mod 256 = n" by simp
  show ?thesis
    using assms unfolding readEncodedLength_def enc_len_def
    by (auto simp: or_low)
qed

lemma ReadLength_enc: "n < 2 ^ 64 \<Longrightarrow> ReadLength (enc_len n @ t) = Inr (n, t)"
  by (simp add: ReadLength_def readEncodedLength_enc)

lemma int64_small: "n < 2 ^ 63 \<Longrightarrow> int64 n = int n"
  by (simp add: int64_def signed_def)

text \<open>Two's complement in \<open>k\<close> bytes.\<close>

definition twos :: "nat \<Rightarrow> int \<Rightarrow> nat" where
  "twos w i = nat (i mod 2 ^ w)"

lemma signed_twos:
  assumes "0 < w" "- (2 ^ (w - 1)) \<le> i" "i < 2 ^ (w - 1)"
  shows "twos w i < 2 ^ w" "signed w (twos w i) = i"
proof -
  have p: "(2 :: int) ^ w = 2 * 2 ^ (w - 1)" using assms(1) by (cases w) auto
  show lt: "twos w i < 2 ^ w" by (simp add: twos_def nat_less_iff)
  show "signed w (twos w i) = i"
  proof (cases "0 \<le> i")
    case True
    then have "i mod 2 ^ w = i" using assms(3) p by (intro mod_pos_pos_trivial) auto
    with True assms(3) show ?thesis by (simp add: signed_def twos_def nat_less_iff)
  next
    case False
    have "i mod 2 ^ w = (i + 2 ^ w) mod 2 ^ w" by simp
    also have "\<dots> = i + 2 ^ w" using False assms(2) p by (intro mod_pos_pos_trivial) auto
    finally have m: "i mod 2 ^ w = i + 2 ^ w" .
    have "\<not> nat (i + 2 ^ w) < 2 ^ (w - 1)" using assms(2) p by (simp add: nat_less_iff)
    moreover have "0 \<le> i + 2 ^ w"
      using assms(2) p zero_less_power [of "2 :: int" "w - 1"] by linarith
    ultimately show ?thesis by (simp add: signed_def twos_def m)
  qed
qed

subsection \<open>LZF\<close>

text \<open>
  A compressed string is a sequence of literals (1 to 32 bytes) and back references, a length (3
  to 264) and a distance (1 to 8192).  A back reference continues the output with period
  \<open>dist\<close>.
\<close>

datatype lztok = Lit string | Back nat nat

fun lz_valid :: "lztok list \<Rightarrow> nat \<Rightarrow> bool" where
  "lz_valid [] n = True"
| "lz_valid (Lit bs # ts) n = (bs \<noteq> [] \<and> length bs \<le> 32 \<and> lz_valid ts (n + length bs))"
| "lz_valid (Back dist len # ts) n =
     (1 \<le> dist \<and> dist \<le> 8192 \<and> dist \<le> n \<and> 3 \<le> len \<and> len \<le> 264 \<and> lz_valid ts (n + len))"

definition periodic :: "nat \<Rightarrow> nat \<Rightarrow> string \<Rightarrow> string" where
  "periodic dist len out = map (\<lambda>i. out ! (length out - dist + i mod dist)) [0..<len]"

fun lz_expand :: "lztok list \<Rightarrow> string \<Rightarrow> string" where
  "lz_expand [] out = out"
| "lz_expand (Lit bs # ts) out = lz_expand ts (out @ bs)"
| "lz_expand (Back dist len # ts) out = lz_expand ts (out @ periodic dist len out)"

fun lz_enc :: "lztok \<Rightarrow> string" where
  "lz_enc (Lit bs) = byte (length bs - 1) # bs"
| "lz_enc (Back dist len) =
     (if len < 9 then [byte (32 * (len - 2) + (dist - 1) div 256), byte ((dist - 1) mod 256)]
      else [byte (224 + (dist - 1) div 256), byte (len - 9), byte ((dist - 1) mod 256)])"

lemma periodic_nth:
  assumes "1 \<le> dist" "dist \<le> length out" "k < len"
  shows "(out @ periodic dist k out) ! (length out - dist + k) = out ! (length out - dist + k mod dist)"
proof (cases "k < dist")
  case True
  with assms have "length out - dist + k < length out" by simp
  with True show ?thesis by (simp add: nth_append)
next
  case False
  with assms have "length out - dist + k = length out + (k - dist)" by simp
  moreover have "(k - dist) mod dist = k mod dist" using False by (simp add: mod_if)
  ultimately show ?thesis using False assms by (simp add: nth_append periodic_def)
qed

lemma lz_copy_periodic:
  assumes "1 \<le> dist" "dist \<le> length out" "k + m = len"
  shows "lz_copy m (length out - dist + k) (out @ periodic dist k out) = out @ periodic dist len out"
  using assms(3)
proof (induction m arbitrary: k)
  case (Suc m)
  have "(out @ periodic dist k out) @ [(out @ periodic dist k out) ! (length out - dist + k)]
      = out @ periodic dist (Suc k) out"
    using periodic_nth [OF assms(1,2), of k "Suc k"] by (simp add: periodic_def)
  with Suc.IH [of "Suc k"] Suc.prems show ?case by simp
qed simp

lemma lz_backref_ok:
  assumes "1 \<le> dist" "dist \<le> length out" "length out + len \<le> n" "2 \<le> len"
    and "ctrl mod 32 * 256 + low = dist - 1"
  shows "lz_backref n ctrl (len - 2) low out = Inr (out @ periodic dist len out)"
proof -
  have r: "int (length out) - int (push_bit 8 (ctrl AND 0x1F)) - int low - 1 = int (length out - dist)"
    using assms by (simp add: push_bit_eq_mult)
  have "lz_copy len (length out - dist) out = out @ periodic dist len out"
    using lz_copy_periodic [OF assms(1,2), of 0 len len] by (simp add: periodic_def)
  moreover have "len - 2 + 2 = len" using assms(4) by simp
  moreover have "\<not> (int (length out - dist) < 0 \<or> length out + (len - 2) + 2 > n)" using assms(3,4) by simp
  ultimately show ?thesis unfolding lz_backref_def r Let_def by (simp only: if_False nat_int)
qed

lemma lz_len_mono: "lz_valid ts (length out) \<Longrightarrow> length out \<le> length (lz_expand ts out)"
proof (induction ts "length out" arbitrary: out rule: lz_valid.induct)
  case (2 bs ts)
  then show ?case using "2.hyps" [of "out @ bs"] by simp
next
  case (3 dist len ts)
  then show ?case using "3.hyps" [of "out @ periodic dist len out"] by (simp add: periodic_def)
qed simp

lemma length_periodic [simp]: "length (periodic dist len out) = len"
  by (simp add: periodic_def)

lemma lzf_loop_enc:
  "lz_valid ts (length out) \<Longrightarrow> n = length (lz_expand ts out) \<Longrightarrow>
     lzf_loop n (concat (map lz_enc ts)) out = Inr (lz_expand ts out)"
proof (induction ts "length out" arbitrary: out rule: lz_valid.induct)
  case 1
  then show ?case by simp
next
  case (2 bs ts)
  have len: "length (out @ bs) \<le> n" using 2 lz_len_mono [of ts "out @ bs"] by simp
  obtain k where k: "length bs = Suc k" "k < 32" using "2.prems" by (cases "length bs") auto
  with 2 len show ?case using "2.hyps" [of "out @ bs"] by simp
next
  case (3 dist len ts)
  let ?out = "out @ periodic dist len out"
  have len: "length out + len \<le> n" using 3 lz_len_mono [of ts ?out] by simp
  have d: "1 \<le> dist" "dist \<le> length out" "dist \<le> 8192" "3 \<le> len" "len \<le> 264" using "3.prems" by auto
  have q: "(dist - 1) div 256 < 32" using d(3) by (simp add: div_less_iff_less_mult)
  have IH: "lzf_loop n (concat (map lz_enc ts)) ?out = Inr (lz_expand ts ?out)"
    using 3 "3.hyps" [of ?out] by simp
  define low where "low = (dist - 1) mod 256"
  have low: "low < 256" by (simp add: low_def)
  show ?case
  proof (cases "len < 9")
    case True
    define c where "c = 32 * (len - 2) + (dist - 1) div 256"
    have c: "c < 256" "\<not> c < 32" "c div 32 = len - 2" "c mod 32 = (dist - 1) div 256"
      using True d q by (auto simp: c_def)
    have "lz_backref n c (len - 2) low out = Inr ?out"
      using d len c by (intro lz_backref_ok) (auto simp: low_def mult.commute)
    moreover have "drop_bit 5 c = len - 2" "len - 2 \<noteq> 7" using c True by (auto simp: drop_bit_eq_div)
    moreover have "lz_enc (Back dist len) = [byte c, byte low]" using True by (simp add: c_def low_def)
    ultimately show ?thesis using c(1,2) low IH by (simp add: Let_def del: lz_enc.simps)
  next
    case False
    define c where "c = 224 + (dist - 1) div 256"
    have c: "c < 256" "\<not> c < 32" "c div 32 = 7" "c mod 32 = (dist - 1) div 256"
      using q hi_lo [OF q, of 7] by (simp_all add: c_def)
    have "lz_backref n c (len - 2) low out = Inr ?out"
      using d len c by (intro lz_backref_ok) (auto simp: low_def mult.commute)
    moreover have "drop_bit 5 c = 7" using c by (simp add: drop_bit_eq_div)
    moreover have "lz_enc (Back dist len) = [byte c, byte (len - 9), byte low]" "len - 9 < 256"
      "7 + (len - 9) = len - 2"
      using False d by (simp_all add: c_def low_def)
    ultimately show ?thesis using c(1,2) low IH by (simp add: Let_def del: lz_enc.simps)
  qed
qed

lemma lzfDecompress_enc:
  "lz_valid ts 0 \<Longrightarrow> n = int (length (lz_expand ts [])) \<Longrightarrow>
     lzfDecompress (concat (map lz_enc ts)) n = Inr (lz_expand ts [])"
  using lzf_loop_enc [of ts "[]"] by (simp add: lzfDecompress_def)

subsection \<open>String encodings\<close>

datatype rdbStr = Raw string | Int8 int | Int16 int | Int32 int | Lzf "lztok list"

fun str_valid :: "rdbStr \<Rightarrow> bool" where
  "str_valid (Raw s) = (length s < 2 ^ 63)"
| "str_valid (Int8 i) = (- 128 \<le> i \<and> i \<le> 127)"
| "str_valid (Int16 i) = (- 32768 \<le> i \<and> i \<le> 32767)"
| "str_valid (Int32 i) = (- 2147483648 \<le> i \<and> i \<le> 2147483647)"
| "str_valid (Lzf ts) = (lz_valid ts 0 \<and> length (concat (map lz_enc ts)) < 2 ^ 63 \<and>
     length (lz_expand ts []) < 2 ^ 63)"

fun str_value :: "rdbStr \<Rightarrow> string" where
  "str_value (Raw s) = s"
| "str_value (Int8 i) = Itoa i"
| "str_value (Int16 i) = Itoa i"
| "str_value (Int32 i) = Itoa i"
| "str_value (Lzf ts) = lz_expand ts []"

fun str_enc :: "rdbStr \<Rightarrow> string" where
  "str_enc (Raw s) = enc_len (length s) @ s"
| "str_enc (Int8 i) = byte 0xC0 # le_bytes 1 (twos 8 i)"
| "str_enc (Int16 i) = byte 0xC1 # le_bytes 2 (twos 16 i)"
| "str_enc (Int32 i) = byte 0xC2 # le_bytes 4 (twos 32 i)"
| "str_enc (Lzf ts) = byte 0xC3 # enc_len (length (concat (map lz_enc ts))) @
     enc_len (length (lz_expand ts [])) @ concat (map lz_enc ts)"

lemma special_len: "n < 64 \<Longrightarrow> readEncodedLength (byte (192 + n) # t) = Inr ((n, True), t)"
proof -
  assume "n < 64"
  then have "(192 + n) div 64 = 3" "(192 + n) mod 64 = n" "192 + n < 256"
    using mod_mult_self2 [of n 64 3] by (auto simp: add.commute)
  then show ?thesis by (simp add: readEncodedLength_def)
qed

lemma ReadString_str_enc:
  assumes "str_valid e"
  shows "ReadString (str_enc e @ t) = Inr (str_value e, t)"
proof (cases e)
  case (Raw s)
  with assms show ?thesis by (simp add: ReadString_def readEncodedLength_enc int64_small)
next
  case (Int8 i)
  with assms signed_twos [of 8 i] special_len [of 0]
  show ?thesis by (simp add: ReadString_def ReadInt8_def)
next
  case (Int16 i)
  with assms signed_twos [of 16 i] special_len [of 1] le_nat_le_bytes [of "twos 16 i" 2]
  show ?thesis by (simp add: ReadString_def ReadInt16_def del: le_nat_le_bytes)
next
  case (Int32 i)
  with assms signed_twos [of 32 i] special_len [of 2] le_nat_le_bytes [of "twos 32 i" 4]
  show ?thesis by (simp add: ReadString_def ReadInt32_def del: le_nat_le_bytes)
next
  case (Lzf ts)
  with assms special_len [of 3] lzfDecompress_enc [of ts]
  show ?thesis by (simp add: ReadString_def ReadLength_enc int64_small liftR_def)
qed

text \<open>
  \<^verbatim>\<open>ReadString\<close> decodes every string encoding of the RDB format: raw strings of every length
  form, the three integer encodings over their whole range, and LZF compressed strings with
  literals and overlapping back references; it consumes exactly the encoding.
\<close>

theorem ReadString_decodes:
  assumes "str_valid e"
  shows "ReadString (str_enc e @ t) = Inr (str_value e, t)"
  using assms by (rule ReadString_str_enc)

theorem ReadString_decodes_witness:
  "ReadString (str_enc (Lzf [Lit ''ab'', Back 2 7]) @ ''rest'') = Inr (''ababababa'', ''rest'')"
  by (subst ReadString_decodes) (simp_all add: periodic_def upt_rec)

section \<open>Listpacks\<close>

text \<open>Elements and their encodings as Redis writes them, the smallest that fits.\<close>

datatype lpe = LpInt int | LpStr string

fun lpe_valid :: "lpe \<Rightarrow> bool" where
  "lpe_valid (LpInt v) = (- (2 ^ 63) \<le> v \<and> v < 2 ^ 63)"
| "lpe_valid (LpStr s) = (length s < 2 ^ 32)"

fun lpe_text :: "lpe \<Rightarrow> string" where
  "lpe_text (LpInt v) = Itoa v"
| "lpe_text (LpStr s) = s"

fun lpe_body :: "lpe \<Rightarrow> string" where
  "lpe_body (LpInt v) =
     (if 0 \<le> v \<and> v \<le> 127 then [byte (nat v)]
      else if - 4096 \<le> v \<and> v \<le> 4095 then [byte (192 + twos 13 v div 256), byte (twos 13 v mod 256)]
      else if - (2 ^ 15) \<le> v \<and> v < 2 ^ 15 then byte 0xF1 # le_bytes 2 (twos 16 v)
      else if - (2 ^ 23) \<le> v \<and> v < 2 ^ 23 then byte 0xF2 # le_bytes 3 (twos 24 v)
      else if - (2 ^ 31) \<le> v \<and> v < 2 ^ 31 then byte 0xF3 # le_bytes 4 (twos 32 v)
      else byte 0xF4 # le_bytes 8 (twos 64 v))"
| "lpe_body (LpStr s) =
     (if length s < 64 then byte (128 + length s) # s
      else if length s < 4096 then byte (224 + length s div 256) # byte (length s mod 256) # s
      else byte 0xF0 # le_bytes 4 (length s) @ s)"

definition lp_backlen :: "nat \<Rightarrow> string" where
  "lp_backlen l =
     (if l \<le> 127 then [byte l]
      else if l < 16383 then [byte (l div 128), byte (l mod 128 + 128)]
      else if l < 2097151 then [byte (l div 16384), byte (l div 128 mod 128 + 128), byte (l mod 128 + 128)]
      else if l < 268435455 then [byte (l div 2097152), byte (l div 16384 mod 128 + 128),
        byte (l div 128 mod 128 + 128), byte (l mod 128 + 128)]
      else [byte (l div 268435456), byte (l div 2097152 mod 128 + 128), byte (l div 16384 mod 128 + 128),
        byte (l div 128 mod 128 + 128), byte (l mod 128 + 128)])"

definition lpe_enc :: "lpe \<Rightarrow> string" where
  "lpe_enc e = lpe_body e @ lp_backlen (length (lpe_body e))"

text \<open>A listpack: total bytes, number of elements (65535 if it does not fit), elements, end byte.\<close>

definition lp_enc :: "nat \<Rightarrow> lpe list \<Rightarrow> string" where
  "lp_enc tot es = le_bytes 4 tot @ le_bytes 2 (min (length es) 65535) @ concat (map lpe_enc es) @ [byte 0xFF]"

lemma backlen_length [simp]: "int (length (lp_backlen l)) = lpEncodeBacklen (int l)"
  by (simp add: lp_backlen_def lpEncodeBacklen_def)

lemma skip_backlen_enc [simp]: "l = int n \<Longrightarrow> skip_backlen l x (lp_backlen n @ t) = Inr (x, t)"
  by (simp add: skip_backlen_def)

lemma lp_int_signed: "u < 2 ^ w \<Longrightarrow> 0 < w \<Longrightarrow> lp_int u (2 ^ (w - 1)) (2 ^ w - 1) = Itoa (signed w u)"
  by (simp add: lp_int_def signed_def of_nat_diff)

lemma lp_int_twos:
  "0 < w \<Longrightarrow> - (2 ^ (w - 1)) \<le> v \<Longrightarrow> v < 2 ^ (w - 1) \<Longrightarrow> lp_int (twos w v) (2 ^ (w - 1)) (2 ^ w - 1) = Itoa v"
  using lp_int_signed [of "twos w v" w] signed_twos [of w v] by simp

lemma le_nat_snoc_zero: "le_nat (b @ [CHR 0x00]) = le_nat b"
  by (induction b) auto

lemma readListpackEntry_int:
  assumes "lpe_valid (LpInt v)"
  shows "readListpackEntry (lpe_enc (LpInt v) @ t) = Inr (Itoa v, t)"
proof -
  consider "0 \<le> v" "v \<le> 127" | "\<not> (0 \<le> v \<and> v \<le> 127)" "- 4096 \<le> v" "v \<le> 4095"
    | "\<not> (- 4096 \<le> v \<and> v \<le> 4095)" "- (2 ^ 15) \<le> v" "v < 2 ^ 15"
    | "\<not> (- (2 ^ 15) \<le> v \<and> v < 2 ^ 15)" "- (2 ^ 23) \<le> v" "v < 2 ^ 23"
    | "\<not> (- (2 ^ 23) \<le> v \<and> v < 2 ^ 23)" "- (2 ^ 31) \<le> v" "v < 2 ^ 31"
    | "\<not> (- (2 ^ 31) \<le> v \<and> v < 2 ^ 31)" by argo
  then show ?thesis
  proof cases
    case 1
    then have "nat v div 128 = 0" "nat v mod 128 = nat v" "\<not> 18446744073709551615 \<le> nat v" by auto
    with 1 show ?thesis by (simp add: readListpackEntry_def lpe_enc_def lp_int_def)
  next
    case 2
    define u where "u = twos 13 v"
    have u: "u < 8192" "lp_int u 4096 8191 = Itoa v"
      using signed_twos(1) [of 13 v] lp_int_twos [of 13 v] 2 by (simp_all add: u_def)
    have q: "u div 256 < 32" using u(1) by (simp add: div_less_iff_less_mult)
    have b: "192 + u div 256 < 256" "(192 + u div 256) div 128 = 1" "(192 + u div 256) div 64 = 3"
      "(192 + u div 256) div 32 = 6" "(192 + u div 256) mod 32 = u div 256"
      using q hi_lo [OF q, of 6] by auto
    have e: "lpe_enc (LpInt v) = [byte (192 + u div 256), byte (u mod 256)] @ lp_backlen 2"
      using 2 by (auto simp: lpe_enc_def u_def numeral_2_eq_2)
    have s: "push_bit 8 (u div 256) + u mod 256 = u" by (simp add: push_bit_eq_mult)
    show ?thesis unfolding e by (simp add: readListpackEntry_def b s u(2))
  next
    case 3
    then have e: "lpe_enc (LpInt v) = byte 0xF1 # le_bytes 2 (twos 16 v) @ lp_backlen 3"
      by (auto simp: lpe_enc_def)
    have u: "le_nat (le_bytes 2 (twos 16 v)) = twos 16 v" "lp_int (twos 16 v) 32768 65535 = Itoa v"
      using signed_twos(1) [of 16 v] lp_int_twos [of 16 v] 3 by simp_all
    show ?thesis unfolding e by (simp add: readListpackEntry_def ReadUint16_def u)
  next
    case 4
    then have e: "lpe_enc (LpInt v) = byte 0xF2 # le_bytes 3 (twos 24 v) @ lp_backlen 4"
      by (auto simp: lpe_enc_def)
    have u: "le_nat (le_bytes 3 (twos 24 v)) = twos 24 v" "lp_int (twos 24 v) 8388608 16777215 = Itoa v"
      using signed_twos(1) [of 24 v] lp_int_twos [of 24 v] 4 by simp_all
    show ?thesis unfolding e by (simp add: readListpackEntry_def ReadUint24_def le_nat_snoc_zero u)
  next
    case 5
    then have e: "lpe_enc (LpInt v) = byte 0xF3 # le_bytes 4 (twos 32 v) @ lp_backlen 5"
      by (auto simp: lpe_enc_def)
    have u: "le_nat (le_bytes 4 (twos 32 v)) = twos 32 v" "lp_int (twos 32 v) 2147483648 4294967295 = Itoa v"
      using signed_twos(1) [of 32 v] lp_int_twos [of 32 v] 5 by simp_all
    show ?thesis unfolding e by (simp add: readListpackEntry_def ReadUint32_def u)
  next
    case 6
    then have e: "lpe_enc (LpInt v) = byte 0xF4 # le_bytes 8 (twos 64 v) @ lp_backlen 9"
      by (auto simp: lpe_enc_def)
    have u: "le_nat (le_bytes 8 (twos 64 v)) = twos 64 v"
      "lp_int (twos 64 v) 9223372036854775808 18446744073709551615 = Itoa v"
      using signed_twos(1) [of 64 v] lp_int_twos [of 64 v] assms by simp_all
    show ?thesis unfolding e by (simp add: readListpackEntry_def ReadUint64_def u)
  qed
qed

lemma lp_str_enc: "h = int k \<Longrightarrow> n = int (length s) \<Longrightarrow> lp_str h n (s @ lp_backlen (k + length s) @ t) = Inr (s, t)"
  by (simp add: lp_str_def)

lemma readListpackEntry_str:
  assumes "lpe_valid (LpStr s)"
  shows "readListpackEntry (lpe_enc (LpStr s) @ t) = Inr (s, t)"
proof -
  consider "length s < 64" | "64 \<le> length s" "length s < 4096" | "4096 \<le> length s" by linarith
  then show ?thesis
  proof cases
    case 1
    have b: "128 + length s < 256" "(128 + length s) div 128 = 1" "(128 + length s) div 64 = 2"
      "(128 + length s) mod 64 = length s"
      using 1 hi_lo [OF 1, of 2] by auto
    show ?thesis
      using 1 lp_str_enc [of 1 1 "int (length s)" s t] by (simp add: lpe_enc_def readListpackEntry_def b)
  next
    case 2
    let ?q = "length s div 256"
    have q: "?q < 16" using 2 by (simp add: div_less_iff_less_mult)
    have b: "224 + ?q < 256" "(224 + ?q) div 128 = 1" "(224 + ?q) div 64 = 3" "(224 + ?q) div 32 = 7"
      "(224 + ?q) div 16 = 14" "(224 + ?q) mod 16 = ?q" "224 + ?q \<noteq> 241" "224 + ?q \<noteq> 242" "224 + ?q \<noteq> 243"
      "224 + ?q \<noteq> 244"
      using q hi_lo [OF q, of 14] by auto
    have "push_bit 8 ?q + length s mod 256 = length s" by (simp add: push_bit_eq_mult)
    then have l: "int (push_bit 8 ?q) + int (length s mod 256) = int (length s)" by (metis of_nat_add)
    have e: "lpe_enc (LpStr s) = byte (224 + ?q) # byte (length s mod 256) # s @ lp_backlen (2 + length s)"
      using 2 by (simp add: lpe_enc_def)
    show ?thesis unfolding e
      using lp_str_enc [of 2 2 "int (length s)" s t] by (simp add: readListpackEntry_def b l)
  next
    case 3
    have n: "length s < 256 ^ 4" using assms by simp
    have e: "lpe_enc (LpStr s) = byte 0xF0 # le_bytes 4 (length s) @ s @ lp_backlen (5 + length s)"
      using 3 by (simp add: lpe_enc_def)
    show ?thesis unfolding e
      using lp_str_enc [of 5 5 "int (length s)" s t] le_nat_le_bytes [OF n]
      by (simp add: readListpackEntry_def ReadUint32_def del: le_nat_le_bytes)
  qed
qed

lemma readListpackEntry_enc: "lpe_valid e \<Longrightarrow> readListpackEntry (lpe_enc e @ t) = Inr (lpe_text e, t)"
  by (cases e) (simp_all add: readListpackEntry_int readListpackEntry_str del: lpe_valid.simps)

lemma timesR_enc:
  assumes "\<And>x t. x \<in> set xs \<Longrightarrow> p (enc x @ t) = Inr (val x, t)"
  shows "timesR (length xs) p (concat (map enc xs) @ t) = Inr (map val xs, t)"
  using assms by (induction xs) auto

lemma listpack_header:
  assumes "length es \<le> 65535" "\<forall>e \<in> set es. lpe_valid e"
  shows "bindR ReadUint32 (\<lambda>_. bindR ReadUint16 (\<lambda>size. bindR (timesR size readListpackEntry) f))
      (le_bytes 4 tot @ le_bytes 2 (length es) @ concat (map lpe_enc es) @ t) = f (map lpe_text es) t"
proof -
  have "le_nat (le_bytes 2 (length es)) = length es" using assms(1) by (intro le_nat_le_bytes) simp
  moreover have "timesR (length es) readListpackEntry (concat (map lpe_enc es) @ t) = Inr (map lpe_text es, t)"
    using assms(2) by (intro timesR_enc) (simp add: readListpackEntry_enc)
  ultimately show ?thesis by (simp add: ReadUint32_def ReadUint16_def del: le_nat_le_bytes)
qed

text \<open>A string that holds a listpack, raw or compressed.\<close>

definition holds_lp :: "rdbStr \<Rightarrow> lpe list \<Rightarrow> bool" where
  "holds_lp e es \<longleftrightarrow> str_valid e \<and> (\<exists>tot. str_value e = lp_enc tot es) \<and> length es \<le> 65535 \<and>
     (\<forall>x \<in> set es. lpe_valid x)"

lemma ReadListpack_holds:
  assumes "holds_lp e es"
  shows "ReadListpack (str_enc e @ t) = Inr (map lpe_text es, t)"
proof -
  from assms obtain tot where a: "str_valid e" "str_value e = lp_enc tot es" "length es \<le> 65535"
    "\<forall>x \<in> set es. lpe_valid x" by (auto simp: holds_lp_def)
  have "listpack_body (lp_enc tot es) = Inr (map lpe_text es, [])"
    unfolding listpack_body_def lp_enc_def min_absorb1 [OF a(3)] listpack_header [OF a(3,4)]
    by (simp add: end_byte_def ReadByte_byte [of 255 "[]", simplified])
  then show ?thesis
    using ReadString_str_enc [OF a(1), of t] a(2) by (simp add: ReadListpack_def within_def liftR_def)
qed

text \<open>
  \<^verbatim>\<open>ReadListpack\<close> decodes a listpack of up to 65535 elements as Redis writes it, whatever their
  encodings: integers of all six widths with their sign, strings of all three length forms, with
  the back length of each skipped.  The string that holds the listpack may be compressed; exactly
  its encoding is consumed.
\<close>

theorem ReadListpack_decodes:
  assumes "length es \<le> 65535" "\<forall>e \<in> set es. lpe_valid e" "str_valid s" "str_value s = lp_enc tot es"
  shows "ReadListpack (str_enc s @ t) = Inr (map lpe_text es, t)"
  by (rule ReadListpack_holds) (use assms in \<open>auto simp: holds_lp_def\<close>)

theorem ReadListpack_decodes_witness:
  "ReadListpack (str_enc (Raw (lp_enc 7 [LpInt 5, LpInt (- 300), LpStr ''ab''])) @ ''x'') =
     Inr ([''5'', ''-300'', ''ab''], ''x'')"
proof -
  have "Itoa 5 = ''5''" "Itoa (- 300) = ''-300''" by code_simp+
  then show ?thesis
    by (subst ReadListpack_decodes [where tot = 7 and es = "[LpInt 5, LpInt (- 300), LpStr ''ab'']"])
      (simp_all add: lp_enc_def lpe_enc_def lp_backlen_def twos_def)
qed

lemma lpe_enc_first: "\<exists>b bs. lpe_enc e = byte b # bs \<and> b < 255" if "lpe_valid e"
proof (cases e)
  case (LpInt v)
  have "twos 13 v div 256 < 32"
    by (simp add: twos_def div_less_iff_less_mult nat_less_iff)
  then show ?thesis using LpInt by (auto simp: lpe_enc_def intro: exI)
next
  case (LpStr s)
  have "length s < 4096 \<Longrightarrow> length s div 256 < 16" by (simp add: div_less_iff_less_mult)
  then show ?thesis using LpStr by (auto simp: lpe_enc_def)
qed

text \<open>
  A listpack of more than 65535 elements, whose header says 65535 for ``count unknown'', is
  never decoded: \<^verbatim>\<open>ReadListpack\<close> takes the marker for a count and stops the process at the next
  element.
\<close>

theorem ReadListpack_long_fails:
  assumes "length es > 65535" "\<forall>e \<in> set es. lpe_valid e" "length (lp_enc n es) < 2 ^ 63"
  shows "ReadListpack (str_enc (Raw (lp_enc n es)) @ t) = Inl (LogPanicf ''ReadListpack: last byte is not 0xFF'')"
proof -
  define xs where "xs = take 65535 es"
  define e where "e = es ! 65535"
  define ys where "ys = drop (Suc 65535) es"
  have es: "es = xs @ e # ys" unfolding xs_def e_def ys_def by (rule id_take_nth_drop [OF assms(1)])
  have len: "length xs = 65535" using assms(1) unfolding xs_def by (simp only: length_take min_absorb2 less_imp_le)
  have v: "\<forall>e \<in> set xs. lpe_valid e" "lpe_valid e" using assms(2) unfolding es by auto
  obtain b bs where b: "lpe_enc e = byte b # bs" "b < 255" using lpe_enc_first [OF v(2)] by blast
  have enc: "lp_enc n es = le_bytes 4 n @ le_bytes 2 (length xs) @ concat (map lpe_enc xs) @
      byte b # bs @ concat (map lpe_enc ys) @ [byte 0xFF]"
    using assms(1) len by (simp add: lp_enc_def es b(1) min_def)
  have "listpack_body (lp_enc n es) = Inl (LogPanicf ''ReadListpack: last byte is not 0xFF'')"
    unfolding listpack_body_def enc listpack_header [OF eq_refl [OF len] v(1)] using b(2)
    by (simp add: end_byte_def)
  then show ?thesis
    using ReadString_str_enc [of "Raw (lp_enc n es)" t] assms(3)
    by (simp add: ReadListpack_def within_def liftR_def del: str_enc.simps)
qed

theorem ReadListpack_long_fails_witness:
  "ReadListpack (str_enc (Raw (lp_enc 0 (replicate 65536 (LpInt 1)))) @ []) =
     Inl (LogPanicf ''ReadListpack: last byte is not 0xFF'')"
proof (rule ReadListpack_long_fails)
  have "length (lpe_enc (LpInt 1)) = 2" by (simp add: lpe_enc_def lp_backlen_def)
  then show "length (lp_enc 0 (replicate 65536 (LpInt 1))) < 2 ^ 63"
    by (simp add: lp_enc_def length_concat sum_list_replicate)
qed simp_all

end
