(* ===== verification/RdbTypes.thy ===== *)
theory RdbTypes
  imports RdbStructure
begin

text \<open>
  \<^verbatim>\<open>internal/rdb/types\<close>: the value types of an RDB file.  \<^verbatim>\<open>ParseObject\<close> chooses the object for a
  type byte and \<^verbatim>\<open>Rewrite\<close> turns its bytes into the commands that rebuild it.  The commands travel
  through a channel that the loader drains completely, so a rewrite is a reader that returns the
  list of the commands in order; a failure on the way ends the process, and the loader has then
  sent nothing of the value.
\<close>

section \<open>interface.go\<close>

type_synonym redisCmd = "string list"

text \<open>
  What the code takes from outside: the floating-point library, the product
  \<^verbatim>\<open>uint64(float64(entries) * bpe)\<close> and the option \<^verbatim>\<open>target_mbbloom_version\<close>.
\<close>

record rdbEnv =
  floats :: floatLib
  float_mul :: "nat \<Rightarrow> 64 word \<Rightarrow> nat"
  TargetMBbloomVersion :: int

record bloom =
  hashes :: nat
  n2 :: nat
  entries :: nat
  bl_err :: "64 word"
  bpe :: "64 word"
  bf :: string
  bits :: nat

record link =
  inner :: bloom
  link_size :: nat

record chain =
  filters :: "link list"
  chain_size :: nat
  nfilters :: nat
  options :: nat
  growth :: nat

datatype redisObject =
  StringObject string
| ListObject string nat
| SetObject string nat
| ZsetObject string nat
| HashObject string nat bool
| StreamObject string nat
| TairStringObject string
| TairHashObject
| TairZsetObject string
| BloomObject nat string chain

definition moduleTypeNameCharSet :: string where
  "moduleTypeNameCharSet = ''ABCDEFGHIJKLMNOPQRSTUVWXYZabcdefghijklmnopqrstuvwxyz0123456789-_''"

fun module_chars :: "nat \<Rightarrow> nat \<Rightarrow> string" where
  "module_chars 0 m = []"
| "module_chars (Suc k) m = module_chars k (m div 64) @ [moduleTypeNameCharSet ! (m mod 64)]"

definition ModuleTypeNameByID :: "nat \<Rightarrow> string" where
  "ModuleTypeNameByID moduleId = module_chars 9 (drop_bit 10 moduleId)"

section \<open>string.go, list.go, set.go\<close>

text \<open>The counted loop of a Go \<^verbatim>\<open>int\<close> converted from a length: a negative count is no round.\<close>

definition counted :: "'a reader \<Rightarrow> 'a list reader" where
  "counted p = bindR ReadLength (\<lambda>len. timesR (nat (int64 len)) p)"

definition idx_panic :: fault where "idx_panic = RuntimePanic ''index out of range''"

definition string_Rewrite :: "string \<Rightarrow> redisCmd list reader" where
  "string_Rewrite key = mapR (\<lambda>value. [[''set'', key, value]]) ReadString"

definition rpush :: "string \<Rightarrow> string \<Rightarrow> redisCmd" where "rpush key ele = [''rpush'', key, ele]"
definition sadd :: "string \<Rightarrow> string \<Rightarrow> redisCmd" where "sadd key ele = [''sadd'', key, ele]"

definition readList :: "string \<Rightarrow> redisCmd list reader" where
  "readList key = mapR (map (rpush key)) (counted ReadString)"

definition list_readZipList :: "string \<Rightarrow> redisCmd list reader" where
  "list_readZipList key = mapR (map (rpush key)) ReadZipList"

definition readQuickList :: "string \<Rightarrow> redisCmd list reader" where
  "readQuickList key = mapR (map (rpush key) \<circ> concat) (counted ReadZipList)"

definition quicklist_node :: "string list reader" where
  "quicklist_node = bindR ReadLength (\<lambda>container.
     if container = 1 then mapR (\<lambda>ele. [ele]) ReadString
     else if container = 2 then ReadListpack
     else failR (LogPanicf ''unknown quicklist container''))"

definition readQuickList2 :: "string \<Rightarrow> redisCmd list reader" where
  "readQuickList2 key = mapR (map (rpush key) \<circ> concat) (counted quicklist_node)"

text \<open>The first command deletes the key, whatever follows.\<close>

definition after_del :: "string \<Rightarrow> redisCmd list reader \<Rightarrow> redisCmd list reader" where
  "after_del key p = mapR (\<lambda>cmds. [''del'', key] # cmds) p"

definition list_Rewrite :: "string \<Rightarrow> nat \<Rightarrow> redisCmd list reader" where
  "list_Rewrite key typeByte = after_del key
     (if typeByte = 1 then readList key
      else if typeByte = 10 then list_readZipList key
      else if typeByte = 14 then readQuickList key
      else if typeByte = 18 then readQuickList2 key
      else failR (LogPanicf ''unknown list type''))"

definition readSet :: "string \<Rightarrow> redisCmd list reader" where
  "readSet key = mapR (map (sadd key)) (counted ReadString)"

definition set_Rewrite :: "string \<Rightarrow> nat \<Rightarrow> redisCmd list reader" where
  "set_Rewrite key typeByte = after_del key
     (if typeByte = 2 then readSet key
      else if typeByte = 11 then mapR (map (sadd key)) ReadIntset
      else if typeByte = 20 then mapR (map (sadd key)) ReadListpack
      else failR (LogPanicf ''unknown set type''))"

section \<open>zset.go\<close>

definition zadd :: "string \<Rightarrow> string \<Rightarrow> string \<Rightarrow> redisCmd" where
  "zadd key score member = [''zadd'', key, score, member]"

definition zset_elem :: "floatLib \<Rightarrow> string \<Rightarrow> (64 word) reader \<Rightarrow> redisCmd reader" where
  "zset_elem fl key rdScore = bindR ReadString (\<lambda>member.
     mapR (\<lambda>score. zadd key (fmt_17g fl score) member) rdScore)"

fun zset_pairs :: "string \<Rightarrow> string list \<Rightarrow> redisCmd list res" where
  "zset_pairs key (member # score # es) =
     map_sum id (Cons (zadd key score member)) (zset_pairs key es)"
| "zset_pairs key [] = Inr []"
| "zset_pairs key [_] = Inl (LogPanicf ''zset listpack size is not even'')"

definition zset_packed :: "string \<Rightarrow> string list reader \<Rightarrow> redisCmd list reader" where
  "zset_packed key p = bindR p (\<lambda>list. liftR (zset_pairs key list))"

definition zset_Rewrite :: "floatLib \<Rightarrow> string \<Rightarrow> nat \<Rightarrow> redisCmd list reader" where
  "zset_Rewrite fl key typeByte = after_del key
     (if typeByte = 3 then counted (zset_elem fl key (ReadFloat fl))
      else if typeByte = 5 then counted (zset_elem fl key ReadDouble)
      else if typeByte = 12 then zset_packed key ReadZipList
      else if typeByte = 17 then zset_packed key ReadListpack
      else failR (LogPanicf ''unknown zset type''))"

section \<open>hash.go\<close>

text \<open>\<^verbatim>\<open>int64\<close> arithmetic.\<close>

definition wrap64 :: "int \<Rightarrow> int" where
  "wrap64 i = signed 64 (twos 64 i)"

definition hset :: "string \<Rightarrow> string \<Rightarrow> string \<Rightarrow> redisCmd" where
  "hset key field value = [''hset'', key, field, value]"

text \<open>A field with its deadline in milliseconds; 0 is none.\<close>

definition hset_ttl :: "string \<Rightarrow> string \<Rightarrow> string \<Rightarrow> int \<Rightarrow> redisCmd list" where
  "hset_ttl key field value expireAt = hset key field value #
     (if expireAt \<noteq> 0 then [[''hpexpireat'', key, Itoa expireAt, ''fields'', ''1'', field]] else [])"

definition readHash :: "string \<Rightarrow> redisCmd list reader" where
  "readHash key = counted (bindR ReadString (\<lambda>field. mapR (hset key field) ReadString))"

fun hash_pairs :: "string \<Rightarrow> string list \<Rightarrow> redisCmd list res" where
  "hash_pairs key (field # value # es) = map_sum id (Cons (hset key field value)) (hash_pairs key es)"
| "hash_pairs key [] = Inr []"
| "hash_pairs key [_] = Inl idx_panic"

definition hash_packed :: "string \<Rightarrow> string list reader \<Rightarrow> redisCmd list reader" where
  "hash_packed key p = bindR p (\<lambda>list. liftR (hash_pairs key list))"

definition readHashValkey :: "string \<Rightarrow> redisCmd list reader" where
  "readHashValkey key = mapR concat (counted (bindR ReadString (\<lambda>field. bindR ReadString (\<lambda>value.
     mapR (\<lambda>ttl. hset_ttl key field value (int64 ttl)) ReadUint64))))"

fun hash_triples :: "string \<Rightarrow> string list \<Rightarrow> redisCmd list res" where
  "hash_triples key (field # value # ttl # es) =
     (case ParseInt ttl of Inl _ \<Rightarrow> Inl (LogPanicf ''readHashListpackTtl parsing expireAt'')
      | Inr expireAt \<Rightarrow> map_sum id ((@) (hset_ttl key field value expireAt)) (hash_triples key es))"
| "hash_triples key [] = Inr []"
| "hash_triples key es = Inl idx_panic"

definition readHashListpackTtl :: "string \<Rightarrow> bool \<Rightarrow> redisCmd list reader" where
  "readHashListpackTtl key isPre =
     bindR (if \<not> isPre then mapR (\<lambda>_. ()) ReadUint64 else retR ()) (\<lambda>_.
     bindR ReadListpack (\<lambda>list. liftR (hash_triples key list)))"

text \<open>The deadlines are stored relative to the smallest one, plus 1.\<close>

definition readHashTtl :: "string \<Rightarrow> bool \<Rightarrow> redisCmd list reader" where
  "readHashTtl key isPre =
     bindR (if \<not> isPre then mapR int64 ReadUint64 else retR 0) (\<lambda>minExpire.
     mapR concat (counted (bindR ReadLength (\<lambda>ttl.
       let expireAt = (if \<not> isPre \<and> int64 ttl \<noteq> 0 then wrap64 (int64 ttl + minExpire - 1) else int64 ttl)
       in bindR ReadString (\<lambda>field. mapR (\<lambda>value. hset_ttl key field value expireAt) ReadString)))))"

definition hash_Rewrite :: "string \<Rightarrow> nat \<Rightarrow> bool \<Rightarrow> redisCmd list reader" where
  "hash_Rewrite key typeByte isValkey = after_del key
     (if typeByte = 4 then readHash key
      else if typeByte = 9 then failR (LogPanicf ''not implemented rdbTypeZipmap'')
      else if typeByte = 13 then hash_packed key ReadZipList
      else if typeByte = 16 then hash_packed key ReadListpack
      else if typeByte = 22 then (if isValkey then readHashValkey key else readHashTtl key True)
      else if typeByte = 23 then readHashListpackTtl key True
      else if typeByte = 24 then readHashTtl key False
      else if typeByte = 25 then readHashListpackTtl key False
      else failR (LogPanicf ''unknown hash type''))"

section \<open>stream.go\<close>

text \<open>
  A stream is stored as listpacks.  The elements of one are consumed from the front: \<open>es\<close> is
  \<^verbatim>\<open>elements[inx:]\<close>.  An index beyond the end is a panic, and so is a slice beyond the end: when it
  still fits the capacity, the next element read is missing.
\<close>

fun nextString :: "string list \<Rightarrow> (string \<times> string list) res" where
  "nextString (e # es) = Inr (e, es)"
| "nextString [] = Inl idx_panic"

definition nextInteger :: "string list \<Rightarrow> (int \<times> string list) res" where
  "nextInteger es = (case nextString es of Inl f \<Rightarrow> Inl f
     | Inr (ele, es') \<Rightarrow> (case ParseInt ele of Inl _ \<Rightarrow> Inl (LogPanicf ''integer is not a number'')
         | Inr i \<Rightarrow> Inr (i, es')))"

text \<open>\<^verbatim>\<open>elements[inx : inx+n]\<close> and the elements after it.\<close>

definition next_slice :: "int \<Rightarrow> string list \<Rightarrow> (string list \<times> string list) res" where
  "next_slice n es = (if n < 0 \<or> int (length es) < n then Inl (RuntimePanic ''slice bounds out of range'')
     else Inr (take (nat n) es, drop (nat n) es))"

fun same_fields :: "string list \<Rightarrow> string list \<Rightarrow> (string list \<times> string list) res" where
  "same_fields [] es = Inr ([], es)"
| "same_fields (f # fs) es = (case nextString es of Inl e \<Rightarrow> Inl e
     | Inr (v, es') \<Rightarrow> map_sum id (\<lambda>(args, rest). (f # v # args, rest)) (same_fields fs es'))"

record streamEntry =
  se_flags :: int
  se_ms :: int
  se_seq :: int
  se_args :: "string list"

definition stream_args :: "string list \<Rightarrow> int \<Rightarrow> string list \<Rightarrow> (string list \<times> string list) res" where
  "stream_args flds flags es =
     (if flags AND 2 = 2 then same_fields flds es
      else (case nextInteger es of Inl f \<Rightarrow> Inl f | Inr (num, es') \<Rightarrow> next_slice (wrap64 (num * 2)) es'))"

definition next_entry :: "string list \<Rightarrow> string list \<Rightarrow> (streamEntry \<times> string list) res" where
  "next_entry flds es =
     (case nextInteger es of Inl f \<Rightarrow> Inl f | Inr (flags, es1) \<Rightarrow>
     (case nextInteger es1 of Inl f \<Rightarrow> Inl f | Inr (ms, es2) \<Rightarrow>
     (case nextInteger es2 of Inl f \<Rightarrow> Inl f | Inr (sq, es3) \<Rightarrow>
     (case stream_args flds flags es3 of Inl f \<Rightarrow> Inl f | Inr (args, es4) \<Rightarrow>
     (case nextString es4 of Inl f \<Rightarrow> Inl f | Inr (lp_count, es5) \<Rightarrow>
        Inr (\<lparr>se_flags = flags, se_ms = ms, se_seq = sq, se_args = args\<rparr>, es5))))))"

lemma nextString_shorter: "nextString es = Inr (e, es') \<Longrightarrow> length es' < length es"
  by (cases es) auto

lemma nextInteger_shorter: "nextInteger es = Inr (i, es') \<Longrightarrow> length es' < length es"
  by (auto simp: nextInteger_def split: sum.splits dest: nextString_shorter)

lemma same_fields_le: "same_fields fs es = Inr (a, es') \<Longrightarrow> length es' \<le> length es"
  by (induction fs es arbitrary: a es' rule: same_fields.induct)
    (fastforce simp: fault_simps split: sum.splits dest: nextString_shorter)+

lemma next_slice_le: "next_slice n es = Inr (a, es') \<Longrightarrow> length es' \<le> length es"
  by (auto simp: next_slice_def split: if_splits)

lemma stream_args_le: "stream_args fs flags es = Inr (a, es') \<Longrightarrow> length es' \<le> length es"
  by (fastforce simp: stream_args_def split: if_splits sum.splits
      dest: nextInteger_shorter next_slice_le same_fields_le)

lemma next_entry_shorter: "next_entry fs es = Inr (e, es') \<Longrightarrow> length es' < length es"
  by (fastforce simp: next_entry_def split: sum.splits
      dest: nextInteger_shorter nextString_shorter stream_args_le)

definition id_text :: "int \<Rightarrow> int \<Rightarrow> string" where
  "id_text ms sq = Itoa ms @ ''-'' @ Itoa sq"

definition xadd :: "string \<Rightarrow> int \<Rightarrow> int \<Rightarrow> streamEntry \<Rightarrow> redisCmd" where
  "xadd key masterMs masterSeq e =
     [''xadd'', key, id_text (wrap64 (se_ms e + masterMs)) (wrap64 (se_seq e + masterSeq))] @ se_args e"

text \<open>The loop over the entries; every round consumes elements, so it ends.\<close>

function stream_entries :: "string \<Rightarrow> int \<Rightarrow> int \<Rightarrow> string list \<Rightarrow> int \<Rightarrow> int \<Rightarrow> string list \<Rightarrow> redisCmd list res" where
  "stream_entries key masterMs masterSeq flds count deleted es =
     (if count = 0 \<and> deleted = 0 then Inr []
      else (case next_entry flds es of Inl f \<Rightarrow> Inl f
        | Inr (e, es') \<Rightarrow>
            if se_flags e AND 1 = 1
            then stream_entries key masterMs masterSeq flds count (deleted - 1) es'
            else map_sum id (Cons (xadd key masterMs masterSeq e))
                   (stream_entries key masterMs masterSeq flds (count - 1) deleted es')))"
  by pat_completeness auto
termination
  by (relation "measure (\<lambda>(_, _, _, _, _, _, es). length es)") (auto dest: next_entry_shorter)

declare stream_entries.simps [simp del]

definition stream_elements :: "string \<Rightarrow> int \<Rightarrow> int \<Rightarrow> string list \<Rightarrow> redisCmd list res" where
  "stream_elements key masterMs masterSeq es =
     (case nextInteger es of Inl f \<Rightarrow> Inl f | Inr (count, es1) \<Rightarrow>
     (case nextInteger es1 of Inl f \<Rightarrow> Inl f | Inr (deleted, es2) \<Rightarrow>
     (case nextInteger es2 of Inl f \<Rightarrow> Inl f | Inr (numFields, es3) \<Rightarrow>
     (case next_slice numFields es3 of Inl f \<Rightarrow> Inl f | Inr (flds, es4) \<Rightarrow>
     (case nextString es4 of Inl f \<Rightarrow> Inl f | Inr (lastEntry, es5) \<Rightarrow>
        if lastEntry \<noteq> ''0'' then Inl (LogPanicf ''master entry not ends by zero'')
        else stream_entries key masterMs masterSeq flds count deleted es5)))))"

definition be64 :: "string \<Rightarrow> nat" where
  "be64 s = be_nat (take 8 s)"

definition stream_node :: "string \<Rightarrow> redisCmd list reader" where
  "stream_node masterKey = bindR ReadString (\<lambda>key.
     if length key < 16 then failR idx_panic
     else bindR ReadListpack (\<lambda>elements.
       liftR (stream_elements masterKey (int64 (be64 key)) (int64 (be64 (drop 8 key))) elements)))"

definition skip_lengths :: "nat \<Rightarrow> unit reader" where
  "skip_lengths n = mapR (\<lambda>_. ()) (timesR n ReadLength)"

definition uid_text :: "nat \<Rightarrow> nat \<Rightarrow> string" where
  "uid_text ms sq = FormatUint ms @ ''-'' @ FormatUint sq"

definition readId :: "string reader" where
  "readId = bindR ReadLength (\<lambda>ms. mapR (uid_text ms) ReadLength)"

definition readRawId :: "string reader" where
  "readRawId = mapR (\<lambda>b. uid_text (be64 b) (be64 (drop 8 b))) (ReadBytes 16)"

text \<open>The global pending list, as the two maps from ids to delivery time and count.\<close>

type_synonym pel = "string \<rightharpoonup> nat \<times> nat"

definition pel_entry :: "(string \<times> nat \<times> nat) reader" where
  "pel_entry = bindR readRawId (\<lambda>streamId. bindR ReadUint64 (\<lambda>deliveryTime.
     mapR (\<lambda>deliveryCount. (streamId, deliveryTime, deliveryCount)) ReadLength))"

definition pel_of :: "(string \<times> nat \<times> nat) list \<Rightarrow> pel" where
  "pel_of ps = map_of (rev ps)"

definition xclaim :: "string \<Rightarrow> string \<Rightarrow> string \<Rightarrow> pel \<Rightarrow> string \<Rightarrow> redisCmd" where
  "xclaim key grp consumer pel streamId =
     (case (case pel streamId of None \<Rightarrow> (0, 0) | Some tc \<Rightarrow> tc) of (time, count) \<Rightarrow>
       [''xclaim'', key, grp, consumer, ''0'', streamId, ''TIME'', FormatUint time,
        ''RETRYCOUNT'', FormatUint count, ''JUSTID'', ''FORCE''])"

definition stream_consumer :: "string \<Rightarrow> nat \<Rightarrow> string \<Rightarrow> pel \<Rightarrow> redisCmd list reader" where
  "stream_consumer key typeByte grp pel = bindR ReadString (\<lambda>consumerName.
     bindR ReadUint64 (\<lambda>_. bindR (if typeByte \<ge> 21 then ReadUint64 else retR 0) (\<lambda>_.
       mapR (map (xclaim key grp consumerName pel)) (counted readRawId))))"

definition stream_group :: "string \<Rightarrow> nat \<Rightarrow> redisCmd list reader" where
  "stream_group key typeByte = bindR ReadString (\<lambda>groupName. bindR readId (\<lambda>lastid.
     bindR (skip_lengths (if typeByte \<ge> 19 then 1 else 0)) (\<lambda>_.
     bindR (counted pel_entry) (\<lambda>ps.
     mapR (\<lambda>cs. [''XGROUP'', ''CREATE'', key, groupName, lastid] # concat cs)
       (counted (stream_consumer key typeByte groupName (pel_of ps)))))))"

definition readStream :: "string \<Rightarrow> nat \<Rightarrow> redisCmd list reader" where
  "readStream key typeByte =
     bindR ReadLength (\<lambda>len. let nListpack = int64 len in
     bindR (timesR (nat nListpack) (stream_node key)) (\<lambda>xadds.
     bindR (skip_lengths 1) (\<lambda>_.
     bindR readId (\<lambda>lastid.
     bindR (skip_lengths (if typeByte \<ge> 19 then 5 else 0)) (\<lambda>_.
     mapR (\<lambda>groups. concat xadds @
          (if nListpack = 0 then [[''xadd'', key, ''MAXLEN'', ''0'', ''0-1'', ''x'', ''y'']] else []) @
          [[''xsetid'', key, lastid]] @ concat groups)
       (counted (stream_group key typeByte)))))))"

definition stream_Rewrite :: "string \<Rightarrow> nat \<Rightarrow> redisCmd list reader" where
  "stream_Rewrite key typeByte = after_del key
     (if typeByte = 15 \<or> typeByte = 19 \<or> typeByte = 21 then readStream key typeByte
      else failR (LogPanicf ''unknown hash type''))"

section \<open>tairstring.go, tairhash.go, tairzset.go\<close>

definition tairstring_Rewrite :: "string \<Rightarrow> redisCmd list reader" where
  "tairstring_Rewrite key = bindR ReadModuleUnsigned (\<lambda>version. bindR ReadModuleUnsigned (\<lambda>flags.
     bindR ReadModuleString (\<lambda>tairValue.
       mapR (\<lambda>_. [[''EXSET'', key, tairValue, ''ABS'', version, ''FLAGS'', flags]]) ReadModuleEof)))"

definition exhset :: "string \<Rightarrow> redisCmd reader" where
  "exhset key = bindR ReadModuleString (\<lambda>skey. bindR ReadModuleUnsigned (\<lambda>version.
     bindR ReadModuleUnsigned (\<lambda>expireText. mapR (\<lambda>fieldValue.
       [''EXHSET'', key, skey, fieldValue] @
       (if ParseInt_val expireText = 0 then [] else [''ABS'', version, ''PXAT'', expireText]))
       ReadModuleString)))"

definition tairhash_Rewrite :: "redisCmd list reader" where
  "tairhash_Rewrite = bindR ReadModuleUnsigned (\<lambda>dictSizeStr. bindR ReadModuleString (\<lambda>key.
     bindR (timesR (nat (ParseInt_val dictSizeStr)) (exhset key)) (\<lambda>cmds.
       mapR (\<lambda>_. [''del'', key] # cmds) ReadModuleEof)))"

definition exzadd :: "floatLib \<Rightarrow> string \<Rightarrow> int \<Rightarrow> redisCmd reader" where
  "exzadd fl key scoreNum = bindR ReadModuleString (\<lambda>member.
     mapR (\<lambda>values. [''EXZADD'', key, Join values ''#'', member])
       (timesR (nat scoreNum) (ReadModuleDouble fl)))"

definition tairzset_Rewrite :: "floatLib \<Rightarrow> string \<Rightarrow> redisCmd list reader" where
  "tairzset_Rewrite fl key = bindR ReadModuleUnsigned (\<lambda>len. bindR ReadModuleUnsigned (\<lambda>scoreNum.
     bindR (timesR (nat (ParseInt_val len)) (exzadd fl key (ParseInt_val scoreNum))) (\<lambda>cmds.
       mapR (\<lambda>_. [''del'', key] # cmds) ReadModuleEof)))"

section \<open>mbbloom.go\<close>

definition readUnsigned :: "nat reader" where
  "readUnsigned = bindR ReadModuleUnsigned (\<lambda>v.
     case ParseUint v of Inl _ \<Rightarrow> failR (RuntimePanic ''strconv.ParseUint'') | Inr u \<Rightarrow> retR u)"

definition readDouble :: "floatLib \<Rightarrow> (64 word) reader" where
  "readDouble fl = bindR (ReadModuleDouble fl) (\<lambda>v.
     case ParseFloat fl v of None \<Rightarrow> failR (RuntimePanic ''strconv.ParseFloat'') | Some f \<Rightarrow> retR f)"

definition read_link :: "rdbEnv \<Rightarrow> nat \<Rightarrow> link reader" where
  "read_link env encver =
     bindR readUnsigned (\<lambda>ents. bindR (readDouble (floats env)) (\<lambda>er.
     bindR readUnsigned (\<lambda>hs. bindR (readDouble (floats env)) (\<lambda>bp.
     bindR (if encver = 0 then retR (float_mul env ents bp, 0)
            else bindR readUnsigned (\<lambda>bts. mapR (\<lambda>n. (bts, n)) readUnsigned)) (\<lambda>(bts, n).
     bindR ReadModuleString (\<lambda>b. mapR (\<lambda>size.
       \<lparr>inner = \<lparr>hashes = hs, n2 = n, entries = ents, bl_err = er, bpe = bp, bf = b, bits = bts\<rparr>,
        link_size = size\<rparr>) readUnsigned))))))"

definition bloom_LoadFromBuffer :: "rdbEnv \<Rightarrow> nat \<Rightarrow> chain reader" where
  "bloom_LoadFromBuffer env encver =
     bindR readUnsigned (\<lambda>size. bindR readUnsigned (\<lambda>nf.
     bindR (if encver \<ge> 2 then readUnsigned else retR 0) (\<lambda>opts.
     bindR (if encver \<ge> 4 then readUnsigned else retR 2) (\<lambda>gr.
     bindR (timesR nf (read_link env encver)) (\<lambda>ls.
     mapR (\<lambda>_. \<lparr>filters = ls, chain_size = size, nfilters = nf, options = opts, growth = gr\<rparr>)
       ReadModuleEof)))))"

text \<open>
  The header is a C struct of packed little-endian fields; a narrower field keeps the low bytes.
  The growth factor and the upper half of the entry count are present in newer versions only.
\<close>

definition link_header :: "bool \<Rightarrow> link \<Rightarrow> string" where
  "link_header bigEntries sl = (let b = inner sl in
     le_bytes 8 (length (bf b)) @ le_bytes 8 (bits b) @ le_bytes 8 (link_size sl) @
     le_bytes 8 (unat (bl_err b)) @ le_bytes 8 (unat (bpe b)) @ le_bytes 4 (hashes b) @
     le_bytes (if bigEntries then 8 else 4) (entries b) @ le_bytes 1 (n2 b))"

definition getEncodedHeader :: "chain \<Rightarrow> bool \<Rightarrow> bool \<Rightarrow> string" where
  "getEncodedHeader sb withGrowth bigEntries =
     le_bytes 8 (chain_size sb) @ le_bytes 4 (nfilters sb) @ le_bytes 4 (options sb) @
     (if withGrowth then le_bytes 4 (growth sb) else []) @
     concat (map (link_header bigEntries) (filters sb))"

fun link_pos :: "link list \<Rightarrow> nat \<Rightarrow> nat \<Rightarrow> (link \<times> nat) option" where
  "link_pos [] seekPos curIter = None"
| "link_pos (l # ls) seekPos curIter =
     (if seekPos + length (bf (inner l)) > curIter then Some (l, curIter - seekPos)
      else link_pos ls (seekPos + length (bf (inner l))) curIter)"

definition getLinkPos :: "chain \<Rightarrow> nat \<Rightarrow> (link \<times> nat) option" where
  "getLinkPos sb curIter = link_pos (filters sb) 0 (curIter - 1)"

definition MAX_SCANDUMP_SIZE :: nat where "MAX_SCANDUMP_SIZE = 10485760"

text \<open>The chunk and the next position.\<close>

definition getEncodedChunk :: "chain \<Rightarrow> nat \<Rightarrow> nat \<Rightarrow> string \<times> nat" where
  "getEncodedChunk sb curIter maxChunkSize = (case getLinkPos sb curIter of None \<Rightarrow> ([], 0)
     | Some (pl, off) \<Rightarrow>
         (let l = min maxChunkSize (length (bf (inner pl)) - off)
          in (take l (drop off (bf (inner pl))), curIter + l)))"

definition chain_bytes :: "chain \<Rightarrow> string" where
  "chain_bytes sb = concat (map (\<lambda>l. bf (inner l)) (filters sb))"

lemma link_pos_chunk:
  "link_pos ls seek cur = Some (l, off) \<Longrightarrow> seek \<le> cur \<Longrightarrow>
     (\<exists>u v. concat (map (\<lambda>l. bf (inner l)) ls) = u @ drop off (bf (inner l)) @ v \<and> length u + seek = cur
        \<and> off < length (bf (inner l)))"
proof (induction ls seek cur rule: link_pos.induct)
  case (2 k ls seek cur)
  show ?case
  proof (cases "seek + length (bf (inner k)) > cur")
    case True
    with 2 have "l = k" "off = cur - seek" by auto
    moreover have "concat (map (\<lambda>l. bf (inner l)) (k # ls))
        = take off (bf (inner k)) @ drop off (bf (inner k)) @ concat (map (\<lambda>l. bf (inner l)) ls)" by simp
    moreover have "length (take off (bf (inner k))) + seek = cur" "off < length (bf (inner k))"
      using True "2.prems" calculation(2) by auto
    ultimately show ?thesis by blast
  next
    case False
    with 2 obtain u v where "concat (map (\<lambda>l. bf (inner l)) ls) = u @ drop off (bf (inner l)) @ v"
      "length u + (seek + length (bf (inner k))) = cur" "off < length (bf (inner l))" by auto
    then show ?thesis by (intro exI [of _ "bf (inner k) @ u"] exI [of _ v]) auto
  qed
qed simp

lemma link_pos_None:
  "link_pos ls seek cur = None \<Longrightarrow> seek \<le> cur \<Longrightarrow> seek + length (concat (map (\<lambda>l. bf (inner l)) ls)) \<le> cur"
proof (induction ls seek cur rule: link_pos.induct)
  case (2 k ls seek cur)
  then have "link_pos ls (seek + length (bf (inner k))) cur = None" "seek + length (bf (inner k)) \<le> cur"
    by (auto split: if_splits)
  with "2.IH" show ?case by (auto split: if_splits)
qed simp

text \<open>A chunk is the next piece of the filters; it is empty only at the end.\<close>

lemma getEncodedChunk_next:
  assumes "1 \<le> cur" "0 < mx"
  shows "case getEncodedChunk sb cur mx of (c, next) \<Rightarrow>
     (c = [] \<and> length (chain_bytes sb) \<le> cur - 1) \<or>
     (c \<noteq> [] \<and> length c \<le> mx \<and> next = cur + length c \<and> (\<exists>v. drop (cur - 1) (chain_bytes sb) = c @ v))"
proof (cases "getLinkPos sb cur")
  case None
  then have "length (chain_bytes sb) \<le> cur - 1"
    using link_pos_None [of "filters sb" 0 "cur - 1"] by (simp add: getLinkPos_def chain_bytes_def)
  with None show ?thesis by (simp add: getEncodedChunk_def)
next
  case (Some p)
  obtain l off where p: "p = (l, off)" by (cases p)
  let ?b = "bf (inner l)"
  from Some p link_pos_chunk [of "filters sb" 0 "cur - 1" l off] obtain u v
    where uv: "chain_bytes sb = u @ drop off ?b @ v" "length u = cur - 1" "off < length ?b"
    by (auto simp: getLinkPos_def chain_bytes_def)
  define k where "k = min mx (length ?b - off)"
  have k: "0 < k" "k \<le> mx" "length (take k (drop off ?b)) = k" using assms(2) uv(3) by (auto simp: k_def)
  have "drop (cur - 1) (chain_bytes sb) = take k (drop off ?b) @ drop k (drop off ?b) @ v"
    using uv(1,2) append_take_drop_id [of k "drop off ?b"]
    by (metis append_assoc append_eq_conv_conj)
  moreover have "getEncodedChunk sb cur mx = (take k (drop off ?b), cur + k)"
    using Some p by (simp add: getEncodedChunk_def k_def Let_def)
  ultimately show ?thesis using k by auto
qed

text \<open>The loop of \<^verbatim>\<open>Rewrite\<close>, from \<^verbatim>\<open>curIter\<close> on, which starts at 1 and grows.\<close>

function chunk_cmds :: "string \<Rightarrow> chain \<Rightarrow> nat \<Rightarrow> redisCmd list" where
  "chunk_cmds key sb curIter =
     (if curIter = 0 then []
      else (case getEncodedChunk sb curIter MAX_SCANDUMP_SIZE of (c, curIter') \<Rightarrow>
        if c = [] then []
        else [''BF.LOADCHUNK'', key, FormatUint curIter', c] # chunk_cmds key sb curIter'))"
  by pat_completeness auto
termination
proof (relation "measure (\<lambda>(_, sb, cur). length (chain_bytes sb) + 1 - cur)", goal_cases)
  case (2 key sb cur c cur')
  then have "c \<noteq> []" "cur' = cur + length c" "\<exists>v. drop (cur - 1) (chain_bytes sb) = c @ v"
    using getEncodedChunk_next [of cur MAX_SCANDUMP_SIZE sb] by (auto simp: MAX_SCANDUMP_SIZE_def)
  moreover then have "length c \<le> length (chain_bytes sb) - (cur - 1)" by (metis length_drop length_append le_add1)
  ultimately show ?case using 2 by (cases c) auto
qed simp

declare chunk_cmds.simps [simp del]

definition bloom_header :: "rdbEnv \<Rightarrow> nat \<Rightarrow> chain \<Rightarrow> string" where
  "bloom_header env encver sb = (let ver = TargetMBbloomVersion env in
     if ver > 20200 then getEncodedHeader sb True True
     else if ver = 20200 then getEncodedHeader sb True False
     else if ver \<ge> 10000 then getEncodedHeader sb False False
     else if encver < 4 then getEncodedHeader sb False False
     else getEncodedHeader sb True True)"

definition bloom_Rewrite :: "rdbEnv \<Rightarrow> nat \<Rightarrow> string \<Rightarrow> chain \<Rightarrow> redisCmd list" where
  "bloom_Rewrite env encver key sb =
     [''del'', key] # [''BF.LOADCHUNK'', key, ''1'', bloom_header env encver sb] # chunk_cmds key sb 1"

section \<open>ParseObject and Rewrite\<close>

definition PareseModuleType :: "rdbEnv \<Rightarrow> string \<Rightarrow> nat \<Rightarrow> redisObject reader" where
  "PareseModuleType env key typeByte =
     (if typeByte = 6 then failR (LogPanicf ''module type with version 1 is not supported'')
      else bindR ReadLength (\<lambda>moduleId.
        let moduleName = ModuleTypeNameByID moduleId
        in if moduleName = ''exstrtype'' then retR (TairStringObject key)
           else if moduleName = ''tairhash-'' then retR TairHashObject
           else if moduleName = ''tairzset_'' then retR (TairZsetObject key)
           else if moduleName = ''MBbloom--''
           then mapR (BloomObject (moduleId AND 1023) key) (bloom_LoadFromBuffer env (moduleId AND 1023))
           else failR (LogPanicf ''unsupported module type'')))"

definition ParseObject :: "rdbEnv \<Rightarrow> nat \<Rightarrow> string \<Rightarrow> bool \<Rightarrow> redisObject reader" where
  "ParseObject env typeByte key isValkey =
     (if typeByte = 0 then retR (StringObject key)
      else if typeByte \<in> {1, 10, 14, 18} then retR (ListObject key typeByte)
      else if typeByte \<in> {2, 11, 20} then retR (SetObject key typeByte)
      else if typeByte \<in> {3, 5, 12, 17} then retR (ZsetObject key typeByte)
      else if typeByte \<in> {4, 9, 13, 16, 22, 23, 24, 25} then retR (HashObject key typeByte isValkey)
      else if typeByte \<in> {15, 19, 21} then retR (StreamObject key typeByte)
      else if typeByte \<in> {6, 7} then PareseModuleType env key typeByte
      else failR (LogPanicf ''unknown rdb value type byte''))"

fun Rewrite :: "rdbEnv \<Rightarrow> redisObject \<Rightarrow> redisCmd list reader" where
  "Rewrite env (StringObject key) = string_Rewrite key"
| "Rewrite env (ListObject key typeByte) = list_Rewrite key typeByte"
| "Rewrite env (SetObject key typeByte) = set_Rewrite key typeByte"
| "Rewrite env (ZsetObject key typeByte) = zset_Rewrite (floats env) key typeByte"
| "Rewrite env (HashObject key typeByte isValkey) = hash_Rewrite key typeByte isValkey"
| "Rewrite env (StreamObject key typeByte) = stream_Rewrite key typeByte"
| "Rewrite env (TairStringObject key) = tairstring_Rewrite key"
| "Rewrite env TairHashObject = tairhash_Rewrite"
| "Rewrite env (TairZsetObject key) = tairzset_Rewrite (floats env) key"
| "Rewrite env (BloomObject encver key sb) = retR (bloom_Rewrite env encver key sb)"

text \<open>The commands of a value, as the loader asks for them.\<close>

definition value_cmds :: "rdbEnv \<Rightarrow> nat \<Rightarrow> string \<Rightarrow> bool \<Rightarrow> redisCmd list reader" where
  "value_cmds env typeByte key isValkey = bindR (ParseObject env typeByte key isValkey) (Rewrite env)"

section \<open>The contract\<close>

lemmas rewrite_defs = string_Rewrite_def readList_def list_readZipList_def readQuickList_def
  quicklist_node_def readQuickList2_def after_del_def list_Rewrite_def readSet_def set_Rewrite_def
  zset_elem_def zset_packed_def zset_Rewrite_def readHash_def hash_packed_def readHashValkey_def
  readHashListpackTtl_def readHashTtl_def hash_Rewrite_def tairstring_Rewrite_def exhset_def
  tairhash_Rewrite_def exzadd_def tairzset_Rewrite_def

lemma stream_counted [stream_intros]: "stream_reader p \<Longrightarrow> stream_reader (counted p)"
  unfolding counted_def by (intro stream_intros)

lemma stream_quicklist_node [stream_intros]: "stream_reader quicklist_node"
  unfolding quicklist_node_def by (intro stream_intros)

lemma stream_ids [stream_intros]: "stream_reader readId" "stream_reader readRawId"
  "stream_reader (skip_lengths n)"
  unfolding readId_def readRawId_def skip_lengths_def by (intro stream_intros)+

lemma stream_stream [stream_intros]: "stream_reader (stream_Rewrite key typeByte)"
  unfolding stream_Rewrite_def readStream_def stream_node_def stream_group_def pel_entry_def
    stream_consumer_def after_del_def Let_def
  by (intro stream_intros)

lemma stream_unsigned [stream_intros]: "stream_reader readUnsigned" "stream_reader (readDouble fl)"
  unfolding readUnsigned_def readDouble_def by (intro stream_intros)+

lemma stream_link [stream_intros]: "stream_reader (read_link env encver)"
  unfolding read_link_def by (intro stream_bindR stream_mapR stream_if stream_retR stream_case_prod stream_unsigned
    stream_module)

lemma stream_bloom [stream_intros]: "stream_reader (bloom_LoadFromBuffer env encver)"
  unfolding bloom_LoadFromBuffer_def by (intro stream_intros)

lemma stream_ParseObject [stream_intros]: "stream_reader (ParseObject env typeByte key isValkey)"
  unfolding ParseObject_def PareseModuleType_def Let_def by (intro stream_intros)

lemma stream_rewrites [stream_intros]:
  "stream_reader (string_Rewrite key)" "stream_reader (list_Rewrite key typeByte)"
  "stream_reader (set_Rewrite key typeByte)" "stream_reader (zset_Rewrite fl key typeByte)"
  "stream_reader (hash_Rewrite key typeByte isValkey)" "stream_reader (tairstring_Rewrite key)"
  "stream_reader tairhash_Rewrite" "stream_reader (tairzset_Rewrite fl key)"
  unfolding rewrite_defs Let_def by (intro stream_intros)+

lemma stream_Rewrite [stream_intros]: "stream_reader (Rewrite env o1)"
  by (cases o1) (auto intro: stream_intros)

lemma stream_value_cmds [stream_intros]: "stream_reader (value_cmds env typeByte key isValkey)"
  unfolding value_cmds_def by (intro stream_intros)

text \<open>Every value reader keeps the contract.\<close>

interpretation val_rd: stream_reader "value_cmds env typeByte key isValkey" for env typeByte key isValkey
  by (rule stream_value_cmds)

end
