(* ===== verification/RdbLoader.thy ===== *)
theory RdbLoader
  imports Entry Crc RdbTypes
begin

text \<open>
  \<^verbatim>\<open>internal/rdb/rdb.go\<close>: the loader that turns an RDB file into entries.  The file is a string, the
  channel is the list of entries sent; the loader's result is either a failure, after which the
  entries already sent stay sent, or its final state.  \<open>now i\<close> is the clock, in milliseconds, and
  \<open>cancelled i\<close> the state of the context in round \<open>i\<close> of the loop.  The byte offset reported to the
  statistics is left out.
\<close>

section \<open>The loader\<close>

record rdbOptions =
  env :: rdbEnv
  TargetRedisProtoMaxBulkLen :: nat
  RDBRestoreCommandBehavior :: string

record loader =
  replStreamDbId :: int
  nowDBId :: int
  expireMs :: int
  idle :: int
  freq :: int
  isValkey :: bool

definition NewLoader :: loader where
  "NewLoader = \<lparr>replStreamDbId = 0, nowDBId = 0, expireMs = 0, idle = 0, freq = 0, isValkey = False\<rparr>"

definition mk_entry :: "int \<Rightarrow> string list \<Rightarrow> entry" where
  "mk_entry db argv = NewEntry\<lparr>DbId := db, Argv := argv\<rparr>"

definition createValueDump :: "nat \<Rightarrow> string \<Rightarrow> string" where
  "createValueDump typeByte val =
     (let buf = byte typeByte # val @ le_bytes 2 6 in buf @ le_bytes 8 (unat (CalcCRC64 buf)))"

text \<open>What the loader sends for a value: the type, the key, the commands and the captured bytes.\<close>

definition value_entries :: "rdbOptions \<Rightarrow> loader \<Rightarrow> nat \<Rightarrow> string \<Rightarrow> redisCmd list \<Rightarrow> string \<Rightarrow> entry list" where
  "value_entries opt ld typeByte key cmds val =
     (let rewrite = (RDBRestoreCommandBehavior opt = ''rewrite'') in
      if 1 + length val + 2 + 8 > TargetRedisProtoMaxBulkLen opt then
        (if rewrite then [mk_entry (nowDBId ld) [''DEL'', key]] else []) @
        map (mk_entry (nowDBId ld)) cmds @
        (if expireMs ld \<noteq> 0 then [mk_entry (nowDBId ld) [''PEXPIRE'', key, Itoa (expireMs ld)]] else [])
      else
        (let pttl = (if expireMs ld > 0 then expireMs ld else 0)
         in [mk_entry (nowDBId ld) ([''RESTORE'', key, Itoa pttl, createValueDump typeByte val] @
               (if rewrite then [''replace''] else []))]))"

definition skip_aux :: "floatLib \<Rightarrow> nat \<Rightarrow> unit reader" where
  "skip_aux fl opcode =
     (if opcode = 1 \<or> opcode = 2 then mapR (\<lambda>_. ()) ReadLength
      else if opcode = 3 then mapR (\<lambda>_. ()) (ReadFloat fl)
      else if opcode = 4 then mapR (\<lambda>_. ()) ReadDouble
      else if opcode = 5 then mapR (\<lambda>_. ()) ReadString
      else failR (LogPanicf ''module aux opcode not found''))"

lemma stream_skip_aux [stream_intros]: "stream_reader (skip_aux fl opcode)"
  unfolding skip_aux_def by (intro stream_intros)

lemma ReadLength_shorter: "ReadLength s = Inr (n, s') \<Longrightarrow> length s' < length s"
proof -
  assume "ReadLength s = Inr (n, s')"
  then obtain b s1 f where "ReadByte s = Inr (b, s1)" "f s1 = Inr (n, s')" "stream_reader f"
  proof -
    from \<open>ReadLength s = Inr (n, s')\<close> obtain b s1 where b: "ReadByte s = Inr (b, s1)"
      by (auto simp: ReadLength_def readEncodedLength_def elim!: bindR_InrE)
    define g where "g = bindR (if first2bits b = 0 then retR (b AND 0x3F, False)
     else if first2bits b = 1 then mapR (\<lambda>b'. (push_bit 8 (b AND 0x3F) OR b', False)) ReadByte
     else if first2bits b = 2 then
       (if b = 0x80 then mapR (\<lambda>s. (be_nat s, False)) (ReadBytes 4)
        else if b = 0x81 then mapR (\<lambda>s. (be_nat s, False)) (ReadBytes 8)
        else failR (LogPanicf ''illegal length encoding''))
     else retR (b AND 0x3F, True)) (\<lambda>(len, special).
     if special then failR (LogPanicf ''illegal length special=true'') else retR len)"
    have "g s1 = Inr (n, s')"
      using \<open>ReadLength s = Inr (n, s')\<close> b unfolding g_def ReadLength_def readEncodedLength_def bindR_def by simp
    moreover have "stream_reader g" unfolding g_def by (intro stream_intros)
    ultimately show thesis using b that by blast
  qed
  then show ?thesis
    using ReadByte_shorter [of s b s1] stream_reader.rest_le [of f s1 n s'] by simp
qed

function skip_auxs :: "floatLib \<Rightarrow> unit reader" where
  "skip_auxs fl s = (case ReadLength s of Inl f \<Rightarrow> Inl f
     | Inr (opcode, s1) \<Rightarrow> if opcode = 0 then Inr ((), s1)
         else (case skip_aux fl opcode s1 of Inl f \<Rightarrow> Inl f | Inr (_, s2) \<Rightarrow> skip_auxs fl s2))"
  by pat_completeness auto
termination
  by (relation "measure (\<lambda>(_, s). length s)")
    (auto dest!: ReadLength_shorter stream_reader.rest_le [OF stream_skip_aux])

declare skip_auxs.simps [simp del]

text \<open>A time to live; one in the past becomes 1 ms.\<close>

definition ttl :: "int \<Rightarrow> int" where
  "ttl ms = (if ms < 0 then 1 else ms)"

text \<open>
  One round of the loop after the type byte: the next state and the entries it sends; \<open>None\<close> is
  the end of the file.
\<close>

definition parse_item :: "rdbOptions \<Rightarrow> int \<Rightarrow> loader \<Rightarrow> nat \<Rightarrow> (loader \<times> entry list) option reader" where
  "parse_item opt now ld typeByte =
     (if typeByte = 244 then mapR (\<lambda>_. Some (ld, [])) (skip_lengths 3)
      else if typeByte = 246 then failR (LogPanicf ''function library data not supported'')
      else if typeByte = 245 then
        mapR (\<lambda>fn. Some (ld, [mk_entry 0 [''function'', ''load'', ''replace'', fn]])) ReadString
      else if typeByte = 247 then
        bindR (skip_lengths 3) (\<lambda>_. mapR (\<lambda>_. Some (ld, [])) (skip_auxs (floats (env opt))))
      else if typeByte = 248 then mapR (\<lambda>n. Some (ld\<lparr>idle := int64 n\<rparr>, [])) ReadLength
      else if typeByte = 249 then mapR (\<lambda>n. Some (ld\<lparr>freq := int n\<rparr>, [])) ReadByte
      else if typeByte = 250 then
        bindR ReadString (\<lambda>key. bindR ReadString (\<lambda>val.
          if key = ''repl-stream-db'' then
            (case Atoi val of Inl _ \<Rightarrow> failR (LogPanicf ''strconv.Atoi'')
             | Inr n \<Rightarrow> retR (Some (ld\<lparr>replStreamDbId := n\<rparr>, [])))
          else if key = ''lua'' then retR (Some (ld, [mk_entry 0 [''script'', ''load'', val]]))
          else retR (Some (ld, []))))
      else if typeByte = 251 then mapR (\<lambda>_. Some (ld, [])) (skip_lengths 2)
      else if typeByte = 252 then
        mapR (\<lambda>n. Some (ld\<lparr>expireMs := ttl (wrap64 (int64 n - now))\<rparr>, [])) ReadUint64
      else if typeByte = 253 then
        mapR (\<lambda>n. Some (ld\<lparr>expireMs := ttl (wrap64 (int n * 1000 - now))\<rparr>, [])) ReadUint32
      else if typeByte = 254 then mapR (\<lambda>n. Some (ld\<lparr>nowDBId := int64 n\<rparr>, [])) ReadLength
      else if typeByte = 255 then retR None
      else bindR ReadString (\<lambda>key.
        mapR (\<lambda>(cmds, val). Some (ld\<lparr>expireMs := 0, idle := 0, freq := 0\<rparr>,
                value_entries opt ld typeByte key cmds val))
          (teeR (value_cmds (env opt) typeByte key (isValkey ld)))))"

lemma skip_auxs_consumes: "skip_auxs fl s = Inr (x, s') \<Longrightarrow> \<exists>v. s = v @ s'"
proof (induction fl s rule: skip_auxs.induct)
  case (1 fl s)
  from "1.prems" obtain op s1 where o1: "ReadLength s = Inr (op, s1)"
    by (subst (asm) skip_auxs.simps) (auto split: sum.splits)
  from stream_reader.consumes [OF stream_ReadLength o1] obtain a where a: "s = a @ s1" by blast
  show ?case
  proof (cases "op = 0")
    case True
    with "1.prems" o1 a show ?thesis by (subst (asm) skip_auxs.simps) auto
  next
    case False
    with "1.prems" o1 obtain u s2 where s2: "skip_aux fl op s1 = Inr (u, s2)" "skip_auxs fl s2 = Inr (x, s')"
      by (subst (asm) skip_auxs.simps) (auto split: sum.splits)
    from stream_reader.consumes [OF stream_skip_aux s2(1)] obtain b where b: "s1 = b @ s2" by blast
    from "1.IH" [OF o1 refl False s2(1) refl s2(2)] obtain c where "s2 = c @ s'" by blast
    with a b have "s = (a @ b @ c) @ s'" by simp
    then show ?thesis by blast
  qed
qed

lemma skip_auxs_no_lookahead:
  "skip_auxs fl s = Inr (x, s') \<Longrightarrow> s' \<noteq> [] \<Longrightarrow> s = v @ s' \<Longrightarrow> skip_auxs fl (v @ t) = Inr (x, t)"
proof (induction fl s arbitrary: v rule: skip_auxs.induct)
  case (1 fl s)
  from "1.prems"(1) obtain op s1 where o1: "ReadLength s = Inr (op, s1)"
    by (subst (asm) skip_auxs.simps) (auto split: sum.splits)
  from stream_reader.consumes [OF stream_ReadLength o1] obtain a where a: "s = a @ s1" by blast
  note nl = stream_reader.no_lookahead [OF stream_ReadLength, of a s1]
  show ?case
  proof (cases "op = 0")
    case True
    with o1 have "skip_auxs fl s = Inr ((), s1)" by (subst skip_auxs.simps) simp
    with "1.prems"(1) have e: "s1 = s'" "x = ()" by simp_all
    with a "1.prems" have "v = a" by simp
    moreover have "ReadLength (a @ t) = Inr (op, t)"
      by (rule nl) (use o1 a e "1.prems"(2) in auto)
    ultimately show ?thesis using True e by (subst skip_auxs.simps) simp
  next
    case False
    with "1.prems"(1) o1 obtain u s2 where s2: "skip_aux fl op s1 = Inr (u, s2)" "skip_auxs fl s2 = Inr (x, s')"
      by (subst (asm) skip_auxs.simps) (auto split: sum.splits)
    from stream_reader.consumes [OF stream_skip_aux s2(1)] obtain b where b: "s1 = b @ s2" by blast
    from skip_auxs_consumes [OF s2(2)] obtain c where c: "s2 = c @ s'" by blast
    from a b c "1.prems" have v: "v = a @ b @ c" and ne: "s1 \<noteq> []" "s2 \<noteq> []" by auto
    have "ReadLength (a @ (b @ c @ t)) = Inr (op, b @ c @ t)"
      by (rule nl) (use o1 a ne in auto)
    moreover have "skip_aux fl op (b @ (c @ t)) = Inr (u, c @ t)"
      by (rule stream_reader.no_lookahead [OF stream_skip_aux, of fl op b s2]) (use s2(1) b ne in auto)
    moreover have "skip_auxs fl (c @ t) = Inr (x, t)"
      using "1.IH" [OF o1 refl False s2(1) refl s2(2) "1.prems"(2) c] .
    ultimately show ?thesis using False v by (subst skip_auxs.simps) simp
  qed
qed

lemma stream_skip_auxs [stream_intros]: "stream_reader (skip_auxs fl)"
  by unfold_locales (blast intro: skip_auxs_consumes skip_auxs_no_lookahead)+

lemma stream_teeR [stream_intros]:
  assumes "stream_reader p" shows "stream_reader (teeR p)"
proof
  fix s x s' assume "teeR p s = Inr (x, s')"
  then show "\<exists>v. s = v @ s'"
    using stream_reader.tee_splits(1) [OF assms, of s "fst x" "snd x" s'] by auto
next
  fix v s' x t assume a: "teeR p (v @ s') = Inr (x, s')" "s' \<noteq> []"
  then obtain y where y: "p (v @ s') = Inr (y, s')" "x = (y, v)"
    by (auto simp: teeR_def split: sum.splits)
  from stream_reader.no_lookahead [OF assms y(1) a(2)] y(2) show "teeR p (v @ t) = Inr (x, t)"
    by (simp add: teeR_def)
qed

lemma stream_parse_item [stream_intros]: "stream_reader (parse_item opt now ld typeByte)"
  unfolding parse_item_def by (intro stream_intros)

text \<open>The loop: the entries sent, and the failure or the state it ends with.\<close>

function parseRDBEntry ::
  "rdbOptions \<Rightarrow> (nat \<Rightarrow> int) \<Rightarrow> (nat \<Rightarrow> bool) \<Rightarrow> nat \<Rightarrow> loader \<Rightarrow> string \<Rightarrow> entry list \<times> loader res" where
  "parseRDBEntry opt now cancelled i ld s =
     (case ReadByte s of Inl f \<Rightarrow> ([], Inl f)
      | Inr (typeByte, s1) \<Rightarrow>
        (case parse_item opt (now i) ld typeByte s1 of Inl f \<Rightarrow> ([], Inl f)
         | Inr (None, _) \<Rightarrow> ([], Inr ld)
         | Inr (Some (ld', es), s2) \<Rightarrow>
             if cancelled i then (es, Inr ld')
             else (case parseRDBEntry opt now cancelled (Suc i) ld' s2 of (es', r) \<Rightarrow> (es @ es', r))))"
  by pat_completeness auto
termination
  by (relation "measure (\<lambda>(_, _, _, _, _, s). length s)")
    (auto dest!: ReadByte_shorter stream_reader.rest_le [OF stream_parse_item])

declare parseRDBEntry.simps [simp del]

definition ParseRDB ::
  "rdbOptions \<Rightarrow> (nat \<Rightarrow> int) \<Rightarrow> (nat \<Rightarrow> bool) \<Rightarrow> string \<Rightarrow> entry list \<times> int res" where
  "ParseRDB opt now cancelled file =
     (if length file < 9 then ([], Inl (LogPanicf ''unexpected EOF''))
      else let buf = take 9 file; rest = drop 9 file;
          run = (\<lambda>vk version. case Atoi version of Inl _ \<Rightarrow> ([], Inl (LogPanicf ''strconv.Atoi''))
            | Inr _ \<Rightarrow> (case parseRDBEntry opt now cancelled 0 (NewLoader\<lparr>isValkey := vk\<rparr>) rest of
                (es, r) \<Rightarrow> (es, map_sum id replStreamDbId r)))
        in if take 5 buf = ''REDIS'' then run False (drop 5 buf)
           else if take 6 buf = ''VALKEY'' then run True (drop 6 buf)
           else ([], Inl (LogPanicf ''verify magic string'')))"

section \<open>A file as Redis writes it\<close>

datatype item =
  Select nat
| ExpireMs nat
| ExpireS nat
| Idle nat
| Freq nat
| ResizeDB nat nat
| SlotInfo nat nat nat
| Aux rdbStr rdbStr
| Function2 rdbStr
| KeyVal nat rdbStr string "redisCmd list"

fun item_enc :: "item \<Rightarrow> string" where
  "item_enc (Select n) = byte 254 # enc_len n"
| "item_enc (ExpireMs n) = byte 252 # le_bytes 8 n"
| "item_enc (ExpireS n) = byte 253 # le_bytes 4 n"
| "item_enc (Idle n) = byte 248 # enc_len n"
| "item_enc (Freq n) = [byte 249, byte n]"
| "item_enc (ResizeDB a b) = byte 251 # enc_len a @ enc_len b"
| "item_enc (SlotInfo a b c) = byte 244 # enc_len a @ enc_len b @ enc_len c"
| "item_enc (Aux k v) = byte 250 # str_enc k @ str_enc v"
| "item_enc (Function2 f) = byte 245 # str_enc f"
| "item_enc (KeyVal tb k b cmds) = byte tb # str_enc k @ b"

text \<open>The bytes of a value are any that its reader takes for one, whatever follows.\<close>

fun item_valid :: "rdbOptions \<Rightarrow> bool \<Rightarrow> item \<Rightarrow> bool" where
  "item_valid opt vk (Select n) = (n < 2 ^ 63)"
| "item_valid opt vk (ExpireMs n) = (n < 2 ^ 63)"
| "item_valid opt vk (ExpireS n) = (n < 2 ^ 32)"
| "item_valid opt vk (Idle n) = (n < 2 ^ 63)"
| "item_valid opt vk (Freq n) = (n < 256)"
| "item_valid opt vk (ResizeDB a b) = (a < 2 ^ 64 \<and> b < 2 ^ 64)"
| "item_valid opt vk (SlotInfo a b c) = (a < 2 ^ 64 \<and> b < 2 ^ 64 \<and> c < 2 ^ 64)"
| "item_valid opt vk (Aux k v) = (str_valid k \<and> str_valid v \<and>
     (str_value k = ''repl-stream-db'' \<longrightarrow> (\<exists>n. Atoi (str_value v) = Inr n)))"
| "item_valid opt vk (Function2 f) = str_valid f"
| "item_valid opt vk (KeyVal tb k b cmds) = (tb < 244 \<and> str_valid k \<and>
     (\<forall>t. value_cmds (env opt) tb (str_value k) vk (b @ t) = Inr (cmds, t)))"

text \<open>
  What a file means: a database number and a deadline that stand before a key, and the key.
  A deadline counts for the next key only; it becomes the time left at the moment it is read.
\<close>

definition time_left :: "int \<Rightarrow> int \<Rightarrow> int" where
  "time_left now deadline = (if deadline < now then 1 else deadline - now)"

definition key_entries :: "rdbOptions \<Rightarrow> int \<Rightarrow> int \<Rightarrow> nat \<Rightarrow> string \<Rightarrow> string \<Rightarrow> redisCmd list \<Rightarrow> entry list" where
  "key_entries opt db left tb key b cmds =
     (if length b + 11 \<le> TargetRedisProtoMaxBulkLen opt
      then [mk_entry db ([''RESTORE'', key, Itoa left, createValueDump tb b] @
             (if RDBRestoreCommandBehavior opt = ''rewrite'' then [''replace''] else []))]
      else map (mk_entry db) ((if RDBRestoreCommandBehavior opt = ''rewrite'' then [[''DEL'', key]] else []) @
             cmds @ (if left = 0 then [] else [[''PEXPIRE'', key, Itoa left]])))"

fun sent :: "rdbOptions \<Rightarrow> (nat \<Rightarrow> int) \<Rightarrow> nat \<Rightarrow> int \<Rightarrow> int \<Rightarrow> item list \<Rightarrow> entry list" where
  "sent opt now i db left [] = []"
| "sent opt now i db left (it # its) = (case it of
     Select n \<Rightarrow> sent opt now (Suc i) (int n) left its
   | ExpireMs d \<Rightarrow> sent opt now (Suc i) db (time_left (now i) (int d)) its
   | ExpireS d \<Rightarrow> sent opt now (Suc i) db (time_left (now i) (int d * 1000)) its
   | Aux k v \<Rightarrow> (if str_value k = ''lua'' then [mk_entry 0 [''script'', ''load'', str_value v]] else []) @
       sent opt now (Suc i) db left its
   | Function2 f \<Rightarrow> mk_entry 0 [''function'', ''load'', ''replace'', str_value f] # sent opt now (Suc i) db left its
   | KeyVal tb k b cmds \<Rightarrow> key_entries opt db left tb (str_value k) b cmds @ sent opt now (Suc i) db 0 its
   | _ \<Rightarrow> sent opt now (Suc i) db left its)"

fun repl_db :: "int \<Rightarrow> item list \<Rightarrow> int" where
  "repl_db n [] = n"
| "repl_db n (Aux k v # its) = repl_db (if str_value k = ''repl-stream-db'' then ParseInt_val (str_value v) else n) its"
| "repl_db n (_ # its) = repl_db n its"

text \<open>The effect of one item on the loader.\<close>

fun item_state :: "int \<Rightarrow> loader \<Rightarrow> item \<Rightarrow> loader" where
  "item_state now ld (Select n) = ld\<lparr>nowDBId := int n\<rparr>"
| "item_state now ld (ExpireMs d) = ld\<lparr>expireMs := time_left now (int d)\<rparr>"
| "item_state now ld (ExpireS d) = ld\<lparr>expireMs := time_left now (int d * 1000)\<rparr>"
| "item_state now ld (Idle n) = ld\<lparr>idle := int n\<rparr>"
| "item_state now ld (Freq n) = ld\<lparr>freq := int n\<rparr>"
| "item_state now ld (ResizeDB a b) = ld"
| "item_state now ld (SlotInfo a b c) = ld"
| "item_state now ld (Aux k v) =
     (if str_value k = ''repl-stream-db'' then ld\<lparr>replStreamDbId := ParseInt_val (str_value v)\<rparr> else ld)"
| "item_state now ld (Function2 f) = ld"
| "item_state now ld (KeyVal tb k b cmds) = ld\<lparr>expireMs := 0, idle := 0, freq := 0\<rparr>"

fun item_entries :: "rdbOptions \<Rightarrow> loader \<Rightarrow> item \<Rightarrow> entry list" where
  "item_entries opt ld (Aux k v) = (if str_value k = ''lua'' then [mk_entry 0 [''script'', ''load'', str_value v]] else [])"
| "item_entries opt ld (Function2 f) = [mk_entry 0 [''function'', ''load'', ''replace'', str_value f]]"
| "item_entries opt ld (KeyVal tb k b cmds) = key_entries opt (nowDBId ld) (expireMs ld) tb (str_value k) b cmds"
| "item_entries opt ld _ = []"

definition clock :: "int \<Rightarrow> bool" where
  "clock t \<longleftrightarrow> 0 \<le> t \<and> t < 2 ^ 63"

lemma ttl_time_left: "clock now \<Longrightarrow> 0 \<le> d \<Longrightarrow> d < 2 ^ 63 \<Longrightarrow> ttl (wrap64 (d - now)) = time_left now d"
  using signed_twos(2) [of 64 "d - now"] by (simp add: ttl_def wrap64_def time_left_def clock_def)

lemma time_left_nonneg: "0 \<le> time_left now d"
  by (simp add: time_left_def)

lemma skip3: "a < 2 ^ 64 \<Longrightarrow> b < 2 ^ 64 \<Longrightarrow> c < 2 ^ 64 \<Longrightarrow>
    skip_lengths 3 (enc_len a @ enc_len b @ enc_len c @ t) = Inr ((), t)"
  and skip2: "a < 2 ^ 64 \<Longrightarrow> b < 2 ^ 64 \<Longrightarrow> skip_lengths 2 (enc_len a @ enc_len b @ t) = Inr ((), t)"
  by (simp_all add: skip_lengths_def numeral_3_eq_3 numeral_2_eq_2 ReadLength_enc)

lemma value_entries_key:
  "0 \<le> expireMs ld \<Longrightarrow> value_entries opt ld tb key cmds b = key_entries opt (nowDBId ld) (expireMs ld) tb key b cmds"
  by (auto simp: value_entries_def key_entries_def Let_def)

lemma tee_value:
  "\<forall>t. p (b @ t) = Inr (x, t) \<Longrightarrow> teeR p (b @ t) = Inr ((x, b), t)"
  by (simp add: teeR_def)

fun item_tag :: "item \<Rightarrow> nat" where
  "item_tag (Select _) = 254" | "item_tag (ExpireMs _) = 252" | "item_tag (ExpireS _) = 253" | "item_tag (Idle _) = 248"
| "item_tag (Freq _) = 249" | "item_tag (ResizeDB _ _) = 251" | "item_tag (SlotInfo _ _ _) = 244" | "item_tag (Aux _ _) = 250"
| "item_tag (Function2 _) = 245" | "item_tag (KeyVal tb _ _ _) = tb"

lemma item_enc_tag: "item_enc it = byte (item_tag it) # tl (item_enc it)"
  by (cases it) simp_all

lemma parse_item_enc:
  assumes "item_valid opt (isValkey ld) it" "clock now" "0 \<le> expireMs ld"
  shows "parse_item opt now ld (item_tag it) (tl (item_enc it) @ t) = Inr (Some (item_state now ld it, item_entries opt ld it), t)"
proof (cases it)
  case (ExpireMs d)
  with assms ttl_time_left [of now "int d"] le_nat_le_bytes [of d 8] show ?thesis
    by (simp add: parse_item_def ReadUint64_def int64_small del: le_nat_le_bytes)
next
  case (ExpireS d)
  with assms have "int d * 1000 < 2 ^ 63" by simp
  with ExpireS assms ttl_time_left [of now "int d * 1000"] le_nat_le_bytes [of d 4] show ?thesis
    by (simp add: parse_item_def ReadUint32_def del: le_nat_le_bytes)
next
  case (Aux k v)
  with assms show ?thesis
    by (auto simp: parse_item_def ReadString_str_enc ParseInt_val_def)
next
  case (KeyVal tb k b cmds)
  with assms tee_value [of "value_cmds (env opt) tb (str_value k) (isValkey ld)" b cmds t] show ?thesis
    by (simp add: parse_item_def ReadString_str_enc value_entries_key)
qed (use assms in \<open>simp_all add: parse_item_def ReadLength_enc int64_small skip3 skip2 ReadString_str_enc\<close>)

lemma item_state_inv:
  "0 \<le> expireMs ld \<Longrightarrow> 0 \<le> expireMs (item_state now ld it)" "isValkey (item_state now ld it) = isValkey ld"
  by (cases it; simp add: time_left_nonneg)+

lemma item_tag_lt: "item_valid opt vk it \<Longrightarrow> item_tag it < 256"
  by (cases it) simp_all

lemma parseRDBEntry_items:
  assumes "\<forall>it \<in> set its. item_valid opt (isValkey ld) it" "\<forall>i. clock (now i)" "0 \<le> expireMs ld"
  shows "parseRDBEntry opt now (\<lambda>_. False) i ld (concat (map item_enc its) @ byte 255 # t) =
    (sent opt now i (nowDBId ld) (expireMs ld) its,
     Inr (fst (fold (\<lambda>it (ld, i). (item_state (now i) ld it, Suc i)) its (ld, i))))"
  using assms
proof (induction its arbitrary: i ld)
  case Nil
  then show ?case by (subst parseRDBEntry.simps) (simp add: parse_item_def)
next
  case (Cons it its)
  have v: "item_valid opt (isValkey ld) it" and c: "clock (now i)" using Cons.prems by auto
  let ?ld = "item_state (now i) ld it" and ?r = "concat (map item_enc its) @ byte 255 # t"
  have IH: "parseRDBEntry opt now (\<lambda>_. False) (Suc i) ?ld ?r = (sent opt now (Suc i) (nowDBId ?ld) (expireMs ?ld) its,
     Inr (fst (fold (\<lambda>it (ld, i). (item_state (now i) ld it, Suc i)) its (?ld, Suc i))))"
    using Cons item_state_inv(1) [of ld "now i" it] item_state_inv(2) [of "now i" ld it] by simp
  have "parseRDBEntry opt now (\<lambda>_. False) i ld (item_enc it @ ?r) =
      (item_entries opt ld it @ sent opt now (Suc i) (nowDBId ?ld) (expireMs ?ld) its,
       Inr (fst (fold (\<lambda>it (ld, i). (item_state (now i) ld it, Suc i)) its (?ld, Suc i))))"
    using parse_item_enc [OF v c Cons.prems(3), of ?r] item_tag_lt [OF v] IH
    by (subst item_enc_tag, subst parseRDBEntry.simps) simp
  moreover have "item_entries opt ld it @ sent opt now (Suc i) (nowDBId ?ld) (expireMs ?ld) its =
      sent opt now i (nowDBId ld) (expireMs ld) (it # its)"
    by (cases it) simp_all
  ultimately show ?case by simp
qed

lemma fold_repl_db:
  "replStreamDbId (fst (fold (\<lambda>it (ld, i). (item_state (now i) ld it, Suc i)) its (ld, i))) = repl_db (replStreamDbId ld) its"
proof (induction its arbitrary: ld i)
  case (Cons it its)
  then show ?case by (cases it) simp_all
qed simp

lemma ParseRDB_items:
  assumes "\<forall>it \<in> set its. item_valid opt vk it" "\<forall>i. clock (now i)" "Atoi ver = Inr n"
    "length ver = (if vk then 3 else 4)"
  shows "ParseRDB opt now (\<lambda>_. False)
      ((if vk then ''VALKEY'' else ''REDIS'') @ ver @ concat (map item_enc its) @ byte 255 # t) =
    (sent opt now 0 0 0 its, Inr (repl_db 0 its))"
proof -
  let ?m = "if vk then ''VALKEY'' else ''REDIS''"
  let ?s = "concat (map item_enc its) @ byte 255 # t"
  have "parseRDBEntry opt now (\<lambda>_. False) 0 (NewLoader\<lparr>isValkey := vk\<rparr>) ?s =
    (sent opt now 0 0 0 its, Inr (fst (fold (\<lambda>it (ld, i). (item_state (now i) ld it, Suc i)) its (NewLoader\<lparr>isValkey := vk\<rparr>, 0))))"
    using parseRDBEntry_items [of its opt "NewLoader\<lparr>isValkey := vk\<rparr>" now 0 t] assms(1,2)
    by (simp add: NewLoader_def)
  moreover have "replStreamDbId (fst (fold (\<lambda>it (ld, i). (item_state (now i) ld it, Suc i)) its (NewLoader\<lparr>isValkey := vk\<rparr>, 0)))
      = repl_db 0 its"
    by (simp add: fold_repl_db NewLoader_def)
  moreover have "take 9 (?m @ ver @ ?s) = ?m @ ver" "drop 9 (?m @ ver @ ?s) = ?s" "\<not> length (?m @ ver @ ?s) < 9"
    using assms(4) by auto
  ultimately show ?thesis
    using assms(3,4) unfolding ParseRDB_def Let_def by (auto simp: take_Cons' numeral_eq_Suc)
qed


definition opt0 :: rdbOptions where
  "opt0 = \<lparr>env = \<lparr>floats = \<lparr>ParseFloat = (\<lambda>_. None), fmt_17g = (\<lambda>_. []), fmt_f = (\<lambda>_. []), fmt_15f = (\<lambda>_. [])\<rparr>,
     float_mul = (\<lambda>_ _. 0), TargetMBbloomVersion = 0\<rparr>,
     TargetRedisProtoMaxBulkLen = 1000, RDBRestoreCommandBehavior = ''panic''\<rparr>"

lemma string_item_valid:
  "str_valid k \<Longrightarrow> str_valid e \<Longrightarrow> item_valid opt vk (KeyVal 0 k (str_enc e) [[''set'', str_value k, str_value e]])"
  by (simp add: value_cmds_def ParseObject_def string_Rewrite_def ReadString_str_enc)


text \<open>
  A key whose deadline is the current millisecond loses it: the time left is 0, which \<^verbatim>\<open>RESTORE\<close>
  takes for no deadline, so the key stays on the target for ever.
\<close>

theorem deadline_now_is_lost:
  assumes "item_valid opt False (KeyVal tb k b cmds)" "length b + 11 \<le> TargetRedisProtoMaxBulkLen opt" "d < 2 ^ 63"
  shows "ParseRDB opt (\<lambda>_. int d) (\<lambda>_. False)
      (''REDIS'' @ ''0009'' @ concat (map item_enc [ExpireMs d, KeyVal tb k b cmds]) @ byte 255 # t) =
    ([mk_entry 0 ([''RESTORE'', str_value k, ''0'', createValueDump tb b] @
        (if RDBRestoreCommandBehavior opt = ''rewrite'' then [''replace''] else []))], Inr 0)"
proof -
  have "\<forall>it \<in> set [ExpireMs d, KeyVal tb k b cmds]. item_valid opt False it" using assms(1,3) by simp
  moreover have "\<forall>i::nat. clock (int d)" "Atoi ''0009'' = Inr 9" using assms(3) by (simp_all add: clock_def parse_simps)
  moreover have "Itoa 0 = ''0''" by code_simp
  ultimately show ?thesis
    using ParseRDB_items [of "[ExpireMs d, KeyVal tb k b cmds]" opt False "\<lambda>_. int d" "''0009''" 9 t] assms(2)
    by (simp add: time_left_def key_entries_def)
qed

theorem deadline_now_is_lost_witness:
  "ParseRDB opt0 (\<lambda>_. int 4000) (\<lambda>_. False)
      (''REDIS'' @ ''0009'' @ concat (map item_enc [ExpireMs 4000, KeyVal 0 (Raw ''k'') (str_enc (Raw ''v'')) [[''set'', ''k'', ''v'']]]) @ byte 255 # []) =
    ([mk_entry 0 [''RESTORE'', ''k'', ''0'', createValueDump 0 (str_enc (Raw ''v''))]], Inr 0)"
  using deadline_now_is_lost [of opt0 0 "Raw ''k''" "str_enc (Raw ''v'')" "[[''set'', ''k'', ''v'']]" 4000 "[]"]
    string_item_valid [of "Raw ''k''" "Raw ''v''" opt0 False]
  by (simp add: opt0_def enc_len_def)

section \<open>The payload\<close>

text \<open>
  What the target does with a payload: it checks the length, the version and the checksum
  (the bitwise CRC-64 of all bytes before it), and takes the type and the value.
\<close>

definition verifyDumpPayload :: "nat \<Rightarrow> string \<Rightarrow> (nat \<times> string) option" where
  "verifyDumpPayload rdbVersion p =
     (let body = take (length p - 8) p; n = length p - 10
      in if length p < 11 then None
         else if le_nat (take 2 (drop n p)) > rdbVersion then None
         else if le_nat (drop (n + 2) p) \<noteq> unat (foldl crc64_ref_step 0 body) then None
         else Some (of_char (hd p), take (n - 1) (tl p)))"

lemma CalcCRC64_ref: "CalcCRC64 p = foldl crc64_ref_step 0 p"
proof -
  have "crc64_step = crc64_ref_step" by (intro ext) (rule crc64_step_ref)
  then show ?thesis by (simp add: CalcCRC64_def)
qed

text \<open>
  C36. The target accepts the payload of every \<^verbatim>\<open>RESTORE\<close>, if it knows version 6 of the format, and
  finds in it the type and the bytes of the value.
\<close>

theorem createValueDump_verifies:
  assumes "typeByte < 256" "6 \<le> rdbVersion"
  shows "verifyDumpPayload rdbVersion (createValueDump typeByte val) = Some (typeByte, val)"
proof -
  define buf where "buf = byte typeByte # val @ le_bytes 2 6"
  define crc where "crc = le_bytes 8 (unat (CalcCRC64 buf))"
  have p: "createValueDump typeByte val = buf @ crc" by (simp add: createValueDump_def Let_def buf_def crc_def)
  have len: "length buf = length val + 3" "length crc = 8" by (simp_all add: buf_def crc_def)
  have c: "le_nat crc = unat (foldl crc64_ref_step 0 buf)"
    unfolding crc_def CalcCRC64_ref
    by (rule le_nat_le_bytes) (use unsigned_less [where 'a = nat, of "foldl crc64_ref_step 0 buf"] in simp)
  have d: "drop (length val + 1) buf = le_bytes 2 6" "take (length val) (tl buf) = val" "hd buf = byte typeByte" "buf \<noteq> []"
    by (simp_all add: buf_def)
  have six: "le_nat (le_bytes 2 6) = 6" by (rule le_nat_le_bytes) simp
  show ?thesis
    unfolding verifyDumpPayload_def p Let_def using assms c d six
    by (simp add: len del: le_nat_le_bytes le_bytes.simps)
qed

theorem createValueDump_verifies_witness:
  "verifyDumpPayload 9 (createValueDump 0 ''abc'') = Some (0, ''abc'')"
  by (rule createValueDump_verifies) simp_all

end
