(* ===== verification/Rotate.thy ===== *)
theory Rotate
  imports GoLib "HOL-Library.Sublist"
begin

text \<open>
  \<^verbatim>\<open>internal/utils/file_rotate\<close>: the replication stream on disk.  One goroutine appends what it
  receives from the source (\<^verbatim>\<open>AOFWriter\<close>) and starts a new file after \<^verbatim>\<open>MaxFileSize\<close> bytes; another
  reads the files, follows the rotation and removes what it has read (\<^verbatim>\<open>AOFReader\<close>).  They share
  nothing but the directory.

  Every access to the file system is a rule of \<open>rot_step\<close>.  Proved for every interleaving: the
  reader gets exactly what the writer wrote, across all rotations, its offset is the offset of the
  last byte read, and it is never stuck while there is something to read.

  The files of the directory are named by a number.  Failures of the file system are left out.
\<close>

section \<open>State and operations\<close>

definition MaxFileSize :: int where
  "MaxFileSize = 1024 * 1024 * 1024"

datatype aw_state = WNew | WReady | WFull
datatype ar_state = RNew | RReady | ROpening

record rotate =
  dir_files :: "int \<Rightarrow> string option"
  aw_st :: aw_state
  aw_offset :: int
  aw_filepath :: int
  aw_filesize :: int
  ar_st :: ar_state
  ar_offset :: int
  ar_pos :: nat
  ar_filepath :: int
  aw_written :: string
  ar_read :: string

definition rot_init :: rotate where
  "rot_init = \<lparr>dir_files = (\<lambda>_. None), aw_st = WNew, aw_offset = 0, aw_filepath = 0, aw_filesize = 0,
     ar_st = RNew, ar_offset = 0, ar_pos = 0, ar_filepath = 0, aw_written = [], ar_read = []\<rparr>"

text \<open>Both \<^verbatim>\<open>openFile\<close> build the name from the field, not from the parameter: the first file is ``0.aof''.\<close>

definition aw_openFile :: "int \<Rightarrow> rotate \<Rightarrow> rotate" where
  "aw_openFile offset s = s\<lparr>aw_filepath := aw_offset s,
     dir_files := (dir_files s)(aw_offset s \<mapsto> (case dir_files s (aw_offset s) of None \<Rightarrow> [] | Some c \<Rightarrow> c)),
     aw_offset := offset, aw_filesize := 0\<rparr>"

definition aw_Write :: "int \<Rightarrow> string \<Rightarrow> rotate \<Rightarrow> rotate" where
  "aw_Write maxSize buf s = s\<lparr>
     dir_files := (case dir_files s (aw_filepath s) of None \<Rightarrow> dir_files s
                   | Some c \<Rightarrow> (dir_files s)(aw_filepath s \<mapsto> c @ buf)),
     aw_offset := aw_offset s + int (length buf), aw_filesize := aw_filesize s + int (length buf),
     aw_st := (if aw_filesize s + int (length buf) > maxSize then WFull else WReady),
     aw_written := aw_written s @ buf\<rparr>"

definition ar_openFile :: "int \<Rightarrow> rotate \<Rightarrow> rotate" where
  "ar_openFile offset s = s\<lparr>ar_filepath := ar_offset s, ar_offset := offset, ar_pos := 0, ar_st := RReady\<rparr>"

definition ar_content :: "rotate \<Rightarrow> string" where
  "ar_content s = (case dir_files s (ar_filepath s) of None \<Rightarrow> [] | Some c \<Rightarrow> c)"

definition ar_Read :: "nat \<Rightarrow> rotate \<Rightarrow> rotate" where
  "ar_Read n s = s\<lparr>ar_offset := ar_offset s + int n, ar_pos := ar_pos s + n,
     ar_read := ar_read s @ take n (drop (ar_pos s) (ar_content s))\<rparr>"

text \<open>
  The rules: \<^verbatim>\<open>NewAOFWriter\<close>, \<^verbatim>\<open>Write\<close> and its rotation; \<^verbatim>\<open>NewAOFReader\<close>, which waits for the first file,
  \<^verbatim>\<open>Read\<close>, which returns at least one byte, and, at the end of a file, \<^verbatim>\<open>readNextFile\<close> with the test and
  the removal, and then the opening.
\<close>

inductive rot_step :: "int \<Rightarrow> int \<Rightarrow> rotate \<Rightarrow> rotate \<Rightarrow> bool" for maxSize start where
  open_writer: "aw_st s = WNew \<Longrightarrow> rot_step maxSize start s ((aw_openFile start s)\<lparr>aw_st := WReady\<rparr>)"
| append_buf: "aw_st s = WReady \<Longrightarrow> rot_step maxSize start s (aw_Write maxSize buf s)"
| rotate: "aw_st s = WFull \<Longrightarrow> rot_step maxSize start s ((aw_openFile (aw_offset s) s)\<lparr>aw_st := WReady\<rparr>)"
| open_reader: "\<lbrakk>ar_st s = RNew; dir_files s (ar_offset s) \<noteq> None\<rbrakk> \<Longrightarrow> rot_step maxSize start s (ar_openFile start s)"
| read: "\<lbrakk>ar_st s = RReady; 0 < n; ar_pos s + n \<le> length (ar_content s)\<rbrakk> \<Longrightarrow> rot_step maxSize start s (ar_Read n s)"
| next_file: "\<lbrakk>ar_st s = RReady; ar_pos s \<ge> length (ar_content s); ar_filepath s \<noteq> ar_offset s; dir_files s (ar_offset s) \<noteq> None\<rbrakk>
    \<Longrightarrow> rot_step maxSize start s (s\<lparr>dir_files := (dir_files s)(ar_filepath s := None), ar_st := ROpening\<rparr>)"
| reopen: "ar_st s = ROpening \<Longrightarrow> rot_step maxSize start s (ar_openFile (ar_offset s) s)"

inductive rot_reachable :: "int \<Rightarrow> int \<Rightarrow> rotate \<Rightarrow> bool" for maxSize start where
  init: "rot_reachable maxSize start rot_init"
| step: "rot_reachable maxSize start s \<Longrightarrow> rot_step maxSize start s t \<Longrightarrow> rot_reachable maxSize start t"

section \<open>The invariant\<close>

text \<open>
  \<open>segs\<close> holds the contents of all files ever written, in order; the reader is in number \<open>k\<close>.
\<close>

definition fname :: "int \<Rightarrow> string list \<Rightarrow> nat \<Rightarrow> int" where
  "fname start segs i = (if i = 0 then 0 else start + int (length (concat (take i segs))))"

definition writer_inv :: "int \<Rightarrow> rotate \<Rightarrow> string list \<Rightarrow> bool" where
  "writer_inv start s segs \<longleftrightarrow> aw_written s = concat segs \<and> (\<forall>x \<in> set (butlast segs). x \<noteq> []) \<and>
     (if segs = [] then aw_st s = WNew \<and> aw_offset s = 0 \<and> ar_st s = RNew
      else aw_st s \<noteq> WNew \<and> aw_filepath s = fname start segs (length segs - 1) \<and>
        aw_offset s = start + int (length (concat segs)) \<and> aw_filesize s = int (length (last segs)) \<and>
        (aw_st s = WFull \<longrightarrow> last segs \<noteq> []))"

definition files_inv :: "int \<Rightarrow> rotate \<Rightarrow> string list \<Rightarrow> nat \<Rightarrow> bool" where
  "files_inv start s segs k \<longleftrightarrow>
     (\<forall>i < length segs. dir_files s (fname start segs i) = (if i < k then None else Some (segs ! i))) \<and>
     (\<forall>p. dir_files s p \<noteq> None \<longrightarrow> (\<exists>i < length segs. p = fname start segs i))"

definition reader_inv :: "int \<Rightarrow> rotate \<Rightarrow> string list \<Rightarrow> nat \<Rightarrow> bool" where
  "reader_inv start s segs k \<longleftrightarrow> (case ar_st s of
       RNew \<Rightarrow> k = 0 \<and> ar_offset s = 0 \<and> ar_read s = []
     | RReady \<Rightarrow> k < length segs \<and> ar_filepath s = fname start segs k \<and> ar_pos s \<le> length (segs ! k) \<and>
         ar_read s = concat (take k segs) @ take (ar_pos s) (segs ! k) \<and> ar_offset s = start + int (length (ar_read s))
     | ROpening \<Rightarrow> 0 < k \<and> k < length segs \<and> ar_read s = concat (take k segs) \<and>
         ar_offset s = start + int (length (ar_read s)))"

definition rot_inv :: "int \<Rightarrow> rotate \<Rightarrow> string list \<Rightarrow> nat \<Rightarrow> bool" where
  "rot_inv start s segs k \<longleftrightarrow> writer_inv start s segs \<and> files_inv start s segs k \<and> reader_inv start s segs k"

lemma concat_take_less:
  assumes "i < j" "j < length segs" "\<forall>x \<in> set (butlast segs). x \<noteq> []"
  shows "length (concat (take i segs)) < length (concat (take j segs))"
proof -
  have "take j segs = take i segs @ [segs ! i] @ drop (Suc i) (take j segs)"
    using assms(1,2) id_take_nth_drop [of i "take j segs"] by (simp add: min_def)
  moreover have "segs ! i \<noteq> []"
  proof -
    have "butlast segs ! i = segs ! i" "i < length (butlast segs)" using assms(1,2) by (auto simp: nth_butlast)
    with assms(3) show ?thesis by (metis nth_mem)
  qed
  ultimately have "length (concat (take j segs)) =
      length (concat (take i segs)) + length (segs ! i) + length (concat (drop (Suc i) (take j segs)))"
    by (metis add.assoc concat.simps(2) concat_append length_append append_Cons append_Nil)
  with \<open>segs ! i \<noteq> []\<close> show ?thesis by simp
qed

lemma fname_less:
  assumes "0 \<le> start" "i < j" "j < length segs" "\<forall>x \<in> set (butlast segs). x \<noteq> []"
  shows "fname start segs i < fname start segs j"
  using concat_take_less [OF assms(2,3,4)] assms(1,2) by (auto simp: fname_def)

lemma fname_inj:
  assumes "0 \<le> start" "\<forall>x \<in> set (butlast segs). x \<noteq> []" "i < length segs" "j < length segs"
  shows "fname start segs i = fname start segs j \<longleftrightarrow> i = j"
  using fname_less [OF assms(1) _ _ assms(2)] assms(3,4) by (metis less_irrefl linorder_neqE_nat)

lemma fname_append [simp]: "i \<le> length xs \<Longrightarrow> fname start (xs @ ys) i = fname start xs i"
  by (simp add: fname_def)

lemma inv_open_writer:
  assumes "rot_inv start s segs k" "aw_st s = WNew"
  shows "rot_inv start ((aw_openFile start s)\<lparr>aw_st := WReady\<rparr>) [[]] 0"
proof -
  have "segs = []" using assms by (auto simp: rot_inv_def writer_inv_def split: if_splits)
  with assms(1) show ?thesis
    by (auto simp: rot_inv_def writer_inv_def files_inv_def reader_inv_def aw_openFile_def fname_def)
qed

text \<open>The files after a change of the last one.\<close>

lemma files_inv_snoc:
  assumes dir: "dir_files t = (dir_files s)(fname start xs (length xs) \<mapsto> c)" and k: "k \<le> length xs"
    and other: "\<And>i. i < length xs \<Longrightarrow> fname start xs i \<noteq> fname start xs (length xs)"
    and f: "\<And>i. i < length xs \<Longrightarrow> dir_files s (fname start xs i) = (if i < k then None else Some (xs ! i))"
    and names: "\<And>p. dir_files s p \<noteq> None \<Longrightarrow> \<exists>i \<le> length xs. p = fname start xs i"
  shows "files_inv start t (xs @ [c]) k"
  unfolding files_inv_def
proof (intro conjI allI impI)
  fix i assume "i < length (xs @ [c])"
  then consider "i < length xs" | "i = length xs" by fastforce
  then show "dir_files t (fname start (xs @ [c]) i) = (if i < k then None else Some ((xs @ [c]) ! i))"
    using other f k by cases (simp_all add: dir nth_append)
next
  fix p assume "dir_files t p \<noteq> None"
  then have "\<exists>i \<le> length xs. p = fname start xs i"
    using names by (cases "p = fname start xs (length xs)") (auto simp: dir)
  then show "\<exists>i < length (xs @ [c]). p = fname start (xs @ [c]) i" by (auto simp: less_Suc_eq_le)
qed

lemma inv_append:
  assumes inv: "rot_inv start s segs k" and st: "aw_st s = WReady" and start: "0 \<le> start" "0 \<le> maxSize"
  shows "\<exists>segs'. rot_inv start (aw_Write maxSize buf s) segs' k"
proof -
  have "segs \<noteq> []" using inv st by (auto simp: rot_inv_def writer_inv_def split: if_splits)
  then obtain xs c where segs: "segs = xs @ [c]" by (metis append_butlast_last_id)
  have ne: "\<forall>x \<in> set (butlast segs). x \<noteq> []" using inv by (simp add: rot_inv_def writer_inv_def)
  have k: "k \<le> length xs" using inv st unfolding rot_inv_def reader_inv_def segs by (auto split: ar_state.splits)
  have path: "aw_filepath s = fname start xs (length xs)" using inv segs by (simp add: rot_inv_def writer_inv_def)
  have here: "dir_files s (fname start xs (length xs)) = Some c"
    using inv k segs by (auto simp: rot_inv_def files_inv_def nth_append)
  have other: "fname start xs i \<noteq> fname start xs (length xs)" if "i < length xs" for i
    using fname_inj [OF start(1) ne, of i "length xs"] that segs by simp
  have dir: "dir_files (aw_Write maxSize buf s) = (dir_files s)(fname start xs (length xs) \<mapsto> c @ buf)"
    by (simp add: aw_Write_def path here)
  have f: "dir_files s (fname start xs i) = (if i < k then None else Some (xs ! i))" if "i < length xs" for i
    using inv that segs by (auto simp: rot_inv_def files_inv_def nth_append)
  have names: "\<exists>i \<le> length xs. p = fname start xs i" if "dir_files s p \<noteq> None" for p
  proof -
    from that inv obtain i where "i < length segs" "p = fname start segs i" unfolding rot_inv_def files_inv_def by blast
    with segs show ?thesis by (intro exI [of _ i]) (simp add: less_Suc_eq_le)
  qed
  have "files_inv start (aw_Write maxSize buf s) (xs @ [c @ buf]) k"
    by (rule files_inv_snoc [OF dir k other f names])
  moreover have "writer_inv start (aw_Write maxSize buf s) (xs @ [c @ buf])"
    using inv st start(2) unfolding rot_inv_def writer_inv_def segs by (auto simp: aw_Write_def)
  moreover have "reader_inv start (aw_Write maxSize buf s) (xs @ [c @ buf]) k"
    using inv k unfolding rot_inv_def reader_inv_def segs
    by (auto simp: aw_Write_def nth_append split: ar_state.splits if_splits)
  ultimately show ?thesis unfolding rot_inv_def by blast
qed

lemma inv_rotate:
  assumes inv: "rot_inv start s segs k" and st: "aw_st s = WFull" and start: "0 \<le> start"
  shows "rot_inv start ((aw_openFile (aw_offset s) s)\<lparr>aw_st := WReady\<rparr>) (segs @ [[]]) k"
    (is "rot_inv start ?s _ k")
proof -
  have ne: "segs \<noteq> []" "last segs \<noteq> []" using inv st by (auto simp: rot_inv_def writer_inv_def split: if_splits)
  have nes: "\<forall>x \<in> set (butlast (segs @ [[]])). x \<noteq> []"
  proof -
    have "set (butlast (segs @ [[]])) = set (butlast segs @ [last segs])" by (simp add: ne(1))
    with inv ne(2) show ?thesis by (simp add: rot_inv_def writer_inv_def)
  qed
  have off: "aw_offset s = fname start (segs @ [[]]) (length segs)"
    using inv ne(1) by (simp add: rot_inv_def writer_inv_def fname_def)
  have other: "fname start segs i \<noteq> fname start segs (length segs)" if "i < length segs" for i
    using fname_inj [OF start nes, of i "length segs"] that by simp
  have k: "k \<le> length segs" using inv unfolding rot_inv_def reader_inv_def by (auto split: ar_state.splits)
  have fresh: "dir_files s (fname start segs (length segs)) = None"
  proof (rule ccontr)
    assume "dir_files s (fname start segs (length segs)) \<noteq> None"
    with inv obtain i where "i < length segs" "fname start segs (length segs) = fname start segs i"
      unfolding rot_inv_def files_inv_def by blast
    with other show False by metis
  qed
  have dir: "dir_files ?s = (dir_files s)(fname start segs (length segs) \<mapsto> [])"
    using off fresh by (simp add: aw_openFile_def)
  have f: "dir_files s (fname start segs i) = (if i < k then None else Some (segs ! i))" if "i < length segs" for i
    using inv that by (simp add: rot_inv_def files_inv_def)
  have names: "\<exists>i \<le> length segs. p = fname start segs i" if "dir_files s p \<noteq> None" for p
    using inv that unfolding rot_inv_def files_inv_def by (meson less_imp_le)
  have "files_inv start ?s (segs @ [[]]) k" by (rule files_inv_snoc [OF dir k other f names])
  moreover have "writer_inv start ?s (segs @ [[]])"
    using inv ne off nes unfolding rot_inv_def writer_inv_def by (simp add: aw_openFile_def)
  moreover have "reader_inv start ?s (segs @ [[]]) k"
    using inv unfolding rot_inv_def reader_inv_def by (auto simp: aw_openFile_def nth_append split: ar_state.splits)
  ultimately show ?thesis unfolding rot_inv_def by blast
qed

lemma inv_open_reader:
  assumes inv: "rot_inv start s segs k" and st: "ar_st s = RNew" and ex: "dir_files s (ar_offset s) \<noteq> None"
  shows "rot_inv start (ar_openFile start s) segs k"
proof -
  have "segs \<noteq> []" using inv ex by (auto simp: rot_inv_def files_inv_def)
  with inv st show ?thesis
    by (auto simp: rot_inv_def writer_inv_def files_inv_def reader_inv_def ar_openFile_def fname_def)
qed

lemma ar_content_inv: "rot_inv start s segs k \<Longrightarrow> ar_st s = RReady \<Longrightarrow> k < length segs \<and> ar_content s = segs ! k"
  by (simp add: rot_inv_def reader_inv_def files_inv_def ar_content_def)

lemma inv_read:
  assumes inv: "rot_inv start s segs k" and st: "ar_st s = RReady" and n: "ar_pos s + n \<le> length (ar_content s)"
  shows "rot_inv start (ar_Read n s) segs k"
proof -
  have c: "ar_content s = segs ! k" using ar_content_inv [OF inv st] by simp
  have "take (ar_pos s + n) (segs ! k) = take (ar_pos s) (segs ! k) @ take n (drop (ar_pos s) (segs ! k))"
    by (rule take_add)
  with inv st n c show ?thesis
    by (auto simp: rot_inv_def writer_inv_def files_inv_def reader_inv_def ar_Read_def)
qed

lemma concat_take_Suc: "k < length segs \<Longrightarrow> concat (take (Suc k) segs) = concat (take k segs) @ segs ! k"
  by (simp add: take_Suc_conv_app_nth)

lemma inv_next:
  assumes inv: "rot_inv start s segs k" and st: "ar_st s = RReady" and start: "0 \<le> start"
    and eof: "ar_pos s \<ge> length (ar_content s)" and new: "ar_filepath s \<noteq> ar_offset s" "dir_files s (ar_offset s) \<noteq> None"
  shows "rot_inv start (s\<lparr>dir_files := (dir_files s)(ar_filepath s := None), ar_st := ROpening\<rparr>) segs (Suc k)"
proof -
  have ne: "\<forall>x \<in> set (butlast segs). x \<noteq> []" using inv by (simp add: rot_inv_def writer_inv_def)
  have r: "k < length segs" "ar_filepath s = fname start segs k" "ar_read s = concat (take (Suc k) segs)"
    "ar_offset s = start + int (length (concat (take (Suc k) segs)))"
    using inv st eof ar_content_inv [OF inv st] by (auto simp: rot_inv_def reader_inv_def concat_take_Suc)
  obtain i where i: "i < length segs" "ar_offset s = fname start segs i" "\<not> i < k"
    using inv new(2) unfolding rot_inv_def files_inv_def by (metis (no_types, lifting))
  have "i \<noteq> k" using i new(1) r(2) by auto
  have "i = Suc k"
  proof (rule ccontr)
    assume "i \<noteq> Suc k"
    with i(3) \<open>i \<noteq> k\<close> have "Suc k < i" by simp
    from fname_less [OF start this i(1) ne] i(2) r(4) show False by (simp add: fname_def)
  qed
  with i(1) have k: "Suc k < length segs" by simp
  have other: "fname start segs j = fname start segs k \<longleftrightarrow> j = k" if "j < length segs" for j
    using fname_inj [OF start ne that r(1)] .
  show ?thesis
    using inv st r k other
    by (auto simp: rot_inv_def writer_inv_def files_inv_def reader_inv_def)
qed

lemma inv_reopen:
  assumes "rot_inv start s segs k" "ar_st s = ROpening"
  shows "rot_inv start (ar_openFile (ar_offset s) s) segs k"
  using assms by (auto simp: rot_inv_def writer_inv_def files_inv_def reader_inv_def ar_openFile_def fname_def)

lemma rot_inv_step:
  assumes "rot_step maxSize start s t" "rot_inv start s segs k" "0 \<le> start" "0 \<le> maxSize"
  shows "\<exists>segs' k'. rot_inv start t segs' k'"
  using assms(1)
proof (cases rule: rot_step.cases)
  case open_writer
  then show ?thesis using inv_open_writer [OF assms(2)] by blast
next
  case (append_buf buf)
  then show ?thesis using inv_append [OF assms(2) _ assms(3,4)] by blast
next
  case rotate
  then show ?thesis using inv_rotate [OF assms(2) _ assms(3)] by blast
next
  case open_reader
  then show ?thesis using inv_open_reader [OF assms(2)] by blast
next
  case (read n)
  then show ?thesis using inv_read [OF assms(2)] by blast
next
  case next_file
  then show ?thesis using inv_next [OF assms(2) _ assms(3)] by blast
next
  case reopen
  then show ?thesis using inv_reopen [OF assms(2)] by blast
qed

interpretation rot: transition_system rot_init "rot_step maxSize start" "rot_reachable maxSize start" for maxSize start
proof
  show "I s" if "rot_reachable maxSize start s" "I rot_init"
    "\<And>s t. \<lbrakk>rot_reachable maxSize start s; I s; rot_step maxSize start s t\<rbrakk> \<Longrightarrow> I t" for s I
    using that by (induction rule: rot_reachable.induct) blast+
qed (rule rot_reachable.init, rule rot_reachable.step)

lemma rot_reachable_inv:
  assumes "rot_reachable maxSize start s" "0 \<le> start" "0 \<le> maxSize"
  shows "\<exists>segs k. rot_inv start s segs k"
proof (rule rot.invariant [OF assms(1)])
  have "rot_inv start rot_init [] 0"
    by (simp add: rot_inv_def writer_inv_def files_inv_def reader_inv_def rot_init_def)
  then show "\<exists>segs k. rot_inv start rot_init segs k" by blast
qed (use rot_inv_step assms(2,3) in blast)

lemma rot_reachable_offsets:
  assumes "rot_reachable maxSize start s" "0 \<le> start" "0 \<le> maxSize"
  shows "prefix (ar_read s) (aw_written s) \<and>
    (aw_st s = WNew \<or> aw_offset s = start + int (length (aw_written s))) \<and>
    (ar_st s = RNew \<or> ar_offset s = start + int (length (ar_read s)))"
proof -
  from rot_reachable_inv [OF assms] obtain segs k where inv: "rot_inv start s segs k" by blast
  then have w: "aw_written s = concat segs" by (simp add: rot_inv_def writer_inv_def)
  have "prefix (ar_read s) (concat segs)"
  proof (cases "ar_st s")
    case RReady
    then have k: "k < length segs" "ar_read s = concat (take k segs) @ take (ar_pos s) (segs ! k)"
      using inv by (auto simp: rot_inv_def reader_inv_def)
    have "concat segs = concat (take k segs) @ segs ! k @ concat (drop (Suc k) segs)"
      by (subst id_take_nth_drop [OF k(1)]) simp
    then show ?thesis unfolding k(2) by (auto simp: prefix_def) (metis append_assoc append_take_drop_id)
  next
    case ROpening
    then have "ar_read s = concat (take k segs)" using inv by (simp add: rot_inv_def reader_inv_def)
    then show ?thesis by (metis append_take_drop_id concat_append prefixI)
  qed (use inv in \<open>simp add: rot_inv_def reader_inv_def\<close>)
  with w inv show ?thesis
    by (auto simp: rot_inv_def writer_inv_def reader_inv_def split: if_splits ar_state.splits)
qed

lemma rot_new_reader:
  assumes "rot_reachable maxSize start s" "0 \<le> start" "0 \<le> maxSize" "ar_st s = RNew"
  shows "ar_read s = []"
  using rot_reachable_inv [OF assms(1-3)] assms(4) by (auto simp: rot_inv_def reader_inv_def)

section \<open>Properties\<close>

text \<open>
  C18. For every size limit and every interleaving of the two goroutines, what the reader has read is a
  prefix of what the writer has written, across all rotations and removals of files, and the offsets
  of both are the starting offset plus the number of bytes: none is lost, repeated or reordered.
\<close>

theorem rotate_reads_what_was_written:
  assumes "rot_reachable maxSize start s" "0 \<le> start" "0 \<le> maxSize"
  shows "prefix (ar_read s) (aw_written s) \<and>
    (aw_st s = WNew \<or> aw_offset s = start + int (length (aw_written s))) \<and>
    (ar_st s = RNew \<or> ar_offset s = start + int (length (ar_read s)))"
  by (rule rot_reachable_offsets [OF assms])

text \<open>
  C37. The reader is never stuck: as long as it has not read everything that was written, one of its own
  steps is possible, whatever the writer is doing, and it never waits for a file that does not come.
\<close>

theorem rotate_reader_not_stuck:
  assumes "rot_reachable maxSize start s" "0 \<le> start" "0 \<le> maxSize" "ar_read s \<noteq> aw_written s"
  shows "\<exists>t. rot_step maxSize start s t \<and> aw_written t = aw_written s \<and>
    (ar_st t \<noteq> ar_st s \<or> length (ar_read s) < length (ar_read t))"
proof -
  from rot_reachable_inv [OF assms(1-3)] obtain segs k where inv: "rot_inv start s segs k" by blast
  show ?thesis
  proof (cases "ar_st s")
    case RNew
    then have "segs \<noteq> []" "k = 0" "ar_offset s = 0"
      using inv assms(4) by (auto simp: rot_inv_def writer_inv_def reader_inv_def)
    then have "dir_files s (fname start segs 0) = Some (segs ! 0)" using inv by (simp add: rot_inv_def files_inv_def)
    then have "dir_files s (ar_offset s) \<noteq> None" using \<open>ar_offset s = 0\<close> by (simp add: fname_def)
    from rot_step.open_reader [OF RNew this, of maxSize start] RNew show ?thesis
      by (intro exI conjI) (assumption, simp_all add: ar_openFile_def)
  next
    case ROpening
    from rot_step.reopen [OF ROpening, of maxSize start] ROpening show ?thesis
      by (intro exI conjI) (assumption, simp_all add: ar_openFile_def)
  next
    case RReady
    note c = ar_content_inv [OF inv RReady]
    have r: "ar_filepath s = fname start segs k" "ar_pos s \<le> length (segs ! k)"
      "ar_read s = concat (take k segs) @ take (ar_pos s) (segs ! k)" "ar_offset s = start + int (length (ar_read s))"
      using inv RReady by (auto simp: rot_inv_def reader_inv_def)
    show ?thesis
    proof (cases "ar_pos s < length (ar_content s)")
      case True
      then have "ar_pos s + 1 \<le> length (ar_content s)" by simp
      from rot_step.read [OF RReady _ this, of maxSize start] True show ?thesis
        by (intro exI conjI) (assumption | simp add: ar_Read_def)+
    next
      case False
      with r(2) c have read: "ar_read s = concat (take (Suc k) segs)" using r(3) by (simp add: concat_take_Suc)
      have k: "Suc k < length segs"
      proof (rule ccontr)
        assume "\<not> Suc k < length segs"
        then have "take (Suc k) segs = segs" by simp
        with read assms(4) inv show False by (simp add: rot_inv_def writer_inv_def)
      qed
      then have off: "ar_offset s = fname start segs (Suc k)" using r(4) read by (simp add: fname_def)
      have "dir_files s (ar_offset s) \<noteq> None" using inv k off by (simp add: rot_inv_def files_inv_def)
      moreover have "ar_filepath s \<noteq> ar_offset s"
        using fname_less [OF assms(2) lessI k] inv r(1) off by (simp add: rot_inv_def writer_inv_def)
      moreover have "length (ar_content s) \<le> ar_pos s" using False by simp
      ultimately show ?thesis using rot_step.next_file [OF RReady, of maxSize start] RReady
        by (intro exI conjI) (assumption | blast | simp)+
    qed
  qed
qed

text \<open>A run with a rotation; the size limit is one byte.\<close>

definition demo_writes :: rotate where
  "demo_writes = ((aw_openFile 11 (aw_Write 1 ''ab'' ((aw_openFile 9 rot_init)\<lparr>aw_st := WReady\<rparr>)))\<lparr>aw_st := WReady\<rparr>)"

lemma demo_writes_reachable: "rot_reachable 1 9 demo_writes"
proof -
  let ?a = "(aw_openFile 9 rot_init)\<lparr>aw_st := WReady\<rparr>"
  have a: "rot_reachable 1 9 ?a"
    by (rule rot_reachable.step [OF rot_reachable.init rot_step.open_writer]) (simp add: rot_init_def)
  have b: "rot_reachable 1 9 (aw_Write 1 ''ab'' ?a)"
    by (rule rot_reachable.step [OF a rot_step.append_buf]) simp
  have "aw_offset (aw_Write 1 ''ab'' ?a) = 11" "aw_st (aw_Write 1 ''ab'' ?a) = WFull"
    by (simp_all add: aw_Write_def aw_openFile_def)
  then show ?thesis unfolding demo_writes_def
    using rot_reachable.step [OF b rot_step.rotate] by simp
qed

lemmas demo_rotate_defs = demo_writes_def aw_openFile_def aw_Write_def rot_init_def ar_openFile_def ar_Read_def ar_content_def

definition demo_reads :: rotate where
  "demo_reads = ar_Read 1 (ar_openFile 9 demo_writes)"

lemma demo_reads_reachable: "rot_reachable 1 9 demo_reads"
proof -
  have "rot_reachable 1 9 (ar_openFile 9 demo_writes)"
    by (rule rot_reachable.step [OF demo_writes_reachable rot_step.open_reader]) (simp_all add: demo_rotate_defs)
  then show ?thesis unfolding demo_reads_def
    by (rule rot_reachable.step [OF _ rot_step.read]) (simp_all add: demo_rotate_defs)
qed

theorem rotate_reads_what_was_written_witness:
  "prefix (ar_read demo_reads) (aw_written demo_reads) \<and> aw_offset demo_reads = 11 \<and> aw_written demo_reads = ''ab'' \<and>
   ar_offset demo_reads = 10 \<and> ar_read demo_reads = ''a''"
proof -
  have v: "aw_written demo_reads = ''ab''" "ar_read demo_reads = ''a''" "aw_st demo_reads \<noteq> WNew" "ar_st demo_reads \<noteq> RNew"
    by (simp_all add: demo_reads_def demo_rotate_defs)
  with rotate_reads_what_was_written [OF demo_reads_reachable] show ?thesis by simp
qed

theorem rotate_reader_not_stuck_witness:
  "\<exists>t. rot_step 1 9 demo_writes t \<and> aw_written t = ''ab'' \<and>
    (ar_st t \<noteq> ar_st demo_writes \<or> length (ar_read demo_writes) < length (ar_read t))"
proof -
  have "ar_read demo_writes \<noteq> aw_written demo_writes" "aw_written demo_writes = ''ab''"
    by (simp_all add: demo_writes_def aw_openFile_def aw_Write_def rot_init_def)
  then show ?thesis using rotate_reader_not_stuck [OF demo_writes_reachable] by simp
qed

end
