(* ===== verification/SyncReader.thy ===== *)
theory SyncReader
  imports RdbLoader Rotate Writer
begin

text \<open>
  \<^verbatim>\<open>internal/reader/sync_standalone_reader.go\<close>: the reader that poses as a replica of the source.  It
  shakes hands, receives the snapshot (announced by its length, or, when the source does not write it
  to disk, ended by a marker), sends the snapshot's entries, and then the commands of the replication
  stream, each with the offset at which it ends.  With it \<^verbatim>\<open>GetPSyncCommand\<close> of
  \<^verbatim>\<open>internal/config/config.go\<close>, \<^verbatim>\<open>sync_cluster_reader.go\<close> and \<^verbatim>\<open>rdb_reader.go\<close>.

  What the network delivers is a list of chunks, one per \<^verbatim>\<open>Read\<close>, of any size; the stream on disk is the
  file of the theory \<open>Rotate\<close>.  The theorems: the payload is cut out exactly, however it is chunked; and
  every command of the stream becomes one entry, in order, in the right database, with the right offset.

  The heartbeats sent to the source, time, logging and the human-readable numbers are left out.
\<close>

section \<open>Options and state\<close>

record syncOptions =
  so_Address :: string
  TrackOffsets :: bool
  SyncRdb :: bool
  SyncAof :: bool
  TryDiskless :: bool
  AwsPSync :: string

datatype sync_state = kHandShake | kWaitBgsave | kReceiveRdb | kSyncRdb | kSyncAof

record syncReader =
  sr_DbId :: int
  sr_Status :: sync_state
  AofReceivedOffset :: int
  AofSentOffset :: int
  trackOffsets :: bool
  isDiskless :: bool

definition NewSyncStandaloneReader :: syncReader where
  "NewSyncStandaloneReader = \<lparr>sr_DbId = 0, sr_Status = kHandShake, AofReceivedOffset = 0, AofSentOffset = 0,
     trackOffsets = False, isDiskless = False\<rparr>"

section \<open>Handshake\<close>

text \<open>The lines of \<^verbatim>\<open>INFO server\<close>; parts that are no numbers count as zero.\<close>

fun supportPSync_lines :: "string list \<Rightarrow> bool" where
  "supportPSync_lines [] = True"
| "supportPSync_lines (line # lines) =
     (let parts = Split (CHR ''.'') (Split (CHR '':'') line ! 1) in
      if HasPrefix line ''redis_version:'' \<and> length parts > 2 \<and>
         ParseInt_val (parts ! 0) * 1000 + ParseInt_val (parts ! 1) < 2008 then False
      else supportPSync_lines lines)"

definition supportPSync :: "string \<Rightarrow> bool" where
  "supportPSync reply = supportPSync_lines (Split (CHR 0x0A) reply)"

fun psync_item :: "string list \<Rightarrow> string \<Rightarrow> string res" where
  "psync_item [] address = Inl (LogPanicf ''can not find aws psync command'')"
| "psync_item (it # its) address = (if HasPrefix it address then
     (let ps = Split (CHR ''@'') it in if length ps < 2 then Inl (RuntimePanic ''index out of range'') else Inr (ps ! 1))
     else psync_item its address)"

definition GetPSyncCommand :: "string \<Rightarrow> string \<Rightarrow> string res" where
  "GetPSyncCommand awsPSync address = psync_item (Split (CHR '','') awsPSync) address"

definition psync_argv :: "syncOptions \<Rightarrow> string list res" where
  "psync_argv opt = (if AwsPSync opt = [] then Inr [''PSYNC'', ''?'', ''-1'']
     else map_sum id (\<lambda>c. [c, ''?'', ''-1'']) (GetPSyncCommand (AwsPSync opt) (so_Address opt)))"

fun Fields_acc :: "string \<Rightarrow> string \<Rightarrow> string list" where
  "Fields_acc w [] = (if w = [] then [] else [rev w])"
| "Fields_acc w (c # cs) = (if is_space c then (if w = [] then [] else [rev w]) @ Fields_acc [] cs
     else Fields_acc (c # w) cs)"

definition Fields :: "string \<Rightarrow> string list" where
  "Fields s = Fields_acc [] s"

text \<open>The reply to PSYNC: the replication id for the tracker and the offset of the snapshot.\<close>

definition psync_reply :: "string \<Rightarrow> (string \<times> int) res" where
  "psync_reply reply = (let parts = Fields reply in
     if length parts \<noteq> 3 \<or> parts ! 0 \<noteq> ''FULLRESYNC'' then Inl (LogPanicf ''invalid PSYNC reply'')
     else (case ParseInt (parts ! 2) of Inl _ \<Rightarrow> Inl (LogPanicf ''strconv.ParseInt'') | Inr off \<Rightarrow> Inr (parts ! 1, off)))"

section \<open>Receiving the snapshot\<close>

definition RDB_EOF_MARKER_LEN :: nat where "RDB_EOF_MARKER_LEN = 40"

definition bufSize :: nat where "bufSize = 32 * 1024 * 1024"

text \<open>The line that announces the snapshot, after the heartbeats; the rest of the stream follows it.\<close>

fun rdb_marker :: "string reader" where
  "rdb_marker [] = Inl (LogPanicf ''EOF'')"
| "rdb_marker (b # s) =
     (if b = CHR 0x0A then rdb_marker s
      else if b \<noteq> CHR ''$'' then Inl (LogPanicf ''invalid rdb format'')
      else if CHR 0x0A \<notin> set s then Inl (LogPanicf ''EOF'')
      else Inr (TrimSpace (takeWhile (\<lambda>c. c \<noteq> CHR 0x0A) s), tl (dropWhile (\<lambda>c. c \<noteq> CHR 0x0A) s)))"

text \<open>
  The loop of \<^verbatim>\<open>receiveRDBWithDiskless\<close>: \<open>lastBytes\<close> is kept back, each chunk is what one \<^verbatim>\<open>Read\<close> returned.
  The result is what was written, the bytes counted as received and the chunks not read yet; \<open>None\<close> as
  long as the loop runs.
\<close>

fun diskless_loop :: "string \<Rightarrow> string \<Rightarrow> string list \<Rightarrow> (string \<times> nat \<times> string list) option" where
  "diskless_loop marker lastBytes [] = None"
| "diskless_loop marker lastBytes (c # cs) =
     (let buf = lastBytes @ c; n = length buf - RDB_EOF_MARKER_LEN in
      if length buf \<ge> RDB_EOF_MARKER_LEN \<and> drop n buf = marker then Some (take n buf, 0, cs)
      else if length buf \<ge> RDB_EOF_MARKER_LEN
      then map_option (\<lambda>(out, cnt, rest). (take n buf @ out, n + cnt, rest)) (diskless_loop marker (drop n buf) cs)
      else diskless_loop marker buf cs)"

definition receiveRDBWithDiskless :: "string \<Rightarrow> string list \<Rightarrow> (string \<times> nat \<times> string list) option res" where
  "receiveRDBWithDiskless marker chunks = (let ps = Split (CHR '':'') marker in
     if length ps < 2 then Inl (RuntimePanic ''index out of range'')
     else if length (ps ! 1) \<noteq> RDB_EOF_MARKER_LEN then Inl (LogPanicf ''invalid len of EOF marker'')
     else Inr (diskless_loop (ps ! 1) [] chunks))"

text \<open>
  The loop of \<^verbatim>\<open>receiveRDBWithoutDiskless\<close>: \<open>s\<close> is what the connection delivers until it is closed, \<open>sizes\<close> says
  how much each \<^verbatim>\<open>Read\<close> returns at most; \<open>None\<close> as long as the loop runs.
\<close>

primrec counted_loop :: "nat list \<Rightarrow> int \<Rightarrow> string \<Rightarrow> (string \<times> string) option res" where
  "counted_loop [] remainder s =
     (if remainder = 0 then Inr (Some ([], s))
      else if remainder < 0 then Inl (RuntimePanic ''slice bounds out of range'')
      else if s = [] then Inl (LogPanicf ''EOF'')
      else Inr None)"
| "counted_loop (n # sizes) remainder s =
     (if remainder = 0 then Inr (Some ([], s))
      else if remainder < 0 then Inl (RuntimePanic ''slice bounds out of range'')
      else if s = [] then Inl (LogPanicf ''EOF'')
      else let m = min n (min bufSize (min (nat remainder) (length s))) in
        map_sum id (map_option (\<lambda>(out, rest). (take m s @ out, rest)))
          (counted_loop sizes (remainder - int m) (drop m s)))"

definition receiveRDBWithoutDiskless :: "string \<Rightarrow> nat list \<Rightarrow> string \<Rightarrow> (string \<times> string) option res" where
  "receiveRDBWithoutDiskless marker sizes s = (case ParseInt marker of Inl _ \<Rightarrow> Inl (LogPanicf ''strconv.ParseInt'')
     | Inr len \<Rightarrow> counted_loop sizes len s)"

section \<open>Sending the commands\<close>

definition sendProgress :: "syncOptions \<Rightarrow> syncReader \<Rightarrow> int \<Rightarrow> entry list" where
  "sendProgress opt r offset = (if trackOffsets r then
     [NewEntry\<lparr>Argv := [''PING''], SourceNode := so_Address opt, SourceOffset := offset, ProgressOnly := True\<rparr>] else [])"

definition is_cmd :: "string list \<Rightarrow> string \<Rightarrow> bool" where
  "is_cmd argv name \<longleftrightarrow> EqualFold (argv ! 0) name"

definition aof_entry :: "syncOptions \<Rightarrow> syncReader \<Rightarrow> string list \<Rightarrow> entry" where
  "aof_entry opt r argv = (let e = NewEntry\<lparr>Argv := argv, DbId := sr_DbId r, IsIncremental := True\<rparr>
     in if trackOffsets r then e\<lparr>SourceNode := so_Address opt, SourceOffset := AofSentOffset r\<rparr> else e)"

text \<open>What the loop of \<^verbatim>\<open>sendAOF\<close> does with a command; \<open>r\<close> has the offset of its end.\<close>

definition aof_command :: "syncOptions \<Rightarrow> syncReader \<Rightarrow> string list \<Rightarrow> (syncReader \<times> entry list) res" where
  "aof_command opt r argv =
     (let bad = Inl (RuntimePanic ''index out of range''); prog = sendProgress opt r (AofSentOffset r) in
      if argv = [] then bad
      else if is_cmd argv ''select'' then
        (if length argv < 2 then bad
         else (case Atoi (argv ! 1) of Inl _ \<Rightarrow> Inl (LogPanicf ''strconv.Atoi'')
           | Inr db \<Rightarrow> Inr (r\<lparr>sr_DbId := db\<rparr>, prog)))
      else if is_cmd argv ''ping'' \<or> is_cmd argv ''replconf'' \<or> is_cmd argv ''opinfo'' then Inr (r, prog)
      else if is_cmd argv ''ARS'' \<and> length argv < 2 then Inl (RuntimePanic ''slice bounds out of range'')
      else (let argv' = (if is_cmd argv ''ARS'' then drop 2 argv else argv) in
        if argv' = [] then bad
        else if is_cmd argv' ''multi'' \<or> is_cmd argv' ''exec'' then Inr (r, prog)
        else if is_cmd argv' ''publish'' \<and> length argv' < 2 then bad
        else if is_cmd argv' ''publish'' \<and> EqualFold (argv' ! 1) ''__sentinel__:hello'' then Inr (r, prog)
        else Inr (r, [aof_entry opt r argv'])))"

definition at_end :: "rerr \<Rightarrow> bool" where
  "at_end e \<longleftrightarrow> e = GoError ''EOF'' \<or> e = GoError ''unexpected EOF''"

text \<open>How far \<^verbatim>\<open>sendAOF\<close> gets with the bytes available: it waits for more, or stops the process.\<close>

datatype aof_end = WaitsFor syncReader string | Stops fault

lemma ReadReply_shorter:
  assumes "ReadReply pf s = Inr (Inr r, s')"
  shows "length s' < length s"
proof -
  let ?d = "length s"
  define f where "f = (\<lambda>line.
     if hd line = CHR ''+'' then okE (RStr (tl line))
     else if hd line = CHR '':'' then bindE (numE (ParseInt (tl line))) (\<lambda>i. okE (RInt i))
     else if hd line = CHR '','' then bindE (readFloat pf line) (\<lambda>f. okE (RFloat f))
     else if hd line = CHR ''#'' then bindE (readBool line) (\<lambda>b. okE (RBool b))
     else if hd line = CHR ''('' then bindE (readBigInt line) (\<lambda>i. okE (RBigInt i))
     else if hd line = CHR ''$'' then bindE (readStringReply line) (\<lambda>s. okE (RStr s))
     else if hd line = CHR ''='' then bindE (readVerb line) (\<lambda>s. okE (RStr s))
     else if hd line \<in> {CHR ''*'', CHR ''~'', CHR ''>''} then
       bindE (readSlice (ReadReply_d pf ?d) line) (\<lambda>vs. okE (RArr vs))
     else if hd line = CHR ''%'' then bindE (readMap (ReadReply_d pf ?d) line) (\<lambda>m. okE (RMap m))
     else errE (GoError ''redis: can't parse''))"
  have "bindE (ReadLine_d (Suc ?d)) f s = Inr (Inr r, s')"
    using assms unfolding ReadReply_def ReadReply_d.simps(2) f_def .
  then obtain l u where l: "ReadLine_d (Suc ?d) s = Inr (Inr l, u)" and b: "f l u = Inr (Inr r, s')"
    by (rule bindE_okE)
  have u: "length u < length s" using ReadLine_d_shorter [OF _ l] by simp
  have "agree (length u) (f l) (f l)" unfolding f_def
    using u by (auto simp: readSlice_def readMap_def simp del: okE_simp intro!: agree_intros ReadReply_d_agree)
  from agreeD(3) [OF this order_refl b] u show ?thesis by simp
qed

text \<open>
  The loop of \<^verbatim>\<open>sendAOF\<close> on the bytes available, from the offset of the first of them.  When they end
  inside a command it waits there; the context's end is left out.
\<close>

function sendAOF :: "parse_float \<Rightarrow> syncOptions \<Rightarrow> syncReader \<Rightarrow> int \<Rightarrow> string \<Rightarrow> entry list \<times> aof_end" where
  "sendAOF pf opt r offset s = (case ReadReply pf s of
     Inl f \<Rightarrow> ([], Stops f)
   | Inr (Inl e, s') \<Rightarrow> ([], if at_end e then WaitsFor r s else Stops (LogPanicf ''read aof file failed''))
   | Inr (Inr reply, s') \<Rightarrow>
       let offset' = offset + int (length s - length s') in
       (case ArrayString (Inr reply) of Inl f \<Rightarrow> ([], Stops f)
        | Inr argv \<Rightarrow> (case aof_command opt (r\<lparr>AofSentOffset := offset'\<rparr>) argv of Inl f \<Rightarrow> ([], Stops f)
           | Inr (r', es) \<Rightarrow> (case sendAOF pf opt r' offset' s' of (es', fin) \<Rightarrow> (es @ es', fin)))))"
  by pat_completeness auto
termination
  by (relation "measure (\<lambda>(_, _, _, _, s). length s)") (auto dest: ReadReply_shorter)

declare sendAOF.simps [simp del]

section \<open>The snapshot is cut out exactly\<close>

text \<open>The marker ends the stream, and no earlier part of it.\<close>

definition ends_with :: "string \<Rightarrow> string \<Rightarrow> bool" where
  "ends_with marker s \<longleftrightarrow> suffix marker s \<and> (\<forall>p. strict_prefix p s \<longrightarrow> \<not> suffix marker p)"

lemma diskless_loop_exact:
  assumes "length marker = RDB_EOF_MARKER_LEN" "[] \<notin> set chunks" "length lastBytes \<le> RDB_EOF_MARKER_LEN"
    and "done @ lastBytes @ concat chunks = payload @ marker" "chunks \<noteq> []"
    and "\<forall>p. strict_prefix p (payload @ marker) \<longrightarrow> \<not> suffix marker p"
    and "length lastBytes < RDB_EOF_MARKER_LEN \<Longrightarrow> done = []"
  shows "\<exists>out cnt. diskless_loop marker lastBytes chunks = Some (out, cnt, []) \<and> done @ out = payload \<and> cnt \<le> length out"
  using assms
proof (induction chunks arbitrary: lastBytes "done")
  case (Cons c cs)
  let ?buf = "lastBytes @ c" let ?n = "length ?buf - RDB_EOF_MARKER_LEN"
  have all: "(done @ ?buf) @ concat cs = payload @ marker" using Cons.prems(4) by simp
  have split: "take ?n ?buf @ drop ?n ?buf = ?buf" by (rule append_take_drop_id)
  show ?case
  proof (cases "cs = []")
    case True
    then have eq: "done @ ?buf = payload @ marker" using all by simp
    have long: "length ?buf \<ge> RDB_EOF_MARKER_LEN"
    proof (cases "length lastBytes < RDB_EOF_MARKER_LEN")
      case True
      with Cons.prems(7) eq show ?thesis using Cons.prems(1) by (metis append_Nil length_append le_add2)
    qed (simp add: Cons.prems(3))
    have "(done @ take ?n ?buf) @ drop ?n ?buf = payload @ marker" unfolding append_assoc split by (rule eq)
    moreover have "length (drop ?n ?buf) = length marker" unfolding length_drop using long Cons.prems(1) by linarith
    ultimately have "done @ take ?n ?buf = payload" "drop ?n ?buf = marker"
      using append_eq_append_conv [OF disjI2, of "drop ?n ?buf" marker "done @ take ?n ?buf" payload] by blast+
    with long \<open>cs = []\<close> show ?thesis by simp
  next
    case False
    then have "concat cs \<noteq> []" using Cons.prems(2) by (cases cs) auto
    then have "strict_prefix (done @ ?buf) (payload @ marker)" unfolding all [symmetric] by (simp add: strict_prefix_def)
    then have nosuf: "\<not> suffix marker (done @ ?buf)" using Cons.prems(6) by blast
    have nomark: "\<not> (length ?buf \<ge> RDB_EOF_MARKER_LEN \<and> drop ?n ?buf = marker)"
    proof
      assume a: "length ?buf \<ge> RDB_EOF_MARKER_LEN \<and> drop ?n ?buf = marker"
      then have "suffix marker ?buf" by (metis suffix_drop)
      with nosuf show False by (simp add: suffix_appendI)
    qed
    show ?thesis
    proof (cases "length ?buf \<ge> RDB_EOF_MARKER_LEN")
      case True
      have "\<exists>out cnt. diskless_loop marker (drop ?n ?buf) cs = Some (out, cnt, []) \<and> (done @ take ?n ?buf) @ out = payload \<and> cnt \<le> length out"
      proof (rule Cons.IH)
        show "(done @ take ?n ?buf) @ drop ?n ?buf @ concat cs = payload @ marker"
          using all split by (metis append_assoc)
      qed (use Cons.prems True False in auto)
      with True nomark show ?thesis by auto
    next
      case short: False
      have "\<exists>out cnt. diskless_loop marker ?buf cs = Some (out, cnt, []) \<and> done @ out = payload \<and> cnt \<le> length out"
        by (rule Cons.IH) (use Cons.prems False short all in auto)
      with short nomark show ?thesis by auto
    qed
  qed
qed simp

lemma counted_loop_exact:
  assumes "0 \<le> len" "nat len \<le> length s" "\<forall>n \<in> set sizes. 0 < n" "nat len \<le> length sizes"
  shows "counted_loop sizes len s = Inr (Some (take (nat len) s, drop (nat len) s))"
  using assms
proof (induction sizes arbitrary: len s)
  case (Cons n sizes)
  show ?case
  proof (cases "len = 0")
    case False
    define m where "m = min n (min bufSize (min (nat len) (length s)))"
    have m: "0 < m" "m \<le> nat len" "m \<le> length s" using Cons.prems False by (auto simp: m_def bufSize_def)
    have "counted_loop sizes (len - int m) (drop m s) =
        Inr (Some (take (nat (len - int m)) (drop m s), drop (nat (len - int m)) (drop m s)))"
      by (rule Cons.IH) (use Cons.prems m in auto)
    moreover have "nat (len - int m) = nat len - m" using m by simp
    moreover have "take m s @ take (nat len - m) (drop m s) = take (nat len) s"
      using m(2) by (metis le_add_diff_inverse take_add)
    moreover have "drop (nat len - m) (drop m s) = drop (nat len) s" using m(2) by simp
    moreover have "s \<noteq> []" using m by auto
    ultimately show ?thesis using False Cons.prems(1) by (simp add: Let_def m_def [symmetric])
  qed simp
qed simp

lemma Split_no_sep: "c \<notin> set s \<Longrightarrow> Split c s = [s]"
  by (induction s) auto

text \<open>
  A snapshot that the source streams without knowing its length is received exactly: however the
  network cuts the payload and the 40 bytes of the end marker into chunks, the loop ends at the chunk
  that completes the marker and has written the payload and nothing of the marker, provided the
  marker does not occur earlier in the stream.
\<close>

theorem diskless_snapshot_exact:
  assumes "length marker = 40" "CHR '':'' \<notin> set marker" "[] \<notin> set chunks" "concat chunks = payload @ marker"
    and "ends_with marker (payload @ marker)"
  shows "\<exists>cnt. receiveRDBWithDiskless (''EOF:'' @ marker) chunks = Inr (Some (payload, cnt, [])) \<and> cnt \<le> length payload"
proof -
  have "chunks \<noteq> []" using assms(1,4) by auto
  with diskless_loop_exact [of marker chunks "[]" "[]" payload] assms
  obtain cnt where "diskless_loop marker [] chunks = Some (payload, cnt, [])" "cnt \<le> length payload"
    by (auto simp: RDB_EOF_MARKER_LEN_def ends_with_def)
  with assms(1,2) show ?thesis by (simp add: receiveRDBWithDiskless_def Split_no_sep RDB_EOF_MARKER_LEN_def)
qed

theorem diskless_snapshot_exact_witness:
  "\<exists>cnt. receiveRDBWithDiskless (''EOF:'' @ replicate 40 CHR ''m'') [''RED'', ''IS'' @ replicate 39 CHR ''m'', ''m'']
     = Inr (Some (''REDIS'', cnt, [])) \<and> cnt \<le> length ''REDIS''"
proof -
  let ?m = "replicate 40 CHR ''m''" and ?s = "''REDIS'' @ replicate 40 CHR ''m''"
  have "\<not> suffix ?m p" if "strict_prefix p ?s" for p
  proof
    assume "suffix ?m p"
    with that obtain q r where p: "p = q @ ?m" and s: "?s = p @ r" "r \<noteq> []" by (auto simp: suffix_def strict_prefix_def prefix_def)
    have "length q + 40 + length r = 45" using arg_cong [OF s(1), of length] by (simp add: p)
    with s(2) have q: "length q < 5" by (cases r) auto
    have "?s ! 4 = CHR ''S''" by simp
    moreover have "4 - length q < 40" by simp
    then have "?s ! 4 = CHR ''m''" unfolding s(1) p using q by (simp add: nth_append)
    ultimately show False by simp
  qed
  moreover have "suffix ?m ?s" by (rule suffixI [OF refl])
  ultimately have "ends_with ?m ?s" by (auto simp: ends_with_def)
  moreover have "concat [''RED'', ''IS'' @ replicate 39 CHR ''m'', ''m''] = ''REDIS'' @ ?m"
    by (simp add: numeral_eq_Suc)
  ultimately show ?thesis
    using diskless_snapshot_exact [of ?m "[''RED'', ''IS'' @ replicate 39 CHR ''m'', ''m'']" "''REDIS''"] by simp
qed

section \<open>The commands of the stream\<close>

lemma ReadReply_cmd:
  assumes "\<forall>a \<in> set argv. int (length a) + 2 \<le> maxInt64" "int (length argv) \<le> maxInt64"
  shows "ReadReply pf (argv_bytes argv @ t) = Inr (Inr (RArr (map RStr argv)), t)"
proof -
  obtain d where "length (argv_bytes argv @ t) = Suc d" by (simp add: argv_bytes_def)
  with ReadReply_d_strings [OF assms, of pf d t] show ?thesis
    by (simp add: ReadReply_def argv_bytes_def del: ReadReply_d.simps)
qed

text \<open>What a source may send: no command is cut short.\<close>

definition strip :: "string list \<Rightarrow> string list" where
  "strip argv = (if is_cmd argv ''ARS'' then drop 2 argv else argv)"

definition well_formed :: "string list \<Rightarrow> bool" where
  "well_formed argv \<longleftrightarrow> argv \<noteq> [] \<and> (\<forall>a \<in> set argv. int (length a) + 2 \<le> maxInt64) \<and> int (length argv) \<le> maxInt64 \<and>
     (if is_cmd argv ''select'' then 2 \<le> length argv \<and> \<not> isl (Atoi (argv ! 1))
      else strip argv \<noteq> [] \<and> (is_cmd (strip argv) ''publish'' \<longrightarrow> 2 \<le> length (strip argv)))"

text \<open>Commands that the source sends for its own purposes.\<close>

definition control :: "string list \<Rightarrow> bool" where
  "control argv \<longleftrightarrow> is_cmd argv ''ping'' \<or> is_cmd argv ''replconf'' \<or> is_cmd argv ''opinfo'' \<or>
     is_cmd (strip argv) ''multi'' \<or> is_cmd (strip argv) ''exec'' \<or>
     is_cmd (strip argv) ''publish'' \<and> EqualFold (strip argv ! 1) ''__sentinel__:hello''"

text \<open>What the stream means: the data commands with the database selected last.\<close>

fun source_runs :: "int \<Rightarrow> string list list \<Rightarrow> (int \<times> string list) list" where
  "source_runs db [] = []"
| "source_runs db (argv # cmds) =
     (if is_cmd argv ''select'' then (case Atoi (argv ! 1) of Inr db' \<Rightarrow> source_runs db' cmds | Inl _ \<Rightarrow> [])
      else if control argv then source_runs db cmds
      else (db, strip argv) # source_runs db cmds)"

fun cmd_offsets :: "int \<Rightarrow> string list list \<Rightarrow> int list" where
  "cmd_offsets off [] = []"
| "cmd_offsets off (argv # cmds) = (let off' = off + int (length (argv_bytes argv)) in off' # cmd_offsets off' cmds)"

lemma aof_command_ok:
  assumes "well_formed argv"
  obtains r' es where "aof_command opt r argv = Inr (r', es)" "trackOffsets r' = trackOffsets r" "AofSentOffset r' = AofSentOffset r"
    "sr_DbId r' = (if is_cmd argv ''select'' then (case Atoi (argv ! 1) of Inr db \<Rightarrow> db | Inl _ \<Rightarrow> 0) else sr_DbId r)"
    "map (\<lambda>e. (DbId e, Argv e)) (filter (\<lambda>e. \<not> ProgressOnly e) es) =
      (if is_cmd argv ''select'' \<or> control argv then [] else [(sr_DbId r, strip argv)])"
    "trackOffsets r \<Longrightarrow> map (\<lambda>e. (SourceNode e, SourceOffset e)) es = [(so_Address opt, AofSentOffset r)]"
    "\<forall>e \<in> set es. OnWritten e = None"
proof (cases "is_cmd argv ''select''")
  case True
  then obtain db where "Atoi (argv ! 1) = Inr db" "2 \<le> length argv" "argv \<noteq> []"
    using assms by (cases "Atoi (argv ! 1)") (auto simp: well_formed_def)
  with True show thesis
    by (intro that [of "r\<lparr>sr_DbId := db\<rparr>" "sendProgress opt r (AofSentOffset r)"])
      (auto simp: aof_command_def Let_def sendProgress_def NewEntry_def)
next
  case False
  have wf: "argv \<noteq> []" "strip argv \<noteq> []" "is_cmd (strip argv) ''publish'' \<Longrightarrow> 2 \<le> length (strip argv)"
    using assms False by (auto simp: well_formed_def)
  then have ars: "is_cmd argv ''ARS'' \<Longrightarrow> \<not> length argv < 2" by (auto simp: strip_def)
  show thesis
  proof (cases "control argv")
    case True
    with False wf ars show thesis
      by (intro that [of r "sendProgress opt r (AofSentOffset r)"])
        (auto simp: aof_command_def Let_def control_def strip_def [symmetric] sendProgress_def NewEntry_def)
  next
    case data: False
    with False wf ars show thesis
      by (intro that [of r "[aof_entry opt r (strip argv)]"])
        (auto simp: aof_command_def Let_def control_def strip_def [symmetric] aof_entry_def NewEntry_def)
  qed
qed

lemma sendAOF_cmd:
  assumes "well_formed argv"
  shows "sendAOF pf opt r off (argv_bytes argv @ s) =
    (let off' = off + int (length (argv_bytes argv)) in
     case aof_command opt (r\<lparr>AofSentOffset := off'\<rparr>) argv of Inl f \<Rightarrow> ([], Stops f)
     | Inr (r', es) \<Rightarrow> (case sendAOF pf opt r' off' s of (es', fin) \<Rightarrow> (es @ es', fin)))"
proof -
  have "ReadReply pf (argv_bytes argv @ s) = Inr (Inr (RArr (map RStr argv)), s)"
    using assms by (intro ReadReply_cmd) (auto simp: well_formed_def)
  moreover have "length (argv_bytes argv @ s) - length s = length (argv_bytes argv)" by simp
  ultimately show ?thesis by (subst sendAOF.simps) (simp add: ArrayString_def Let_def del: length_append cong: sum.case_cong)
qed

lemma sendAOF_cmds:
  assumes "\<forall>argv \<in> set cmds. well_formed argv" "ReadReply pf t = Inr (Inl e, u)" "at_end e"
  shows "\<exists>es r'. sendAOF pf opt r off (concat (map argv_bytes cmds) @ t) = (es, WaitsFor r' t) \<and>
    map (\<lambda>e. (DbId e, Argv e)) (filter (\<lambda>e. \<not> ProgressOnly e) es) = source_runs (sr_DbId r) cmds \<and>
    (trackOffsets r \<longrightarrow> map (\<lambda>e. (SourceNode e, SourceOffset e)) es = map (Pair (so_Address opt)) (cmd_offsets off cmds)) \<and>
    (\<forall>e \<in> set es. OnWritten e = None)"
  using assms(1)
proof (induction cmds arbitrary: r off)
  case Nil
  then show ?case using assms(2,3) by (subst sendAOF.simps) simp
next
  case (Cons argv cmds)
  let ?off = "off + int (length (argv_bytes argv))"
  have wf: "well_formed argv" using Cons.prems by simp
  obtain r' es where c: "aof_command opt (r\<lparr>AofSentOffset := ?off\<rparr>) argv = Inr (r', es)" "trackOffsets r' = trackOffsets r"
    "sr_DbId r' = (if is_cmd argv ''select'' then (case Atoi (argv ! 1) of Inr db \<Rightarrow> db | Inl _ \<Rightarrow> 0) else sr_DbId r)"
    "map (\<lambda>e. (DbId e, Argv e)) (filter (\<lambda>e. \<not> ProgressOnly e) es) =
      (if is_cmd argv ''select'' \<or> control argv then [] else [(sr_DbId r, strip argv)])"
    "trackOffsets r \<Longrightarrow> map (\<lambda>e. (SourceNode e, SourceOffset e)) es = [(so_Address opt, ?off)]"
    "\<forall>e \<in> set es. OnWritten e = None"
    by (rule aof_command_ok [OF wf, of opt "r\<lparr>AofSentOffset := ?off\<rparr>"]) auto
  from Cons.IH [of r' ?off] Cons.prems obtain es' r'' where
    ih: "sendAOF pf opt r' ?off (concat (map argv_bytes cmds) @ t) = (es', WaitsFor r'' t)"
      "map (\<lambda>e. (DbId e, Argv e)) (filter (\<lambda>e. \<not> ProgressOnly e) es') = source_runs (sr_DbId r') cmds"
      "trackOffsets r' \<longrightarrow> map (\<lambda>e. (SourceNode e, SourceOffset e)) es' = map (Pair (so_Address opt)) (cmd_offsets ?off cmds)"
      "\<forall>e \<in> set es'. OnWritten e = None"
    by auto
  have "sendAOF pf opt r off (concat (map argv_bytes (argv # cmds)) @ t) = (es @ es', WaitsFor r'' t)"
    using sendAOF_cmd [OF wf, of pf opt r off "concat (map argv_bytes cmds) @ t"] by (simp add: Let_def c(1) ih(1))
  moreover have "map (\<lambda>e. (DbId e, Argv e)) (filter (\<lambda>e. \<not> ProgressOnly e) (es @ es')) = source_runs (sr_DbId r) (argv # cmds)"
    using wf by (auto simp: ih(2) c(3,4) well_formed_def split: sum.splits)
  ultimately show ?case using c(2,5,6) ih(3,4) by (intro exI conjI) (assumption | auto simp: Let_def)+
qed

section \<open>The whole reader\<close>

datatype sync_end = Follows aof_end | ClosedAfterSnapshot | SnapshotFails fault

text \<open>
  \<open>file\<close> is the snapshot received, \<open>start\<close> its offset, \<open>s\<close> the stream on disk that follows.
\<close>

definition StartReadWithPSync ::
    "rdbOptions \<Rightarrow> parse_float \<Rightarrow> (nat \<Rightarrow> int) \<Rightarrow> syncOptions \<Rightarrow> string \<Rightarrow> int \<Rightarrow> string \<Rightarrow> entry list \<times> sync_end" where
  "StartReadWithPSync ropt pf now opt file start s =
     (let r = NewSyncStandaloneReader\<lparr>trackOffsets := TrackOffsets opt, AofReceivedOffset := start\<rparr> in
      case (if SyncRdb opt then ParseRDB ropt now (\<lambda>_. False) file else ([], Inr 0)) of
        (es, Inl f) \<Rightarrow> (es, SnapshotFails f)
      | (es, Inr db) \<Rightarrow>
          let es' = es @ sendProgress opt r start in
          if SyncAof opt then (case sendAOF pf opt (r\<lparr>sr_DbId := db, sr_Status := kSyncAof\<rparr>) start s of
              (es'', fin) \<Rightarrow> (es' @ es'', Follows fin))
          else (es', ClosedAfterSnapshot))"

definition StartReadWithSync ::
    "rdbOptions \<Rightarrow> parse_float \<Rightarrow> (nat \<Rightarrow> int) \<Rightarrow> syncOptions \<Rightarrow> string \<Rightarrow> string \<Rightarrow> entry list \<times> sync_end" where
  "StartReadWithSync ropt pf now opt file s =
     (case (if SyncRdb opt then ParseRDB ropt now (\<lambda>_. False) file else ([], Inr 0)) of
        (es, Inl f) \<Rightarrow> (es, SnapshotFails f)
      | (es, Inr db) \<Rightarrow>
          if SyncAof opt then
            (case sendAOF pf opt (NewSyncStandaloneReader\<lparr>sr_DbId := db, sr_Status := kSyncAof\<rparr>) 0 s of
              (es', fin) \<Rightarrow> (es @ es', Follows fin))
          else (es, ClosedAfterSnapshot))"

text \<open>
  What a tracked source delivers to the kernel: first the snapshot's entries, in order, then one
  entry that carries the offset of the snapshot, then the stream: every command sent by the source
  yields exactly one entry, in order, whose offset is the offset of the command's last byte; the
  entries that are not mere progress are exactly the data commands, each in the database selected
  last (at first the one the snapshot names).  Bytes of an incomplete command are kept for later.
\<close>

lemma sync_reader_delivers:
  assumes "\<forall>it \<in> set its. item_valid ropt vk it" "\<forall>i. clock (now i)" "Atoi ver = Inr n"
    "length ver = (if vk then 3 else 4)"
    and "TrackOffsets opt" "SyncRdb opt" "SyncAof opt"
    and "\<forall>argv \<in> set cmds. well_formed argv" "ReadReply pf t = Inr (Inl e, u)" "at_end e"
  shows "\<exists>es r. StartReadWithPSync ropt pf now opt
       ((if vk then ''VALKEY'' else ''REDIS'') @ ver @ concat (map item_enc its) @ [byte 255]) start
       (concat (map argv_bytes cmds) @ t) =
     (sent ropt now 0 0 0 its @
      [NewEntry\<lparr>Argv := [''PING''], SourceNode := so_Address opt, SourceOffset := start, ProgressOnly := True\<rparr>] @ es,
      Follows (WaitsFor r t)) \<and>
    map (\<lambda>e. (DbId e, Argv e)) (filter (\<lambda>e. \<not> ProgressOnly e) es) = source_runs (repl_db 0 its) cmds \<and>
    map (\<lambda>e. (SourceNode e, SourceOffset e)) es = map (Pair (so_Address opt)) (cmd_offsets start cmds)"
proof -
  have p: "ParseRDB ropt now (\<lambda>_. False) ((if vk then ''VALKEY'' else ''REDIS'') @ ver @ concat (map item_enc its) @ [byte 255]) =
      (sent ropt now 0 0 0 its, Inr (repl_db 0 its))"
    by (rule ParseRDB_items [OF assms(1-4)])
  let ?r = "NewSyncStandaloneReader\<lparr>trackOffsets := True, AofReceivedOffset := start, sr_DbId := repl_db 0 its, sr_Status := kSyncAof\<rparr>"
  from sendAOF_cmds [OF assms(8-10), of opt ?r start] show ?thesis
    by (auto simp: StartReadWithPSync_def p assms(5-7) Let_def sendProgress_def)
qed

definition demo_sync :: syncOptions where
  "demo_sync = \<lparr>so_Address = ''n'', TrackOffsets = True, SyncRdb = True, SyncAof = True, TryDiskless = False, AwsPSync = []\<rparr>"

text \<open>A snapshot with one key, and three commands, for a concrete run.\<close>

definition demo_items :: "item list" where
  "demo_items = [KeyVal 0 (Raw ''k'') (str_enc (Raw ''v'')) [[''set'', ''k'', ''v'']]]"

definition demo_cmds :: "string list list" where
  "demo_cmds = [[''SELECT'', ''3''], [''PING''], [''DEL'', ''k'']]"

lemma demo_items_valid: "\<forall>it \<in> set demo_items. item_valid opt0 False it"
proof -
  have "str_valid (Raw ''k'')" "str_valid (Raw ''v'')" by simp_all
  then have "item_valid opt0 False (KeyVal 0 (Raw ''k'') (str_enc (Raw ''v'')) [[''set'', str_value (Raw ''k''), str_value (Raw ''v'')]])"
    by (rule string_item_valid)
  then show ?thesis by (simp add: demo_items_def del: item_valid.simps(10))
qed

lemma demo_cmds_facts:
  "\<forall>argv \<in> set demo_cmds. well_formed argv" "source_runs (repl_db 0 demo_items) demo_cmds = [(3, [''DEL'', ''k''])]"
  "cmd_offsets 100 demo_cmds = [123, 137, 157]"
proof -
  have three: "Atoi ''3'' = Inr 3" by (simp add: parse_simps)
  note words = is_cmd_def EqualFold_def ToUpper_def upper_char_def strip_def
  show "\<forall>argv \<in> set demo_cmds. well_formed argv" by (simp add: demo_cmds_def well_formed_def words three maxInt64_def)
  have kinds: "is_cmd [''SELECT'', ''3''] ''select''" "\<not> is_cmd [''PING''] ''select''" "control [''PING'']"
    "\<not> is_cmd [''DEL'', ''k''] ''select''" "\<not> control [''DEL'', ''k'']" "strip [''DEL'', ''k''] = [''DEL'', ''k'']"
    by code_simp+
  show "source_runs (repl_db 0 demo_items) demo_cmds = [(3, [''DEL'', ''k''])]" by (simp add: demo_items_def demo_cmds_def kinds three)
  show "cmd_offsets 100 demo_cmds = [123, 137, 157]" by code_simp
qed

lemma demo_rest: "ReadReply (\<lambda>_. None) ''*2'' = Inr (Inl (GoError ''EOF''), [])" "at_end (GoError ''EOF'')"
  by (code_simp, simp add: at_end_def)

end
