(* ===== verification/Client.thy ===== *)
theory Client
  imports Resp
begin

text \<open>
  The parts of \<^verbatim>\<open>internal/client\<close> that interpret what a server says (\<^verbatim>\<open>redis.go\<close>, \<^verbatim>\<open>func.go\<close>, \<^verbatim>\<open>sentinel.go\<close>)
  and \<^verbatim>\<open>internal/utils/parse.go\<close>: the choice of a replica, the server's kind, a page of SCAN, the
  list of databases.  Connecting, TLS and authentication are left out; a reply is the result of
  \<^verbatim>\<open>Receive\<close>.
\<close>

section \<open>Replies\<close>

definition ReceiveString :: "rerr + reply \<Rightarrow> string res" where
  "ReceiveString r = (case r of Inl _ \<Rightarrow> Inl (LogPanicf ''receive failed'')
     | Inr (RStr s) \<Rightarrow> Inr s | Inr _ \<Rightarrow> Inl (RuntimePanic ''interface conversion''))"

fun reply_strings :: "reply list \<Rightarrow> string list res" where
  "reply_strings [] = Inr []"
| "reply_strings (RStr s # rs) = map_sum id ((#) s) (reply_strings rs)"
| "reply_strings (_ # rs) = Inl (RuntimePanic ''interface conversion'')"

definition client_Scan :: "rerr + reply \<Rightarrow> (nat \<times> string list) res" where
  "client_Scan r = (case r of Inl _ \<Rightarrow> Inl (LogPanicf ''receive failed'')
     | Inr (RArr rs) \<Rightarrow>
         if length rs \<noteq> 2 then Inl (LogPanicf ''scan return length error'')
         else (case rs ! 0 of RStr c \<Rightarrow>
             (case ParseUint c of Inl _ \<Rightarrow> Inl (LogPanicf ''strconv.ParseUint'')
              | Inr cursor \<Rightarrow> (case rs ! 1 of RArr ks \<Rightarrow> map_sum id (Pair cursor) (reply_strings ks)
                  | _ \<Rightarrow> Inl (RuntimePanic ''interface conversion'')))
           | _ \<Rightarrow> Inl (RuntimePanic ''interface conversion''))
     | Inr _ \<Rightarrow> Inl (RuntimePanic ''interface conversion''))"

definition FetchAddressFromSentinel :: "rerr + reply \<Rightarrow> string res" where
  "FetchAddressFromSentinel r = (case ArrayString r of Inl f \<Rightarrow> Inl f
     | Inr hp \<Rightarrow> if length hp < 2 then Inl (RuntimePanic ''index out of range'') else Inr (hp ! 0 @ '':'' @ hp ! 1))"

section \<open>What kind of server\<close>

definition IsCluster :: "string \<Rightarrow> bool" where
  "IsCluster info \<longleftrightarrow> Contains info ''cluster_enabled:1''"

fun version_lines :: "string list \<Rightarrow> bool option" where
  "version_lines [] = None"
| "version_lines (line # lines) =
     (if HasPrefix (TrimSpace line) ''valkey_version:'' then Some True
      else if HasPrefix (TrimSpace line) ''redis_version:'' then Some False
      else version_lines lines)"

definition ParseServerVersion :: "string \<Rightarrow> bool option" where
  "ParseServerVersion info = version_lines (Split (CHR 0x0A) info)"

definition IsValkey :: "string \<Rightarrow> bool" where
  "IsValkey info = (case ParseServerVersion info of None \<Rightarrow> False | Some b \<Rightarrow> b)"

section \<open>The databases\<close>

text \<open>The matches of \<^verbatim>\<open>db(\d+):\<close>, from left to right.\<close>

function db_matches :: "string \<Rightarrow> string list" where
  "db_matches s = (case s of [] \<Rightarrow> []
     | c # cs \<Rightarrow>
         let ds = takeWhile is_digit (drop 2 s); rest = dropWhile is_digit (drop 2 s) in
         if HasPrefix s ''db'' \<and> ds \<noteq> [] \<and> HasPrefix rest '':'' then ds # db_matches (tl rest)
         else db_matches cs)"
  by pat_completeness auto
termination
proof (relation "measure length", goal_cases)
  case (2 s c cs ds rest)
  then have "length rest \<le> length s" using length_dropWhile_le [of is_digit "drop 2 s"] by simp
  with 2 show ?case by (cases rest) auto
qed auto

declare db_matches.simps [simp del]

definition ParseDBs :: "string \<Rightarrow> int list" where
  "ParseDBs s = map ParseInt_val (db_matches s)"

section \<open>The best replica\<close>

record replicaInfo =
  rep_Addr :: string
  rep_Offset :: string

fun replica_items :: "string list \<Rightarrow> string \<times> string \<times> string \<Rightarrow> string \<times> string \<times> string" where
  "replica_items [] hpo = hpo"
| "replica_items (it # its) (host, port, offset) =
     (let v = Split (CHR ''='') it ! 1 in
      replica_items its (if HasPrefix it ''ip='' then v else host, if HasPrefix it ''port='' then v else port,
        if HasPrefix it ''offset='' then v else offset))"

text \<open>Whether \<^verbatim>\<open>slave\d+:ip=.*\<close> matches somewhere in the line.\<close>

fun slave_line :: "string \<Rightarrow> bool" where
  "slave_line [] = False"
| "slave_line (c # cs) =
     (HasPrefix (c # cs) ''slave'' \<and> takeWhile is_digit (drop 5 (c # cs)) \<noteq> [] \<and>
        HasPrefix (dropWhile is_digit (drop 5 (c # cs))) '':ip='' \<or> slave_line cs)"

text \<open>The loop over the lines: \<open>None\<close> when the server is itself a replica.\<close>

fun replica_lines :: "string list \<Rightarrow> replicaInfo list option" where
  "replica_lines [] = Some []"
| "replica_lines (raw # lines) =
     (let line = TrimSpace raw in
      if HasPrefix line ''role:slave'' then None
      else if HasPrefix line ''role:master'' then replica_lines lines
      else if slave_line line then
        (case replica_items (Split (CHR '','') (Split (CHR '':'') line ! 1)) ([], [], []) of (host, port, offset) \<Rightarrow>
           map_option ((#) \<lparr>rep_Addr = host @ '':'' @ port, rep_Offset = offset\<rparr>) (replica_lines lines))
      else replica_lines lines)"

definition best_replica :: "replicaInfo \<Rightarrow> replicaInfo list \<Rightarrow> replicaInfo" where
  "best_replica r0 rs = foldl (\<lambda>best r. if rep_Offset r > rep_Offset best then r else best) r0 rs"

definition getReplicaAddr :: "string \<Rightarrow> string \<Rightarrow> string res" where
  "getReplicaAddr info addr = (case replica_lines (Split (CHR 0x0A) info) of None \<Rightarrow> Inr addr
     | Some [] \<Rightarrow> Inl (LogPanicf ''no replica found'')
     | Some (r # rs) \<Rightarrow> Inr (rep_Addr (best_replica r (r # rs))))"

text \<open>The replica is chosen by comparing offsets as texts: one that is behind can win.\<close>

lemma best_replica_compares_texts:
  "getReplicaAddr (Join [''role:master'', ''slave0:ip=a,port=1,state=online,offset=1000,lag=0'',
      ''slave1:ip=b,port=1,state=online,offset=999,lag=1''] [CHR 0x0A]) ''m:1'' = Inr ''b:1''"
  by code_simp

text \<open>
  The loop does find the largest of the texts; it is the largest offset only when all have the same
  number of digits.
\<close>

lemma best_replica_max:
  "r0 \<in> set rs \<Longrightarrow> best_replica r0 rs \<in> set rs \<and> (\<forall>r \<in> set rs. rep_Offset r \<le> rep_Offset (best_replica r0 rs))"
proof -
  have "rep_Offset b \<le> rep_Offset (best_replica b rs) \<and> (\<forall>r \<in> set rs. rep_Offset r \<le> rep_Offset (best_replica b rs)) \<and>
      (best_replica b rs = b \<or> best_replica b rs \<in> set rs)" for b
  proof (induction rs arbitrary: b)
    case (Cons r rs)
    let ?b = "if rep_Offset r > rep_Offset b then r else b"
    have "best_replica b (r # rs) = best_replica ?b rs" by (simp add: best_replica_def)
    moreover have "rep_Offset b \<le> rep_Offset ?b" "rep_Offset r \<le> rep_Offset ?b" by auto
    ultimately show ?case using Cons.IH [of ?b] by (auto intro: order_trans)
  qed (simp add: best_replica_def)
  then show "r0 \<in> set rs \<Longrightarrow> ?thesis" by metis
qed

end
