(* ===== verification/Handshake.thy ===== *)
theory Handshake
  imports SyncReader Client
begin

text \<open>
  Connecting to a server and posing as its replica: \<^verbatim>\<open>NewRedisClient\<close> and the requests of
  \<^verbatim>\<open>internal/client/redis.go\<close>, and the handshake of \<^verbatim>\<open>internal/reader/sync_standalone_reader.go\<close> from
  \<^verbatim>\<open>StartRead\<close> to the reception of the snapshot.

  A connection is what the server sends until it closes it, and what was sent to it.  A step of the
  dialogue takes the one from the front and appends to the other; it ends with a value, with a fault, or,
  when the context is done, with the end of the goroutine.  The server is not part of the program: the
  theorems hold for every stream, the last one for every stream of the shape the replication protocol
  prescribes.  Dialling, and the files of a TLS configuration, are parameters.
\<close>

section \<open>Dialogues\<close>

record conn =
  conn_in :: string
  conn_out :: string
  ctx_looks :: nat

datatype stop = Fault fault | Goexit

type_synonym 'a dlg = "conn \<Rightarrow> (stop + 'a) \<times> conn"

definition retD :: "'a \<Rightarrow> 'a dlg" where
  "retD x c = (Inr x, c)"

definition stopD :: "stop \<Rightarrow> 'a dlg" where
  "stopD e c = (Inl e, c)"

definition bindD :: "'a dlg \<Rightarrow> ('a \<Rightarrow> 'b dlg) \<Rightarrow> 'b dlg" where
  "bindD p f c = (case p c of (Inl e, c') \<Rightarrow> (Inl e, c') | (Inr x, c') \<Rightarrow> f x c')"

definition resD :: "'a res \<Rightarrow> 'a dlg" where
  "resD r = (case r of Inl f \<Rightarrow> stopD (Fault f) | Inr x \<Rightarrow> retD x)"

lemma retD_simp [simp]: "retD x c = (Inr x, c)"
  by (simp add: retD_def)

lemma stopD_simp [simp]: "stopD e c = (Inl e, c)"
  by (simp add: stopD_def)

lemma resD_simps [simp]: "resD (Inl f) = stopD (Fault f)" "resD (Inr x) = retD x"
  by (simp_all add: resD_def)

lemma bindD_Inr [simp]: "p c = (Inr x, c') \<Longrightarrow> bindD p f c = f x c'"
  by (simp add: bindD_def)

lemma bindD_eqI: "p c = (Inr x, c') \<Longrightarrow> f x c' = r \<Longrightarrow> bindD p f c = r"
  by simp

lemma bindD_Inl [simp]: "p c = (Inl e, c') \<Longrightarrow> bindD p f c = (Inl e, c')"
  by (simp add: bindD_def)

section \<open>The client\<close>

text \<open>
  \<^verbatim>\<open>Send\<close> writes and flushes; arguments that cannot be written end the process before the flush.
  \<open>ff\<close> prints and \<open>pf\<close> reads floating-point numbers.
\<close>

definition strs :: "string list \<Rightarrow> arg list" where
  "strs argv = map AStr argv"

definition Send :: "(64 word \<Rightarrow> string) \<Rightarrow> arg list \<Rightarrow> unit dlg" where
  "Send ff args c = (case WriteArgs ff args of
     (bytes, True) \<Rightarrow> (Inr (), c\<lparr>conn_out := conn_out c @ bytes\<rparr>)
   | (bytes, False) \<Rightarrow> (Inl (Fault (LogPanicf ''redis: can't marshal'')), c))"

definition Receive :: "parse_float \<Rightarrow> (rerr + reply) dlg" where
  "Receive pf c = (case ReadReply pf (conn_in c) of
     Inl f \<Rightarrow> (Inl (Fault f), c) | Inr (r, s) \<Rightarrow> (Inr r, c\<lparr>conn_in := s\<rparr>))"

definition ReceiveStringD :: "parse_float \<Rightarrow> string dlg" where
  "ReceiveStringD pf = bindD (Receive pf) (\<lambda>r. resD (ReceiveString r))"

definition DoWithStringReply :: "(64 word \<Rightarrow> string) \<Rightarrow> parse_float \<Rightarrow> arg list \<Rightarrow> string dlg" where
  "DoWithStringReply ff pf args = bindD (Send ff args) (\<lambda>_. bindD (Receive pf) (\<lambda>r. case r of
     Inl _ \<Rightarrow> stopD (Fault (LogPanicf ''receive failed''))
   | Inr (RStr s) \<Rightarrow> retD s
   | Inr _ \<Rightarrow> stopD (Fault (RuntimePanic ''interface conversion''))))"

definition Do :: "(64 word \<Rightarrow> string) \<Rightarrow> parse_float \<Rightarrow> arg list \<Rightarrow> reply dlg" where
  "Do ff pf args = bindD (Send ff args) (\<lambda>_. bindD (Receive pf) (\<lambda>r. case r of
     Inl _ \<Rightarrow> stopD (Fault (LogPanicf ''receive failed'')) | Inr v \<Rightarrow> retD v))"

definition Peek :: "char option dlg" where
  "Peek c = (Inr (case conn_in c of [] \<Rightarrow> None | b # _ \<Rightarrow> Some b), c)"

definition ReadByte :: "char option dlg" where
  "ReadByte c = (case conn_in c of [] \<Rightarrow> (Inr None, c) | b # s \<Rightarrow> (Inr (Some b), c\<lparr>conn_in := s\<rparr>))"

text \<open>
  The TLS configuration: \<open>loadPair\<close> says whether certificate and key can be loaded, \<open>readFile\<close> what the
  file of the authority holds.
\<close>

record tlsConfig =
  CACertFilePath :: string
  CertFilePath :: string
  KeyFilePath :: string

record tls =
  tls_RootCAs :: "string option"
  tls_Certificate :: "(string \<times> string) option"
  InsecureSkipVerify :: bool

definition loadTlsConfig :: "(string \<Rightarrow> string \<Rightarrow> bool) \<Rightarrow> (string \<Rightarrow> string option) \<Rightarrow> tlsConfig \<Rightarrow> string + tls" where
  "loadTlsConfig loadPair readFile cfg =
     (if CACertFilePath cfg = [] \<or> CertFilePath cfg = [] \<or> KeyFilePath cfg = []
      then Inr \<lparr>tls_RootCAs = None, tls_Certificate = None, InsecureSkipVerify = True\<rparr>
      else if \<not> loadPair (CertFilePath cfg) (KeyFilePath cfg) then Inl ''load tls cert''
      else (case readFile (CACertFilePath cfg) of None \<Rightarrow> Inl ''read ca cert''
        | Some ca \<Rightarrow> Inr \<lparr>tls_RootCAs = Some ca, tls_Certificate = Some (CertFilePath cfg, KeyFilePath cfg),
            InsecureSkipVerify = True\<rparr>))"

definition getTlsConfig :: "(string \<Rightarrow> string \<Rightarrow> bool) \<Rightarrow> (string \<Rightarrow> string option) \<Rightarrow> tlsConfig \<Rightarrow> tls res" where
  "getTlsConfig loadPair readFile cfg = map_sum (\<lambda>_. LogPanicf ''load tls config'') id (loadTlsConfig loadPair readFile cfg)"

text \<open>
  Connecting: \<open>dial\<close> is what the server at an address sends when it is dialled (with the TLS
  configuration, if any), \<open>None\<close> when it cannot be reached.
\<close>

definition auth_dlg :: "(64 word \<Rightarrow> string) \<Rightarrow> parse_float \<Rightarrow> string \<Rightarrow> string \<Rightarrow> unit dlg" where
  "auth_dlg ff pf username password =
     (if username \<noteq> [] \<or> password \<noteq> [] then
        bindD (DoWithStringReply ff pf (strs (if username \<noteq> [] then [''auth'', username, password] else [''auth'', password])))
          (\<lambda>reply. if reply \<noteq> ''OK'' then stopD (Fault (LogPanicf ''auth failed with reply'')) else retD ())
      else retD ())"

definition connect_dlg :: "(64 word \<Rightarrow> string) \<Rightarrow> parse_float \<Rightarrow> string \<Rightarrow> string \<Rightarrow> unit dlg" where
  "connect_dlg ff pf username password = bindD (auth_dlg ff pf username password) (\<lambda>_.
     bindD (DoWithStringReply ff pf (strs [''ping''])) (\<lambda>reply.
       if reply \<noteq> ''PONG'' then stopD (Fault (RuntimePanic ''ping failed'')) else retD ()))"

definition open_conn :: "string \<Rightarrow> conn" where
  "open_conn s = \<lparr>conn_in = s, conn_out = [], ctx_looks = 0\<rparr>"

text \<open>The body of \<^verbatim>\<open>NewRedisClient\<close> up to the ping, and the call of itself for the replica it found.\<close>

definition connect :: "(string \<Rightarrow> string option) \<Rightarrow> (64 word \<Rightarrow> string) \<Rightarrow> parse_float \<Rightarrow> string \<Rightarrow> string \<Rightarrow> string \<Rightarrow> stop + conn" where
  "connect dial ff pf address username password =
     (case dial address of None \<Rightarrow> Inl (Fault (LogPanicf ''dial failed''))
      | Some s \<Rightarrow> (case connect_dlg ff pf username password (open_conn s) of (Inl e, _) \<Rightarrow> Inl e | (Inr _, c) \<Rightarrow> Inr c))"

definition NewRedisClient :: "(string \<Rightarrow> string option) \<Rightarrow> (64 word \<Rightarrow> string) \<Rightarrow> parse_float \<Rightarrow>
    string \<Rightarrow> string \<Rightarrow> string \<Rightarrow> bool \<Rightarrow> stop + conn" where
  "NewRedisClient dial ff pf address username password replica =
     (case connect dial ff pf address username password of Inl e \<Rightarrow> Inl e
      | Inr c \<Rightarrow>
          if replica then
            (case DoWithStringReply ff pf (strs [''info'', ''replication'']) c of
               (Inl e, _) \<Rightarrow> Inl e
             | (Inr info, _) \<Rightarrow> (case getReplicaAddr info address of Inl f \<Rightarrow> Inl (Fault f)
                 | Inr best \<Rightarrow> connect dial ff pf best username password))
          else Inr c)"

section \<open>The handshake\<close>

text \<open>
  \<open>dn n\<close> says whether the context is done when it is looked at for the n-th time; the loops of the handshake
  look at it in every round.
\<close>

definition sendReplconfListenPort :: "(64 word \<Rightarrow> string) \<Rightarrow> parse_float \<Rightarrow> int \<Rightarrow> unit dlg" where
  "sendReplconfListenPort ff pf port = bindD (Send ff (strs [''replconf'', ''listening-port'', Itoa port]))
     (\<lambda>_. bindD (Receive pf) (\<lambda>_. retD ()))"

lemma ReceiveStringD_shorter:
  "ReceiveStringD pf c = (Inr r, c') \<Longrightarrow> length (conn_in c') < length (conn_in c)"
  by (auto simp: ReceiveStringD_def Receive_def bindD_def resD_def ReceiveString_def
      dest!: ReadReply_shorter split: sum.splits prod.splits reply.splits)

function checkBgsaveInProgress :: "(nat \<Rightarrow> bool) \<Rightarrow> (64 word \<Rightarrow> string) \<Rightarrow> parse_float \<Rightarrow> unit dlg" where
  "checkBgsaveInProgress dn ff pf c =
     (if dn (ctx_looks c) then (Inl Goexit, c)
      else (case Send ff (strs [''INFO'', ''persistence'']) (c\<lparr>ctx_looks := Suc (ctx_looks c)\<rparr>) of
        (Inl e, c1) \<Rightarrow> (Inl e, c1)
      | (Inr _, c1) \<Rightarrow> (case ReceiveStringD pf c1 of
          (Inl e, c2) \<Rightarrow> (Inl e, c2)
        | (Inr info, c2) \<Rightarrow>
            if Contains info ''rdb_bgsave_in_progress:1'' \<or> Contains info ''aof_rewrite_in_progress:1''
            then checkBgsaveInProgress dn ff pf c2 else (Inr (), c2))))"
  by pat_completeness auto
termination
  by (relation "measure (\<lambda>(_, _, _, c). length (conn_in c))")
    (auto simp: Send_def dest!: ReceiveStringD_shorter [OF sym] split: prod.splits bool.splits)

declare checkBgsaveInProgress.simps [simp del]

text \<open>The newlines a source sends while it prepares its reply.\<close>

function skipNewlines :: "(nat \<Rightarrow> bool) \<Rightarrow> unit dlg" where
  "skipNewlines dn c =
     (if dn (ctx_looks c) then (Inl Goexit, c)
      else (case conn_in c of [] \<Rightarrow> (Inl (Fault (LogPanicf ''EOF'')), c\<lparr>ctx_looks := Suc (ctx_looks c)\<rparr>)
        | b # s \<Rightarrow> if b \<noteq> CHR 0x0A then (Inr (), c\<lparr>ctx_looks := Suc (ctx_looks c)\<rparr>)
                  else skipNewlines dn (c\<lparr>ctx_looks := Suc (ctx_looks c), conn_in := s\<rparr>)))"
  by pat_completeness auto
termination
  by (relation "measure (\<lambda>(_, c). length (conn_in c))") auto

declare skipNewlines.simps [simp del]

definition tryDiskless :: "(64 word \<Rightarrow> string) \<Rightarrow> parse_float \<Rightarrow> syncOptions \<Rightarrow> bool dlg" where
  "tryDiskless ff pf opt = (if TryDiskless opt
     then bindD (DoWithStringReply ff pf (strs [''REPLCONF'', ''CAPA'', ''EOF''])) (\<lambda>reply. retD (reply = ''OK''))
     else retD False)"

definition sendReplconfRDBOnly :: "(64 word \<Rightarrow> string) \<Rightarrow> parse_float \<Rightarrow> unit dlg" where
  "sendReplconfRDBOnly ff pf = bindD (Send ff (strs [''REPLCONF'', ''rdb-only'', ''1''])) (\<lambda>_. bindD (Receive pf) (\<lambda>r.
     case r of Inr _ \<Rightarrow> retD () | Inl (RedisError _) \<Rightarrow> retD ()
     | Inl (GoError _) \<Rightarrow> stopD (Fault (LogPanicf ''send replconf rdb-only to redis server failed''))))"

text \<open>The result: whether the source streams without a file, the replication id and the offset of the snapshot.\<close>

definition sendPSync :: "(nat \<Rightarrow> bool) \<Rightarrow> (64 word \<Rightarrow> string) \<Rightarrow> parse_float \<Rightarrow> syncOptions \<Rightarrow> (bool \<times> string \<times> int) dlg" where
  "sendPSync dn ff pf opt =
     bindD (tryDiskless ff pf opt) (\<lambda>dl.
     bindD (if SyncAof opt then retD () else sendReplconfRDBOnly ff pf) (\<lambda>_.
     bindD (checkBgsaveInProgress dn ff pf) (\<lambda>_.
     bindD (resD (psync_argv opt)) (\<lambda>argv.
     bindD (Send ff (strs argv)) (\<lambda>_.
     bindD (skipNewlines dn) (\<lambda>_.
     bindD (ReceiveStringD pf) (\<lambda>reply.
     bindD (resD (psync_reply reply)) (\<lambda>(id, off). retD (dl, id, off)))))))))"

definition sync_argv :: "syncOptions \<Rightarrow> string list res" where
  "sync_argv opt = (if AwsPSync opt = [] then Inr [''SYNC'']
     else map_sum id (\<lambda>c. [c, ''?'', ''-1'']) (GetPSyncCommand (AwsPSync opt) (so_Address opt)))"

definition sendSync :: "(nat \<Rightarrow> bool) \<Rightarrow> (64 word \<Rightarrow> string) \<Rightarrow> parse_float \<Rightarrow> syncOptions \<Rightarrow> unit dlg" where
  "sendSync dn ff pf opt =
     bindD (tryDiskless ff pf opt) (\<lambda>_.
     bindD (checkBgsaveInProgress dn ff pf) (\<lambda>_.
     bindD (resD (sync_argv opt)) (\<lambda>argv.
     bindD (Send ff (strs argv)) (\<lambda>_. skipNewlines dn))))"

text \<open>One chunk per \<^verbatim>\<open>Read\<close>; \<open>sizes\<close> says how much each returns at most.\<close>

fun chunk_reads :: "nat list \<Rightarrow> string \<Rightarrow> string list" where
  "chunk_reads [] s = []"
| "chunk_reads (n # sizes) s = (if s = [] then [] else take n s # chunk_reads sizes (drop n s))"

text \<open>
  The snapshot: announced with its length or with an end marker; written to a file, or dropped when it
  is not wanted.  The stream after it stays in the connection.
\<close>

definition rdb_payload :: "nat list \<Rightarrow> string \<Rightarrow> string reader" where
  "rdb_payload sizes marker s =
     (if HasPrefix marker ''EOF'' then
        (case receiveRDBWithDiskless marker (chunk_reads sizes s) of Inl f \<Rightarrow> Inl f
         | Inr None \<Rightarrow> Inl (if sum_list sizes < length s then OutOfFuel else LogPanicf ''EOF'')
         | Inr (Some (payload, _, rest)) \<Rightarrow> Inr (payload, concat rest @ drop (sum_list sizes) s))
      else (case receiveRDBWithoutDiskless marker sizes s of Inl f \<Rightarrow> Inl f
         | Inr None \<Rightarrow> Inl OutOfFuel
         | Inr (Some (payload, rest)) \<Rightarrow> Inr (payload, rest)))"

definition receiveRDB :: "nat list \<Rightarrow> syncOptions \<Rightarrow> string option dlg" where
  "receiveRDB sizes opt c = (case bindR rdb_marker (rdb_payload sizes) (conn_in c) of
     Inl f \<Rightarrow> (Inl (Fault f), c)
   | Inr (payload, rest) \<Rightarrow> (Inr (if SyncRdb opt then Some payload else None), c\<lparr>conn_in := rest\<rparr>))"

text \<open>
  What \<^verbatim>\<open>StartRead\<close> has when the snapshot is received: the replication id and offset (none for a source
  older than 2.8), and the file.
\<close>

definition StartRead_dlg :: "(nat \<Rightarrow> bool) \<Rightarrow> (64 word \<Rightarrow> string) \<Rightarrow> parse_float \<Rightarrow> nat list \<Rightarrow> int \<Rightarrow> syncOptions \<Rightarrow>
    ((string \<times> int) option \<times> string option) dlg" where
  "StartRead_dlg dn ff pf sizes port opt =
     bindD (DoWithStringReply ff pf (strs [''info'', ''server''])) (\<lambda>info.
       if supportPSync info then
         bindD (sendReplconfListenPort ff pf port) (\<lambda>_.
         bindD (sendPSync dn ff pf opt) (\<lambda>(_, id, off).
         bindD (receiveRDB sizes opt) (\<lambda>file. retD (Some (id, off), file))))
       else
         bindD (sendSync dn ff pf opt) (\<lambda>_.
         bindD (receiveRDB sizes opt) (\<lambda>file. retD (None, file))))"

text \<open>
  The whole of \<^verbatim>\<open>StartRead\<close>: the entries it sends, given that the rest of the stream reaches the files the
  command loop reads (which the theory \<open>Rotate\<close> shows).
\<close>

definition StartRead :: "(nat \<Rightarrow> bool) \<Rightarrow> (64 word \<Rightarrow> string) \<Rightarrow> parse_float \<Rightarrow> nat list \<Rightarrow> int \<Rightarrow> rdbOptions \<Rightarrow>
    (nat \<Rightarrow> int) \<Rightarrow> syncOptions \<Rightarrow> conn \<Rightarrow> entry list \<times> (stop + sync_end)" where
  "StartRead dn ff pf sizes port ropt now opt c = (case StartRead_dlg dn ff pf sizes port opt c of
     (Inl e, _) \<Rightarrow> ([], Inl e)
   | (Inr (start, file), c') \<Rightarrow> map_prod id Inr (case start of
       Some (_, off) \<Rightarrow> StartReadWithPSync ropt pf now opt (case file of None \<Rightarrow> [] | Some f \<Rightarrow> f) off (conn_in c')
     | None \<Rightarrow> StartReadWithSync ropt pf now opt (case file of None \<Rightarrow> [] | Some f \<Rightarrow> f) (conn_in c')))"


section \<open>What a server says\<close>

definition line_reply :: "string \<Rightarrow> string" where
  "line_reply s = CHR ''+'' # s @ crlf"

text \<open>A reply that is read as the text \<open>s\<close>; a reply of any kind, errors included.\<close>

definition text_reply :: "string \<Rightarrow> string \<Rightarrow> bool" where
  "text_reply w s \<longleftrightarrow> w = line_reply s \<and> CHR 0x0A \<notin> set s \<or> w = writeBytes s \<and> int (length s) + 2 \<le> maxInt64"

definition some_reply :: "parse_float \<Rightarrow> string \<Rightarrow> bool" where
  "some_reply pf w \<longleftrightarrow> (\<forall>t. (\<exists>v. ReadReply pf (w @ t) = Inr (Inr v, t)) \<or> (\<exists>m. ReadReply pf (w @ t) = Inr (Inl (RedisError m), t)))"

lemma ReadReply_text:
  assumes "text_reply w s"
  shows "ReadReply pf (w @ t) = Inr (Inr (RStr s), t)"
  using assms unfolding text_reply_def
proof
  assume a: "w = line_reply s \<and> CHR 0x0A \<notin> set s"
  then have "readLine ((CHR ''+'' # s) @ CHR 0x0D # CHR 0x0A # t) = Inr (Inr (CHR ''+'' # s), t)"
    by (intro readLine_crlf) auto
  with a show ?thesis by (simp add: ReadReply_def line_reply_def IsNilReply_def)
next
  assume "w = writeBytes s \<and> int (length s) + 2 \<le> maxInt64"
  then show ?thesis by (simp add: ReadReply_def ReadReply_d_bulk del: ReadReply_d.simps)
qed

lemma text_some: "text_reply w s \<Longrightarrow> some_reply pf w"
  by (auto simp: some_reply_def ReadReply_text)

lemma error_reply:
  assumes "CHR 0x0A \<notin> set m"
  shows "some_reply pf (CHR ''-'' # m @ crlf)"
proof -
  have "readLine ((CHR ''-'' # m) @ CHR 0x0D # CHR 0x0A # t) = Inr (Inr (CHR ''-'' # m), t)" for t
    using assms by (intro readLine_crlf) auto
  then show ?thesis by (auto simp: some_reply_def ReadReply_def bindE_def errE_def)
qed

lemma Send_strs [simp]: "Send ff (strs argv) c = (Inr (), c\<lparr>conn_out := conn_out c @ argv_bytes argv\<rparr>)"
  by (simp add: Send_def strs_def WriteArgs_def writeArgList_strings argv_bytes_def)

lemma DoWithStringReply_text:
  "text_reply w s \<Longrightarrow> conn_in c = w @ t \<Longrightarrow>
     DoWithStringReply ff pf (strs argv) c = (Inr s, c\<lparr>conn_out := conn_out c @ argv_bytes argv, conn_in := t\<rparr>)"
  by (simp add: DoWithStringReply_def Receive_def ReadReply_text bindD_def)

lemma ReceiveStringD_text:
  "text_reply w s \<Longrightarrow> conn_in c = w @ t \<Longrightarrow> ReceiveStringD pf c = (Inr s, c\<lparr>conn_in := t\<rparr>)"
  by (simp add: ReceiveStringD_def Receive_def ReadReply_text bindD_def ReceiveString_def)

lemma Receive_some:
  assumes "some_reply pf w" "conn_in c = w @ t"
  shows "(\<exists>v. Receive pf c = (Inr (Inr v), c\<lparr>conn_in := t\<rparr>)) \<or> (\<exists>m. Receive pf c = (Inr (Inl (RedisError m)), c\<lparr>conn_in := t\<rparr>))"
  using assms(1) [unfolded some_reply_def, rule_format, of t] by (auto simp: Receive_def assms(2))


lemma sendReplconfListenPort_ok:
  "some_reply pf w \<Longrightarrow> conn_in c = w @ t \<Longrightarrow> sendReplconfListenPort ff pf port c =
     (Inr (), c\<lparr>conn_out := conn_out c @ argv_bytes [''replconf'', ''listening-port'', Itoa port], conn_in := t\<rparr>)"
  using Receive_some [of pf w "c\<lparr>conn_out := conn_out c @ argv_bytes [''replconf'', ''listening-port'', Itoa port]\<rparr>" t]
  by (auto simp: sendReplconfListenPort_def)

lemma sendReplconfRDBOnly_ok:
  "some_reply pf w \<Longrightarrow> conn_in c = w @ t \<Longrightarrow> sendReplconfRDBOnly ff pf c =
     (Inr (), c\<lparr>conn_out := conn_out c @ argv_bytes [''REPLCONF'', ''rdb-only'', ''1''], conn_in := t\<rparr>)"
  using Receive_some [of pf w "c\<lparr>conn_out := conn_out c @ argv_bytes [''REPLCONF'', ''rdb-only'', ''1'']\<rparr>" t]
  by (auto simp: sendReplconfRDBOnly_def)

definition saving :: "string \<Rightarrow> bool" where
  "saving info \<longleftrightarrow> Contains info ''rdb_bgsave_in_progress:1'' \<or> Contains info ''aof_rewrite_in_progress:1''"

lemma checkBgsaveInProgress_ok:
  assumes "\<forall>(w, s) \<in> set busy. text_reply w s \<and> saving s" "text_reply w s" "\<not> saving s"
    and "conn_in c = concat (map fst busy) @ w @ t"
  shows "checkBgsaveInProgress (\<lambda>_. False) ff pf c = (Inr (), c\<lparr>conn_in := t,
     conn_out := conn_out c @ concat (replicate (Suc (length busy)) (argv_bytes [''INFO'', ''persistence''])),
     ctx_looks := ctx_looks c + Suc (length busy)\<rparr>)"
  using assms(1,4)
proof (induction busy arbitrary: c)
  case Nil
  with assms(2,3) show ?case
    by (subst checkBgsaveInProgress.simps) (simp add: ReceiveStringD_text [OF assms(2), where t = t] saving_def)
next
  case (Cons b busy)
  let ?c = "c\<lparr>ctx_looks := Suc (ctx_looks c), conn_out := conn_out c @ argv_bytes [''INFO'', ''persistence'']\<rparr>"
  let ?d = "?c\<lparr>conn_in := concat (map fst busy) @ w @ t\<rparr>"
  from Cons.prems(1) have b: "text_reply (fst b) (snd b)" "saving (snd b)" by (auto simp: case_prod_beta)
  have "ReceiveStringD pf ?c = (Inr (snd b), ?d)" by (rule ReceiveStringD_text [OF b(1)]) (simp add: Cons.prems(2))
  with b(2) have "checkBgsaveInProgress (\<lambda>_. False) ff pf c = checkBgsaveInProgress (\<lambda>_. False) ff pf ?d"
    by (subst checkBgsaveInProgress.simps) (simp add: saving_def)
  also have "\<dots> = (Inr (), ?d\<lparr>conn_in := t,
     conn_out := conn_out ?d @ concat (replicate (Suc (length busy)) (argv_bytes [''INFO'', ''persistence''])),
     ctx_looks := ctx_looks ?d + Suc (length busy)\<rparr>)"
    using Cons.prems(1) by (intro Cons.IH) auto
  finally show ?case by simp
qed

lemma skipNewlines_ok:
  assumes "conn_in c = replicate k (CHR 0x0A) @ b # t" "b \<noteq> CHR 0x0A"
  shows "skipNewlines (\<lambda>_. False) c = (Inr (), c\<lparr>conn_in := b # t, ctx_looks := ctx_looks c + Suc k\<rparr>)"
  using assms(1)
proof (induction k arbitrary: c)
  case 0
  then show ?case using assms(2) by (subst skipNewlines.simps) simp
next
  case (Suc k)
  have "skipNewlines (\<lambda>_. False) c =
      skipNewlines (\<lambda>_. False) (c\<lparr>ctx_looks := Suc (ctx_looks c), conn_in := replicate k (CHR 0x0A) @ b # t\<rparr>)"
    using Suc.prems by (subst skipNewlines.simps) simp
  also have "\<dots> = (Inr (), c\<lparr>conn_in := b # t, ctx_looks := ctx_looks c + Suc (Suc k)\<rparr>)"
    by (subst Suc.IH) simp_all
  finally show ?case .
qed

lemma Fields_word: "\<forall>c \<in> set xs. \<not> is_space c \<Longrightarrow> is_space c \<Longrightarrow>
    Fields_acc w (xs @ c # ys) = (if w = [] \<and> xs = [] then [] else [rev w @ xs]) @ Fields_acc [] ys"
  by (induction xs arbitrary: w) auto

lemma Fields_last: "\<forall>c \<in> set xs. \<not> is_space c \<Longrightarrow> Fields_acc w xs = (if w = [] \<and> xs = [] then [] else [rev w @ xs])"
  by (induction xs arbitrary: w) auto

lemma Itoa_chars: "c \<in> set (Itoa i) \<Longrightarrow> is_digit c \<or> c = CHR ''-''"
  using FormatUint_digits by (auto simp: Itoa_def split: if_splits)

lemma Itoa_no_space: "\<forall>c \<in> set (Itoa i). \<not> is_space c"
proof
  show "\<not> is_space c" if "c \<in> set (Itoa i)" for c
    using Itoa_chars [OF that] by (auto simp: is_digit_def is_space_def)
qed

lemma Itoa_ne [simp]: "Itoa i \<noteq> []"
  by (simp add: Itoa_def)


definition in_int64 :: "int \<Rightarrow> bool" where
  "in_int64 i \<longleftrightarrow> - maxInt64 - 1 \<le> i \<and> i \<le> maxInt64"

definition fullresync :: "string \<Rightarrow> int \<Rightarrow> string" where
  "fullresync rid off = ''FULLRESYNC '' @ rid @ '' '' @ Itoa off"

lemma psync_reply_ok:
  assumes "rid \<noteq> []" "\<forall>c \<in> set rid. \<not> is_space c" "in_int64 off"
  shows "psync_reply (fullresync rid off) = Inr (rid, off)"
proof -
  have sp: "is_space CHR '' ''" by (simp add: is_space_def)
  have "Fields (fullresync rid off) = [''FULLRESYNC'', rid, Itoa off]"
    using assms(1,2) Fields_word [of "''FULLRESYNC''" "CHR '' ''" "[]" "rid @ CHR '' '' # Itoa off", OF _ sp]
      Fields_word [of rid "CHR '' ''" "[]" "Itoa off", OF _ sp] Fields_last [OF Itoa_no_space [of off], of "[]"]
    by (simp add: Fields_def fullresync_def is_space_def)
  moreover have "ParseInt (Itoa off) = Inr off" using Atoi_Itoa [of off] assms(3) by (simp add: in_int64_def)
  ultimately show ?thesis by (simp add: psync_reply_def Let_def)
qed

lemma rdb_marker_ok:
  "rdb_marker (replicate k (CHR 0x0A) @ CHR ''$'' # FormatUint n @ crlf @ t) = Inr (FormatUint n, t)"
proof (induction k)
  case 0
  have tw: "takeWhile (\<lambda>c. c \<noteq> CHR 0x0A) (FormatUint n @ CHR 0x0D # CHR 0x0A # t) = FormatUint n @ [CHR 0x0D]"
    "dropWhile (\<lambda>c. c \<noteq> CHR 0x0A) (FormatUint n @ CHR 0x0D # CHR 0x0A # t) = CHR 0x0A # t"
    using FormatUint_no_lf [of n] by (subst takeWhile_append2 dropWhile_append2; auto)+
  have ns: "\<not> is_space c" if "c \<in> set (FormatUint n)" for c
    using FormatUint_digits [of n] that by (auto simp: is_digit_def is_space_def)
  obtain a xs where a: "FormatUint n = a # xs" by (cases "FormatUint n") auto
  obtain ys b where b: "FormatUint n = ys @ [b]" by (cases "FormatUint n" rule: rev_cases) auto
  have "TrimSpace (FormatUint n @ [CHR 0x0D]) = FormatUint n"
  proof -
    have "dropWhile is_space (FormatUint n @ [CHR 0x0D]) = FormatUint n @ [CHR 0x0D]" using a ns [of a] by simp
    moreover have "dropWhile is_space (rev (FormatUint n @ [CHR 0x0D])) = rev (FormatUint n)"
      using b ns [of b] by (simp add: is_space_def)
    ultimately show ?thesis by (simp add: TrimSpace_def)
  qed
  then show ?case by (simp add: tw)
qed simp

lemma rdb_payload_counted:
  assumes "int (length payload) \<le> maxInt64" "\<forall>n \<in> set sizes. 0 < n" "length payload \<le> length sizes"
  shows "rdb_payload sizes (FormatUint (length payload)) (payload @ t) = Inr (payload, t)"
proof -
  have "\<not> HasPrefix (FormatUint (length payload)) ''EOF''"
    using FormatUint_digits [of "length payload"] by (auto simp: prefix_def is_digit_def)
  moreover have "ParseInt (FormatUint (length payload)) = Inr (int (length payload))"
    using Atoi_FormatUint [OF assms(1)] by simp
  moreover have "counted_loop sizes (int (length payload)) (payload @ t) = Inr (Some (payload, t))"
    using counted_loop_exact [of "int (length payload)" "payload @ t" sizes] assms by simp
  ultimately show ?thesis by (simp add: rdb_payload_def receiveRDBWithoutDiskless_def)
qed

lemma receiveRDB_ok:
  assumes "int (length payload) \<le> maxInt64" "\<forall>n \<in> set sizes. 0 < n" "length payload \<le> length sizes"
    and "conn_in c = replicate k (CHR 0x0A) @ CHR ''$'' # FormatUint (length payload) @ crlf @ payload @ t"
  shows "receiveRDB sizes opt c = (Inr (if SyncRdb opt then Some payload else None), c\<lparr>conn_in := t\<rparr>)"
proof -
  have "bindR rdb_marker (rdb_payload sizes) (conn_in c) = rdb_payload sizes (FormatUint (length payload)) (payload @ t)"
    unfolding assms(4) by (rule bindR_Inr) (rule rdb_marker_ok)
  then show ?thesis by (simp add: receiveRDB_def rdb_payload_counted [OF assms(1-3)])
qed


section \<open>The session\<close>

text \<open>
  What a source from 2.8 on says to a replica: its version, the answers to the REPLCONF commands, the state
  of its persistence as often as it is asked, newlines while it forks, the offset, newlines again, and the
  snapshot.  The requests of the reader, in order.
\<close>

record script =
  sc_info :: string
  sc_port :: string
  sc_capa :: string
  sc_only :: string
  sc_busy :: "(string \<times> string) list"
  sc_free :: string
  sc_beats1 :: nat
  sc_id :: string
  sc_offset :: int
  sc_beats2 :: nat
  sc_snapshot :: string

definition says :: "syncOptions \<Rightarrow> script \<Rightarrow> string" where
  "says opt sc = sc_info sc @ sc_port sc @ (if TryDiskless opt then sc_capa sc else []) @
     (if SyncAof opt then [] else sc_only sc) @ concat (map fst (sc_busy sc)) @ sc_free sc @
     replicate (sc_beats1 sc) (CHR 0x0A) @ line_reply (fullresync (sc_id sc) (sc_offset sc)) @
     replicate (sc_beats2 sc) (CHR 0x0A) @ CHR ''$'' # FormatUint (length (sc_snapshot sc)) @ crlf @ sc_snapshot sc"

definition script_ok :: "parse_float \<Rightarrow> nat list \<Rightarrow> script \<Rightarrow> bool" where
  "script_ok pf sizes sc \<longleftrightarrow> (\<exists>info. text_reply (sc_info sc) info \<and> supportPSync info) \<and> some_reply pf (sc_port sc) \<and>
     (\<exists>s. text_reply (sc_capa sc) s) \<and> some_reply pf (sc_only sc) \<and>
     (\<forall>(w, s) \<in> set (sc_busy sc). text_reply w s \<and> saving s) \<and> (\<exists>s. text_reply (sc_free sc) s \<and> \<not> saving s) \<and>
     sc_id sc \<noteq> [] \<and> (\<forall>c \<in> set (sc_id sc). \<not> is_space c) \<and> in_int64 (sc_offset sc) \<and>
     int (length (sc_snapshot sc)) \<le> maxInt64 \<and> (\<forall>n \<in> set sizes. 0 < n) \<and> length (sc_snapshot sc) \<le> length sizes"

definition asks :: "int \<Rightarrow> syncOptions \<Rightarrow> script \<Rightarrow> string list list" where
  "asks port opt sc = [[''info'', ''server''], [''replconf'', ''listening-port'', Itoa port]] @
     (if TryDiskless opt then [[''REPLCONF'', ''CAPA'', ''EOF'']] else []) @
     (if SyncAof opt then [] else [[''REPLCONF'', ''rdb-only'', ''1'']]) @
     replicate (Suc (length (sc_busy sc))) [''INFO'', ''persistence''] @ [[''PSYNC'', ''?'', ''-1'']]"

lemma tryDiskless_ok:
  assumes "text_reply w s" "conn_in c = (if TryDiskless opt then w else []) @ t"
  shows "\<exists>b. tryDiskless ff pf opt c = (Inr b, c\<lparr>conn_out := conn_out c @
     (if TryDiskless opt then argv_bytes [''REPLCONF'', ''CAPA'', ''EOF''] else []), conn_in := t\<rparr>)"
  using assms by (cases "TryDiskless opt") (auto simp: tryDiskless_def DoWithStringReply_text [where t = t])

lemma sendPSync_ok:
  assumes ok: "script_ok pf sizes sc" and aws: "AwsPSync opt = []"
    and c: "conn_in c = (if TryDiskless opt then sc_capa sc else []) @ (if SyncAof opt then [] else sc_only sc) @
      concat (map fst (sc_busy sc)) @ sc_free sc @ replicate (sc_beats1 sc) (CHR 0x0A) @
      line_reply (fullresync (sc_id sc) (sc_offset sc)) @ t"
  shows "\<exists>b n. sendPSync (\<lambda>_. False) ff pf opt c = (Inr (b, sc_id sc, sc_offset sc), c\<lparr>conn_in := t,
     conn_out := conn_out c @ concat (map argv_bytes (drop 2 (asks 0 opt sc))), ctx_looks := n\<rparr>)"
proof -
  from ok obtain s f where capa: "text_reply (sc_capa sc) s" and only: "some_reply pf (sc_only sc)"
      and busy: "\<forall>(w, s) \<in> set (sc_busy sc). text_reply w s \<and> saving s"
      and free: "text_reply (sc_free sc) f" "\<not> saving f"
      and rid: "sc_id sc \<noteq> []" "\<forall>c \<in> set (sc_id sc). \<not> is_space c" and off: "in_int64 (sc_offset sc)"
    unfolding script_ok_def by blast
  let ?ln = "line_reply (fullresync (sc_id sc) (sc_offset sc))"
  let ?t4 = "?ln @ t" let ?t3 = "replicate (sc_beats1 sc) (CHR 0x0A) @ ?t4"
  let ?t2 = "concat (map fst (sc_busy sc)) @ sc_free sc @ ?t3"
  let ?t1 = "(if SyncAof opt then [] else sc_only sc) @ ?t2"
  define o1 where "o1 = conn_out c @ (if TryDiskless opt then argv_bytes [''REPLCONF'', ''CAPA'', ''EOF''] else [])"
  define o2 where "o2 = o1 @ (if SyncAof opt then [] else argv_bytes [''REPLCONF'', ''rdb-only'', ''1''])"
  define o3 where "o3 = o2 @ concat (replicate (Suc (length (sc_busy sc))) (argv_bytes [''INFO'', ''persistence'']))"
  define n where "n = ctx_looks c + Suc (length (sc_busy sc))"
  obtain b where 1: "tryDiskless ff pf opt c = (Inr b, c\<lparr>conn_out := o1, conn_in := ?t1\<rparr>)"
    using tryDiskless_ok [OF capa c, of ff pf] unfolding o1_def by blast
  have 2: "(if SyncAof opt then retD () else sendReplconfRDBOnly ff pf) (c\<lparr>conn_out := o1, conn_in := ?t1\<rparr>) =
      (Inr (), c\<lparr>conn_out := o2, conn_in := ?t2\<rparr>)"
    using sendReplconfRDBOnly_ok [OF only, of "c\<lparr>conn_out := o1, conn_in := ?t1\<rparr>" ?t2 ff] by (simp add: o2_def)
  have 3: "checkBgsaveInProgress (\<lambda>_. False) ff pf (c\<lparr>conn_out := o2, conn_in := ?t2\<rparr>) =
      (Inr (), c\<lparr>conn_out := o3, conn_in := ?t3, ctx_looks := n\<rparr>)"
    using checkBgsaveInProgress_ok [OF busy free, of "c\<lparr>conn_out := o2, conn_in := ?t2\<rparr>" ?t3 ff pf]
    by (simp add: o3_def n_def)
  have argv: "resD (psync_argv opt) d = (Inr [''PSYNC'', ''?'', ''-1''], d)" for d by (simp add: psync_argv_def aws)
  let ?d = "c\<lparr>conn_out := o3 @ argv_bytes [''PSYNC'', ''?'', ''-1''], conn_in := ?t3, ctx_looks := n\<rparr>"
  have snd: "Send ff (strs [''PSYNC'', ''?'', ''-1'']) (c\<lparr>conn_out := o3, conn_in := ?t3, ctx_looks := n\<rparr>) = (Inr (), ?d)" by simp
  have 4: "skipNewlines (\<lambda>_. False) ?d = (Inr (), ?d\<lparr>conn_in := ?t4, ctx_looks := n + Suc (sc_beats1 sc)\<rparr>)"
    using skipNewlines_ok [of ?d "sc_beats1 sc" "CHR ''+''"] by (simp add: line_reply_def)
  have "text_reply ?ln (fullresync (sc_id sc) (sc_offset sc))"
    using rid(2) Itoa_no_space [of "sc_offset sc"] by (auto simp: text_reply_def fullresync_def is_space_def)
  then have 5: "ReceiveStringD pf (?d\<lparr>conn_in := ?t4, ctx_looks := n + Suc (sc_beats1 sc)\<rparr>) =
      (Inr (fullresync (sc_id sc) (sc_offset sc)), ?d\<lparr>conn_in := t, ctx_looks := n + Suc (sc_beats1 sc)\<rparr>)"
    by (subst ReceiveStringD_text [where t = t]) simp_all
  have "o3 @ argv_bytes [''PSYNC'', ''?'', ''-1''] = conn_out c @ concat (map argv_bytes (drop 2 (asks 0 opt sc)))"
    by (simp add: o3_def o2_def o1_def asks_def map_replicate)
  moreover have "sendPSync (\<lambda>_. False) ff pf opt c =
      (Inr (b, sc_id sc, sc_offset sc), ?d\<lparr>conn_in := t, ctx_looks := n + Suc (sc_beats1 sc)\<rparr>)"
    unfolding sendPSync_def
    by (rule bindD_eqI, rule 1, rule bindD_eqI, rule 2, rule bindD_eqI, rule 3, rule bindD_eqI [OF argv],
        rule bindD_eqI, rule snd, rule bindD_eqI, rule 4, rule bindD_eqI, rule 5, simp add: psync_reply_ok [OF rid off])
  ultimately show ?thesis by (intro exI [of _ b] exI [of _ "n + Suc (sc_beats1 sc)"]) simp
qed


lemma StartRead_dlg_ok:
  assumes ok: "script_ok pf sizes sc" and aws: "AwsPSync opt = []" and c: "conn_in c = says opt sc @ t"
  shows "\<exists>n. StartRead_dlg (\<lambda>_. False) ff pf sizes port opt c =
     (Inr (Some (sc_id sc, sc_offset sc), if SyncRdb opt then Some (sc_snapshot sc) else None),
      c\<lparr>conn_in := t, conn_out := conn_out c @ concat (map argv_bytes (asks port opt sc)), ctx_looks := n\<rparr>)"
proof -
  from ok obtain info where info: "text_reply (sc_info sc) info" "supportPSync info" and prt: "some_reply pf (sc_port sc)"
      and snap: "int (length (sc_snapshot sc)) \<le> maxInt64" "\<forall>n \<in> set sizes. 0 < n" "length (sc_snapshot sc) \<le> length sizes"
    unfolding script_ok_def by blast
  define t3 where "t3 = replicate (sc_beats2 sc) (CHR 0x0A) @ CHR ''$'' # FormatUint (length (sc_snapshot sc)) @ crlf @ sc_snapshot sc @ t"
  define t2 where "t2 = (if TryDiskless opt then sc_capa sc else []) @ (if SyncAof opt then [] else sc_only sc) @
      concat (map fst (sc_busy sc)) @ sc_free sc @ replicate (sc_beats1 sc) (CHR 0x0A) @
      line_reply (fullresync (sc_id sc) (sc_offset sc)) @ t3"
  have c1: "conn_in c = sc_info sc @ sc_port sc @ t2" by (simp add: c says_def t2_def t3_def)
  define o1 where "o1 = conn_out c @ argv_bytes [''info'', ''server'']"
  define o2 where "o2 = o1 @ argv_bytes [''replconf'', ''listening-port'', Itoa port]"
  have 1: "DoWithStringReply ff pf (strs [''info'', ''server'']) c = (Inr info, c\<lparr>conn_out := o1, conn_in := sc_port sc @ t2\<rparr>)"
    using DoWithStringReply_text [OF info(1) c1] by (simp add: o1_def)
  have 2: "sendReplconfListenPort ff pf port (c\<lparr>conn_out := o1, conn_in := sc_port sc @ t2\<rparr>) = (Inr (), c\<lparr>conn_out := o2, conn_in := t2\<rparr>)"
    using sendReplconfListenPort_ok [OF prt, of "c\<lparr>conn_out := o1, conn_in := sc_port sc @ t2\<rparr>" t2 ff port] by (simp add: o2_def)
  let ?d = "c\<lparr>conn_out := o2, conn_in := t2\<rparr>"
  have "conn_in ?d = t2" by simp
  from sendPSync_ok [OF ok aws this [unfolded t2_def], of ff] obtain b n where
    3: "sendPSync (\<lambda>_. False) ff pf opt ?d = (Inr (b, sc_id sc, sc_offset sc),
        ?d\<lparr>conn_in := t3, conn_out := conn_out ?d @ concat (map argv_bytes (drop 2 (asks 0 opt sc))), ctx_looks := n\<rparr>)"
    unfolding t2_def by blast
  let ?e = "?d\<lparr>conn_in := t3, conn_out := conn_out ?d @ concat (map argv_bytes (drop 2 (asks 0 opt sc))), ctx_looks := n\<rparr>"
  have 4: "receiveRDB sizes opt ?e = (Inr (if SyncRdb opt then Some (sc_snapshot sc) else None), ?e\<lparr>conn_in := t\<rparr>)"
    by (rule receiveRDB_ok [OF snap, of _ "sc_beats2 sc"]) (simp add: t3_def)
  have "StartRead_dlg (\<lambda>_. False) ff pf sizes port opt c =
      (Inr (Some (sc_id sc, sc_offset sc), if SyncRdb opt then Some (sc_snapshot sc) else None), ?e\<lparr>conn_in := t\<rparr>)"
    unfolding StartRead_dlg_def
    by (rule bindD_eqI, rule 1, simp only: info(2) if_True, rule bindD_eqI, rule 2, rule bindD_eqI, rule 3,
        simp only: prod.case, rule bindD_eqI, rule 4, simp)
  moreover have "?e\<lparr>conn_in := t\<rparr> = c\<lparr>conn_in := t, conn_out := conn_out c @ concat (map argv_bytes (asks port opt sc)), ctx_looks := n\<rparr>"
    by (simp add: o2_def o1_def asks_def)
  ultimately show ?thesis by auto
qed

text \<open>Connecting, and what is asked then.\<close>

definition greets :: "string \<Rightarrow> string \<Rightarrow> string" where
  "greets username password = (if username \<noteq> [] \<or> password \<noteq> [] then line_reply ''OK'' else []) @ line_reply ''PONG''"

definition hello :: "string \<Rightarrow> string \<Rightarrow> string list list" where
  "hello username password = (if username \<noteq> [] then [[''auth'', username, password]]
     else if password \<noteq> [] then [[''auth'', password]] else []) @ [[''ping'']]"

lemma connect_ok:
  assumes "dial address = Some (greets username password @ t)"
  shows "connect dial ff pf address username password =
    Inr \<lparr>conn_in = t, conn_out = concat (map argv_bytes (hello username password)), ctx_looks = 0\<rparr>"
proof -
  have pong: "text_reply (line_reply ''PONG'') ''PONG''" "text_reply (line_reply ''OK'') ''OK''"
    by (simp_all add: text_reply_def)
  let ?c = "\<lparr>conn_in = line_reply ''PONG'' @ t, conn_out = concat (map argv_bytes (butlast (hello username password))), ctx_looks = 0\<rparr>"
  have "auth_dlg ff pf username password (open_conn (greets username password @ t)) = (Inr (), ?c)"
    by (simp add: auth_dlg_def open_conn_def greets_def hello_def
        bindD_eqI [OF DoWithStringReply_text [OF pong(2), where t = "line_reply ''PONG'' @ t"]])
  then have "connect_dlg ff pf username password (open_conn (greets username password @ t)) =
      (Inr (), ?c\<lparr>conn_out := conn_out ?c @ argv_bytes [''ping''], conn_in := t\<rparr>)"
    unfolding connect_dlg_def
    by (rule bindD_eqI) (rule bindD_eqI, rule DoWithStringReply_text [OF pong(1), where t = t], simp_all)
  with assms show ?thesis by (simp add: connect_def hello_def)
qed



definition demo_script :: script where
  "demo_script = \<lparr>sc_info = writeBytes ''redis_version:7.2.4'', sc_port = line_reply ''OK'', sc_capa = line_reply ''OK'',
     sc_only = line_reply ''OK'', sc_busy = [(line_reply ''rdb_bgsave_in_progress:1'', ''rdb_bgsave_in_progress:1'')],
     sc_free = line_reply ''rdb_bgsave_in_progress:0'', sc_beats1 = 2, sc_id = ''abc'', sc_offset = 100, sc_beats2 = 1,
     sc_snapshot = ''REDIS'' @ ''0009'' @ concat (map item_enc demo_items) @ [byte 255]\<rparr>"

lemma demo_script_ok: "script_ok pf (replicate 16 2) demo_script"
proof -
  have "supportPSync ''redis_version:7.2.4''" by (simp add: supportPSync_def parse_simps ParseInt_val_def Let_def)
  moreover have "length (sc_snapshot demo_script) = 15" by code_simp
  moreover have "saving ''rdb_bgsave_in_progress:1''" "\<not> saving ''rdb_bgsave_in_progress:0''" by code_simp+
  ultimately show ?thesis
    by (auto simp: script_ok_def demo_script_def text_reply_def maxInt64_def in_int64_def is_space_def
        intro!: text_some [of _ "''OK''"])
qed


text \<open>
  Whatever certificates are configured, the server's own is never verified, not even against the
  authority that was configured for this.
\<close>

lemma tls_never_verifies: "loadTlsConfig loadPair readFile cfg = Inr t \<Longrightarrow> InsecureSkipVerify t"
  by (auto simp: loadTlsConfig_def split: if_splits option.splits)

end
