(* ===== verification/RespStream.thy ===== *)
theory RespStream
  imports Resp
begin

text \<open>
  What \<open>ReadReply\<close> takes from a stream: a reply, once complete, is read the same whatever follows it.  This
  is why a client may parse replies out of a buffer that holds more than one, and why the commands of a
  replication stream do not depend on how the stream is cut.
\<close>

named_theorems stable_intros

text \<open>A value, or an error sent by the server, is read from a front part of the stream that determines it.\<close>

definition stableE :: "'a erd \<Rightarrow> bool" where
  "stableE p \<longleftrightarrow> (\<forall>s r s'. p s = Inr (r, s') \<longrightarrow> (\<forall>m. r \<noteq> Inl (GoError m)) \<longrightarrow> (\<exists>v. s = v @ s' \<and> (\<forall>t. p (v @ t) = Inr (r, t))))"

lemma stableE_I:
  "(\<And>s r s'. \<lbrakk>p s = Inr (r, s'); \<And>m. r \<noteq> Inl (GoError m)\<rbrakk> \<Longrightarrow> \<exists>v. s = v @ s' \<and> (\<forall>t. p (v @ t) = Inr (r, t))) \<Longrightarrow> stableE p"
  by (simp add: stableE_def)

lemma stableE_D:
  assumes "stableE p" "p s = Inr (r, s')" "\<And>m. r \<noteq> Inl (GoError m)"
  obtains v where "s = v @ s'" "\<And>t. p (v @ t) = Inr (r, t)"
  using assms unfolding stableE_def by blast

lemma stable_okE [stable_intros]: "stableE (okE x)"
  by (rule stableE_I) auto

lemma stable_errE [stable_intros]: "stableE (errE e)"
  by (rule stableE_I) (auto simp: errE_def)

lemma stable_failR [stable_intros]: "stableE (failR e)"
  by (rule stableE_I) auto

lemma stable_fail [stable_intros]: "stableE (\<lambda>s. Inl e)"
  by (rule stableE_I) auto

lemma stable_lenE [stable_intros]: "stableE (lenE l)"
  by (rule stableE_I) (auto simp: lenE_def)

lemma stable_numE [stable_intros]: "stableE (numE r)"
  by (cases r) (auto simp: numE_def intro: stable_intros)

lemma stable_readLine [stable_intros]: "stableE readLine"
proof (rule stableE_I)
  fix s r s' assume a: "readLine s = Inr (r, s')" "\<And>m. r \<noteq> Inl (GoError m)"
  then have lf: "CHR 0x0A \<in> set s" by (auto simp: readLine_def split: if_splits)
  define b where "b = takeWhile (\<lambda>c. c \<noteq> CHR 0x0A) s"
  from split_list_first [OF lf] obtain xs ys where s: "s = xs @ CHR 0x0A # ys" "CHR 0x0A \<notin> set xs" by blast
  have tw: "takeWhile (\<lambda>c. c \<noteq> CHR 0x0A) (xs @ CHR 0x0A # t) = xs" for t
    using s(2) by (subst takeWhile_append2) auto
  have "readLine (xs @ CHR 0x0A # t) = (if length xs + 1 \<le> 2 \<or> last xs \<noteq> CHR 0x0D
      then Inr (Inl (GoError ''redis: invalid reply''), t) else Inr (Inr (butlast xs), t))" for t
    by (simp add: readLine_def tw Let_def)
  then show "\<exists>v. s = v @ s' \<and> (\<forall>t. readLine (v @ t) = Inr (r, t))"
    using a s by (intro exI [of _ "xs @ [CHR 0x0A]"]) (auto split: if_splits)
qed

lemma stable_readFullE [stable_intros]: "stableE (readFullE n)"
proof (rule stableE_I)
  fix s r s' assume "readFullE n s = Inr (r, s')" "\<And>m. r \<noteq> Inl (GoError m)"
  then have *: "0 \<le> n" "nat n \<le> length s" "r = Inr (take (nat n) s)" "s' = drop (nat n) s"
    by (auto simp: readFullE_def split: if_splits)
  then show "\<exists>v. s = v @ s' \<and> (\<forall>t. readFullE n (v @ t) = Inr (r, t))"
    by (intro exI [of _ "take (nat n) s"]) (simp add: readFullE_def min_absorb2)
qed

lemma stable_discardBytes [stable_intros]: "stableE (discardBytes n)"
proof (rule stableE_I)
  fix s r s' assume "discardBytes n s = Inr (r, s')" "\<And>m. r \<noteq> Inl (GoError m)"
  then have *: "0 \<le> n" "nat n \<le> length s" "r = Inr ()" "s' = drop (nat n) s"
    by (auto simp: discardBytes_def split: if_splits)
  then show "\<exists>v. s = v @ s' \<and> (\<forall>t. discardBytes n (v @ t) = Inr (r, t))"
    by (intro exI [of _ "take (nat n) s"]) (simp add: discardBytes_def min_absorb2)
qed

lemma stable_then:
  assumes p: "stableE p" and f: "\<And>x. (\<And>m. x \<noteq> Inl (GoError m)) \<Longrightarrow> stableE (f x)"
    and err: "\<And>m s. f (Inl (GoError m)) s = Inr (Inl (GoError m), s)"
  shows "stableE (bindR p f)"
proof (rule stableE_I)
  fix s r s' assume a: "bindR p f s = Inr (r, s')" "\<And>m. r \<noteq> Inl (GoError m)"
  then obtain x u where u: "p s = Inr (x, u)" "f x u = Inr (r, s')" by (auto elim: bindR_InrE)
  then have x: "x \<noteq> Inl (GoError m)" for m using a(2) [of m] err [of m u] by auto
  from stableE_D [OF p u(1) x] obtain v where v: "s = v @ u" "\<And>t. p (v @ t) = Inr (x, t)" by blast
  from stableE_D [OF f [OF x] u(2) a(2)] obtain w where w: "u = w @ s'" "\<And>t. f x (w @ t) = Inr (r, t)" by blast
  have "bindR p f ((v @ w) @ t) = Inr (r, t)" for t by (simp add: bindR_Inr [of p "v @ w @ t" x "w @ t"] v(2) w(2))
  with v(1) w(1) show "\<exists>v. s = v @ s' \<and> (\<forall>t. bindR p f (v @ t) = Inr (r, t))" by (intro exI [of _ "v @ w"]) simp
qed

lemma stable_bindE [stable_intros]: "stableE p \<Longrightarrow> (\<And>x. stableE (f x)) \<Longrightarrow> stableE (bindE p f)"
  unfolding bindE_def by (rule stable_then) (auto simp: errE_def split: sum.splits intro: stable_errE [unfolded errE_def])

lemma stable_elemE [stable_intros]: "stableE p \<Longrightarrow> stableE (elemE p)"
  unfolding elemE_def by (rule stable_then) (auto simp: errE_def split: sum.splits rerr.splits intro: stable_intros)

lemma stable_if [stable_intros]: "stableE p \<Longrightarrow> stableE q \<Longrightarrow> stableE (if b then p else q)"
  by simp

lemma stable_sliceE [stable_intros]: "stableE p \<Longrightarrow> stableE (sliceE n p)"
  by (induction n) (auto intro: stable_intros)

lemma stable_loopE [stable_intros]: "stableE p \<Longrightarrow> stableE (loopE n p)"
  by (induction n) (auto intro: stable_intros)

lemma stable_mapE [stable_intros]: "stableE p \<Longrightarrow> stableE (mapE n p m)"
  by (induction n arbitrary: m) (auto intro!: stable_intros)

lemma stable_discardBody [stable_intros]: "stableE nxt \<Longrightarrow> stableE (discardBody nxt line n)"
  unfolding discardBody_def by (intro stable_intros)

lemma stable_Discard_d [stable_intros]: "stableE (Discard_d d line)"
  by (induction d arbitrary: line) (auto split: sum.split intro!: stable_intros)

lemma stable_readStringReply [stable_intros]: "stableE (readStringReply l)"
  unfolding readStringReply_def by (intro stable_intros)

lemma stable_readVerb [stable_intros]: "stableE (readVerb l)"
  unfolding readVerb_def by (intro stable_intros)

lemma stable_readFloat [stable_intros]: "stableE (readFloat pf l)"
  unfolding readFloat_def floatE_def by (auto split: option.split intro!: stable_intros)

lemma stable_readBool [stable_intros]: "stableE (readBool l)"
  unfolding readBool_def by (intro stable_intros)

lemma stable_readBigInt [stable_intros]: "stableE (readBigInt l)"
  unfolding readBigInt_def by (auto split: option.split intro!: stable_intros)

lemma stable_ReadLine_d [stable_intros]: "stableE (ReadLine_d d)"
  by (induction d) (simp_all add: stable_intros)

lemma stable_ReadReply_d [stable_intros]: "stableE (ReadReply_d pf d)"
  by (induction d) (auto simp: readSlice_def readMap_def simp del: ReadLine_d.simps intro!: stable_intros)

text \<open>The depth bound is taken from the length of the input, which is always enough.\<close>

lemma ReadReply_bound: "length s < d \<Longrightarrow> ReadReply_d pf d s = ReadReply pf s"
  using agreeD(1) [OF ReadReply_d_agree [of "length s" "Suc (length s)" d pf], of s]
  by (simp add: ReadReply_def del: ReadReply_d.simps)

lemma ReadReply_stable: "stableE (ReadReply pf)"
proof (rule stableE_I)
  fix s r s' assume a: "ReadReply pf s = Inr (r, s')" "\<And>m. r \<noteq> Inl (GoError m)"
  have "\<exists>v. s = v @ s' \<and> ReadReply pf (v @ t) = Inr (r, t)" for t
  proof -
    let ?d = "Suc (length s + length t)"
    from a(1) have "ReadReply_d pf ?d s = Inr (r, s')" by (simp add: ReadReply_bound del: ReadReply_d.simps)
    from stableE_D [OF stable_ReadReply_d this a(2)] obtain v where
      v: "s = v @ s'" "\<And>t. ReadReply_d pf ?d (v @ t) = Inr (r, t)" by blast
    have "length (v @ t) < ?d" using v(1) by simp
    with v show ?thesis using ReadReply_bound [of "v @ t" ?d pf] by auto
  qed
  then show "\<exists>v. s = v @ s' \<and> (\<forall>t. ReadReply pf (v @ t) = Inr (r, t))" by (metis append_same_eq)
qed

lemma ReadReply_value:
  assumes "ReadReply pf s = Inr (Inr x, s')"
  obtains v where "s = v @ s'" "\<And>t. ReadReply pf (v @ t) = Inr (Inr x, t)"
  using stableE_D [OF ReadReply_stable assms] by blast

end
