(* ===== verification/SyncStream.thy ===== *)
theory SyncStream
  imports SyncReader RespStream
begin

text \<open>
  The incremental phase of \<^verbatim>\<open>internal/reader/sync_standalone_reader.go\<close> as it runs: \<^verbatim>\<open>receiveAOF\<close> copies the
  socket to the rotated files and counts, \<^verbatim>\<open>sendReplconfAck\<close> reports the count to the source every 100 ms,
  \<^verbatim>\<open>sendAOF\<close> reads the files and sends entries to the kernel's channel, and \<^verbatim>\<open>StatusConsistent\<close> looks at all of
  it, each in a goroutine of its own.

  Every shared access is a rule of \<open>ss_step\<close>; the files are those of the theory \<open>Rotate\<close>, of which this
  system is a simulation.  Proved: whatever the interleaving, the entries are those the sequential
  function \<open>sendAOF\<close> of the theory \<open>SyncReader\<close> computes from the bytes of the source; an acknowledged
  offset never runs ahead of the files; and a reader that reports to be consistent has sent everything counted.
\<close>

section \<open>The command loop is incremental\<close>

text \<open>Commands are found one after the other; how much of the stream has arrived when they are read does not matter.\<close>

lemma sendAOF_append:
  "sendAOF pf opt r off s = (es, WaitsFor r' rest) \<Longrightarrow>
     sendAOF pf opt r off (s @ t) = (case sendAOF pf opt r' (off + int (length s - length rest)) (rest @ t) of (es', fin) \<Rightarrow> (es @ es', fin))
     \<and> suffix rest s"
proof (induction pf opt r off s arbitrary: es rule: sendAOF.induct)
  case (1 pf opt r off s)
  show ?case
  proof (cases "ReadReply pf s")
    case (Inl f)
    then show ?thesis using "1.prems" by (simp add: sendAOF.simps [of pf opt r off s])
  next
    case (Inr p)
    obtain x s' where p: "ReadReply pf s = Inr (x, s')" using Inr by (cases p) auto
    show ?thesis
    proof (cases x)
      case (Inl e)
      with p "1.prems" have "es = []" "r' = r" "rest = s"
        by (auto simp: sendAOF.simps [of pf opt r off s] split: if_splits)
      then show ?thesis by (simp add: case_prod_beta)
    next
      case (Inr reply)
      with p obtain v where v: "s = v @ s'" "\<And>t. ReadReply pf (v @ t) = Inr (Inr reply, t)" by (auto elim: ReadReply_value)
      define off' where "off' = off + int (length s - length s')"
      obtain argv r1 es1 where a: "ArrayString (Inr reply) = Inr argv" "aof_command opt (r\<lparr>AofSentOffset := off'\<rparr>) argv = Inr (r1, es1)"
        using "1.prems" p Inr by (auto simp: sendAOF.simps [of pf opt r off s] off'_def Let_def split: sum.splits)
      obtain es2 where es2: "sendAOF pf opt r1 off' s' = (es2, WaitsFor r' rest)" "es = es1 @ es2"
        using "1.prems" p Inr a by (auto simp: sendAOF.simps [of pf opt r off s] off'_def Let_def split: prod.splits)
      have IH: "sendAOF pf opt r1 off' (s' @ t) =
          (case sendAOF pf opt r' (off' + int (length s' - length rest)) (rest @ t) of (es', fin) \<Rightarrow> (es2 @ es', fin)) \<and> suffix rest s'"
        by (rule "1.IH" [OF p [unfolded Inr] refl refl refl a(1) a(2) [unfolded off'_def] refl, folded off'_def, OF es2(1)])
      have len: "length (s @ t) - length (s' @ t) = length s - length s'" using v(1) by simp
      have suf: "suffix rest s" using IH v(1) by (auto simp: suffix_appendI)
      have off: "off' + int (length s' - length rest) = off + int (length s - length rest)"
        using IH v(1) suffix_length_le [of rest s'] by (auto simp: off'_def)
      have "sendAOF pf opt r off (s @ t) = (case sendAOF pf opt r1 off' (s' @ t) of (es', fin) \<Rightarrow> (es1 @ es', fin))"
        using v a by (subst sendAOF.simps) (simp add: len off'_def Let_def)
      with IH suf off es2(2) show ?thesis by (auto split: prod.splits)
    qed
  qed
qed

lemma sendAOF_empty: "sendAOF pf opt r off [] = ([], WaitsFor r [])"
proof -
  have "ReadReply pf [] = Inr (Inl (GoError ''EOF''), [])"
    by (simp add: ReadReply_def readLine_def bindE_def errE_def)
  then show ?thesis by (subst sendAOF.simps) (simp add: at_end_def)
qed

text \<open>One more command.\<close>

lemma sendAOF_next:
  assumes "sendAOF pf opt r0 start s = (es, WaitsFor r [])" "ReadReply pf v = Inr (Inr reply, [])"
    and "ArrayString (Inr reply) = Inr argv"
    and "aof_command opt (r\<lparr>AofSentOffset := start + int (length (s @ v))\<rparr>) argv = Inr (r', es')"
  shows "sendAOF pf opt r0 start (s @ v) = (es @ es', WaitsFor r' [])"
proof -
  have "sendAOF pf opt r (start + int (length s)) v = (es', WaitsFor r' [])"
    using assms(2-4) by (subst sendAOF.simps) (simp add: sendAOF_empty add.assoc)
  with sendAOF_append [OF assms(1), of v] show ?thesis by simp
qed


section \<open>The goroutines\<close>

text \<open>
  Where \<^verbatim>\<open>receiveAOF\<close> is: before a \<^verbatim>\<open>Read\<close>, with a chunk to write, after the \<^verbatim>\<open>Write\<close> and before the count, or
  returned.  \<open>ss_parsed\<close> is the number of bytes of the stream whose commands were handled; what was read from
  the files beyond it is in the buffer of the reader.  \<open>ss_emitted\<close> and \<open>ss_acks\<close> are history.
\<close>

datatype recv_pc = RIdle | Got string | Wrote nat | RExited

record sstream =
  ss_rot :: rotate
  ss_pc :: recv_pc
  ss_received :: int
  ss_bytes :: "64 word"
  ss_reader :: syncReader
  ss_parsed :: nat
  ss_ch :: "entry list"
  ss_sending :: bool
  ss_done :: bool
  ss_fault :: "fault option"
  ss_emitted :: "entry list"
  ss_acks :: "int list"

definition ss_init :: "syncReader \<Rightarrow> int \<Rightarrow> sstream" where
  "ss_init r0 start = \<lparr>ss_rot = rot_init, ss_pc = RIdle, ss_received = start, ss_bytes = 0, ss_reader = r0, ss_parsed = 0,
     ss_ch = [], ss_sending = True, ss_done = False, ss_fault = None, ss_emitted = [], ss_acks = []\<rparr>"

text \<open>The size of \<^verbatim>\<open>receiveAOF\<close>'s buffer and of the channel.\<close>

definition recv_buf :: nat where "recv_buf = 16 * 1024"
definition ch_cap :: nat where "ch_cap = 1024"

text \<open>The command at the front of what was read, as the loop of \<^verbatim>\<open>sendAOF\<close> sees it: the reader after it, the entries, the bytes left.\<close>

definition next_command :: "parse_float \<Rightarrow> syncOptions \<Rightarrow> sstream \<Rightarrow> (syncReader \<times> entry list \<times> string) res option" where
  "next_command pf opt s = (case ReadReply pf (drop (ss_parsed s) (ar_read (ss_rot s))) of
     Inl f \<Rightarrow> Some (Inl f)
   | Inr (Inl e, _) \<Rightarrow> if at_end e then None else Some (Inl (LogPanicf ''read aof file failed''))
   | Inr (Inr reply, rest) \<Rightarrow> Some (case ArrayString (Inr reply) of Inl f \<Rightarrow> Inl f
       | Inr argv \<Rightarrow> map_sum id (\<lambda>(r, es). (r, es, rest))
           (aof_command opt ((ss_reader s)\<lparr>AofSentOffset := ar_offset (ss_rot s) - int (length rest)\<rparr>) argv)))"

definition advance :: "syncReader \<Rightarrow> string \<Rightarrow> entry list \<Rightarrow> sstream \<Rightarrow> sstream" where
  "advance r rest es s = s\<lparr>ss_reader := r, ss_parsed := length (ar_read (ss_rot s)) - length rest,
     ss_ch := ss_ch s @ es, ss_emitted := ss_emitted s @ es\<rparr>"

text \<open>A tick of \<^verbatim>\<open>sendReplconfAck\<close>: the offset sent to the source.\<close>

definition sendReplconfAck :: "sstream \<Rightarrow> sstream" where
  "sendReplconfAck s = (if ss_received s \<noteq> 0 then s\<lparr>ss_acks := ss_acks s @ [ss_received s]\<rparr> else s)"

inductive ss_step :: "parse_float \<Rightarrow> syncOptions \<Rightarrow> int \<Rightarrow> int \<Rightarrow> sstream \<Rightarrow> sstream \<Rightarrow> bool" for pf opt maxSize start where
  receive: "\<lbrakk>\<not> ss_done s; ss_pc s = RIdle; aw_st (ss_rot s) = WReady; buf \<noteq> []; length buf \<le> recv_buf\<rbrakk>
    \<Longrightarrow> ss_step pf opt maxSize start s (s\<lparr>ss_pc := Got buf, ss_bytes := ss_bytes s + of_nat (length buf)\<rparr>)"
| save: "\<lbrakk>ss_pc s = Got buf; aw_st (ss_rot s) = WReady\<rbrakk>
    \<Longrightarrow> ss_step pf opt maxSize start s (s\<lparr>ss_rot := aw_Write maxSize buf (ss_rot s), ss_pc := Wrote (length buf)\<rparr>)"
| count: "\<lbrakk>ss_pc s = Wrote n; aw_st (ss_rot s) = WReady\<rbrakk>
    \<Longrightarrow> ss_step pf opt maxSize start s (s\<lparr>ss_received := ss_received s + int n, ss_pc := RIdle\<rparr>)"
| leave_receive: "\<lbrakk>ss_done s; ss_pc s = RIdle\<rbrakk> \<Longrightarrow> ss_step pf opt maxSize start s (s\<lparr>ss_pc := RExited\<rparr>)"
| files: "\<lbrakk>rot_step maxSize start (ss_rot s) t; aw_written t = aw_written (ss_rot s); ar_read t \<noteq> ar_read (ss_rot s) \<longrightarrow> ss_sending s\<rbrakk>
    \<Longrightarrow> ss_step pf opt maxSize start s (s\<lparr>ss_rot := t\<rparr>)"
| send: "\<lbrakk>ss_sending s; next_command pf opt s = Some (Inr (r, es, rest)); length (ss_ch s) + length es \<le> ch_cap\<rbrakk>
    \<Longrightarrow> ss_step pf opt maxSize start s (advance r rest es s)"
| drop_progress: "\<lbrakk>ss_sending s; ss_done s; next_command pf opt s = Some (Inr (r, [e], rest)); ProgressOnly e\<rbrakk>
    \<Longrightarrow> ss_step pf opt maxSize start s (advance r rest [] s)"
| send_fails: "\<lbrakk>ss_sending s; next_command pf opt s = Some (Inl f)\<rbrakk> \<Longrightarrow> ss_step pf opt maxSize start s (s\<lparr>ss_fault := Some f\<rparr>)"
| leave_send: "\<lbrakk>ss_sending s; ss_done s\<rbrakk> \<Longrightarrow> ss_step pf opt maxSize start s (s\<lparr>ss_sending := False\<rparr>)"
| fetch: "ss_ch s = e # es \<Longrightarrow> ss_step pf opt maxSize start s (s\<lparr>ss_ch := es\<rparr>)"
| ack: "\<not> ss_done s \<Longrightarrow> ss_step pf opt maxSize start s (sendReplconfAck s)"
| cancel: "ss_step pf opt maxSize start s (s\<lparr>ss_done := True\<rparr>)"

inductive ss_reachable :: "parse_float \<Rightarrow> syncOptions \<Rightarrow> int \<Rightarrow> int \<Rightarrow> syncReader \<Rightarrow> sstream \<Rightarrow> bool" for pf opt maxSize start r0 where
  init: "ss_reachable pf opt maxSize start r0 (ss_init r0 start)"
| step: "\<lbrakk>ss_reachable pf opt maxSize start r0 s; ss_fault s = None; ss_step pf opt maxSize start s t\<rbrakk>
    \<Longrightarrow> ss_reachable pf opt maxSize start r0 t"

definition StatusConsistent_sync :: "sstream \<Rightarrow> bool" where
  "StatusConsistent_sync s \<longleftrightarrow> ss_received s \<noteq> 0 \<and> ss_received s = AofSentOffset (ss_reader s) \<and> ss_ch s = []"

text \<open>Seen from the files alone this is a run of the two file handles.\<close>

lemma ss_rot_step: "ss_step pf opt maxSize start s t \<Longrightarrow> ss_rot t = ss_rot s \<or> rot_step maxSize start (ss_rot s) (ss_rot t)"
  by (erule ss_step.cases) (auto simp: advance_def sendReplconfAck_def intro: rot_step.append_buf)

interpretation ss: simulation "ss_init r0 start" "\<lambda>s t. ss_fault s = None \<and> ss_step pf opt maxSize start s t"
    "ss_reachable pf opt maxSize start r0" rot_init "rot_step maxSize start" "rot_reachable maxSize start" ss_rot
  for pf opt maxSize start r0
proof (unfold_locales, goal_cases)
  case (3 s I)
  from 3 show ?case by (induction rule: ss_reachable.induct) blast+
next
  case (5 s t)
  then show ?case using ss_rot_step [of pf opt maxSize start s t] by auto
qed (rule ss_reachable.init | blast intro: ss_reachable.step | simp add: ss_init_def)+


section \<open>Invariants\<close>

definition uncounted_bytes :: "sstream \<Rightarrow> nat" where
  "uncounted_bytes s = (case ss_pc s of Wrote n \<Rightarrow> n | _ \<Rightarrow> 0)"

definition offsets_inv :: "int \<Rightarrow> sstream \<Rightarrow> bool" where
  "offsets_inv start s \<longleftrightarrow> ss_received s + int (uncounted_bytes s) = start + int (length (aw_written (ss_rot s))) \<and>
     ss_bytes s = of_nat (length (aw_written (ss_rot s)) + (case ss_pc s of Got buf \<Rightarrow> length buf | _ \<Rightarrow> 0)) \<and>
     sorted (ss_acks s) \<and> (\<forall>a \<in> set (ss_acks s). start \<le> a \<and> a \<le> ss_received s) \<and> start \<le> ss_received s"

lemma offsets_inv_step:
  assumes "ss_step pf opt maxSize start s t" "offsets_inv start s"
  shows "offsets_inv start t"
  using assms by (cases rule: ss_step.cases)
    (auto simp: offsets_inv_def uncounted_bytes_def advance_def aw_Write_def sendReplconfAck_def sorted_append split: recv_pc.splits)

lemma offsets_inv_reachable: "ss_reachable pf opt maxSize start r0 s \<Longrightarrow> offsets_inv start s"
  by (erule ss.conc.invariant, simp add: offsets_inv_def ss_init_def rot_init_def uncounted_bytes_def)
    (blast intro: offsets_inv_step)

text \<open>The entries sent so far are those of the commands parsed so far.\<close>

definition stream_inv :: "parse_float \<Rightarrow> syncOptions \<Rightarrow> int \<Rightarrow> syncReader \<Rightarrow> sstream \<Rightarrow> bool" where
  "stream_inv pf opt start r0 s \<longleftrightarrow> ss_parsed s \<le> length (ar_read (ss_rot s)) \<and>
     AofSentOffset (ss_reader s) = (if ss_parsed s = 0 then AofSentOffset r0 else start + int (ss_parsed s)) \<and>
     (\<exists>full. sendAOF pf opt r0 start (take (ss_parsed s) (ar_read (ss_rot s))) = (full, WaitsFor (ss_reader s) []) \<and>
        subseq (ss_emitted s) full \<and> (\<not> ss_done s \<longrightarrow> ss_emitted s = full))"

lemma ar_read_extends: "rot_step maxSize start s t \<Longrightarrow> \<exists>x. ar_read t = ar_read s @ x"
  by (erule rot_step.cases) (auto simp: aw_openFile_def aw_Write_def ar_openFile_def ar_Read_def)

lemma aof_command_offset: "aof_command opt r argv = Inr (r', es) \<Longrightarrow> AofSentOffset r' = AofSentOffset r"
  by (auto simp: aof_command_def Let_def split: if_splits sum.splits)

lemma stream_inv_next:
  assumes inv: "stream_inv pf opt start r0 s" and nx: "next_command pf opt s = Some (Inr (r, es, rest))"
    and off: "ar_st (ss_rot s) = RNew \<or> ar_offset (ss_rot s) = start + int (length (ar_read (ss_rot s)))"
    and new: "ar_st (ss_rot s) = RNew \<Longrightarrow> ar_read (ss_rot s) = []"
    and es': "es' = es \<or> es' = [] \<and> ss_done s"
  shows "stream_inv pf opt start r0 (advance r rest es' s)"
proof -
  let ?rd = "ar_read (ss_rot s)"
  from nx obtain reply argv where n: "ReadReply pf (drop (ss_parsed s) ?rd) = Inr (Inr reply, rest)"
      "ArrayString (Inr reply) = Inr argv"
      "aof_command opt ((ss_reader s)\<lparr>AofSentOffset := ar_offset (ss_rot s) - int (length rest)\<rparr>) argv = Inr (r, es)"
    by (auto simp: next_command_def map_sum_Inr split: sum.splits if_splits)
  from inv obtain full where full: "sendAOF pf opt r0 start (take (ss_parsed s) ?rd) = (full, WaitsFor (ss_reader s) [])"
      "subseq (ss_emitted s) full" "\<not> ss_done s \<longrightarrow> ss_emitted s = full" and le: "ss_parsed s \<le> length ?rd"
    by (auto simp: stream_inv_def)
  from n(1) obtain v where v: "drop (ss_parsed s) ?rd = v @ rest" "\<And>t. ReadReply pf (v @ t) = Inr (Inr reply, t)"
    by (rule ReadReply_value) blast
  have "length rest < length (drop (ss_parsed s) ?rd)" using ReadReply_shorter [OF n(1)] .
  then have vpos: "0 < length v" and "?rd \<noteq> []" using v(1) by auto
  then have ao: "ar_offset (ss_rot s) = start + int (length ?rd)" using off new by blast
  define p where "p = length ?rd - length rest"
  have p: "p = ss_parsed s + length v" "p \<le> length ?rd" using arg_cong [OF v(1), of length] le by (auto simp: p_def)
  have tk: "take p ?rd = take (ss_parsed s) ?rd @ v"
    using v(1) le by (simp add: p(1) take_add)
  have sent: "ar_offset (ss_rot s) - int (length rest) = start + int (length (take (ss_parsed s) ?rd @ v))"
    using p le arg_cong [OF v(1), of length] by (simp add: ao)
  have "sendAOF pf opt r0 start (take p ?rd) = (full @ es, WaitsFor r [])"
    unfolding tk by (rule sendAOF_next [OF full(1) v(2) [of "[]", simplified] n(2)]) (use n(3) sent in simp)
  moreover have "AofSentOffset r = start + int p" using aof_command_offset [OF n(3)] sent le p by simp
  moreover have "subseq (ss_emitted s @ es') (full @ es)" "\<not> ss_done s \<longrightarrow> ss_emitted s @ es' = full @ es"
    using full(2,3) es' by (auto intro: list_emb_append_mono)
  ultimately show ?thesis using p vpos by (auto simp: stream_inv_def advance_def p_def [symmetric])
qed


lemma stream_inv_step:
  assumes "ss_step pf opt maxSize start s t" "stream_inv pf opt start r0 s"
    and "rot_reachable maxSize start (ss_rot s)" "0 \<le> start" "0 \<le> maxSize"
  shows "stream_inv pf opt start r0 t"
proof -
  note rot = rot_reachable_offsets [OF assms(3-5)] rot_new_reader [OF assms(3-5)]
  have nx: "stream_inv pf opt start r0 (advance r rest es' s)"
    if "next_command pf opt s = Some (Inr (r, es, rest))" "es' = es \<or> es' = [] \<and> ss_done s" for r rest es es'
    using stream_inv_next [OF assms(2) that(1) _ _ that(2)] rot by blast
  show ?thesis using assms(1)
  proof (cases rule: ss_step.cases)
    case (files u)
    from ar_read_extends [OF files(2)] obtain x where "ar_read u = ar_read (ss_rot s) @ x" by blast
    with files(1) assms(2) show ?thesis by (auto simp: stream_inv_def)
  next
    case (send r es rest)
    then show ?thesis using nx [of r es rest es] by simp
  next
    case (drop_progress r e rest)
    then show ?thesis using nx [of r "[e]" rest "[]"] by simp
  qed (use assms(2) in \<open>auto simp: stream_inv_def aw_Write_def sendReplconfAck_def\<close>)
qed

lemma stream_inv_reachable:
  assumes "ss_reachable pf opt maxSize start r0 s" "0 \<le> start" "0 \<le> maxSize"
  shows "stream_inv pf opt start r0 s"
proof (rule ss.conc.reach_least [OF assms(1)])
  show "stream_inv pf opt start r0 (ss_init r0 start)"
    by (simp add: stream_inv_def ss_init_def rot_init_def sendAOF_empty)
qed (blast intro: stream_inv_step ss.f_reach assms(2,3))

section \<open>What the status shows\<close>

text \<open>\<^verbatim>\<open>Status\<close> and \<^verbatim>\<open>StatusString\<close>; \<open>ib\<close> is \<^verbatim>\<open>humanize.IBytes\<close>, which writes a number of bytes.\<close>

record syncStat =
  st_Status :: sync_state
  RdbFileSizeBytes :: "64 word"
  RdbReceivedBytes :: "64 word"
  RdbSentBytes :: "64 word"
  st_received :: int
  st_sent :: int

fun state_name :: "sync_state \<Rightarrow> string" where
  "state_name kHandShake = ''hand shaking''"
| "state_name kWaitBgsave = ''waiting bgsave''"
| "state_name kReceiveRdb = ''receiving rdb''"
| "state_name kSyncRdb = ''syncing rdb''"
| "state_name kSyncAof = ''syncing aof''"

definition StatusString_sync :: "(64 word \<Rightarrow> string) \<Rightarrow> bool \<Rightarrow> syncStat \<Rightarrow> string" where
  "StatusString_sync ib diskless st =
     (if st_Status st = kSyncRdb then
        state_name kSyncRdb @ '', size=['' @ ib (RdbSentBytes st) @ ''/'' @ ib (RdbFileSizeBytes st) @ '']''
      else if st_Status st = kSyncAof then
        state_name kSyncAof @ '', diff=['' @ Itoa (- st_sent st + st_received st) @ '']''
      else if st_Status st = kReceiveRdb then
        (if diskless then state_name kReceiveRdb @ '' diskless, size=['' @ ib (RdbReceivedBytes st) @ '']''
         else state_name kReceiveRdb @ '', size=['' @ ib (RdbReceivedBytes st) @ ''/'' @ ib (RdbFileSizeBytes st) @ '']'')
      else state_name (st_Status st))"

text \<open>The human-readable fields of the JSON are filled for numbers other than 0.\<close>

definition human :: "(64 word \<Rightarrow> string) \<Rightarrow> 64 word \<Rightarrow> string" where
  "human ib n = (if n \<noteq> 0 then ib n else [])"

text \<open>Once a command was parsed, the difference shown is the number of bytes counted and not parsed yet.\<close>

lemma status_diff:
  assumes "ss_reachable pf opt maxSize start r0 s" "0 \<le> start" "0 \<le> maxSize" "ss_parsed s \<noteq> 0"
  shows "- AofSentOffset (ss_reader s) + ss_received s =
    int (length (aw_written (ss_rot s))) - int (uncounted_bytes s) - int (ss_parsed s)"
  using offsets_inv_reachable [OF assms(1)] stream_inv_reachable [OF assms(1-3)] assms(4)
  by (auto simp: offsets_inv_def stream_inv_def)

section \<open>Properties\<close>

text \<open>
  C16. However reception, rotation, parsing and the kernel interleave, the entries sent are those that the
  sequential command loop computes from a prefix of the bytes received (all of them as long as the context
  is not done; after that progress entries may be missing), nothing is sent twice or out of order, and what
  is still to come is what the loop computes from the rest.
\<close>

theorem sync_stream_refines:
  assumes "ss_reachable pf opt maxSize start r0 s" "0 \<le> start" "0 \<le> maxSize"
  shows "\<exists>full. sendAOF pf opt r0 start (take (ss_parsed s) (aw_written (ss_rot s))) = (full, WaitsFor (ss_reader s) []) \<and>
    subseq (ss_emitted s) full \<and> (\<not> ss_done s \<longrightarrow> ss_emitted s = full) \<and>
    sendAOF pf opt r0 start (aw_written (ss_rot s)) =
      map_prod ((@) full) id (sendAOF pf opt (ss_reader s) (start + int (ss_parsed s)) (drop (ss_parsed s) (aw_written (ss_rot s))))"
proof -
  have "rot_reachable maxSize start (ss_rot s)" by (rule ss.f_reach [OF assms(1)])
  from rot_reachable_offsets [OF this assms(2,3)] obtain x where x: "aw_written (ss_rot s) = ar_read (ss_rot s) @ x"
    by (auto simp: prefix_def)
  from stream_inv_reachable [OF assms] obtain full where le: "ss_parsed s \<le> length (ar_read (ss_rot s))"
    and full: "sendAOF pf opt r0 start (take (ss_parsed s) (aw_written (ss_rot s))) = (full, WaitsFor (ss_reader s) [])"
      "subseq (ss_emitted s) full" "\<not> ss_done s \<longrightarrow> ss_emitted s = full"
    by (auto simp: stream_inv_def x)
  have "sendAOF pf opt r0 start (take (ss_parsed s) (aw_written (ss_rot s)) @ drop (ss_parsed s) (aw_written (ss_rot s))) =
      map_prod ((@) full) id (sendAOF pf opt (ss_reader s) (start + int (ss_parsed s)) (drop (ss_parsed s) (aw_written (ss_rot s))))"
    using sendAOF_append [OF full(1), of "drop (ss_parsed s) (aw_written (ss_rot s))"] le x
    by (simp add: map_prod_def case_prod_beta split: prod.splits)
  with full show ?thesis by auto
qed



text \<open>A run: a PING of the source is received, written, counted and acknowledged, then read and sent, and fetched by the kernel.\<close>

definition ping_cmd :: string where "ping_cmd = argv_bytes [''PING'']"

definition demo_r0 :: syncReader where
  "demo_r0 = NewSyncStandaloneReader\<lparr>trackOffsets := True, sr_Status := kSyncAof\<rparr>"

lemma ping_cmd_length: "length ping_cmd = 14" "ping_cmd \<noteq> []"
  by (simp_all add: ping_cmd_def argv_bytes_def writeLen_def writeBytes_def FormatUint.simps)

lemma ping_command:
  "aof_command demo_sync (demo_r0\<lparr>AofSentOffset := 114\<rparr>) [''PING''] = Inr (demo_r0\<lparr>AofSentOffset := 114\<rparr>, sendProgress demo_sync demo_r0 114)"
proof -
  have "\<not> is_cmd [''PING''] ''select''" "is_cmd [''PING''] ''ping''" by code_simp+
  then show ?thesis by (simp add: aof_command_def sendProgress_def demo_r0_def Let_def)
qed

lemma demo_stream:
  "\<exists>s. ss_reachable (\<lambda>_. None) demo_sync 1000 100 demo_r0 s \<and> ss_emitted s = sendProgress demo_sync demo_r0 114 \<and>
     ss_acks s = [114] \<and> aw_written (ss_rot s) = ping_cmd \<and> ss_parsed s = 14 \<and> StatusConsistent_sync s \<and> \<not> ss_done s \<and> ss_pc s = RIdle"
proof -
  let ?R = "ss_reachable (\<lambda>_. None) demo_sync 1000 100 demo_r0" and ?p = ping_cmd
  define w where "w = (aw_openFile 100 rot_init)\<lparr>aw_st := WReady\<rparr>"
  define x where "x = aw_Write 1000 ?p w"
  define y where "y = ar_openFile 100 x"
  define z where "z = ar_Read 14 y"
  note rdefs = z_def y_def x_def w_def aw_openFile_def aw_Write_def ar_openFile_def ar_Read_def ar_content_def rot_init_def ping_cmd_length
  let ?s0 = "ss_init demo_r0 100"
  let ?s1 = "?s0\<lparr>ss_rot := w\<rparr>"
  let ?s2 = "?s1\<lparr>ss_pc := Got ?p, ss_bytes := 14\<rparr>"
  let ?s3 = "?s2\<lparr>ss_rot := x, ss_pc := Wrote 14\<rparr>"
  let ?s4 = "?s3\<lparr>ss_received := 114, ss_pc := RIdle\<rparr>"
  let ?s5 = "?s4\<lparr>ss_acks := [114]\<rparr>"
  let ?s6 = "?s5\<lparr>ss_rot := y\<rparr>"
  let ?s7 = "?s6\<lparr>ss_rot := z\<rparr>"
  let ?s8 = "advance (demo_r0\<lparr>AofSentOffset := 114\<rparr>) [] (sendProgress demo_sync demo_r0 114) ?s7"
  let ?s9 = "?s8\<lparr>ss_ch := []\<rparr>"
  note step = ss_reachable.step and sdefs = ss_init_def
  have r1: "?R ?s1" by (rule step [OF ss_reachable.init _ ss_step.files])
      (simp_all add: sdefs rdefs rot_step.open_writer [of rot_init, simplified rot_init_def aw_openFile_def, simplified])
  have r2: "?R ?s2" using step [OF r1 _ ss_step.receive [of _ ?p]] by (simp add: sdefs rdefs recv_buf_def)
  have r3: "?R ?s3" using step [OF r2 _ ss_step.save [of _ ?p]] by (simp add: sdefs rdefs)
  have r4: "?R ?s4" using step [OF r3 _ ss_step.count [of _ 14]] by (simp add: sdefs rdefs)
  have r5: "?R ?s5" using step [OF r4 _ ss_step.ack] by (simp add: sdefs sendReplconfAck_def)
  have "rot_step 1000 100 x y" unfolding y_def by (rule rot_step.open_reader) (simp_all add: rdefs)
  then have r6: "?R ?s6" using step [OF r5 _ ss_step.files [of _ _ _ y]] by (simp add: sdefs rdefs)
  have "rot_step 1000 100 y z" unfolding z_def by (rule rot_step.read) (simp_all add: rdefs)
  then have r7: "?R ?s7" using step [OF r6 _ ss_step.files [of _ _ _ z]] by (simp add: sdefs rdefs)
  have rd: "ar_read z = ?p" "ar_offset z = 114" "aw_written z = ?p" by (simp_all add: rdefs)
  have "ReadReply (\<lambda>_. None) ?p = Inr (Inr (RArr [RStr ''PING'']), [])"
    using ReadReply_cmd [of "[''PING'']" "\<lambda>_. None" "[]"] by (simp add: ping_cmd_def maxInt64_def)
  then have "next_command (\<lambda>_. None) demo_sync ?s7 = Some (Inr (demo_r0\<lparr>AofSentOffset := 114\<rparr>, sendProgress demo_sync demo_r0 114, []))"
    using ping_command by (simp add: next_command_def sdefs rd ArrayString_def reply_string_def)
  then have r8: "?R ?s8" using step [OF r7 _ ss_step.send] by (simp add: sdefs ch_cap_def sendProgress_def)
  have "?R ?s9" using step [OF r8 _ ss_step.fetch] by (simp add: advance_def sdefs sendProgress_def demo_r0_def)
  then show ?thesis
    by (intro exI [of _ ?s9]) (simp add: advance_def sdefs rd ping_cmd_length StatusConsistent_sync_def)
qed

theorem sync_stream_refines_witness:
  "\<exists>s. ss_reachable (\<lambda>_. None) demo_sync 1000 100 demo_r0 s \<and> ss_emitted s = sendProgress demo_sync demo_r0 114 \<and>
     sendAOF (\<lambda>_. None) demo_sync demo_r0 100 ping_cmd = (ss_emitted s, WaitsFor (ss_reader s) [])"
proof -
  from demo_stream obtain s where s: "ss_reachable (\<lambda>_. None) demo_sync 1000 100 demo_r0 s"
      "ss_emitted s = sendProgress demo_sync demo_r0 114" "aw_written (ss_rot s) = ping_cmd" "ss_parsed s = 14" "\<not> ss_done s"
    by blast
  from sync_stream_refines [OF s(1)] s(3-5) ping_cmd_length show ?thesis
    by (intro exI [of _ s]) (auto simp: s(1,2))
qed


end
