(* ===== verification/Startup.thy ===== *)
theory Startup
  imports Kernel Client
begin

text \<open>
  The start of a task process: \<^verbatim>\<open>LoadConfig\<close> with the substitution of environment variables
  (\<^verbatim>\<open>internal/config/config.go\<close>), the lock on the directory (\<^verbatim>\<open>internal/utils/filelock.go\<close>) and the part of
  \<^verbatim>\<open>Run\<close> (\<^verbatim>\<open>internal/kernel/run.go\<close>) that chooses and creates reader and writer.

  What the process does to the outside is a list of effects; every step may fail and end the process.
  The file system, the TOML parser, the database of offsets and the servers are fields of the record
  \<open>world\<close>.  Proved: the order of the effects, and that a run whose positions are tracked has a writer that
  acknowledges.
\<close>

section \<open>Environment variables in the configuration\<close>

definition is_word :: "char \<Rightarrow> bool" where
  "is_word c \<longleftrightarrow> (let n = (of_char c :: nat) in 65 \<le> n \<and> n \<le> 90 \<or> 97 \<le> n \<and> n \<le> 122 \<or> c = CHR ''_'' \<or> is_digit c)"

text \<open>
  \<^verbatim>\<open>ReplaceAllStringFunc\<close> with the pattern \<^verbatim>\<open>\$\{([A-Za-z_][A-Za-z0-9_]*?)}\<close>, from left to right; a variable
  that is empty or not set stays as it is.
\<close>

function envWithFallback :: "(string \<Rightarrow> string) \<Rightarrow> string \<Rightarrow> string" where
  "envWithFallback getenv s = (case s of [] \<Rightarrow> []
     | c # cs \<Rightarrow>
         let name = takeWhile is_word (drop 2 s); rest = dropWhile is_word (drop 2 s) in
         if HasPrefix s [CHR ''$'', CHR 0x7B] \<and> name \<noteq> [] \<and> \<not> is_digit (hd name) \<and> HasPrefix rest [CHR 0x7D]
         then (if getenv name = [] then CHR ''$'' # CHR 0x7B # name @ [CHR 0x7D] else getenv name) @ envWithFallback getenv (tl rest)
         else c # envWithFallback getenv cs)"
  by pat_completeness auto
termination
proof (relation "measure (\<lambda>(_, s). length s)", goal_cases)
  case (2 getenv s c cs name rest)
  then have "length rest \<le> length s" using length_dropWhile_le [of is_word "drop 2 s"] by simp
  with 2 show ?case by (cases rest) auto
qed auto

declare envWithFallback.simps [simp del]

section \<open>Options\<close>

record advancedOptions =
  Dir :: string
  Ncpu :: int
  PprofPort :: int
  StatusPort :: int
  LogFile :: string
  LogLevel :: string
  LogInterval :: int
  LogRotation :: bool
  LogMaxSize :: int
  LogMaxAge :: int
  LogMaxBackups :: int
  LogCompress :: bool
  RestoreBehavior :: string
  PipelineLimit :: nat
  MaxQuerybuf :: int
  ProtoMaxBulkLen :: nat
  MaxQPS :: int
  adv_AwsPSync :: string
  EmptyDBBeforeSync :: bool

definition advanced_defaults :: advancedOptions where
  "advanced_defaults = \<lparr>Dir = ''data'', Ncpu = 0, PprofPort = 0, StatusPort = 0, LogFile = ''shake.log'', LogLevel = ''info'',
     LogInterval = 5, LogRotation = True, LogMaxSize = 512, LogMaxAge = 7, LogMaxBackups = 3, LogCompress = True,
     RestoreBehavior = ''panic'', PipelineLimit = 1024, MaxQuerybuf = 1024000000, ProtoMaxBulkLen = 512000000,
     MaxQPS = 300000, adv_AwsPSync = [], EmptyDBBeforeSync = False\<rparr>"

record readerOptions =
  ro_Cluster :: bool
  ro_Address :: string
  ro_Sentinel :: string

record writerOptions =
  wo_Cluster :: bool
  wo_Address :: string
  wo_Sentinel :: string
  wo_OffReply :: bool

text \<open>
  The configuration as viper holds it: a section that is not set is \<open>None\<close>, one whose values do not fit the
  options is \<open>Some (Inl ())\<close>.
\<close>

record viper =
  v_options :: "(unit + advancedOptions)"
  v_sync :: "(unit + readerOptions) option"
  v_scan :: "(unit + readerOptions) option"
  v_rdb :: "(unit + string) option"
  v_aof :: "(unit + string) option"
  v_file :: "(unit + string) option"
  v_redis :: "(unit + writerOptions) option"

datatype theReader = SyncCluster readerOptions bool | SyncStandalone readerOptions bool
  | ScanCluster readerOptions | ScanStandalone readerOptions | RDBReader string | AOFReader string

datatype theWriter = FileWriter string | RedisCluster writerOptions | RedisStandalone writerOptions

text \<open>Whether the reader gives its entries offsets, and the options of a Redis writer.\<close>

fun reader_tracks :: "theReader \<Rightarrow> bool" where
  "reader_tracks (SyncCluster opts t) = t"
| "reader_tracks (SyncStandalone opts t) = t"
| "reader_tracks _ = False"

fun redis_options :: "theWriter \<Rightarrow> writerOptions option" where
  "redis_options (FileWriter f) = None"
| "redis_options (RedisCluster opts) = Some opts"
| "redis_options (RedisStandalone opts) = Some opts"

section \<open>Effects\<close>

datatype effect = Locked string | OpenedOffsets string string | WatchesRunner | CreatedReader theReader
  | SavesOffsets | CreatedWriter theWriter | Wrote entry | ServesStatus int

type_synonym 'a act = "effect list \<times> (fault + 'a)"

record world =
  getenv :: "string \<Rightarrow> string"
  readFile :: "string \<Rightarrow> string option"
  parseToml :: "string \<Rightarrow> viper option"
  tryLock :: "string \<Rightarrow> (unit + bool)"
  chdir :: "string \<Rightarrow> bool"
  openOffsets :: "string \<Rightarrow> string \<Rightarrow> bool"
  askSentinel :: "string \<Rightarrow> rerr + reply"
  newReader :: "theReader \<Rightarrow> fault option"
  newWriter :: "theWriter \<Rightarrow> fault option"

definition retA :: "'a \<Rightarrow> 'a act" where "retA x = ([], Inr x)"
definition failA :: "fault \<Rightarrow> 'a act" where "failA f = ([], Inl f)"
definition doA :: "effect \<Rightarrow> unit act" where "doA e = ([e], Inr ())"
definition resA :: "'a res \<Rightarrow> 'a act" where "resA r = ([], r)"

definition bindA :: "'a act \<Rightarrow> ('a \<Rightarrow> 'b act) \<Rightarrow> 'b act" where
  "bindA p f = (case p of (es, Inl e) \<Rightarrow> (es, Inl e) | (es, Inr x) \<Rightarrow> (case f x of (es', r) \<Rightarrow> (es @ es', r)))"

section \<open>Configuration and lock\<close>

text \<open>\<open>Exit1\<close> is \<^verbatim>\<open>os.Exit(1)\<close> after a message on the console.\<close>

abbreviation Exit1 :: fault where "Exit1 \<equiv> LogPanicf ''os.Exit(1)''"

definition LoadConfig :: "world \<Rightarrow> string \<Rightarrow> (viper \<times> advancedOptions) res" where
  "LoadConfig wd configFile =
     (if configFile = [] then Inl Exit1
      else (case readFile wd configFile of None \<Rightarrow> Inl Exit1
        | Some file \<Rightarrow>
            let fallback = (if getenv wd ''REDISSHAKE_WEB_LITERAL_CONFIG'' \<noteq> ''1'' then envWithFallback (getenv wd) file else file) in
            (case parseToml wd fallback of None \<Rightarrow> Inl Exit1
             | Some v \<Rightarrow> (case v_options v of Inl _ \<Rightarrow> Inl (RuntimePanic ''unmarshal'') | Inr opt \<Rightarrow> Inr (v, opt)))))"

definition ChdirAndAcquireFileLock :: "world \<Rightarrow> advancedOptions \<Rightarrow> unit act" where
  "ChdirAndAcquireFileLock wd opt = (case tryLock wd (Dir opt) of
     Inl _ \<Rightarrow> failA (LogPanicf ''failed to lock file'')
   | Inr False \<Rightarrow> failA (LogPanicf ''failed to lock pid file'')
   | Inr True \<Rightarrow> bindA (doA (Locked (Dir opt))) (\<lambda>_.
       if chdir wd (Dir opt) then retA () else failA (LogPanicf ''failed to change dir'')))"

section \<open>Reader and writer\<close>

text \<open>\<^verbatim>\<open>UnmarshalKey\<close>.\<close>

definition unmarshal :: "string \<Rightarrow> unit + 'a \<Rightarrow> 'a act" where
  "unmarshal what r = (case r of Inl _ \<Rightarrow> failA (LogPanicf (''failed to read the '' @ what @ '' config entry'')) | Inr x \<Rightarrow> retA x)"

definition created :: "theReader \<Rightarrow> world \<Rightarrow> theReader act" where
  "created rd wd = (case newReader wd rd of Some f \<Rightarrow> failA f | None \<Rightarrow> bindA (doA (CreatedReader rd)) (\<lambda>_. retA rd))"

definition openRecorder :: "world \<Rightarrow> bool act" where
  "openRecorder wd =
     (let dbPath = getenv wd ''REDISSHAKE_WEB_OFFSETS_DB''; runID = getenv wd ''REDISSHAKE_WEB_RUN_ID'' in
      if dbPath \<noteq> [] \<and> runID \<noteq> [] then
        (if openOffsets wd dbPath runID then bindA (doA (OpenedOffsets dbPath runID)) (\<lambda>_. retA True)
         else failA (LogPanicf ''open consumption offsets''))
      else retA False)"

definition watchRunner :: "world \<Rightarrow> unit act" where
  "watchRunner wd = (if getenv wd ''REDISSHAKE_WEB_RUNNER_FD'' = ''3'' then doA WatchesRunner else retA ())"

text \<open>The switch over the sections: the first that is set wins.\<close>

definition createReader :: "world \<Rightarrow> viper \<Rightarrow> bool \<Rightarrow> theReader act" where
  "createReader wd v offsets =
     (case v_sync v of
        Some r \<Rightarrow> bindA (unmarshal ''SyncReader'' r) (\<lambda>opts.
          if ro_Cluster opts then created (SyncCluster opts offsets) wd
          else if ro_Sentinel opts \<noteq> [] then
            bindA (resA (FetchAddressFromSentinel (askSentinel wd (ro_Sentinel opts)))) (\<lambda>address.
              created (SyncStandalone (opts\<lparr>ro_Address := address\<rparr>) offsets) wd)
          else created (SyncStandalone opts offsets) wd)
      | None \<Rightarrow> (case v_scan v of
        Some r \<Rightarrow> bindA (unmarshal ''ScanReader'' r) (\<lambda>opts.
          created (if ro_Cluster opts then ScanCluster opts else ScanStandalone opts) wd)
      | None \<Rightarrow> (case v_rdb v of
        Some r \<Rightarrow> bindA (unmarshal ''RdbReader'' r) (\<lambda>f. created (RDBReader f) wd)
      | None \<Rightarrow> (case v_aof v of
        Some r \<Rightarrow> bindA (unmarshal ''AOFReader'' r) (\<lambda>f. created (AOFReader f) wd)
      | None \<Rightarrow> failA (LogPanicf ''no reader config entry found'')))))"

definition createdW :: "theWriter \<Rightarrow> world \<Rightarrow> theWriter act" where
  "createdW wr wd = (case newWriter wd wr of Some f \<Rightarrow> failA f | None \<Rightarrow> bindA (doA (CreatedWriter wr)) (\<lambda>_. retA wr))"

definition needs_replies :: fault where
  "needs_replies = LogPanicf ''consumption offsets require Redis reply acknowledgements''"

definition createWriter :: "world \<Rightarrow> viper \<Rightarrow> advancedOptions \<Rightarrow> bool \<Rightarrow> theWriter act" where
  "createWriter wd v opt offsets =
     (case v_file v of
        Some r \<Rightarrow> if offsets then failA needs_replies
          else bindA (unmarshal ''FileWriter'' r) (\<lambda>f. createdW (FileWriter f) wd)
      | None \<Rightarrow> (case v_redis v of
        Some r \<Rightarrow> bindA (unmarshal ''RedisStandaloneWriter'' r) (\<lambda>opts.
          if offsets \<and> wo_OffReply opts then failA needs_replies
          else if wo_OffReply opts \<and> RestoreBehavior opt = ''panic'' then failA (LogPanicf ''the RDBRestoreCommandBehavior can't be panic'')
          else bindA (if wo_Cluster opts then createdW (RedisCluster opts) wd
              else if wo_Sentinel opts \<noteq> [] then
                bindA (resA (FetchAddressFromSentinel (askSentinel wd (wo_Sentinel opts)))) (\<lambda>address.
                  createdW (RedisStandalone (opts\<lparr>wo_Address := address\<rparr>)) wd)
              else createdW (RedisStandalone opts) wd) (\<lambda>wr.
            bindA (if EmptyDBBeforeSync opt then doA (Wrote flushall_entry) else retA ()) (\<lambda>_. retA wr)))
      | None \<Rightarrow> failA (LogPanicf ''no writer config entry found'')))"

record taskSetup =
  su_offsets :: bool
  su_reader :: theReader
  su_writer :: theWriter
  su_options :: advancedOptions

text \<open>Everything up to the writer; then the writer and the status port.\<close>

definition prepare :: "world \<Rightarrow> string \<Rightarrow> (viper \<times> advancedOptions \<times> bool \<times> theReader) act" where
  "prepare wd configPath =
     bindA (resA (LoadConfig wd configPath)) (\<lambda>(v, opt).
     bindA (ChdirAndAcquireFileLock wd opt) (\<lambda>_.
     bindA (openRecorder wd) (\<lambda>offsets.
     bindA (watchRunner wd) (\<lambda>_.
     bindA (createReader wd v offsets) (\<lambda>rd.
     bindA (if offsets then doA SavesOffsets else retA ()) (\<lambda>_. retA (v, opt, offsets, rd)))))))"

definition Run :: "world \<Rightarrow> string \<Rightarrow> taskSetup act" where
  "Run wd configPath = bindA (prepare wd configPath) (\<lambda>(v, opt, offsets, rd).
     bindA (createWriter wd v opt offsets) (\<lambda>wr.
     bindA (if StatusPort opt \<noteq> 0 then doA (ServesStatus (StatusPort opt)) else retA ()) (\<lambda>_.
     retA \<lparr>su_offsets = offsets, su_reader = rd, su_writer = wr, su_options = opt\<rparr>)))"

section \<open>Facts\<close>

lemma act_simps [simp]:
  "bindA (es, Inl f) g = (es, Inl f)" "bindA (es, Inr x) g = (case g x of (es', r) \<Rightarrow> (es @ es', r))"
  by (simp_all add: bindA_def)

lemma bindA_E:
  assumes "bindA p f = (es, r)"
  obtains e where "p = (es, Inl e)" "r = Inl e"
  | x a b where "p = (a, Inr x)" "es = a @ b" "f x = (b, r)"
  using assms by (auto simp: bindA_def split: prod.splits sum.splits)

lemmas act_defs = retA_def failA_def doA_def resA_def unmarshal_def created_def createdW_def

text \<open>A text without a variable in it is not changed, and a variable is replaced once, without looking at its value again.\<close>

lemma env_no_dollar: "CHR ''$'' \<notin> set s \<Longrightarrow> envWithFallback ge (s @ u) = s @ envWithFallback ge u"
proof (induction s)
  case (Cons c cs)
  then show ?case by (subst envWithFallback.simps) (auto simp: Let_def)
qed simp

lemma env_variable:
  assumes "name \<noteq> []" "list_all is_word name" "\<not> is_digit (hd name)"
  shows "envWithFallback ge (CHR ''$'' # CHR 0x7B # name @ CHR 0x7D # u) =
    (if ge name = [] then CHR ''$'' # CHR 0x7B # name @ [CHR 0x7D] else ge name) @ envWithFallback ge u"
proof -
  have nw: "\<not> is_word CHR 0x7D" by (simp add: is_word_def is_digit_def Let_def)
  have tw: "takeWhile is_word (name @ CHR 0x7D # u) = name" "dropWhile is_word (name @ CHR 0x7D # u) = CHR 0x7D # u"
    using assms(2) nw by (simp_all add: takeWhile_append2 dropWhile_append2 list_all_iff)
  show ?thesis by (subst envWithFallback.simps) (simp add: tw assms Let_def)
qed

lemma createReader_ok:
  "createReader wd v offsets = (es, Inr rd) \<Longrightarrow> es = [CreatedReader rd] \<and> (reader_tracks rd \<longrightarrow> offsets)"
  by (auto simp: createReader_def act_defs bindA_def split: option.splits sum.splits if_splits prod.splits)

lemma createReader_fails: "createReader wd v offsets = (es, Inl f) \<Longrightarrow> es = []"
  by (auto simp: createReader_def act_defs bindA_def split: option.splits sum.splits if_splits prod.splits)

lemma createWriter_ok:
  "createWriter wd v opt offsets = (es, Inr wr) \<Longrightarrow>
     es = CreatedWriter wr # (if EmptyDBBeforeSync opt \<and> redis_options wr \<noteq> None then [Wrote flushall_entry] else []) \<and>
     (offsets \<longrightarrow> (\<exists>opts. redis_options wr = Some opts \<and> \<not> wo_OffReply opts)) \<and>
     (\<forall>opts. redis_options wr = Some opts \<and> wo_OffReply opts \<longrightarrow> RestoreBehavior opt \<noteq> ''panic'')"
  by (auto simp: createWriter_def act_defs bindA_def split: option.splits sum.splits if_splits prod.splits)

lemma createWriter_fails: "createWriter wd v opt offsets = (es, Inl f) \<Longrightarrow> es = []"
  by (auto simp: createWriter_def act_defs bindA_def split: option.splits sum.splits if_splits prod.splits)


text \<open>The effects before the writer is created; they are all that a failed start leaves behind.\<close>

definition harmless :: "effect \<Rightarrow> bool" where
  "harmless e \<longleftrightarrow> (case e of CreatedWriter _ \<Rightarrow> False | Wrote _ \<Rightarrow> False | ServesStatus _ \<Rightarrow> False | _ \<Rightarrow> True)"

definition quiet :: "'a act \<Rightarrow> bool" where
  "quiet p \<longleftrightarrow> (\<forall>e \<in> set (fst p). harmless e)"

named_theorems quiet_intros

lemma quiet_bindA [quiet_intros]:
  assumes "quiet p" "\<And>x. quiet (f x)"
  shows "quiet (bindA p f)"
proof (cases "snd p")
  case (Inr x)
  then show ?thesis using assms(1) assms(2) [of x]
    by (cases p) (auto simp: bindA_def quiet_def split: prod.splits)
qed (use assms(1) in \<open>cases p, auto simp: bindA_def quiet_def\<close>)

lemma quiet_basic [quiet_intros]: "quiet (retA x)" "quiet (failA f)" "quiet (resA r)" "harmless e \<Longrightarrow> quiet (doA e)"
  by (simp_all add: quiet_def act_defs)

lemma quiet_if [quiet_intros]: "quiet p \<Longrightarrow> quiet q \<Longrightarrow> quiet (if b then p else q)"
  by simp

lemma quiet_option [quiet_intros]: "quiet p \<Longrightarrow> (\<And>x. quiet (q x)) \<Longrightarrow> quiet (case m of None \<Rightarrow> p | Some x \<Rightarrow> q x)"
  by (cases m) auto

lemma quiet_sum [quiet_intros]: "(\<And>x. quiet (p x)) \<Longrightarrow> (\<And>x. quiet (q x)) \<Longrightarrow> quiet (case m of Inl x \<Rightarrow> p x | Inr x \<Rightarrow> q x)"
  by (cases m) auto

lemma quiet_bool [quiet_intros]: "quiet p \<Longrightarrow> quiet q \<Longrightarrow> quiet (case b of True \<Rightarrow> p | False \<Rightarrow> q)"
  by (cases b) auto

lemma quiet_prod [quiet_intros]: "(\<And>x y. quiet (p x y)) \<Longrightarrow> quiet (case m of (x, y) \<Rightarrow> p x y)"
  by (cases m) auto

lemma harmless_simps [simp]:
  "harmless (Locked d)" "harmless (OpenedOffsets d r)" "harmless WatchesRunner" "harmless (CreatedReader rd)" "harmless SavesOffsets"
  by (simp_all add: harmless_def)

lemma quiet_prepare: "quiet (prepare wd path)"
  unfolding prepare_def ChdirAndAcquireFileLock_def openRecorder_def watchRunner_def createReader_def created_def unmarshal_def Let_def
  by (intro quiet_intros harmless_simps)

lemma bindA_ok:
  assumes "bindA p f = (es, Inr y)"
  obtains x a b where "p = (a, Inr x)" "es = a @ b" "f x = (b, Inr y)"
  using assms by (auto simp: bindA_def split: prod.splits sum.splits)

lemma prepare_ok:
  assumes "prepare wd path = (es, Inr (v, opt, offsets, rd))"
  shows "Locked (Dir opt) \<in> set es \<and> CreatedReader rd \<in> set es \<and> (reader_tracks rd \<longrightarrow> offsets) \<and>
    offsets = (getenv wd ''REDISSHAKE_WEB_OFFSETS_DB'' \<noteq> [] \<and> getenv wd ''REDISSHAKE_WEB_RUN_ID'' \<noteq> [])"
proof -
  have lock: "e = [Locked (Dir opt)]" if "ChdirAndAcquireFileLock wd opt = (e, Inr u)" for e u
    using that by (auto simp: ChdirAndAcquireFileLock_def act_defs bindA_def split: sum.splits bool.splits if_splits)
  have rec: "b = (getenv wd ''REDISSHAKE_WEB_OFFSETS_DB'' \<noteq> [] \<and> getenv wd ''REDISSHAKE_WEB_RUN_ID'' \<noteq> [])"
    if "openRecorder wd = (e, Inr b)" for e b
    using that by (auto simp: openRecorder_def act_defs bindA_def Let_def split: if_splits)
  from assms show ?thesis unfolding prepare_def
    by (auto elim!: bindA_ok dest!: lock rec createReader_ok simp: retA_def split: prod.splits)
qed

section \<open>Property\<close>

text \<open>
  C23. A task process writes nothing to the target before its configuration is read, its directory is locked and
  both reader and writer are created; the only thing it then writes on its own is one FLUSHALL, and only when
  asked to empty the target.  A process that stops during its start has written nothing.  When positions
  are recorded, which is when both variables of the web service are set, the writer is one that
  waits for replies; and a writer that does not wait is never told to stop at a key that exists.
\<close>

theorem task_starts_safely:
  "case Run wd path of (es, Inl f) \<Rightarrow> \<forall>e \<in> set es. harmless e
   | (es, Inr su) \<Rightarrow>
      (\<exists>before. es = before @ CreatedWriter (su_writer su) #
           (if EmptyDBBeforeSync (su_options su) \<and> redis_options (su_writer su) \<noteq> None then [Wrote flushall_entry] else []) @
           (if StatusPort (su_options su) \<noteq> 0 then [ServesStatus (StatusPort (su_options su))] else []) \<and>
         (\<forall>e \<in> set before. harmless e) \<and> Locked (Dir (su_options su)) \<in> set before \<and> CreatedReader (su_reader su) \<in> set before) \<and>
      su_offsets su = (getenv wd ''REDISSHAKE_WEB_OFFSETS_DB'' \<noteq> [] \<and> getenv wd ''REDISSHAKE_WEB_RUN_ID'' \<noteq> []) \<and>
      (su_offsets su \<longrightarrow> (\<exists>opts. redis_options (su_writer su) = Some opts \<and> \<not> wo_OffReply opts)) \<and>
      (reader_tracks (su_reader su) \<longrightarrow> su_offsets su) \<and>
      (\<forall>opts. redis_options (su_writer su) = Some opts \<and> wo_OffReply opts \<longrightarrow> RestoreBehavior (su_options su) \<noteq> ''panic'')"
proof -
  obtain e1 r1 where 1: "prepare wd path = (e1, r1)" by force
  have q: "\<forall>e \<in> set e1. harmless e" using quiet_prepare [of wd path] 1 by (simp add: quiet_def)
  show ?thesis
  proof (cases r1)
    case (Inl f)
    then show ?thesis using 1 q by (simp add: Run_def)
  next
    case (Inr x)
    obtain v opt offsets rd where x: "x = (v, opt, offsets, rd)" by (cases x) auto
    from 1 Inr x have p: "prepare wd path = (e1, Inr (v, opt, offsets, rd))" by simp
    obtain e2 r2 where 2: "createWriter wd v opt offsets = (e2, r2)" by force
    show ?thesis
    proof (cases r2)
      case (Inl f)
      then show ?thesis using p 2 q createWriter_fails [of wd v opt offsets e2 f] by (simp add: Run_def)
    next
      case (Inr wr)
      have run: "Run wd path = (e1 @ e2 @ (if StatusPort opt \<noteq> 0 then [ServesStatus (StatusPort opt)] else []),
          Inr \<lparr>su_offsets = offsets, su_reader = rd, su_writer = wr, su_options = opt\<rparr>)"
        by (simp add: Run_def p 2 Inr doA_def retA_def)
      from prepare_ok [OF p] createWriter_ok [OF 2 [unfolded Inr]] q show ?thesis
        unfolding run by (auto intro!: exI [of _ e1])
    qed
  qed
qed


text \<open>A start with an empty target asked for.\<close>

definition demo_viper :: viper where
  "demo_viper = \<lparr>v_options = Inr (advanced_defaults\<lparr>EmptyDBBeforeSync := True\<rparr>),
     v_sync = Some (Inr \<lparr>ro_Cluster = False, ro_Address = ''s:1'', ro_Sentinel = []\<rparr>), v_scan = None, v_rdb = None, v_aof = None,
     v_file = None, v_redis = Some (Inr \<lparr>wo_Cluster = False, wo_Address = ''t:1'', wo_Sentinel = [], wo_OffReply = False\<rparr>)\<rparr>"

definition demo_world :: world where
  "demo_world = \<lparr>getenv = (\<lambda>_. ''x''), readFile = (\<lambda>_. Some []), parseToml = (\<lambda>_. Some demo_viper), tryLock = (\<lambda>_. Inr True),
     chdir = (\<lambda>_. True), openOffsets = (\<lambda>_ _. True), askSentinel = (\<lambda>_. Inr RNil), newReader = (\<lambda>_. None), newWriter = (\<lambda>_. None)\<rparr>"

theorem task_starts_safely_witness:
  "\<exists>es before su. Run demo_world ''task.toml'' = (es, Inr su) \<and> su_offsets su \<and>
     es = before @ [CreatedWriter (su_writer su), Wrote flushall_entry] \<and> Locked ''data'' \<in> set before \<and> CreatedReader (su_reader su) \<in> set before"
proof -
  let ?rd = "SyncStandalone \<lparr>ro_Cluster = False, ro_Address = ''s:1'', ro_Sentinel = []\<rparr> True"
  let ?wr = "RedisStandalone \<lparr>wo_Cluster = False, wo_Address = ''t:1'', wo_Sentinel = [], wo_OffReply = False\<rparr>"
  have run: "Run demo_world ''task.toml'' = ([Locked ''data'', OpenedOffsets ''x'' ''x'', CreatedReader ?rd, SavesOffsets, CreatedWriter ?wr, Wrote flushall_entry],
      Inr \<lparr>su_offsets = True, su_reader = ?rd, su_writer = ?wr, su_options = advanced_defaults\<lparr>EmptyDBBeforeSync := True\<rparr>\<rparr>)"
    by (simp add: Run_def prepare_def LoadConfig_def demo_world_def demo_viper_def advanced_defaults_def ChdirAndAcquireFileLock_def openRecorder_def
        watchRunner_def createReader_def createWriter_def act_defs Let_def)
  from task_starts_safely [of demo_world "''task.toml''"] show ?thesis
    unfolding run by (auto simp: advanced_defaults_def)
qed

end
