(* ===== verification/RdbValues.thy ===== *)
theory RdbValues
  imports RdbTypes
begin

text \<open>
  What the commands of a rewritten value do.  A small reference server executes them; the
  inductive relation \<open>encodes\<close> lists the encodings of the RDB format with the value each stands
  for.  The rewrite of an encoding, executed, gives the key exactly that value, deadlines of hash
  fields included.  Streams and Bloom filters are compared command by command.
\<close>

section \<open>The reference server\<close>

datatype rval =
  RString string
| RList "string list"
| RSet "string set"
| RZset "string \<rightharpoonup> string"
| RHash "string \<rightharpoonup> string \<times> int"

type_synonym rstore = "string \<rightharpoonup> rval"

definition as_list :: "rval option \<Rightarrow> string list" where
  "as_list v = (case v of Some (RList xs) \<Rightarrow> xs | _ \<Rightarrow> [])"

definition as_set :: "rval option \<Rightarrow> string set" where
  "as_set v = (case v of Some (RSet X) \<Rightarrow> X | _ \<Rightarrow> {})"

definition as_zset :: "rval option \<Rightarrow> string \<rightharpoonup> string" where
  "as_zset v = (case v of Some (RZset z) \<Rightarrow> z | _ \<Rightarrow> Map.empty)"

definition as_hash :: "rval option \<Rightarrow> string \<rightharpoonup> string \<times> int" where
  "as_hash v = (case v of Some (RHash h) \<Rightarrow> h | _ \<Rightarrow> Map.empty)"

lemma as_simps [simp]:
  "as_list None = []" "as_list (Some (RList xs)) = xs" "as_set None = {}" "as_set (Some (RSet X)) = X"
  "as_zset None = Map.empty" "as_zset (Some (RZset z)) = z" "as_hash None = Map.empty" "as_hash (Some (RHash h)) = h"
  by (simp_all add: as_list_def as_set_def as_zset_def as_hash_def)

text \<open>A field set again loses its deadline; a deadline is given to an existing field only.\<close>

definition exec :: "redisCmd \<Rightarrow> rstore \<Rightarrow> rstore" where
  "exec cmd m = (case cmd of
     [c, k] \<Rightarrow> if c = ''del'' then m(k := None) else m
   | [c, k, a] \<Rightarrow>
       if c = ''set'' then m(k \<mapsto> RString a)
       else if c = ''rpush'' then m(k \<mapsto> RList (as_list (m k) @ [a]))
       else if c = ''sadd'' then m(k \<mapsto> RSet (insert a (as_set (m k))))
       else m
   | [c, k, a, b] \<Rightarrow>
       if c = ''zadd'' then m(k \<mapsto> RZset ((as_zset (m k))(b \<mapsto> a)))
       else if c = ''hset'' then m(k \<mapsto> RHash ((as_hash (m k))(a \<mapsto> (b, 0))))
       else m
   | [c, k, at, fs, n, f] \<Rightarrow>
       (case (ParseInt at, as_hash (m k) f) of
          (Inr t, Some (v, _)) \<Rightarrow>
            if c = ''hpexpireat'' then m(k \<mapsto> RHash ((as_hash (m k))(f \<mapsto> (v, t)))) else m
        | _ \<Rightarrow> m)
   | _ \<Rightarrow> m)"

definition run :: "redisCmd list \<Rightarrow> rstore \<Rightarrow> rstore" where
  "run cmds m = fold exec cmds m"

lemma run_Nil [simp]: "run [] m = m" and run_Cons [simp]: "run (c # cs) m = run cs (exec c m)"
  and run_append [simp]: "run (cs @ ds) m = run ds (run cs m)"
  by (simp_all add: run_def)

lemma exec_del [simp]: "exec [''del'', k] m = m(k := None)"
  and exec_set [simp]: "exec [''set'', k, a] m = m(k \<mapsto> RString a)"
  and exec_rpush [simp]: "exec (rpush k a) m = m(k \<mapsto> RList (as_list (m k) @ [a]))"
  and exec_sadd [simp]: "exec (sadd k a) m = m(k \<mapsto> RSet (insert a (as_set (m k))))"
  and exec_zadd [simp]: "exec (zadd k a b) m = m(k \<mapsto> RZset ((as_zset (m k))(b \<mapsto> a)))"
  and exec_hset [simp]: "exec (hset k a b) m = m(k \<mapsto> RHash ((as_hash (m k))(a \<mapsto> (b, 0))))"
  by (simp_all add: exec_def rpush_def sadd_def zadd_def hset_def)

definition int64_range :: "int \<Rightarrow> bool" where
  "int64_range d \<longleftrightarrow> - (2 ^ 63) \<le> d \<and> d < 2 ^ 63"

lemma ParseInt_Itoa: "int64_range d \<Longrightarrow> ParseInt (Itoa d) = Inr d"
  by (rule Atoi_Itoa) (auto simp: int64_range_def maxInt64_def)

lemma run_hset_ttl:
  assumes "int64_range d"
  shows "run (hset_ttl k f v d) m = m(k \<mapsto> RHash ((as_hash (m k))(f \<mapsto> (v, d))))"
proof (cases "d = 0")
  case False
  have "exec [''hpexpireat'', k, Itoa d, ''fields'', ''1'', f] m' =
      m'(k \<mapsto> RHash ((as_hash (m' k))(f \<mapsto> (v', d))))" if "as_hash (m' k) f = Some (v', x)" for m' v' x
    using that by (simp add: exec_def ParseInt_Itoa [OF assms])
  with False show ?thesis by (simp add: hset_ttl_def)
qed (simp add: hset_ttl_def)

text \<open>Runs of commands on one key.\<close>

lemma run_rpush: "xs \<noteq> [] \<Longrightarrow> run (map (rpush k) xs) m = m(k \<mapsto> RList (as_list (m k) @ xs))"
proof (induction xs arbitrary: m)
  case (Cons x xs) then show ?case by (cases "xs = []") auto
qed simp

lemma run_sadd: "xs \<noteq> [] \<Longrightarrow> run (map (sadd k) xs) m = m(k \<mapsto> RSet (as_set (m k) \<union> set xs))"
proof (induction xs arbitrary: m)
  case (Cons x xs) then show ?case by (cases "xs = []") auto
qed simp

lemma map_add_Cons: "x \<notin> set (map fst ps) \<Longrightarrow> h(x \<mapsto> y) ++ map_of ps = h ++ map_of ((x, y) # ps)"
  by (simp add: map_add_upd_left dom_map_of_conv_image_fst)

lemma run_zadd:
  "ps \<noteq> [] \<Longrightarrow> distinct (map fst ps) \<Longrightarrow>
     run (map (\<lambda>(mem, sc). zadd k sc mem) ps) m = m(k \<mapsto> RZset (as_zset (m k) ++ map_of ps))"
proof (induction ps arbitrary: m)
  case (Cons p ps)
  obtain a b where p: "p = (a, b)" by (cases p)
  have eq: "h(a \<mapsto> b) ++ map_of ps = h ++ map_of (p # ps)" for h :: "string \<rightharpoonup> string"
    unfolding p by (rule map_add_Cons) (use Cons.prems p in auto)
  show ?case
  proof (cases "ps = []")
    case True
    have e: "as_zset (m k) ++ map_of (p # ps) = (as_zset (m k))(a \<mapsto> b)"
      unfolding eq [symmetric] by (simp add: True)
    show ?thesis unfolding e by (simp add: True p del: fun_upd_apply)
  next
    case False with Cons p show ?thesis by (simp del: map_of.simps fun_upd_apply add: fun_upd_same eq [unfolded p])
  qed
qed simp

lemma run_hash:
  "ps \<noteq> [] \<Longrightarrow> distinct (map fst ps) \<Longrightarrow> \<forall>(f, v, d) \<in> set ps. int64_range d \<Longrightarrow>
     run (concat (map (\<lambda>(f, v, d). hset_ttl k f v d) ps)) m = m(k \<mapsto> RHash (as_hash (m k) ++ map_of ps))"
proof (induction ps arbitrary: m)
  case (Cons p ps)
  obtain f v d where p: "p = (f, v, d)" by (cases p)
  have eq: "h(f \<mapsto> (v, d)) ++ map_of ps = h ++ map_of (p # ps)" for h :: "string \<rightharpoonup> string \<times> int"
    unfolding p by (rule map_add_Cons) (use Cons.prems p in auto)
  have d: "int64_range d" using Cons.prems p by simp
  show ?case
  proof (cases "ps = []")
    case True
    have e: "as_hash (m k) ++ map_of (p # ps) = (as_hash (m k))(f \<mapsto> (v, d))"
      unfolding eq [symmetric] by (simp add: True)
    show ?thesis unfolding e by (simp add: True p run_hset_ttl [OF d] del: fun_upd_apply)
  next
    case False with Cons p show ?thesis
      by (simp del: map_of.simps fun_upd_apply add: fun_upd_same eq [unfolded p] run_hset_ttl [OF d])
  qed
qed simp

section \<open>Encodings\<close>

datatype quickNode = Plain rdbStr | Packed rdbStr "lpe list"

fun node_valid :: "quickNode \<Rightarrow> bool" where
  "node_valid (Plain e) = str_valid e"
| "node_valid (Packed e es) = holds_lp e es"

fun node_enc :: "quickNode \<Rightarrow> string" where
  "node_enc (Plain e) = enc_len 1 @ str_enc e"
| "node_enc (Packed e es) = enc_len 2 @ str_enc e"

fun node_value :: "quickNode \<Rightarrow> string list" where
  "node_value (Plain e) = [str_value e]"
| "node_value (Packed e es) = map lpe_text es"

text \<open>A counted sequence.\<close>

definition seq_enc :: "('a \<Rightarrow> string) \<Rightarrow> 'a list \<Rightarrow> string" where
  "seq_enc enc xs = enc_len (length xs) @ concat (map enc xs)"

lemma counted_enc:
  assumes "length xs < 2 ^ 63" "\<And>x t. x \<in> set xs \<Longrightarrow> p (enc x @ t) = Inr (val x, t)"
  shows "counted p (seq_enc enc xs @ t) = Inr (map val xs, t)"
  using timesR_enc [of xs p enc val t] assms
  by (simp add: counted_def seq_enc_def ReadLength_enc int64_small)

definition intset_enc :: "nat \<Rightarrow> int list \<Rightarrow> string" where
  "intset_enc w is = le_bytes 4 w @ le_bytes 4 (length is) @ concat (map (\<lambda>i. le_bytes w (twos (8 * w) i)) is)"

definition holds_intset :: "rdbStr \<Rightarrow> int list \<Rightarrow> bool" where
  "holds_intset e is \<longleftrightarrow> str_valid e \<and> length is < 2 ^ 32 \<and>
     (\<exists>w \<in> {2, 4, 8}. str_value e = intset_enc w is \<and>
        (\<forall>i \<in> set is. - (2 ^ (8 * w - 1)) \<le> i \<and> i < 2 ^ (8 * w - 1)))"

text \<open>
  The last argument of a hash field is its deadline in milliseconds, 0 for none.  Redis stores
  deadlines relative to the smallest one in the table encoding and absolute in the others.
\<close>

inductive encodes :: "floatLib \<Rightarrow> bool \<Rightarrow> nat \<Rightarrow> string \<Rightarrow> rval \<Rightarrow> bool" for fl isValkey where
  enc_string: "str_valid e \<Longrightarrow> encodes fl isValkey 0 (str_enc e) (RString (str_value e))"
| enc_list: "\<lbrakk>es \<noteq> []; length es < 2 ^ 63; \<forall>e \<in> set es. str_valid e\<rbrakk> \<Longrightarrow>
    encodes fl isValkey 1 (seq_enc str_enc es) (RList (map str_value es))"
| enc_quicklist2: "\<lbrakk>concat (map node_value ns) \<noteq> []; length ns < 2 ^ 63; \<forall>n \<in> set ns. node_valid n\<rbrakk> \<Longrightarrow>
    encodes fl isValkey 18 (seq_enc node_enc ns) (RList (concat (map node_value ns)))"
| enc_set: "\<lbrakk>es \<noteq> []; length es < 2 ^ 63; \<forall>e \<in> set es. str_valid e\<rbrakk> \<Longrightarrow>
    encodes fl isValkey 2 (seq_enc str_enc es) (RSet (str_value ` set es))"
| enc_set_listpack: "\<lbrakk>es \<noteq> []; holds_lp e es\<rbrakk> \<Longrightarrow>
    encodes fl isValkey 20 (str_enc e) (RSet (lpe_text ` set es))"
| enc_intset: "\<lbrakk>is \<noteq> []; holds_intset e is\<rbrakk> \<Longrightarrow> encodes fl isValkey 11 (str_enc e) (RSet (Itoa ` set is))"
| enc_zset2: "\<lbrakk>ps \<noteq> []; length ps < 2 ^ 63; \<forall>(e, w) \<in> set ps. str_valid e; distinct (map (str_value \<circ> fst) ps)\<rbrakk> \<Longrightarrow>
    encodes fl isValkey 5 (seq_enc (\<lambda>(e, w). str_enc e @ le_bytes 8 (unat w)) ps)
      (RZset (map_of (map (\<lambda>(e, w). (str_value e, fmt_17g fl w)) ps)))"
| enc_zset_listpack: "\<lbrakk>ps \<noteq> []; holds_lp e (concat (map (\<lambda>(a, b). [a, b]) ps)); distinct (map (lpe_text \<circ> fst) ps)\<rbrakk> \<Longrightarrow>
    encodes fl isValkey 17 (str_enc e) (RZset (map_of (map (\<lambda>(a, b). (lpe_text a, lpe_text b)) ps)))"
| enc_hash: "\<lbrakk>ps \<noteq> []; length ps < 2 ^ 63; \<forall>(f, v) \<in> set ps. str_valid f \<and> str_valid v;
      distinct (map (str_value \<circ> fst) ps)\<rbrakk> \<Longrightarrow>
    encodes fl isValkey 4 (seq_enc (\<lambda>(f, v). str_enc f @ str_enc v) ps)
      (RHash (map_of (map (\<lambda>(f, v). (str_value f, str_value v, 0)) ps)))"
| enc_hash_listpack: "\<lbrakk>ps \<noteq> []; holds_lp e (concat (map (\<lambda>(f, v). [f, v]) ps)); distinct (map (lpe_text \<circ> fst) ps)\<rbrakk> \<Longrightarrow>
    encodes fl isValkey 16 (str_enc e) (RHash (map_of (map (\<lambda>(f, v). (lpe_text f, lpe_text v, 0)) ps)))"
| enc_hash_ttl: "\<lbrakk>ps \<noteq> []; length ps < 2 ^ 63; distinct (map (str_value \<circ> fst) ps); 0 < mn; mn < 2 ^ 63;
      \<forall>(f, v, d) \<in> set ps. str_valid f \<and> str_valid v \<and> (d = 0 \<or> mn \<le> d \<and> d < 2 ^ 63)\<rbrakk> \<Longrightarrow>
    encodes fl isValkey 24 (le_bytes 8 (nat mn) @
        seq_enc (\<lambda>(f, v, d). enc_len (if d = 0 then 0 else nat (d - mn + 1)) @ str_enc f @ str_enc v) ps)
      (RHash (map_of (map (\<lambda>(f, v, d). (str_value f, str_value v, d)) ps)))"
| enc_hash_listpack_ttl: "\<lbrakk>ps \<noteq> []; length ps < 2 ^ 63; distinct (map (lpe_text \<circ> fst) ps); mn < 2 ^ 64;
      holds_lp e (concat (map (\<lambda>(f, v, d). [f, v, LpInt d]) ps))\<rbrakk> \<Longrightarrow>
    encodes fl isValkey 25 (le_bytes 8 mn @ str_enc e)
      (RHash (map_of (map (\<lambda>(f, v, d). (lpe_text f, lpe_text v, d)) ps)))"
| enc_hash_valkey: "\<lbrakk>isValkey; ps \<noteq> []; length ps < 2 ^ 63; distinct (map (str_value \<circ> fst) ps);
      \<forall>(f, v, d) \<in> set ps. str_valid f \<and> str_valid v \<and> 0 \<le> d \<and> d < 2 ^ 63\<rbrakk> \<Longrightarrow>
    encodes fl isValkey 22 (seq_enc (\<lambda>(f, v, d). str_enc f @ str_enc v @ le_bytes 8 (nat d)) ps)
      (RHash (map_of (map (\<lambda>(f, v, d). (str_value f, str_value v, d)) ps)))"

section \<open>Rewriting an encoding\<close>

definition rebuilds :: "redisCmd list reader \<Rightarrow> string \<Rightarrow> string \<Rightarrow> rval \<Rightarrow> bool" where
  "rebuilds p key b v \<longleftrightarrow> (\<forall>t m. \<exists>cmds. p (b @ t) = Inr (cmds, t) \<and> run cmds m = m(key \<mapsto> v))"

lemma rebuilds_del:
  assumes "\<And>t. p (b @ t) = Inr (cmds, t)" "\<And>m. m key = None \<Longrightarrow> run cmds m = m(key \<mapsto> v)"
  shows "rebuilds (after_del key p) key b v"
proof -
  have "run ([''del'', key] # cmds) m = m(key \<mapsto> v)" for m
    using assms(2) [of "m(key := None)"] by (simp del: fun_upd_apply add: fun_upd_same)
  then show ?thesis unfolding rebuilds_def after_del_def using assms(1) by fastforce
qed

lemma rebuilds_list:
  assumes "\<And>t. p (b @ t) = Inr (map (rpush key) xs, t)" "xs \<noteq> []"
  shows "rebuilds (after_del key p) key b (RList xs)"
  by (rule rebuilds_del [OF assms(1)]) (simp add: run_rpush [OF assms(2)] del: fun_upd_apply)

lemma rebuilds_set:
  assumes "\<And>t. p (b @ t) = Inr (map (sadd key) xs, t)" "xs \<noteq> []" "X = set xs"
  shows "rebuilds (after_del key p) key b (RSet X)"
  by (rule rebuilds_del [OF assms(1)]) (simp add: run_sadd [OF assms(2)] assms(3) del: fun_upd_apply)

lemma rebuilds_zset:
  assumes "\<And>t. p (b @ t) = Inr (map (\<lambda>(mem, sc). zadd key sc mem) ps, t)" "ps \<noteq> []" "distinct (map fst ps)"
  shows "rebuilds (after_del key p) key b (RZset (map_of ps))"
  by (rule rebuilds_del [OF assms(1)]) (simp add: run_zadd [OF assms(2,3)] del: fun_upd_apply)

lemma rebuilds_hash:
  assumes "\<And>t. p (b @ t) = Inr (concat (map (\<lambda>(f, v, d). hset_ttl key f v d) ps), t)" "ps \<noteq> []"
    "distinct (map fst ps)" "\<forall>(f, v, d) \<in> set ps. int64_range d"
  shows "rebuilds (after_del key p) key b (RHash (map_of ps))"
  by (rule rebuilds_del [OF assms(1)]) (simp add: run_hash [OF assms(2-)] del: fun_upd_apply)

lemma intset_body_enc:
  assumes "w \<in> {2, 4, 8}" "length is < 2 ^ 32"
    "\<forall>i \<in> set is. - (2 ^ (8 * w - 1)) \<le> i \<and> i < 2 ^ (8 * w - 1)"
  shows "intset_body (intset_enc w is) = Inr (map Itoa is, [])"
proof -
  have e: "intset_elem w (le_bytes w (twos (8 * w) i) @ t) = Inr (Itoa i, t)" if "i \<in> set is" for i t
  proof -
    have "twos (8 * w) i < 256 ^ w" "signed (8 * w) (twos (8 * w) i) = i"
      using signed_twos [of "8 * w" i] assms(1,3) that by (auto simp: power_mult)
    then show ?thesis using assms(1) by (auto simp: intset_elem_def)
  qed
  have "timesR (length is) (intset_elem w) (concat (map (\<lambda>i. le_bytes w (twos (8 * w) i)) is) @ [])
      = Inr (map Itoa is, [])" by (rule timesR_enc) (rule e)
  moreover have "le_nat (le_bytes 4 w) = w" "le_nat (le_bytes 4 (length is)) = length is"
    using assms(1,2) by (auto intro: le_nat_le_bytes)
  ultimately show ?thesis by (simp add: intset_body_def intset_enc_def ReadUint32_def del: le_nat_le_bytes)
qed

lemma ReadIntset_holds:
  assumes "holds_intset e is"
  shows "ReadIntset (str_enc e @ t) = Inr (map Itoa is, t)"
  using assms intset_body_enc [of _ "is"] ReadString_str_enc [of e t]
  by (auto simp: holds_intset_def ReadIntset_def within_def liftR_def)

lemma quicklist_node_enc: "node_valid n \<Longrightarrow> quicklist_node (node_enc n @ t) = Inr (node_value n, t)"
  by (cases n) (simp_all add: quicklist_node_def ReadLength_enc ReadString_str_enc ReadListpack_holds)

lemma zset_pairs_text:
  "zset_pairs key (map lpe_text (concat (map (\<lambda>(a, b). [a, b]) ps))) =
     Inr (map (\<lambda>(a, b). zadd key (lpe_text b) (lpe_text a)) ps)"
  by (induction ps) auto

lemma hash_pairs_text:
  "hash_pairs key (map lpe_text (concat (map (\<lambda>(f, v). [f, v]) ps))) =
     Inr (map (\<lambda>(f, v). hset key (lpe_text f) (lpe_text v)) ps)"
  by (induction ps) auto

lemma hash_triples_text:
  "\<forall>(f, v, d) \<in> set ps. int64_range d \<Longrightarrow>
   hash_triples key (map lpe_text (concat (map (\<lambda>(f, v, d). [f, v, LpInt d]) ps))) =
     Inr (concat (map (\<lambda>(f, v, d). hset_ttl key (lpe_text f) (lpe_text v) d) ps))"
  by (induction ps) (auto simp: ParseInt_Itoa)

lemma ReadDouble_enc [simp]: "ReadDouble (le_bytes 8 (unat w) @ t) = Inr (w, t)"
proof -
  have "unat w < 256 ^ 8" using unsigned_less [where 'a = nat, of w] by simp
  then show ?thesis by (simp add: ReadDouble_def)
qed

lemma ReadUint64_enc [simp]: "n < 2 ^ 64 \<Longrightarrow> ReadUint64 (le_bytes 8 n @ t) = Inr (n, t)"
  using le_nat_le_bytes [of n 8] by (simp add: ReadUint64_def del: le_nat_le_bytes)

lemma wrap64_id: "int64_range d \<Longrightarrow> wrap64 d = d"
  using signed_twos [of 64 d] by (simp add: wrap64_def int64_range_def)

text \<open>One lemma per encoding that needs more than the rules above.\<close>

lemma readHash_enc:
  assumes "length ps < 2 ^ 63" "\<forall>(f, v) \<in> set ps. str_valid f \<and> str_valid v"
  shows "readHash key (seq_enc (\<lambda>(f, v). str_enc f @ str_enc v) ps @ t) =
    Inr (map (\<lambda>(f, v). hset key (str_value f) (str_value v)) ps, t)"
  unfolding readHash_def
  by (rule counted_enc [OF assms(1)]) (use assms(2) in \<open>auto simp: ReadString_str_enc\<close>)

lemma hset_as_ttl: "map (\<lambda>(f, v). hset key (g f) (h v)) ps =
    concat (map (\<lambda>(f, v, d). hset_ttl key f v d) (map (\<lambda>(f, v). (g f, h v, 0)) ps))"
  by (induction ps) (auto simp: hset_ttl_def)

lemma readHashTtl_enc:
  assumes "length ps < 2 ^ 63" "0 < mn" "mn < 2 ^ 63"
    "\<forall>(f, v, d) \<in> set ps. str_valid f \<and> str_valid v \<and> (d = 0 \<or> mn \<le> d \<and> d < 2 ^ 63)"
  shows "readHashTtl key False (le_bytes 8 (nat mn) @
      seq_enc (\<lambda>(f, v, d). enc_len (if d = 0 then 0 else nat (d - mn + 1)) @ str_enc f @ str_enc v) ps @ t) =
    Inr (concat (map (\<lambda>(f, v, d). hset_ttl key (str_value f) (str_value v) d) ps), t)"
proof -
  have mn: "int64 (nat mn) = mn" "nat mn < 2 ^ 64"
    using assms(2,3) by (auto simp: int64_small nat_less_iff)
  have d: "int64 (nat (d - mn + 1)) = d - mn + 1" "nat (d - mn + 1) < 2 ^ 64" "wrap64 d = d"
    if "mn \<le> d" "d < 2 ^ 63" for d
    using that assms(2) by (auto simp: int64_small nat_less_iff wrap64_id int64_range_def)
  have z: "int64 0 = 0" by (simp add: int64_small)
  let ?elem = "bindR ReadLength (\<lambda>ttl.
       let expireAt = (if int64 ttl \<noteq> 0 then wrap64 (int64 ttl + mn - 1) else int64 ttl)
       in bindR ReadString (\<lambda>field. mapR (\<lambda>value. hset_ttl key field value expireAt) ReadString))"
  have "counted ?elem (seq_enc (\<lambda>(f, v, d). enc_len (if d = 0 then 0 else nat (d - mn + 1)) @ str_enc f @ str_enc v) ps @ t)
      = Inr (map (\<lambda>(f, v, d). hset_ttl key (str_value f) (str_value v) d) ps, t)"
    by (rule counted_enc [OF assms(1)])
      (use assms(2,4) d z in \<open>auto simp: ReadLength_enc ReadString_str_enc Let_def\<close>)
  moreover have "mapR int64 ReadUint64 (le_bytes 8 (nat mn) @ s) = Inr (mn, s)" for s
    using mn ReadUint64_enc [of "nat mn" s] by simp
  ultimately show ?thesis by (simp add: readHashTtl_def)
qed

lemma readHashValkey_enc:
  assumes "length ps < 2 ^ 63" "\<forall>(f, v, d) \<in> set ps. str_valid f \<and> str_valid v \<and> 0 \<le> d \<and> d < 2 ^ 63"
  shows "readHashValkey key (seq_enc (\<lambda>(f, v, d). str_enc f @ str_enc v @ le_bytes 8 (nat d)) ps @ t) =
    Inr (concat (map (\<lambda>(f, v, d). hset_ttl key (str_value f) (str_value v) d) ps), t)"
  unfolding readHashValkey_def
  by (rule mapR_Inr, rule counted_enc [OF assms(1)])
    (use assms(2) in \<open>auto simp: ReadString_str_enc int64_small nat_less_iff\<close>)

text \<open>What a type byte selects.\<close>

lemma value_cmds_of:
  "value_cmds env 0 key vk = string_Rewrite key"
  "value_cmds env 1 key vk = after_del key (readList key)"
  "value_cmds env 18 key vk = after_del key (readQuickList2 key)"
  "value_cmds env 2 key vk = after_del key (readSet key)"
  "value_cmds env 20 key vk = after_del key (mapR (map (sadd key)) ReadListpack)"
  "value_cmds env 11 key vk = after_del key (mapR (map (sadd key)) ReadIntset)"
  "value_cmds env 5 key vk = after_del key (counted (zset_elem (floats env) key ReadDouble))"
  "value_cmds env 17 key vk = after_del key (zset_packed key ReadListpack)"
  "value_cmds env 4 key vk = after_del key (readHash key)"
  "value_cmds env 16 key vk = after_del key (hash_packed key ReadListpack)"
  "value_cmds env 24 key vk = after_del key (readHashTtl key False)"
  "value_cmds env 25 key vk = after_del key (readHashListpackTtl key False)"
  "value_cmds env 22 key True = after_del key (readHashValkey key)"
  by (simp_all add: value_cmds_def ParseObject_def list_Rewrite_def set_Rewrite_def zset_Rewrite_def hash_Rewrite_def)

lemma strings_enc:
  "length es < 2 ^ 63 \<Longrightarrow> \<forall>e \<in> set es. str_valid e \<Longrightarrow>
     counted ReadString (seq_enc str_enc es @ t) = Inr (map str_value es, t)"
  by (rule counted_enc) (auto simp: ReadString_str_enc)

lemma rebuilds_string:
  "str_valid e \<Longrightarrow> rebuilds (string_Rewrite key) key (str_enc e) (RString (str_value e))"
  by (simp add: rebuilds_def string_Rewrite_def ReadString_str_enc)

lemma rebuilds_readList:
  "es \<noteq> [] \<Longrightarrow> length es < 2 ^ 63 \<Longrightarrow> \<forall>e \<in> set es. str_valid e \<Longrightarrow>
     rebuilds (after_del key (readList key)) key (seq_enc str_enc es) (RList (map str_value es))"
  by (rule rebuilds_list) (simp_all add: readList_def strings_enc)

lemma rebuilds_quicklist2:
  assumes "concat (map node_value ns) \<noteq> []" "length ns < 2 ^ 63" "\<forall>n \<in> set ns. node_valid n"
  shows "rebuilds (after_del key (readQuickList2 key)) key (seq_enc node_enc ns) (RList (concat (map node_value ns)))"
proof (rule rebuilds_list [OF _ assms(1)])
  fix t
  have "counted quicklist_node (seq_enc node_enc ns @ t) = Inr (map node_value ns, t)"
    by (rule counted_enc [OF assms(2)]) (use assms(3) in \<open>auto simp: quicklist_node_enc\<close>)
  then show "readQuickList2 key (seq_enc node_enc ns @ t) = Inr (map (rpush key) (concat (map node_value ns)), t)"
    by (simp add: readQuickList2_def)
qed

lemma rebuilds_readSet:
  "es \<noteq> [] \<Longrightarrow> length es < 2 ^ 63 \<Longrightarrow> \<forall>e \<in> set es. str_valid e \<Longrightarrow>
     rebuilds (after_del key (readSet key)) key (seq_enc str_enc es) (RSet (str_value ` set es))"
  by (rule rebuilds_set [where xs = "map str_value es"]) (simp_all add: readSet_def strings_enc)

lemma rebuilds_set_listpack:
  "es \<noteq> [] \<Longrightarrow> holds_lp e es \<Longrightarrow>
     rebuilds (after_del key (mapR (map (sadd key)) ReadListpack)) key (str_enc e) (RSet (lpe_text ` set es))"
  by (rule rebuilds_set [where xs = "map lpe_text es"]) (simp_all add: ReadListpack_holds)

lemma rebuilds_intset:
  "is \<noteq> [] \<Longrightarrow> holds_intset e is \<Longrightarrow>
     rebuilds (after_del key (mapR (map (sadd key)) ReadIntset)) key (str_enc e) (RSet (Itoa ` set is))"
  by (rule rebuilds_set [where xs = "map Itoa is"]) (simp_all add: ReadIntset_holds)

lemma rebuilds_zset2:
  assumes "ps \<noteq> []" "length ps < 2 ^ 63" "\<forall>(e, w) \<in> set ps. str_valid e" "distinct (map (str_value \<circ> fst) ps)"
  shows "rebuilds (after_del key (counted (zset_elem fl key ReadDouble))) key
      (seq_enc (\<lambda>(e, w). str_enc e @ le_bytes 8 (unat w)) ps)
      (RZset (map_of (map (\<lambda>(e, w). (str_value e, fmt_17g fl w)) ps)))"
proof (rule rebuilds_zset)
  fix t
  have "counted (zset_elem fl key ReadDouble) (seq_enc (\<lambda>(e, w). str_enc e @ le_bytes 8 (unat w)) ps @ t)
      = Inr (map (\<lambda>(e, w). zadd key (fmt_17g fl w) (str_value e)) ps, t)"
    by (rule counted_enc [OF assms(2)]) (use assms(3) in \<open>auto simp: zset_elem_def ReadString_str_enc\<close>)
  then show "counted (zset_elem fl key ReadDouble) (seq_enc (\<lambda>(e, w). str_enc e @ le_bytes 8 (unat w)) ps @ t)
      = Inr (map (\<lambda>(mem, sc). zadd key sc mem) (map (\<lambda>(e, w). (str_value e, fmt_17g fl w)) ps), t)"
    by (simp add: comp_def case_prod_unfold)
qed (use assms in \<open>simp_all add: comp_def case_prod_unfold\<close>)

lemma rebuilds_zset_listpack:
  assumes "ps \<noteq> []" "holds_lp e (concat (map (\<lambda>(a, b). [a, b]) ps))" "distinct (map (lpe_text \<circ> fst) ps)"
  shows "rebuilds (after_del key (zset_packed key ReadListpack)) key (str_enc e)
      (RZset (map_of (map (\<lambda>(a, b). (lpe_text a, lpe_text b)) ps)))"
proof (rule rebuilds_zset)
  fix t
  show "zset_packed key ReadListpack (str_enc e @ t)
      = Inr (map (\<lambda>(mem, sc). zadd key sc mem) (map (\<lambda>(a, b). (lpe_text a, lpe_text b)) ps), t)"
    unfolding zset_packed_def bindR_Inr [where p = ReadListpack, OF ReadListpack_holds [OF assms(2)]]
      zset_pairs_text liftR_def
    by (simp add: comp_def case_prod_unfold)
qed (use assms in \<open>simp_all add: comp_def case_prod_unfold\<close>)

lemma rebuilds_readHash:
  assumes "ps \<noteq> []" "length ps < 2 ^ 63" "\<forall>(f, v) \<in> set ps. str_valid f \<and> str_valid v"
    "distinct (map (str_value \<circ> fst) ps)"
  shows "rebuilds (after_del key (readHash key)) key (seq_enc (\<lambda>(f, v). str_enc f @ str_enc v) ps)
      (RHash (map_of (map (\<lambda>(f, v). (str_value f, str_value v, 0)) ps)))"
proof (rule rebuilds_hash)
  fix t
  show "readHash key (seq_enc (\<lambda>(f, v). str_enc f @ str_enc v) ps @ t) = Inr (concat (map (\<lambda>(f, v, d). hset_ttl key f v d)
      (map (\<lambda>(f, v). (str_value f, str_value v, 0)) ps)), t)"
    using readHash_enc [OF assms(2,3)] unfolding hset_as_ttl .
qed (use assms in \<open>simp_all add: int64_range_def comp_def case_prod_unfold\<close>)

lemma rebuilds_hash_listpack:
  assumes "ps \<noteq> []" "holds_lp e (concat (map (\<lambda>(f, v). [f, v]) ps))" "distinct (map (lpe_text \<circ> fst) ps)"
  shows "rebuilds (after_del key (hash_packed key ReadListpack)) key (str_enc e)
      (RHash (map_of (map (\<lambda>(f, v). (lpe_text f, lpe_text v, 0)) ps)))"
proof (rule rebuilds_hash)
  fix t
  show "hash_packed key ReadListpack (str_enc e @ t) = Inr (concat (map (\<lambda>(f, v, d). hset_ttl key f v d)
      (map (\<lambda>(f, v). (lpe_text f, lpe_text v, 0)) ps)), t)"
    unfolding hash_packed_def bindR_Inr [where p = ReadListpack, OF ReadListpack_holds [OF assms(2)]]
      hash_pairs_text liftR_def hset_as_ttl by simp
qed (use assms in \<open>simp_all add: int64_range_def comp_def case_prod_unfold\<close>)

lemma rebuilds_hash_ttl:
  assumes "ps \<noteq> []" "length ps < 2 ^ 63" "distinct (map (str_value \<circ> fst) ps)" "0 < mn" "mn < 2 ^ 63"
    "\<forall>(f, v, d) \<in> set ps. str_valid f \<and> str_valid v \<and> (d = 0 \<or> mn \<le> d \<and> d < 2 ^ 63)"
  shows "rebuilds (after_del key (readHashTtl key False)) key (le_bytes 8 (nat mn) @
        seq_enc (\<lambda>(f, v, d). enc_len (if d = 0 then 0 else nat (d - mn + 1)) @ str_enc f @ str_enc v) ps)
      (RHash (map_of (map (\<lambda>(f, v, d). (str_value f, str_value v, d)) ps)))"
proof (rule rebuilds_hash)
  fix t
  show "readHashTtl key False ((le_bytes 8 (nat mn) @
        seq_enc (\<lambda>(f, v, d). enc_len (if d = 0 then 0 else nat (d - mn + 1)) @ str_enc f @ str_enc v) ps) @ t) =
      Inr (concat (map (\<lambda>(f, v, d). hset_ttl key f v d) (map (\<lambda>(f, v, d). (str_value f, str_value v, d)) ps)), t)"
    using readHashTtl_enc [OF assms(2,4,5,6), of key t] by (simp add: comp_def case_prod_unfold)
  show "\<forall>(f, v, d) \<in> set (map (\<lambda>(f, v, d). (str_value f, str_value v, d)) ps). int64_range d"
    using assms(4,6) by (auto simp: int64_range_def)
qed (use assms in \<open>simp_all add: comp_def case_prod_unfold\<close>)

lemma rebuilds_hash_listpack_ttl:
  assumes "ps \<noteq> []" "distinct (map (lpe_text \<circ> fst) ps)" "mn < 2 ^ 64"
    "holds_lp e (concat (map (\<lambda>(f, v, d). [f, v, LpInt d]) ps))"
  shows "rebuilds (after_del key (readHashListpackTtl key False)) key (le_bytes 8 mn @ str_enc e)
      (RHash (map_of (map (\<lambda>(f, v, d). (lpe_text f, lpe_text v, d)) ps)))"
proof (rule rebuilds_hash)
  have "\<forall>(f, v, d) \<in> set ps. lpe_valid (LpInt d)" using assms(4) by (force simp: holds_lp_def)
  then have r: "\<forall>(f, v, d) \<in> set ps. int64_range d" by (auto simp: int64_range_def)
  then show "\<forall>(f, v, d) \<in> set (map (\<lambda>(f, v, d). (lpe_text f, lpe_text v, d)) ps). int64_range d" by auto
  fix t
  have "mapR (\<lambda>_. ()) ReadUint64 (le_bytes 8 mn @ s) = Inr ((), s)" for s
    using ReadUint64_enc [OF assms(3), of s] by simp
  then show "readHashListpackTtl key False ((le_bytes 8 mn @ str_enc e) @ t) =
      Inr (concat (map (\<lambda>(f, v, d). hset_ttl key f v d) (map (\<lambda>(f, v, d). (lpe_text f, lpe_text v, d)) ps)), t)"
    using ReadListpack_holds [OF assms(4), of t] hash_triples_text [OF r, of key]
    by (simp add: readHashListpackTtl_def liftR_def comp_def case_prod_unfold del: map_concat)
qed (use assms in \<open>simp_all add: comp_def case_prod_unfold\<close>)

lemma rebuilds_hash_valkey:
  assumes "ps \<noteq> []" "length ps < 2 ^ 63" "distinct (map (str_value \<circ> fst) ps)"
    "\<forall>(f, v, d) \<in> set ps. str_valid f \<and> str_valid v \<and> 0 \<le> d \<and> d < 2 ^ 63"
  shows "rebuilds (after_del key (readHashValkey key)) key
      (seq_enc (\<lambda>(f, v, d). str_enc f @ str_enc v @ le_bytes 8 (nat d)) ps)
      (RHash (map_of (map (\<lambda>(f, v, d). (str_value f, str_value v, d)) ps)))"
proof (rule rebuilds_hash)
  show "\<forall>(f, v, d) \<in> set (map (\<lambda>(f, v, d). (str_value f, str_value v, d)) ps). int64_range d"
    using assms(4) by (auto simp: int64_range_def)
qed (use assms readHashValkey_enc [OF assms(2,4), of key] in \<open>simp_all add: comp_def case_prod_unfold\<close>)

lemma rebuilds_value:
  assumes "encodes (floats env) isValkey typeByte b v"
  shows "rebuilds (value_cmds env typeByte key isValkey) key b v"
  using assms
  by cases (simp_all add: value_cmds_of [unfolded One_nat_def] rebuilds_string rebuilds_readList rebuilds_quicklist2 rebuilds_readSet
      rebuilds_set_listpack rebuilds_intset rebuilds_zset2 rebuilds_zset_listpack rebuilds_readHash
      rebuilds_hash_listpack rebuilds_hash_ttl rebuilds_hash_listpack_ttl rebuilds_hash_valkey)

text \<open>
  C9. The commands that a value is rewritten into rebuild it: for every encoding of a string, list,
  set, sorted set or hash in the relation \<open>encodes\<close> (length-prefixed, listpack, intset and quicklist
  forms, compressed or not, the three hash encodings with field deadlines), the rewrite
  consumes exactly the encoding, and its commands give the key that value on any server state
  and touch no other key.
\<close>

theorem Rewrite_rebuilds:
  assumes "encodes (floats env) isValkey typeByte b v"
  shows "\<exists>cmds. value_cmds env typeByte key isValkey (b @ t) = Inr (cmds, t) \<and> run cmds m = m(key \<mapsto> v)"
  using rebuilds_value [OF assms, of key] unfolding rebuilds_def by blast

definition env0 :: rdbEnv where
  "env0 = \<lparr>floats = \<lparr>ParseFloat = (\<lambda>_. None), fmt_17g = (\<lambda>_. []), fmt_f = (\<lambda>_. []), fmt_15f = (\<lambda>_. [])\<rparr>,
     float_mul = (\<lambda>_ _. 0), TargetMBbloomVersion = 0\<rparr>"

theorem Rewrite_rebuilds_witness:
  "\<exists>cmds. value_cmds env0 24 ''h'' False
     ((le_bytes 8 1000 @ seq_enc (\<lambda>(f, v, d). enc_len (if d = 0 then 0 else nat (d - 1000 + 1)) @ str_enc f @ str_enc v)
        [(Raw ''a'', Int8 7, 1500), (Raw ''b'', Raw ''x'', 0)]) @ ''rest'') = Inr (cmds, ''rest'') \<and>
     run cmds Map.empty = [''h'' \<mapsto> RHash [''a'' \<mapsto> (''7'', 1500), ''b'' \<mapsto> (''x'', 0)]]"
proof -
  have s: "Itoa 7 = ''7''" by code_simp
  have "encodes (floats env0) False 24 (le_bytes 8 (nat 1000) @
      seq_enc (\<lambda>(f, v, d). enc_len (if d = 0 then 0 else nat (d - 1000 + 1)) @ str_enc f @ str_enc v)
        [(Raw ''a'', Int8 7, 1500), (Raw ''b'', Raw ''x'', 0)])
      (RHash (map_of (map (\<lambda>(f, v, d). (str_value f, str_value v, d)) [(Raw ''a'', Int8 7, 1500), (Raw ''b'', Raw ''x'', 0)])))"
    by (rule enc_hash_ttl) simp_all
  from Rewrite_rebuilds [OF this, of "''h''" "''rest''" Map.empty] s
  show ?thesis by (simp add: fun_upd_twist)
qed

section \<open>Bloom filters\<close>

lemma chunk_cmds_from:
  assumes "1 \<le> cur"
  shows "concat (map last (chunk_cmds key sb cur)) = drop (cur - 1) (chain_bytes sb)
    \<and> (\<forall>c \<in> set (chunk_cmds key sb cur). length (last c) \<in> {1..MAX_SCANDUMP_SIZE})"
  using assms
proof (induction key sb cur rule: chunk_cmds.induct)
  case (1 key sb cur)
  obtain c nxt where g: "getEncodedChunk sb cur MAX_SCANDUMP_SIZE = (c, nxt)" by fastforce
  have n: "c = [] \<and> length (chain_bytes sb) \<le> cur - 1 \<or>
      c \<noteq> [] \<and> length c \<le> MAX_SCANDUMP_SIZE \<and> nxt = cur + length c \<and>
      (\<exists>v. drop (cur - 1) (chain_bytes sb) = c @ v)"
    using getEncodedChunk_next [of cur MAX_SCANDUMP_SIZE sb] "1.prems" g by (simp add: MAX_SCANDUMP_SIZE_def)
  show ?case
  proof (cases "c = []")
    case True
    with n g show ?thesis by (simp add: chunk_cmds.simps [of key sb cur])
  next
    case False
    from False n obtain v where v: "drop (cur - 1) (chain_bytes sb) = c @ v" "nxt = cur + length c"
      "length c \<le> MAX_SCANDUMP_SIZE" by auto
    have "drop (nxt - 1) (chain_bytes sb) = drop (length c) (drop (cur - 1) (chain_bytes sb))"
      using "1.prems" v(2) by (simp add: add.commute)
    with v(1) have "drop (nxt - 1) (chain_bytes sb) = v" by simp
    moreover have "concat (map last (chunk_cmds key sb nxt)) = drop (nxt - 1) (chain_bytes sb)
        \<and> (\<forall>c \<in> set (chunk_cmds key sb nxt). length (last c) \<in> {1..MAX_SCANDUMP_SIZE})"
      using "1.IH" [OF _ g [symmetric]] "1.prems" False v(2) g by auto
    moreover have "1 \<le> length c" using False by (cases c) auto
    ultimately show ?thesis using False "1.prems" v g by (simp add: chunk_cmds.simps [of key sb cur])
  qed
qed

lemma chunk_cmds_iter:
  assumes "1 \<le> cur" "i < length (chunk_cmds key sb cur)"
  shows "chunk_cmds key sb cur ! i = [''BF.LOADCHUNK'', key,
    FormatUint (cur + length (concat (map last (take (Suc i) (chunk_cmds key sb cur))))), last (chunk_cmds key sb cur ! i)]"
  using assms
proof (induction key sb cur arbitrary: i rule: chunk_cmds.induct)
  case (1 key sb cur)
  obtain c nxt where g: "getEncodedChunk sb cur MAX_SCANDUMP_SIZE = (c, nxt)" by fastforce
  show ?case
  proof (cases "c = []")
    case True
    with g "1.prems" show ?thesis by (simp add: chunk_cmds.simps [of key sb cur])
  next
    case False
    have nx: "nxt = cur + length c"
      using getEncodedChunk_next [of cur MAX_SCANDUMP_SIZE sb] "1.prems"(1) g False by (simp add: MAX_SCANDUMP_SIZE_def)
    have cc: "chunk_cmds key sb cur = [''BF.LOADCHUNK'', key, FormatUint nxt, c] # chunk_cmds key sb nxt"
      using g False "1.prems"(1) by (simp add: chunk_cmds.simps [of key sb cur])
    show ?thesis
    proof (cases i)
      case 0 then show ?thesis unfolding cc by (simp add: nx)
    next
      case (Suc j)
      with "1.IH" [OF _ g [symmetric], of j] "1.prems" False nx cc show ?thesis
        unfolding cc Suc by (simp add: add.assoc)
    qed
  qed
qed

text \<open>
  A Bloom filter is transferred completely: after the header the rewrite sends chunks that,
  concatenated, are the bytes of all filters of the chain in order; no chunk is empty or larger
  than 10 MB, and the position sent with a chunk is the one just after its last byte, counted from 1.
\<close>

theorem bloom_chunks_complete:
  "\<exists>chunks. bloom_Rewrite env encver key sb =
       [[''del'', key], [''BF.LOADCHUNK'', key, ''1'', bloom_header env encver sb]] @
       map (\<lambda>i. [''BF.LOADCHUNK'', key, FormatUint (1 + length (concat (take (Suc i) chunks))), chunks ! i])
         [0..<length chunks]
     \<and> concat chunks = chain_bytes sb \<and> (\<lambda>c. length c) ` set chunks \<subseteq> {1..MAX_SCANDUMP_SIZE}"
proof (intro exI conjI)
  let ?cs = "chunk_cmds key sb 1" and ?ch = "map last (chunk_cmds key sb 1)"
  have "?cs = map (\<lambda>i. [''BF.LOADCHUNK'', key, FormatUint (1 + length (concat (take (Suc i) ?ch))), ?ch ! i])
      [0..<length ?ch]"
    by (rule nth_equalityI) (use chunk_cmds_iter [of 1 _ key sb] in \<open>auto simp: take_map\<close>)
  then show "bloom_Rewrite env encver key sb =
       [[''del'', key], [''BF.LOADCHUNK'', key, ''1'', bloom_header env encver sb]] @
       map (\<lambda>i. [''BF.LOADCHUNK'', key, FormatUint (1 + length (concat (take (Suc i) ?ch))), ?ch ! i])
         [0..<length ?ch]"
    by (simp add: bloom_Rewrite_def)
  show "concat ?ch = chain_bytes sb" using chunk_cmds_from [of 1 key sb] by simp
  show "(\<lambda>c. length c) ` set ?ch \<subseteq> {1..MAX_SCANDUMP_SIZE}" using chunk_cmds_from [of 1 key sb] by auto
qed

section \<open>Streams\<close>

text \<open>
  A stream as Redis stores it.  The elements of a listpack are the master entry (count, deleted,
  fields, 0) and the entries, which give their fields themselves or take those of the master entry;
  ids are relative to the id of the listpack.
\<close>

datatype sargs = Same "lpe list" | Own "(lpe \<times> lpe) list"

record srcEntry =
  x_deleted :: bool
  x_ms :: int
  x_seq :: int
  x_args :: sargs
  x_lpcount :: int

record srcNode =
  nd_key :: rdbStr
  nd_lp :: rdbStr
  nd_ms :: nat
  nd_seq :: nat
  nd_fields :: "lpe list"
  nd_entries :: "srcEntry list"

fun args_elements :: "sargs \<Rightarrow> lpe list" where
  "args_elements (Same vs) = vs"
| "args_elements (Own ps) = LpInt (int (length ps)) # concat (map (\<lambda>(f, v). [f, v]) ps)"

fun args_text :: "lpe list \<Rightarrow> sargs \<Rightarrow> string list" where
  "args_text fs (Same vs) = concat (map2 (\<lambda>f v. [lpe_text f, lpe_text v]) fs vs)"
| "args_text fs (Own ps) = concat (map (\<lambda>(f, v). [lpe_text f, lpe_text v]) ps)"

fun is_same :: "sargs \<Rightarrow> bool" where "is_same (Same _) = True" | "is_same (Own _) = False"

definition entry_elements :: "srcEntry \<Rightarrow> lpe list" where
  "entry_elements x = [LpInt ((if x_deleted x then 1 else 0) + (if is_same (x_args x) then 2 else 0)),
     LpInt (x_ms x), LpInt (x_seq x)] @ args_elements (x_args x) @ [LpInt (x_lpcount x)]"

definition live :: "srcEntry list \<Rightarrow> srcEntry list" where
  "live xs = filter (\<lambda>x. \<not> x_deleted x) xs"

definition node_elements :: "srcNode \<Rightarrow> lpe list" where
  "node_elements n =
     [LpInt (int (length (live (nd_entries n)))), LpInt (int (length (nd_entries n)) - int (length (live (nd_entries n)))),
      LpInt (int (length (nd_fields n)))] @ nd_fields n @ [LpInt 0] @ concat (map entry_elements (nd_entries n))"

definition node_cmds :: "string \<Rightarrow> srcNode \<Rightarrow> redisCmd list" where
  "node_cmds key n = map (\<lambda>x. [''xadd'', key, id_text (int (nd_ms n) + x_ms x) (int (nd_seq n) + x_seq x)] @
     args_text (nd_fields n) (x_args x)) (live (nd_entries n))"

definition entry_ok :: "srcNode \<Rightarrow> srcEntry \<Rightarrow> bool" where
  "entry_ok n x \<longleftrightarrow> int64_range (x_ms x) \<and> int64_range (x_seq x) \<and>
     int64_range (int (nd_ms n) + x_ms x) \<and> int64_range (int (nd_seq n) + x_seq x) \<and>
     (case x_args x of Same vs \<Rightarrow> length vs = length (nd_fields n) | Own ps \<Rightarrow> length ps < 2 ^ 62)"

definition nodeS_valid :: "srcNode \<Rightarrow> bool" where
  "nodeS_valid n \<longleftrightarrow> str_valid (nd_key n) \<and> str_value (nd_key n) = be_bytes 8 (nd_ms n) @ be_bytes 8 (nd_seq n) \<and>
     nd_ms n < 2 ^ 63 \<and> nd_seq n < 2 ^ 63 \<and> holds_lp (nd_lp n) (node_elements n) \<and>
     (\<forall>x \<in> set (nd_entries n). entry_ok n x)"

lemma nextInteger_text: "int64_range i \<Longrightarrow> nextInteger (Itoa i # es) = Inr (i, es)"
  by (simp add: nextInteger_def ParseInt_Itoa)

lemma next_slice_append: "n = int (length xs) \<Longrightarrow> next_slice n (xs @ es) = Inr (xs, es)"
  by (simp add: next_slice_def)

lemma same_fields_text:
  "length vs = length fs \<Longrightarrow> same_fields (map lpe_text fs) (map lpe_text vs @ es) =
     Inr (concat (map2 (\<lambda>f v. [lpe_text f, lpe_text v]) fs vs), es)"
  by (induction vs fs rule: list_induct2) auto

lemma pairs_text: "map lpe_text (concat (map (\<lambda>(f, v). [f, v]) ps)) = concat (map (\<lambda>(f, v). [lpe_text f, lpe_text v]) ps)"
  "length (concat (map (\<lambda>(f, v). [lpe_text f, lpe_text v]) ps)) = 2 * length ps"
  by (induction ps) auto

lemma stream_args_text:
  assumes "entry_ok n x" "flags AND 2 = 2 \<longleftrightarrow> is_same (x_args x)"
  shows "stream_args (map lpe_text (nd_fields n)) flags (map lpe_text (args_elements (x_args x)) @ es) =
    Inr (args_text (nd_fields n) (x_args x), es)"
proof (cases "x_args x")
  case (Same vs)
  with assms show ?thesis by (simp add: stream_args_def same_fields_text entry_ok_def)
next
  case (Own ps)
  with assms have l: "length ps < 2 ^ 62" by (simp add: entry_ok_def)
  have "int64_range (int (length ps))" "int64_range (int (length ps) * 2)" using l by (auto simp: int64_range_def)
  moreover have "map lpe_text (args_elements (Own ps)) = Itoa (int (length ps)) # concat (map (\<lambda>(f, v). [lpe_text f, lpe_text v]) ps)"
    using pairs_text(1) [of ps] by simp
  ultimately show ?thesis using assms(2) unfolding Own
    by (simp del: args_elements.simps add: stream_args_def nextInteger_text wrap64_id next_slice_append pairs_text(2))
qed

lemma stream_flags:
  fixes a b :: bool
  defines "flags \<equiv> (if a then 1 else 0) + (if b then 2 else 0) :: int"
  shows "int64_range flags" "flags AND 2 = 2 \<longleftrightarrow> b" "flags AND 1 = 1 \<longleftrightarrow> a"
  unfolding flags_def by (cases a; cases b; simp add: int64_range_def)+

lemma next_entry_text:
  assumes "entry_ok n x"
  shows "next_entry (map lpe_text (nd_fields n)) (map lpe_text (entry_elements x) @ es) =
    Inr (\<lparr>se_flags = (if x_deleted x then 1 else 0) + (if is_same (x_args x) then 2 else 0), se_ms = x_ms x,
          se_seq = x_seq x, se_args = args_text (nd_fields n) (x_args x)\<rparr>, es)"
proof -
  have r: "int64_range (x_ms x)" "int64_range (x_seq x)" using assms by (auto simp: entry_ok_def)
  show ?thesis
    using stream_flags [of "x_deleted x" "is_same (x_args x)"]
      stream_args_text [OF assms stream_flags(2) [of "x_deleted x" "is_same (x_args x)"]]
    by (simp add: next_entry_def entry_elements_def nextInteger_text r)
qed

lemma stream_entries_text:
  assumes "\<forall>x \<in> set xs. entry_ok n x"
  shows "stream_entries key (int (nd_ms n)) (int (nd_seq n)) (map lpe_text (nd_fields n))
      (int (length (live xs))) (int (length xs) - int (length (live xs)))
      (map lpe_text (concat (map entry_elements xs)) @ es) =
    Inr (map (\<lambda>x. [''xadd'', key, id_text (int (nd_ms n) + x_ms x) (int (nd_seq n) + x_seq x)] @
      args_text (nd_fields n) (x_args x)) (live xs))"
  using assms
proof (induction xs)
  case Nil then show ?case by (simp add: live_def stream_entries.simps)
next
  case (Cons x xs)
  let ?f = "stream_entries key (int (nd_ms n)) (int (nd_seq n)) (map lpe_text (nd_fields n))"
  let ?k = "int (length (live xs))" and ?d = "int (length xs) - int (length (live xs))"
  let ?es = "map lpe_text (concat (map entry_elements xs)) @ es"
  have ok: "entry_ok n x" using Cons.prems by simp
  have le: "length (live xs) \<le> length xs" by (simp add: live_def)
  have IH: "?f ?k ?d ?es = Inr (map (\<lambda>x. [''xadd'', key, id_text (int (nd_ms n) + x_ms x) (int (nd_seq n) + x_seq x)] @
      args_text (nd_fields n) (x_args x)) (live xs))" using Cons by simp
  have w: "wrap64 (x_ms x + int (nd_ms n)) = int (nd_ms n) + x_ms x"
    "wrap64 (x_seq x + int (nd_seq n)) = int (nd_seq n) + x_seq x"
    using ok by (auto simp: entry_ok_def wrap64_id add.commute)
  note nx = next_entry_text [OF ok, of ?es]
  note fl = stream_flags(3) [of "x_deleted x" "is_same (x_args x)"]
  show ?case
  proof (cases "x_deleted x")
    case True
    then have c: "int (length (x # xs)) - ?k = ?d + 1"
      "live (x # xs) = live xs" by (auto simp: live_def)
    have "?f ?k (?d + 1) (map lpe_text (entry_elements x) @ ?es) = ?f ?k ?d ?es"
      using True fl le by (subst stream_entries.simps) (simp add: nx)
    then show ?thesis unfolding c using IH by simp
  next
    case False
    then have c: "int (length (x # live xs)) = ?k + 1" "int (length (x # xs)) - (?k + 1) = ?d"
      "live (x # xs) = x # live xs" by (auto simp: live_def)
    have "?f (?k + 1) ?d (map lpe_text (entry_elements x) @ ?es) = map_sum id (Cons ([''xadd'', key,
        id_text (int (nd_ms n) + x_ms x) (int (nd_seq n) + x_seq x)] @ args_text (nd_fields n) (x_args x))) (?f ?k ?d ?es)"
      using False fl by (subst stream_entries.simps) (simp add: nx xadd_def w)
    then show ?thesis unfolding c using IH by simp
  qed
qed

lemma entry_elements_len: "length xs \<le> length (concat (map entry_elements xs))"
  by (induction xs) (auto simp: entry_elements_def)

lemma be64_id: "a < 2 ^ 63 \<Longrightarrow> b < 2 ^ 63 \<Longrightarrow>
    int64 (be64 (be_bytes 8 a @ be_bytes 8 b)) = int a \<and> int64 (be64 (drop 8 (be_bytes 8 a @ be_bytes 8 b))) = int b"
  by (simp add: be64_def int64_small)

lemma stream_node_enc:
  assumes "nodeS_valid n"
  shows "stream_node key ((str_enc (nd_key n) @ str_enc (nd_lp n)) @ t) = Inr (node_cmds key n, t)"
proof -
  have v: "str_valid (nd_key n)" "str_value (nd_key n) = be_bytes 8 (nd_ms n) @ be_bytes 8 (nd_seq n)"
    "nd_ms n < 2 ^ 63" "nd_seq n < 2 ^ 63" "holds_lp (nd_lp n) (node_elements n)" "\<forall>x \<in> set (nd_entries n). entry_ok n x"
    using assms by (auto simp: nodeS_valid_def)
  have small: "length (node_elements n) \<le> 65535" using v(5) by (simp add: holds_lp_def)
  have le: "length (nd_entries n) \<le> length (concat (map entry_elements (nd_entries n)))"
    by (rule entry_elements_len)
  have lv: "length (live (nd_entries n)) \<le> length (nd_entries n)" by (simp add: live_def)
  have rng: "int64_range (int (length (live (nd_entries n))))" "int64_range (int (length (nd_fields n)))"
    "int64_range (int (length (nd_entries n)) - int (length (live (nd_entries n))))"
    using small le lv by (auto simp: int64_range_def node_elements_def)
  have z: "Itoa 0 = ''0''" by code_simp
  have "stream_elements key (int (nd_ms n)) (int (nd_seq n)) (map lpe_text (node_elements n)) = Inr (node_cmds key n)"
    using stream_entries_text [OF v(6), of key "[]"]
    by (simp add: stream_elements_def node_elements_def nextInteger_text rng next_slice_append node_cmds_def z del: map_concat)
  then show ?thesis
    using v be64_id [OF v(3,4)]
    by (simp add: stream_node_def ReadString_str_enc ReadListpack_holds liftR_def)
qed

text \<open>Consumer groups: pending entries with delivery time and count, and the consumers that own them.\<close>

record srcPending =
  p_ms :: nat
  p_seq :: nat
  p_time :: nat
  p_count :: nat

record srcConsumer =
  c_name :: rdbStr
  c_seen :: nat
  c_active :: nat
  c_pel :: "srcPending list"

record srcGroup =
  gr_name :: rdbStr
  gr_ms :: nat
  gr_seq :: nat
  gr_read :: nat
  gr_pel :: "srcPending list"
  gr_consumers :: "srcConsumer list"

record srcStream =
  s_nodes :: "srcNode list"
  s_length :: nat
  s_ms :: nat
  s_seq :: nat
  s_meta :: "nat list"
  s_groups :: "srcGroup list"

definition raw_id :: "srcPending \<Rightarrow> string" where
  "raw_id p = be_bytes 8 (p_ms p) @ be_bytes 8 (p_seq p)"

definition pending_enc :: "srcPending \<Rightarrow> string" where
  "pending_enc p = raw_id p @ le_bytes 8 (p_time p) @ enc_len (p_count p)"

definition consumer_enc :: "nat \<Rightarrow> srcConsumer \<Rightarrow> string" where
  "consumer_enc tb c = str_enc (c_name c) @ le_bytes 8 (c_seen c) @
     (if tb \<ge> 21 then le_bytes 8 (c_active c) else []) @ seq_enc raw_id (c_pel c)"

definition group_enc :: "nat \<Rightarrow> srcGroup \<Rightarrow> string" where
  "group_enc tb g = str_enc (gr_name g) @ enc_len (gr_ms g) @ enc_len (gr_seq g) @
     (if tb \<ge> 19 then enc_len (gr_read g) else []) @ seq_enc pending_enc (gr_pel g) @
     seq_enc (consumer_enc tb) (gr_consumers g)"

definition stream_enc :: "nat \<Rightarrow> srcStream \<Rightarrow> string" where
  "stream_enc tb s = seq_enc (\<lambda>n. str_enc (nd_key n) @ str_enc (nd_lp n)) (s_nodes s) @ enc_len (s_length s) @
     enc_len (s_ms s) @ enc_len (s_seq s) @ (if tb \<ge> 19 then concat (map enc_len (s_meta s)) else []) @
     seq_enc (group_enc tb) (s_groups s)"

definition pending_ok :: "srcPending \<Rightarrow> bool" where
  "pending_ok p \<longleftrightarrow> p_ms p < 2 ^ 64 \<and> p_seq p < 2 ^ 64 \<and> p_time p < 2 ^ 64 \<and> p_count p < 2 ^ 64"

definition consumer_ok :: "srcGroup \<Rightarrow> srcConsumer \<Rightarrow> bool" where
  "consumer_ok g c \<longleftrightarrow> str_valid (c_name c) \<and> c_seen c < 2 ^ 64 \<and> c_active c < 2 ^ 64 \<and> length (c_pel c) < 2 ^ 63 \<and>
     set (c_pel c) \<subseteq> set (gr_pel g)"

definition group_ok :: "srcGroup \<Rightarrow> bool" where
  "group_ok g \<longleftrightarrow> str_valid (gr_name g) \<and> gr_ms g < 2 ^ 64 \<and> gr_seq g < 2 ^ 64 \<and> gr_read g < 2 ^ 64 \<and>
     length (gr_pel g) < 2 ^ 63 \<and> (\<forall>p \<in> set (gr_pel g). pending_ok p) \<and>
     distinct (map (\<lambda>p. (p_ms p, p_seq p)) (gr_pel g)) \<and>
     length (gr_consumers g) < 2 ^ 63 \<and> (\<forall>c \<in> set (gr_consumers g). consumer_ok g c)"

definition stream_ok :: "srcStream \<Rightarrow> bool" where
  "stream_ok s \<longleftrightarrow> length (s_nodes s) < 2 ^ 63 \<and> (\<forall>n \<in> set (s_nodes s). nodeS_valid n) \<and>
     s_length s < 2 ^ 64 \<and> s_ms s < 2 ^ 64 \<and> s_seq s < 2 ^ 64 \<and> length (s_meta s) = 5 \<and> (\<forall>x \<in> set (s_meta s). x < 2 ^ 64) \<and>
     length (s_groups s) < 2 ^ 63 \<and> (\<forall>g \<in> set (s_groups s). group_ok g)"

definition claim_cmd :: "string \<Rightarrow> srcGroup \<Rightarrow> srcConsumer \<Rightarrow> srcPending \<Rightarrow> redisCmd" where
  "claim_cmd key g c p = [''xclaim'', key, str_value (gr_name g), str_value (c_name c), ''0'', uid_text (p_ms p) (p_seq p),
     ''TIME'', FormatUint (p_time p), ''RETRYCOUNT'', FormatUint (p_count p), ''JUSTID'', ''FORCE'']"

definition group_cmds :: "string \<Rightarrow> srcGroup \<Rightarrow> redisCmd list" where
  "group_cmds key g = [''XGROUP'', ''CREATE'', key, str_value (gr_name g), uid_text (gr_ms g) (gr_seq g)] #
     concat (map (\<lambda>c. map (claim_cmd key g c) (c_pel c)) (gr_consumers g))"

definition stream_cmds :: "string \<Rightarrow> srcStream \<Rightarrow> redisCmd list" where
  "stream_cmds key s = [''del'', key] # concat (map (node_cmds key) (s_nodes s)) @
     (if s_nodes s = [] then [[''xadd'', key, ''MAXLEN'', ''0'', ''0-1'', ''x'', ''y'']] else []) @
     [[''xsetid'', key, uid_text (s_ms s) (s_seq s)]] @ concat (map (group_cmds key) (s_groups s))"

lemma FormatUint_inj: "a \<le> maxUint64 \<Longrightarrow> b \<le> maxUint64 \<Longrightarrow> FormatUint a = FormatUint b \<Longrightarrow> a = b"
  by (metis ParseUint_FormatUint sum.inject(2))

lemma uid_text_inj:
  assumes "uid_text a b = uid_text c d" "a < 2 ^ 64" "b < 2 ^ 64" "c < 2 ^ 64" "d < 2 ^ 64"
  shows "a = c" "b = d"
proof -
  have tw: "takeWhile is_digit (uid_text x y) = FormatUint x" "drop (Suc (length (FormatUint x))) (uid_text x y) = FormatUint y"
    for x y using FormatUint_digits [of x] by (auto simp: uid_text_def takeWhile_append is_digit_def)
  show "a = c" using assms tw(1) [of a b] tw(1) [of c d] by (intro FormatUint_inj) (auto simp: maxUint64_def)
  with assms tw(2) [of a b] tw(2) [of c d] show "b = d" by (intro FormatUint_inj) (auto simp: maxUint64_def)
qed

lemma readRawId_enc: "pending_ok p \<Longrightarrow> readRawId (raw_id p @ t) = Inr (uid_text (p_ms p) (p_seq p), t)"
  by (simp add: readRawId_def mapR_def bindR_def ReadBytes_def raw_id_def be64_def pending_ok_def)

lemma readId_enc: "ms < 2 ^ 64 \<Longrightarrow> sq < 2 ^ 64 \<Longrightarrow> readId (enc_len ms @ enc_len sq @ t) = Inr (uid_text ms sq, t)"
  by (simp add: readId_def ReadLength_enc)

lemma pel_entry_enc:
  "pending_ok p \<Longrightarrow> pel_entry (pending_enc p @ t) = Inr ((uid_text (p_ms p) (p_seq p), p_time p, p_count p), t)"
  by (simp add: pel_entry_def pending_enc_def readRawId_enc) (simp add: pending_ok_def ReadLength_enc)

lemma pel_of_lookup:
  assumes "\<forall>p \<in> set ps. pending_ok p" "distinct (map (\<lambda>p. (p_ms p, p_seq p)) ps)" "p \<in> set ps"
  shows "pel_of (map (\<lambda>p. (uid_text (p_ms p) (p_seq p), p_time p, p_count p)) ps) (uid_text (p_ms p) (p_seq p))
    = Some (p_time p, p_count p)"
proof -
  have "distinct (map (\<lambda>p. uid_text (p_ms p) (p_seq p)) ps)"
    unfolding distinct_map
  proof
    show "distinct ps" using assms(2) by (simp add: distinct_map)
    show "inj_on (\<lambda>p. uid_text (p_ms p) (p_seq p)) (set ps)"
    proof (rule inj_onI)
      fix p q assume pq: "p \<in> set ps" "q \<in> set ps" "uid_text (p_ms p) (p_seq p) = uid_text (p_ms q) (p_seq q)"
      then have "pending_ok p" "pending_ok q" using assms(1) by auto
      then have "(p_ms p, p_seq p) = (p_ms q, p_seq q)" using uid_text_inj [OF pq(3)] by (auto simp: pending_ok_def)
      with assms(2) pq show "p = q" by (auto simp: distinct_map inj_on_def)
    qed
  qed
  with assms(3) show ?thesis
    unfolding pel_of_def by (intro map_of_is_SomeI) (auto simp: comp_def rev_map [symmetric])
qed

lemma stream_consumer_enc:
  assumes "group_ok g" "consumer_ok g c"
  shows "stream_consumer key tb (str_value (gr_name g))
      (pel_of (map (\<lambda>p. (uid_text (p_ms p) (p_seq p), p_time p, p_count p)) (gr_pel g))) (consumer_enc tb c @ t)
    = Inr (map (claim_cmd key g c) (c_pel c), t)"
proof -
  have p: "pending_ok p" "p \<in> set (gr_pel g)" if "p \<in> set (c_pel c)" for p
    using assms that by (auto simp: group_ok_def consumer_ok_def)
  have "counted readRawId (seq_enc raw_id (c_pel c) @ t) = Inr (map (\<lambda>p. uid_text (p_ms p) (p_seq p)) (c_pel c), t)"
    by (rule counted_enc) (use assms p in \<open>auto simp: consumer_ok_def readRawId_enc\<close>)
  moreover have "map (xclaim key (str_value (gr_name g)) (str_value (c_name c))
      (pel_of (map (\<lambda>p. (uid_text (p_ms p) (p_seq p), p_time p, p_count p)) (gr_pel g))))
      (map (\<lambda>p. uid_text (p_ms p) (p_seq p)) (c_pel c)) = map (claim_cmd key g c) (c_pel c)"
    using assms(1) p(2) by (auto simp: xclaim_def claim_cmd_def group_ok_def pel_of_lookup)
  ultimately show ?thesis
    using assms(2) by (simp add: stream_consumer_def consumer_enc_def ReadString_str_enc consumer_ok_def)
qed

lemma skip_lengths_enc:
  "\<forall>x \<in> set xs. x < 2 ^ 64 \<Longrightarrow> n = length xs \<Longrightarrow> skip_lengths n (concat (map enc_len xs) @ t) = Inr ((), t)"
  using timesR_enc [of xs ReadLength enc_len id t] by (simp add: skip_lengths_def ReadLength_enc)

lemma stream_group_enc:
  assumes "group_ok g"
  shows "stream_group key tb (group_enc tb g @ t) = Inr (group_cmds key g, t)"
proof -
  have pel: "counted pel_entry (seq_enc pending_enc (gr_pel g) @ s) =
      Inr (map (\<lambda>p. (uid_text (p_ms p) (p_seq p), p_time p, p_count p)) (gr_pel g), s)" for s
    by (rule counted_enc) (use assms in \<open>auto simp: group_ok_def pel_entry_enc\<close>)
  have con: "counted (stream_consumer key tb (str_value (gr_name g))
      (pel_of (map (\<lambda>p. (uid_text (p_ms p) (p_seq p), p_time p, p_count p)) (gr_pel g))))
      (seq_enc (consumer_enc tb) (gr_consumers g) @ t) = Inr (map (\<lambda>c. map (claim_cmd key g c) (c_pel c)) (gr_consumers g), t)"
    by (rule counted_enc) (use assms in \<open>auto simp: group_ok_def stream_consumer_enc [OF assms]\<close>)
  have skip: "skip_lengths (if tb \<ge> 19 then 1 else 0) ((if tb \<ge> 19 then enc_len (gr_read g) else []) @ s) = Inr ((), s)" for s
    using skip_lengths_enc [of "[gr_read g]" 1 s] skip_lengths_enc [of "[]" 0 s] assms by (auto simp: group_ok_def)
  show ?thesis
    using assms
    by (simp add: stream_group_def group_enc_def ReadString_str_enc readId_enc group_ok_def skip pel con group_cmds_def)
qed

text \<open>
  A stream is rewritten completely, in all three of its versions: one \<^verbatim>\<open>xadd\<close> for every entry that is
  not deleted, in order, with its absolute id and its fields (its own, or those of the master
  entry), then \<^verbatim>\<open>xsetid\<close> with the last id, then every consumer group with one \<^verbatim>\<open>xclaim\<close> per
  pending entry of each consumer, carrying the delivery time and count of the group's
  pending list.  The rewrite consumes exactly the encoding.
\<close>

theorem Rewrite_stream:
  assumes "stream_ok s" "typeByte \<in> {15, 19, 21}"
  shows "value_cmds env typeByte key isValkey (stream_enc typeByte s @ t) = Inr (stream_cmds key s, t)"
proof -
  let ?tb = typeByte
  define k where "k = (if ?tb \<ge> 19 then 5 else 0 :: nat)"
  define meta where "meta = (if ?tb \<ge> 19 then concat (map enc_len (s_meta s)) else [])"
  have len: "length (s_nodes s) < 2 ^ 63" "length (s_nodes s) < 2 ^ 64" using assms(1) by (auto simp: stream_ok_def)
  have nodes: "timesR (length (s_nodes s)) (stream_node key)
      (concat (map (\<lambda>n. str_enc (nd_key n) @ str_enc (nd_lp n)) (s_nodes s)) @ r) = Inr (map (node_cmds key) (s_nodes s), r)" for r
    by (rule timesR_enc) (use assms(1) in \<open>auto simp: stream_ok_def stream_node_enc [simplified]\<close>)
  have groups: "counted (stream_group key ?tb) (seq_enc (group_enc ?tb) (s_groups s) @ t) = Inr (map (group_cmds key) (s_groups s), t)"
    by (rule counted_enc) (use assms(1) in \<open>auto simp: stream_ok_def stream_group_enc\<close>)
  have skip: "skip_lengths k (meta @ r) = Inr ((), r)" for r
    using skip_lengths_enc [of "s_meta s" 5 r] skip_lengths_enc [of "[]" 0 r] assms(1)
    by (auto simp: stream_ok_def k_def meta_def)
  have one: "skip_lengths (Suc 0) (enc_len (s_length s) @ r) = Inr ((), r)" for r
    using skip_lengths_enc [of "[s_length s]" "Suc 0" r] assms(1) by (simp add: stream_ok_def)
  have "s_ms s < 2 ^ 64" "s_seq s < 2 ^ 64" using assms(1) by (auto simp: stream_ok_def)
  then have "readStream key ?tb (stream_enc ?tb s @ t) = Inr (tl (stream_cmds key s), t)"
    unfolding readStream_def stream_enc_def k_def [symmetric] meta_def [symmetric] seq_enc_def [of _ "s_nodes s"] append_assoc
    by (simp add: ReadLength_enc [OF len(2)] int64_small [OF len(1)] nodes one readId_enc skip groups stream_cmds_def)
  then show ?thesis
    using assms(2) by (auto simp: value_cmds_def ParseObject_def stream_Rewrite_def after_del_def stream_cmds_def)
qed

definition stream0 :: srcStream where
  "stream0 = (let n = \<lparr>nd_key = Raw (be_bytes 8 1000 @ be_bytes 8 0), nd_lp = Raw [], nd_ms = 1000, nd_seq = 0,
       nd_fields = [LpStr ''f''], nd_entries =
         [\<lparr>x_deleted = False, x_ms = 5, x_seq = 1, x_args = Same [LpStr ''v''], x_lpcount = 4\<rparr>,
          \<lparr>x_deleted = True, x_ms = 6, x_seq = 0, x_args = Own [(LpStr ''g'', LpInt 1)], x_lpcount = 6\<rparr>]\<rparr>;
     p = \<lparr>p_ms = 1005, p_seq = 1, p_time = 77, p_count = 2\<rparr>
   in \<lparr>s_nodes = [n\<lparr>nd_lp := Raw (lp_enc 0 (node_elements n))\<rparr>], s_length = 1, s_ms = 1006, s_seq = 0,
       s_meta = [1005, 1, 1006, 0, 2], s_groups = [\<lparr>gr_name = Raw ''grp'', gr_ms = 1005, gr_seq = 1, gr_read = 1, gr_pel = [p],
         gr_consumers = [\<lparr>c_name = Raw ''bob'', c_seen = 9, c_active = 9, c_pel = [p]\<rparr>]\<rparr>]\<rparr>)"

theorem Rewrite_stream_witness:
  "value_cmds env0 19 ''s'' False (stream_enc 19 stream0 @ ''rest'') =
     Inr ([[''del'', ''s''], [''xadd'', ''s'', ''1005-1'', ''f'', ''v''], [''xsetid'', ''s'', ''1006-0''],
       [''XGROUP'', ''CREATE'', ''s'', ''grp'', ''1005-1''],
       [''xclaim'', ''s'', ''grp'', ''bob'', ''0'', ''1005-1'', ''TIME'', ''77'', ''RETRYCOUNT'', ''2'', ''JUSTID'', ''FORCE'']],
       ''rest'')"
proof -
  have ok: "stream_ok stream0"
    by (simp add: stream_ok_def stream0_def Let_def nodeS_valid_def entry_ok_def int64_range_def group_ok_def pending_ok_def
        consumer_ok_def holds_lp_def node_elements_def live_def entry_elements_def lp_enc_def lpe_enc_def lp_backlen_def twos_def)
      (rule exI, rule refl)
  have cmds: "stream_cmds ''s'' stream0 = [[''del'', ''s''], [''xadd'', ''s'', ''1005-1'', ''f'', ''v''], [''xsetid'', ''s'', ''1006-0''],
       [''XGROUP'', ''CREATE'', ''s'', ''grp'', ''1005-1''],
       [''xclaim'', ''s'', ''grp'', ''bob'', ''0'', ''1005-1'', ''TIME'', ''77'', ''RETRYCOUNT'', ''2'', ''JUSTID'', ''FORCE'']]"
  proof -
    have "FormatUint 1005 = ''1005''" "FormatUint 1006 = ''1006''" "FormatUint (Suc 0) = ''1''" "FormatUint 0 = ''0''"
      "FormatUint 77 = ''77''" "FormatUint 2 = ''2''" "Itoa 1005 = ''1005''" "Itoa 1 = ''1''" by code_simp+
    then show ?thesis
      by (simp add: stream_cmds_def stream0_def Let_def node_cmds_def live_def id_text_def uid_text_def group_cmds_def claim_cmd_def)
  qed
  show ?thesis unfolding cmds [symmetric] by (rule Rewrite_stream [OF ok]) simp
qed

end
