(* ===== verification/UniqueQueue.thy ===== *)
theory UniqueQueue
  imports GoLib
begin

text \<open>
  \<^verbatim>\<open>internal/utils/UniqueQueue.go\<close>: the queue of keys to dump, which does not hold a key twice.  Any
  number of goroutines call \<^verbatim>\<open>Put\<close>; one goroutine moves items from the buffered inner channel to the
  channel \<^verbatim>\<open>Ch\<close>, from which the consumer takes them.

  Between locking and sending a \<^verbatim>\<open>Put\<close> is not atomic, nor is the mover between taking an item, removing
  it from the set and handing it on.  Every atomic action is a rule of \<open>uq_step\<close>.  The field \<open>uq_due\<close> is
  history: the items put and not handed to the consumer since.
\<close>

datatype 'a mover = Ready | Taken 'a | Removed 'a | Ended

record 'a uqueue =
  innerChannel :: "'a list"
  inner_closed :: bool
  uq_set :: "'a set"
  uq_putting :: "'a list"
  uq_mover :: "'a mover"
  uq_out :: "'a list"
  uq_fault :: "fault option"
  uq_due :: "'a set"

definition NewUniqueQueue :: "'a uqueue" where
  "NewUniqueQueue = \<lparr>innerChannel = [], inner_closed = False, uq_set = {}, uq_putting = [], uq_mover = Ready,
     uq_out = [], uq_fault = None, uq_due = {}\<rparr>"

text \<open>\<open>put\<close> is the locked part of \<^verbatim>\<open>Put\<close>, \<open>send\<close> its send on the inner channel; \<open>uq_out\<close> is what the consumer got.\<close>

inductive uq_step :: "nat \<Rightarrow> 'a uqueue \<Rightarrow> 'a uqueue \<Rightarrow> bool" for cap where
  put_again: "x \<in> uq_set q \<Longrightarrow> uq_step cap q (q\<lparr>uq_due := insert x (uq_due q)\<rparr>)"
| put: "x \<notin> uq_set q \<Longrightarrow> uq_step cap q (q\<lparr>uq_set := insert x (uq_set q), uq_putting := uq_putting q @ [x],
      uq_due := insert x (uq_due q)\<rparr>)"
| send: "\<lbrakk>uq_putting q = xs @ x # ys; \<not> inner_closed q; length (innerChannel q) < cap\<rbrakk>
    \<Longrightarrow> uq_step cap q (q\<lparr>uq_putting := xs @ ys, innerChannel := innerChannel q @ [x]\<rparr>)"
| send_closed: "\<lbrakk>uq_putting q = xs @ x # ys; inner_closed q\<rbrakk>
    \<Longrightarrow> uq_step cap q (q\<lparr>uq_fault := Some (RuntimePanic ''send on closed channel'')\<rparr>)"
| move: "\<lbrakk>uq_mover q = Ready; innerChannel q = x # xs\<rbrakk>
    \<Longrightarrow> uq_step cap q (q\<lparr>innerChannel := xs, uq_mover := Taken x\<rparr>)"
| remove: "uq_mover q = Taken x \<Longrightarrow> uq_step cap q (q\<lparr>uq_set := uq_set q - {x}, uq_mover := Removed x\<rparr>)"
| hand: "uq_mover q = Removed x
    \<Longrightarrow> uq_step cap q (q\<lparr>uq_out := uq_out q @ [x], uq_mover := Ready, uq_due := uq_due q - {x}\<rparr>)"
| mover_ends: "\<lbrakk>uq_mover q = Ready; innerChannel q = []; inner_closed q\<rbrakk> \<Longrightarrow> uq_step cap q (q\<lparr>uq_mover := Ended\<rparr>)"
| close: "\<not> inner_closed q \<Longrightarrow> uq_step cap q (q\<lparr>inner_closed := True\<rparr>)"
| close_again: "inner_closed q \<Longrightarrow> uq_step cap q (q\<lparr>uq_fault := Some (RuntimePanic ''close of closed channel'')\<rparr>)"

inductive uq_reachable :: "nat \<Rightarrow> 'a uqueue \<Rightarrow> bool" for cap where
  init: "uq_reachable cap NewUniqueQueue"
| step: "uq_reachable cap q \<Longrightarrow> uq_fault q = None \<Longrightarrow> uq_step cap q q' \<Longrightarrow> uq_reachable cap q'"

definition uq_Len :: "'a uqueue \<Rightarrow> nat" where
  "uq_Len q = length (innerChannel q)"

section \<open>The invariant\<close>

text \<open>Where an item is that is in the set, and where one is that is due.\<close>

definition held :: "'a uqueue \<Rightarrow> 'a list" where
  "held q = innerChannel q @ uq_putting q @ (case uq_mover q of Taken x \<Rightarrow> [x] | _ \<Rightarrow> [])"

definition leaving :: "'a uqueue \<Rightarrow> 'a set" where
  "leaving q = (case uq_mover q of Removed x \<Rightarrow> {x} | _ \<Rightarrow> {})"

definition uq_inv :: "'a uqueue \<Rightarrow> bool" where
  "uq_inv q \<longleftrightarrow> distinct (held q) \<and> uq_set q = set (held q) \<and> uq_due q \<subseteq> uq_set q \<union> leaving q \<and>
     (uq_mover q = Ended \<longrightarrow> innerChannel q = [] \<and> inner_closed q)"

lemma uq_inv_step: "uq_step cap q q' \<Longrightarrow> uq_inv q \<Longrightarrow> uq_inv q'"
  by (induction rule: uq_step.induct) (auto simp: uq_inv_def held_def leaving_def split: mover.splits)

interpretation uq: transition_system NewUniqueQueue "\<lambda>q q'. uq_fault q = None \<and> uq_step cap q q'" "uq_reachable cap" for cap
proof
  show "I q" if "uq_reachable cap q" "I NewUniqueQueue"
    "\<And>q q'. \<lbrakk>uq_reachable cap q; I q; uq_fault q = None \<and> uq_step cap q q'\<rbrakk> \<Longrightarrow> I q'" for q I
    using that by (induction rule: uq_reachable.induct) blast+
qed (auto intro: uq_reachable.intros)

lemma uq_inv_reachable: "uq_reachable cap q \<Longrightarrow> uq_inv q"
  by (erule uq.invariant, simp add: uq_inv_def held_def leaving_def NewUniqueQueue_def) (blast intro: uq_inv_step)

text \<open>
  No \<^verbatim>\<open>Put\<close> is lost, though it drops an item that is already in the queue: however the callers and the
  mover interleave, an item put since it was last handed to the consumer is still on its way to the
  consumer (waiting to be sent, in the channel, or in the mover's hands), so what the consumer then
  reads is newer than the \<^verbatim>\<open>Put\<close>; the channel never holds an item twice; and when the mover has ended
  nothing is missing but what callers still hold, whose send then fails.
\<close>

theorem UniqueQueue_loses_nothing:
  assumes "uq_reachable cap q"
  shows "uq_due q \<subseteq> set (held q) \<union> leaving q \<and> distinct (innerChannel q @ uq_putting q) \<and>
    (uq_mover q = Ended \<longrightarrow> uq_due q \<subseteq> set (uq_putting q))"
  using uq_inv_reachable [OF assms] by (auto simp: uq_inv_def held_def leaving_def)

theorem UniqueQueue_loses_nothing_witness:
  "\<exists>q. uq_reachable 1 q \<and> uq_due q = {7 :: nat} \<and> held q = [7] \<and> uq_due q \<subseteq> set (held q) \<union> leaving q"
proof -
  define q1 where "q1 = (NewUniqueQueue :: nat uqueue)\<lparr>uq_set := {7}, uq_putting := [7], uq_due := {7}\<rparr>"
  have s: "uq_step 1 NewUniqueQueue q1"
    using uq_step.put [of 7 "NewUniqueQueue :: nat uqueue" 1] by (simp add: q1_def NewUniqueQueue_def)
  have r: "uq_reachable 1 q1" by (rule uq_reachable.step [OF uq_reachable.init _ s]) (simp add: NewUniqueQueue_def)
  moreover have "uq_due q1 = {7}" "held q1 = [7]" by (simp_all add: q1_def NewUniqueQueue_def held_def)
  ultimately show ?thesis using UniqueQueue_loses_nothing [OF r] by blast
qed

end
