(* ===== verification/ScanReader.thy ===== *)
theory ScanReader
  imports RdbValues RdbLoader Client UniqueQueue
begin

text \<open>
  \<^verbatim>\<open>internal/reader/scan_standalone_reader.go\<close>: the reader that walks the keys with SCAN and, if asked to,
  listens to keyspace notifications.  Keys go through the unique queue to \<^verbatim>\<open>dump\<close>, which sends DUMP, PTTL
  and perhaps TYPE for each on one connection without waiting, and \<^verbatim>\<open>restore\<close>, which takes the replies.

  Proved: the replies are matched to the right keys and databases, whatever the server answers; a value
  too long for RESTORE is rebuilt by the commands sent for it; and a deletion can overtake the copy of
  the key it deletes.

  \<^verbatim>\<open>scan_cluster_reader.go\<close> runs one such reader per node.
\<close>

record scanOptions =
  rdb_opts :: rdbOptions
  KSN :: bool
  DBS :: "int list"
  SkipUnknownType :: "string list"

type_synonym dbKey = "int \<times> string"

section \<open>scan\<close>

text \<open>The loop over the pages of one database: the replies of SCAN until the cursor is zero.\<close>

fun scan_pages :: "int \<Rightarrow> (rerr + reply) list \<Rightarrow> (dbKey list \<times> (rerr + reply) list) res" where
  "scan_pages db [] = Inl (LogPanicf ''receive failed'')"
| "scan_pages db (r # rs) = (case client_Scan r of Inl f \<Rightarrow> Inl f
     | Inr (cursor, keys) \<Rightarrow>
         if cursor = 0 then Inr (map (Pair db) keys, rs)
         else map_sum id (\<lambda>(ks, rest). (map (Pair db) keys @ ks, rest)) (scan_pages db rs))"

text \<open>The loop over the databases: the reply of SELECT, then the pages.\<close>

fun scan_dbs :: "int list \<Rightarrow> (rerr + reply) list \<Rightarrow> dbKey list res" where
  "scan_dbs [] rs = Inr []"
| "scan_dbs (db # dbs) [] = Inl (LogPanicf ''receive failed'')"
| "scan_dbs (db # dbs) (r # rs) =
     (if db \<noteq> 0 \<and> r \<noteq> Inr (RStr ''OK'') then Inl (LogPanicf ''scanStandaloneReader select db failed'')
      else (case scan_pages db rs of Inl f \<Rightarrow> Inl f
        | Inr (ks, rest) \<Rightarrow> map_sum id ((@) ks) (scan_dbs dbs rest)))"

definition scan_databases :: "scanOptions \<Rightarrow> string \<Rightarrow> int list" where
  "scan_databases opt keyspace = (if DBS opt = [] then ParseDBs keyspace else DBS opt)"

section \<open>dump and restore\<close>

definition typed :: "scanOptions \<Rightarrow> bool" where
  "typed opt \<longleftrightarrow> SkipUnknownType opt \<noteq> []"

fun dump_loop :: "scanOptions \<Rightarrow> int \<Rightarrow> dbKey list \<Rightarrow> string list list" where
  "dump_loop opt nowDb [] = []"
| "dump_loop opt nowDb ((db, key) # items) =
     (if nowDb \<noteq> db then [[''SELECT'', Itoa db]] else []) @ [[''DUMP'', key], [''PTTL'', key]] @
     (if typed opt then [[''TYPE'', key]] else []) @ dump_loop opt db items"

text \<open>What \<^verbatim>\<open>restore\<close> makes of the replies to DUMP and PTTL.\<close>

definition restore_value :: "scanOptions \<Rightarrow> bool \<Rightarrow> int \<Rightarrow> string \<Rightarrow> string \<Rightarrow> int \<Rightarrow> entry list res" where
  "restore_value opt vk db key dmp pttl =
     (if length dmp > TargetRedisProtoMaxBulkLen (rdb_opts opt) then
        (if length dmp < 11 then Inl (RuntimePanic ''slice bounds out of range'')
         else (case value_cmds (env (rdb_opts opt)) (of_char (hd dmp)) key vk (take (length dmp - 11) (tl dmp)) of
            Inl f \<Rightarrow> Inl f
          | Inr (cmds, _) \<Rightarrow> Inr (map (mk_entry db) cmds @
              (if pttl \<noteq> 0 then [mk_entry db [''PEXPIRE'', key, Itoa pttl]] else []))))
      else Inr [mk_entry db ([''RESTORE'', key, Itoa pttl, dmp] @
              (if RDBRestoreCommandBehavior (rdb_opts opt) = ''rewrite'' then [''replace''] else []))])"

definition restore_replies ::
    "scanOptions \<Rightarrow> bool \<Rightarrow> int \<Rightarrow> string \<Rightarrow> rerr + reply \<Rightarrow> rerr + reply \<Rightarrow> entry list res" where
  "restore_replies opt vk db key iDump iPttl =
     (if iDump = Inl NilErr then Inr []
      else (case iDump of Inl _ \<Rightarrow> Inl (LogPanicf ''dump failed'')
        | Inr d \<Rightarrow> (case iPttl of Inl _ \<Rightarrow> Inl (LogPanicf ''pttl failed'')
          | Inr p \<Rightarrow> (case d of RStr dmp \<Rightarrow>
              (case p of RInt v \<Rightarrow>
                 (if v = -2 then Inr []
                  else restore_value opt vk db key dmp (if v = 0 then 1 else if v = -1 then 0 else v))
               | _ \<Rightarrow> Inl (LogPanicf ''unexpected type for pttl''))
             | _ \<Rightarrow> Inl (RuntimePanic ''interface conversion'')))))"

text \<open>With the reply to TYPE, if it was asked for.\<close>

definition restore_item :: "scanOptions \<Rightarrow> bool \<Rightarrow> int \<Rightarrow> string \<Rightarrow> rerr + reply \<Rightarrow> rerr + reply \<Rightarrow>
    (rerr + reply) option \<Rightarrow> entry list res" where
  "restore_item opt vk db key iDump iPttl iType = (case iType of
     None \<Rightarrow> restore_replies opt vk db key iDump iPttl
   | Some t \<Rightarrow> (case ReceiveString t of Inl f \<Rightarrow> Inl f
      | Inr ty \<Rightarrow> if \<exists>s \<in> set (SkipUnknownType opt). EqualFold ty s then Inr []
                  else restore_replies opt vk db key iDump iPttl))"

text \<open>How the loop of \<^verbatim>\<open>restore\<close> ends: the channel is closed, the process stops, or a reply is awaited.\<close>

datatype restore_end = RestoreDone "(rerr + reply) list" | RestoreStops fault | RestoreWaits

fun restore_loop :: "scanOptions \<Rightarrow> bool \<Rightarrow> int \<Rightarrow> dbKey list \<Rightarrow> (rerr + reply) list \<Rightarrow> entry list \<times> restore_end" where
  "restore_loop opt vk nowDb [] rs = ([], RestoreDone rs)"
| "restore_loop opt vk nowDb ((db, key) # items) rs =
     (let cont = (\<lambda>d p t rest. case restore_item opt vk db key d p t of Inl f \<Rightarrow> ([], RestoreStops f)
            | Inr es \<Rightarrow> (case restore_loop opt vk db items rest of (es', fin) \<Rightarrow> (es @ es', fin)));
          replies = (\<lambda>rs. if typed opt then (case rs of d # p # t # rest \<Rightarrow> cont d p (Some t) rest | _ \<Rightarrow> ([], RestoreWaits))
            else (case rs of d # p # rest \<Rightarrow> cont d p None rest | _ \<Rightarrow> ([], RestoreWaits)))
      in if nowDb = db then replies rs
         else (case rs of [] \<Rightarrow> ([], RestoreWaits)
           | r # rest \<Rightarrow> if r \<noteq> Inr (RStr ''OK'') then ([], RestoreStops (LogPanicf ''scanStandaloneReader select db failed''))
                         else replies rest))"

section \<open>The replies belong to the keys\<close>

text \<open>
  A server that answers the commands of one connection in order.  It keeps the database selected on
  the connection; its answers may change from one command to the next, as its data does.
\<close>

record server =
  srv_dump :: "nat \<Rightarrow> dbKey \<Rightarrow> rerr + reply"
  srv_pttl :: "nat \<Rightarrow> dbKey \<Rightarrow> rerr + reply"
  srv_type :: "nat \<Rightarrow> dbKey \<Rightarrow> rerr + reply"

fun answers :: "server \<Rightarrow> nat \<Rightarrow> int \<Rightarrow> string list list \<Rightarrow> (rerr + reply) list" where
  "answers srv i db [] = []"
| "answers srv i db (c # cs) =
     (if hd c = ''SELECT'' then
        (case Atoi (c ! 1) of Inr n \<Rightarrow> Inr (RStr ''OK'') # answers srv (Suc i) n cs
         | Inl _ \<Rightarrow> Inl (RedisError ''ERR invalid DB index'') # answers srv (Suc i) db cs)
      else (if hd c = ''DUMP'' then srv_dump srv i (db, c ! 1)
            else if hd c = ''PTTL'' then srv_pttl srv i (db, c ! 1) else srv_type srv i (db, c ! 1))
           # answers srv (Suc i) db cs)"

text \<open>The keys one by one, each asked about on its own, at the times at which its commands are executed.\<close>

fun one_by_one :: "scanOptions \<Rightarrow> bool \<Rightarrow> server \<Rightarrow> nat \<Rightarrow> int \<Rightarrow> dbKey list \<Rightarrow> entry list \<times> fault option" where
  "one_by_one opt vk srv i nowDb [] = ([], None)"
| "one_by_one opt vk srv i nowDb ((db, key) # items) =
     (let i' = (if nowDb = db then i else Suc i) in
      case restore_item opt vk db key (srv_dump srv i' (db, key)) (srv_pttl srv (Suc i') (db, key))
             (if typed opt then Some (srv_type srv (Suc (Suc i')) (db, key)) else None) of
        Inl f \<Rightarrow> ([], Some f)
      | Inr es \<Rightarrow> (case one_by_one opt vk srv (i' + (if typed opt then 3 else 2)) db items of (es', fin) \<Rightarrow> (es @ es', fin)))"

definition db_ok :: "dbKey \<Rightarrow> bool" where
  "db_ok k \<longleftrightarrow> - maxInt64 - 1 \<le> fst k \<and> fst k \<le> maxInt64"

lemma restore_loop_aligned:
  assumes "\<forall>k \<in> set items. db_ok k"
  shows "restore_loop opt vk nowDb items (answers srv i nowDb (dump_loop opt nowDb items)) =
    (case one_by_one opt vk srv i nowDb items of (es, fin) \<Rightarrow>
       (es, case fin of None \<Rightarrow> RestoreDone [] | Some f \<Rightarrow> RestoreStops f))"
  using assms
proof (induction opt nowDb items arbitrary: i rule: dump_loop.induct)
  case (2 opt nowDb db key items)
  have db: "Atoi (Itoa db) = Inr db" using 2(2) by (simp add: db_ok_def Atoi_Itoa)
  note IH = 2(1) [of "(if nowDb = db then i else Suc i) + (if typed opt then 3 else 2)"]
  show ?case using 2(2) IH
    by (cases "nowDb = db"; cases "typed opt") (auto simp: db Let_def numeral_eq_Suc split: sum.splits prod.splits)
qed simp

text \<open>
  The pipelined dump never confuses keys: for every list of keys in any databases, and for every server
  that answers one command after the other, whatever it answers and however its data changes in
  between, the entries sent are those one gets by asking for each key on its own, in its own database,
  at the time its commands are executed; on success every reply has been consumed.
\<close>

theorem scan_replies_matched:
  assumes "\<forall>k \<in> set items. db_ok k"
  shows "restore_loop opt vk 0 items (answers srv 0 0 (dump_loop opt 0 items)) =
    (case one_by_one opt vk srv 0 0 items of (es, fin) \<Rightarrow>
       (es, case fin of None \<Rightarrow> RestoreDone [] | Some f \<Rightarrow> RestoreStops f))"
  using assms by (rule restore_loop_aligned)

definition scan_opt :: scanOptions where
  "scan_opt = \<lparr>rdb_opts = opt0, KSN = True, DBS = [], SkipUnknownType = []\<rparr>"

theorem scan_replies_matched_witness:
  "restore_loop scan_opt False 0 [(0, ''a''), (3, ''b'')]
     [Inr (RStr ''dump-a''), Inr (RInt (-1)), Inr (RStr ''OK''), Inr (RStr ''dump-b''), Inr (RInt 0)] =
   ([mk_entry 0 [''RESTORE'', ''a'', ''0'', ''dump-a''], mk_entry 3 [''RESTORE'', ''b'', ''1'', ''dump-b'']], RestoreDone [])"
proof -
  let ?srv = "\<lparr>srv_dump = (\<lambda>i k. Inr (RStr (''dump-'' @ snd k))), srv_pttl = (\<lambda>i k. Inr (RInt (if fst k = 0 then -1 else 0))),
    srv_type = (\<lambda>i k. Inr RNil)\<rparr>"
  have n: "Itoa 0 = ''0''" "Itoa 1 = ''1''" "Itoa 3 = ''3''" by code_simp+
  have three: "Atoi ''3'' = Inr 3" by (simp add: parse_simps)
  have "\<forall>k \<in> set [(0, ''a''), (3, ''b'')]. db_ok k" by (simp add: db_ok_def maxInt64_def)
  from scan_replies_matched [OF this, of scan_opt False ?srv]
  show ?thesis by (simp add: scan_opt_def typed_def n three restore_item_def restore_replies_def restore_value_def opt0_def)
qed



section \<open>Notifications\<close>

text \<open>
  What \<^verbatim>\<open>subscribe\<close> makes of a notification: the deletion it sends at once, or the key for the queue.  The
  database is the first number in the channel's name.
\<close>

definition FindDigits :: "string \<Rightarrow> string" where
  "FindDigits s = takeWhile is_digit (dropWhile (\<lambda>c. \<not> is_digit c) s)"

definition subscribe_event :: "rerr + reply \<Rightarrow> (entry + dbKey) res" where
  "subscribe_event r = (case r of Inl _ \<Rightarrow> Inl (LogPanicf ''receive failed'')
     | Inr (RArr rs) \<Rightarrow>
        if length rs < 4 then Inl (RuntimePanic ''index out of range'')
        else (case (rs ! 3, rs ! 2) of (RStr key, RStr ch) \<Rightarrow>
            (case Atoi (FindDigits ch) of Inl _ \<Rightarrow> Inl (LogPanicf ''strconv.Atoi'')
             | Inr db \<Rightarrow> let ev = Split (CHR '':'') ch in
                if length ev < 2 then Inl (RuntimePanic ''index out of range'')
                else if ev ! 1 = ''del'' then Inr (Inl (mk_entry db [''DEL'', key])) else Inr (Inr (db, key)))
          | _ \<Rightarrow> Inl (RuntimePanic ''interface conversion''))
     | Inr _ \<Rightarrow> Inl (RuntimePanic ''interface conversion''))"

definition notification :: "string \<Rightarrow> dbKey \<Rightarrow> rerr + reply" where
  "notification ev k = Inr (RArr [RStr ''pmessage'', RStr ''__keyevent@*__:*'',
     RStr (''__keyevent@'' @ Itoa (fst k) @ ''__:'' @ ev), RStr (snd k)])"

text \<open>
  The reader at work on a source whose keys change: the source's data (dumps of keys without time to
  live), its notifications under way, the queue of keys, the dumps under way, and what was sent.
\<close>

record ksn =
  s_data :: "dbKey \<Rightarrow> string option"
  s_events :: "(rerr + reply) list"
  s_queue :: "dbKey list"
  s_inflight :: "(dbKey \<times> (rerr + reply) \<times> (rerr + reply)) list"
  s_sent :: "entry list"

definition ksn_init :: ksn where
  "ksn_init = \<lparr>s_data = (\<lambda>_. None), s_events = [], s_queue = [], s_inflight = [], s_sent = []\<rparr>"

inductive ksn_step :: "scanOptions \<Rightarrow> bool \<Rightarrow> ksn \<Rightarrow> ksn \<Rightarrow> bool" for opt vk where
  source_sets: "ksn_step opt vk s (s\<lparr>s_data := (s_data s)(k \<mapsto> v), s_events := s_events s @ [notification ''set'' k]\<rparr>)"
| source_deletes: "s_data s k \<noteq> None \<Longrightarrow>
    ksn_step opt vk s (s\<lparr>s_data := (s_data s)(k := None), s_events := s_events s @ [notification ''del'' k]\<rparr>)"
| receive_del: "\<lbrakk>s_events s = e # es; subscribe_event e = Inr (Inl x)\<rbrakk>
    \<Longrightarrow> ksn_step opt vk s (s\<lparr>s_events := es, s_sent := s_sent s @ [x]\<rparr>)"
| receive_key: "\<lbrakk>s_events s = e # es; subscribe_event e = Inr (Inr k)\<rbrakk>
    \<Longrightarrow> ksn_step opt vk s (s\<lparr>s_events := es, s_queue := (if k \<in> set (s_queue s) then s_queue s else s_queue s @ [k])\<rparr>)"
| ask: "s_queue s = k # ks \<Longrightarrow> ksn_step opt vk s (s\<lparr>s_queue := ks, s_inflight := s_inflight s @
      [(k, case s_data s k of None \<Rightarrow> (Inl NilErr, Inr (RInt (-2))) | Some d \<Rightarrow> (Inr (RStr d), Inr (RInt (-1))))]\<rparr>)"
| reply: "\<lbrakk>s_inflight s = ((db, key), d, p) # xs; restore_item opt vk db key d p None = Inr es\<rbrakk>
    \<Longrightarrow> ksn_step opt vk s (s\<lparr>s_inflight := xs, s_sent := s_sent s @ es\<rparr>)"

inductive ksn_reachable :: "scanOptions \<Rightarrow> bool \<Rightarrow> ksn \<Rightarrow> bool" for opt vk where
  init: "ksn_reachable opt vk ksn_init"
| step: "ksn_reachable opt vk s \<Longrightarrow> ksn_step opt vk s t \<Longrightarrow> ksn_reachable opt vk t"

text \<open>The two notifications of the run below.\<close>

lemma notification_simps:
  "subscribe_event (notification ''set'' (0, ''k'')) = Inr (Inr (0, ''k''))"
  "subscribe_event (notification ''del'' (0, ''k'')) = Inr (Inl (mk_entry 0 [''DEL'', ''k'']))"
proof -
  have "FindDigits (''__keyevent@0__:'' @ ev) = ''0''" for ev by (simp add: FindDigits_def is_digit_def)
  moreover have "Itoa 0 = ''0''" by code_simp
  moreover have "Atoi ''0'' = Inr 0" by (simp add: parse_simps)
  ultimately show "subscribe_event (notification ''set'' (0, ''k'')) = Inr (Inr (0, ''k''))"
    "subscribe_event (notification ''del'' (0, ''k'')) = Inr (Inl (mk_entry 0 [''DEL'', ''k'']))"
    by (simp_all add: subscribe_event_def notification_def Let_def)
qed

text \<open>
  A deletion can overtake the copy of the key it deletes: the notification of a deletion is sent to the
  target at once, while the dump of the same key, taken before, is still under way.  There is a run
  after which the source has no such key and nothing is left to do, but the last command sent for the
  key restores it at the target.
\<close>

theorem scan_deletion_overtakes_copy:
  "\<exists>s. ksn_reachable scan_opt False s \<and> s_data s (0, ''k'') = None \<and> s_events s = [] \<and> s_queue s = [] \<and>
     s_inflight s = [] \<and> s_sent s = [mk_entry 0 [''DEL'', ''k''], mk_entry 0 [''RESTORE'', ''k'', ''0'', ''dump'']]"
proof -
  let ?k = "(0, ''k'')" and ?r = "ksn_reachable scan_opt False"
  define s1 where "s1 = ksn_init\<lparr>s_data := [?k \<mapsto> ''dump''], s_events := [notification ''set'' ?k]\<rparr>"
  define s2 where "s2 = s1\<lparr>s_events := [], s_queue := [?k]\<rparr>"
  define s3 where "s3 = s2\<lparr>s_queue := [], s_inflight := [(?k, Inr (RStr ''dump''), Inr (RInt (-1)))]\<rparr>"
  define s4 where "s4 = s3\<lparr>s_data := Map.empty, s_events := [notification ''del'' ?k]\<rparr>"
  define s5 where "s5 = s4\<lparr>s_events := [], s_sent := [mk_entry 0 [''DEL'', ''k'']]\<rparr>"
  define s6 where "s6 = s5\<lparr>s_inflight := [], s_sent := [mk_entry 0 [''DEL'', ''k''], mk_entry 0 [''RESTORE'', ''k'', ''0'', ''dump'']]\<rparr>"
  note defs = s6_def s5_def s4_def s3_def s2_def s1_def ksn_init_def
  have "Itoa 0 = ''0''" by code_simp
  then have item: "restore_item scan_opt False 0 ''k'' (Inr (RStr ''dump'')) (Inr (RInt (-1))) None
      = Inr [mk_entry 0 [''RESTORE'', ''k'', ''0'', ''dump'']]"
    by (simp add: restore_item_def restore_replies_def restore_value_def scan_opt_def opt0_def)
  have r1: "?r s1" using ksn_reachable.step [OF ksn_reachable.init ksn_step.source_sets [of _ _ ksn_init ?k "''dump''"]]
    by (simp add: defs)
  have r2: "?r s2" using ksn_reachable.step [OF r1 ksn_step.receive_key [of s1 _ "[]" ?k]] notification_simps(1)
    by (simp add: defs)
  have r3: "?r s3" using ksn_reachable.step [OF r2 ksn_step.ask [of s2 ?k "[]"]] by (simp add: defs)
  have "(s_data s3)(?k := None) = Map.empty" by (simp add: defs fun_eq_iff)
  then have r4: "?r s4" using ksn_reachable.step [OF r3 ksn_step.source_deletes [of s3 ?k]]
    by (simp add: s4_def s3_def s2_def s1_def ksn_init_def)
  have r5: "?r s5" using ksn_reachable.step [OF r4 ksn_step.receive_del [of s4 _ "[]"]] notification_simps(2)
    by (simp add: defs)
  have "?r s6" using ksn_reachable.step [OF r5 ksn_step.reply [of s5 0 "''k''" _ _ "[]", OF _ item]] by (simp add: defs)
  then show ?thesis by (intro exI [of _ s6]) (simp add: defs)
qed

end
