(* ===== verification/WebTask.thy ===== *)
theory WebTask
  imports GoLib
begin

text \<open>
  \<^verbatim>\<open>cmd/redisshakeweb\<close>: the connections and tasks of the web service, their validation
  (\<^verbatim>\<open>connection_auth.go\<close>, the first half of \<^verbatim>\<open>redis.go\<close>) and the configuration that is generated for a run
  (\<^verbatim>\<open>config.go\<close>).

  Error messages are the constructors of a datatype.  \<^verbatim>\<open>regexp.Compile\<close> is a parameter that says which
  expressions compile; a Go map that is ranged over is an association list with different keys, in the
  order the range takes.  Proved: what normalised credentials look like, that a saved password is
  not shown and not lost, what a validated task guarantees, and which database the generated function
  sends each source database to.
\<close>

section \<open>Connections\<close>

record connection =
  c_ID :: string
  c_Name :: string
  c_Kind :: string
  c_Address :: string
  AuthMode :: string
  Username :: string
  Password :: string
  SentinelMaster :: string
  SentinelAddress :: string
  SentinelAuthMode :: string
  SentinelUsername :: string
  SentinelPassword :: string

definition no_connection :: connection where
  "no_connection = \<lparr>c_ID = [], c_Name = [], c_Kind = [], c_Address = [], AuthMode = [], Username = [], Password = [],
     SentinelMaster = [], SentinelAddress = [], SentinelAuthMode = [], SentinelUsername = [], SentinelPassword = []\<rparr>"

datatype web_error =
    AuthModeUnsupported string
  | UsernameMissing string
  | PasswordMissing string
  | ConnectionNameEmpty
  | KindUnsupported
  | SentinelMasterMissing
  | AddressInvalid
  | TaskNameEmpty
  | ConnectionsMissing
  | SameConnection
  | TargetPolicyInvalid
  | NoDB
  | DBNegative
  | ClusterSourceDB
  | ClusterTargetDB
  | TargetDBTwice
  | RegexInvalid
  | CommandInvalid

definition inferAuthMode :: "string \<Rightarrow> string \<Rightarrow> string \<Rightarrow> string" where
  "inferAuthMode mode username password =
     (if mode \<noteq> [] then mode
      else if username \<noteq> [] then (if password \<noteq> [] then ''username_password'' else ''username'')
      else if password \<noteq> [] then ''password'' else ''none'')"

definition normalizeCredentials ::
    "string \<Rightarrow> string \<Rightarrow> string \<Rightarrow> string \<Rightarrow> web_error + (string \<times> string \<times> string)" where
  "normalizeCredentials label mode0 username0 password0 =
     (let mode = inferAuthMode mode0 username0 password0;
          username = (if mode = ''password'' then [] else username0);
          password = (if mode = ''username'' then [] else password0)
      in if mode = ''none'' then Inr (mode, [], [])
         else if mode \<notin> {''password'', ''username'', ''username_password''} then Inl (AuthModeUnsupported label)
         else if mode \<noteq> ''password'' \<and> TrimSpace username = [] then Inl (UsernameMissing label)
         else if mode \<noteq> ''username'' \<and> password = [] then Inl (PasswordMissing label)
         else Inr (mode, username, password))"

definition normalizeConnectionAuth :: "connection \<Rightarrow> web_error + connection" where
  "normalizeConnectionAuth c =
     (case normalizeCredentials ''Redis'' (AuthMode c) (Username c) (Password c) of Inl e \<Rightarrow> Inl e
      | Inr (m, u, p) \<Rightarrow>
          let c' = c\<lparr>AuthMode := m, Username := u, Password := p\<rparr>
          in if c_Kind c = ''sentinel'' then
               (case normalizeCredentials ''Sentinel'' (SentinelAuthMode c) (SentinelUsername c) (SentinelPassword c) of
                  Inl e \<Rightarrow> Inl e
                | Inr (m', u', p') \<Rightarrow> Inr (c'\<lparr>SentinelAuthMode := m', SentinelUsername := u', SentinelPassword := p'\<rparr>))
             else Inr (c'\<lparr>SentinelAuthMode := ''none'', SentinelUsername := [], SentinelPassword := []\<rparr>))"

definition keeps_password :: "string \<Rightarrow> bool" where
  "keeps_password mode \<longleftrightarrow> mode = [] \<or> mode = ''password'' \<or> mode = ''username_password''"

definition prepareConnection :: "connection \<Rightarrow> connection \<Rightarrow> web_error + connection" where
  "prepareConnection c old =
     (let c1 = (if Password c = [] \<and> keeps_password (AuthMode c) then c\<lparr>Password := Password old\<rparr> else c);
          c2 = (if SentinelPassword c1 = [] \<and> keeps_password (SentinelAuthMode c1)
                then c1\<lparr>SentinelPassword := SentinelPassword old\<rparr> else c1)
      in normalizeConnectionAuth c2)"

text \<open>What the interface shows of a connection: the connection without passwords, and which it has.\<close>

definition safe :: "connection \<Rightarrow> connection \<times> bool \<times> bool" where
  "safe c = (c\<lparr>AuthMode := inferAuthMode (AuthMode c) (Username c) (Password c),
        SentinelAuthMode := inferAuthMode (SentinelAuthMode c) (SentinelUsername c) (SentinelPassword c),
        Password := [], SentinelPassword := []\<rparr>, Password c \<noteq> [], SentinelPassword c \<noteq> [])"

text \<open>
  \<^verbatim>\<open>net.SplitHostPort\<close>, as far as an error is returned: the port follows the last colon; a host in brackets
  must end right before it; any other host has no colon; no other brackets are allowed.
\<close>

definition after_last_colon :: "string \<Rightarrow> string" where
  "after_last_colon s = rev (takeWhile (\<lambda>c. c \<noteq> CHR '':'') (rev s))"

definition SplitHostPort_ok :: "string \<Rightarrow> bool" where
  "SplitHostPort_ok s \<longleftrightarrow> CHR '':'' \<in> set s \<and>
     (let port = after_last_colon s; host = take (length s - length port - 1) s
      in if hd s = CHR ''['' then
           host \<noteq> [] \<and> last host = CHR '']'' \<and> CHR '']'' \<notin> set (butlast host) \<and> CHR ''['' \<notin> set (tl host) \<and>
           CHR ''['' \<notin> set port \<and> CHR '']'' \<notin> set port
         else CHR '':'' \<notin> set host \<and> CHR ''['' \<notin> set s \<and> CHR '']'' \<notin> set s)"

definition validateConnection :: "connection \<Rightarrow> web_error option" where
  "validateConnection c = (case normalizeConnectionAuth c of Inl e \<Rightarrow> Some e
   | Inr _ \<Rightarrow>
       if TrimSpace (c_Name c) = [] then Some ConnectionNameEmpty
       else if c_Kind c \<notin> {''standalone'', ''sentinel'', ''cluster''} then Some KindUnsupported
       else if c_Kind c = ''sentinel'' \<and> SentinelMaster c = [] then Some SentinelMasterMissing
       else if \<not> SplitHostPort_ok (if c_Kind c = ''sentinel'' then SentinelAddress c else c_Address c) then Some AddressInvalid
       else None)"

section \<open>Tasks\<close>

record rules =
  AllowPrefixes :: "string list"
  BlockPrefixes :: "string list"
  AllowRegex :: "string list"
  BlockRegex :: "string list"
  AllowCommands :: "string list"
  BlockCommands :: "string list"

record task =
  t_ID :: string
  t_Name :: string
  SourceID :: string
  TargetID :: string
  DBMap :: "(string \<times> int) list"
  t_Rules :: rules
  TargetPolicy :: string

definition letter :: "char \<Rightarrow> bool" where
  "letter c \<longleftrightarrow> (let n = (of_char c :: nat) in 65 \<le> n \<and> n \<le> 90 \<or> 97 \<le> n \<and> n \<le> 122)"

definition command_name :: "string \<Rightarrow> bool" where
  "command_name s \<longleftrightarrow> s \<noteq> [] \<and> letter (hd s) \<and>
     list_all (\<lambda>c. letter c \<or> is_digit c \<or> c = CHR ''_'' \<or> c = CHR ''-'') (tl s)"

text \<open>The loop over the selected databases; \<open>n\<close> is their number, \<open>seen\<close> the target databases so far.\<close>

fun validate_dbs :: "string \<Rightarrow> string \<Rightarrow> nat \<Rightarrow> int list \<Rightarrow> (string \<times> int) list \<Rightarrow> web_error option" where
  "validate_dbs sk tk n seen [] = None"
| "validate_dbs sk tk n seen ((rawSource, targetDB) # rest) = (case Atoi rawSource of
     Inl _ \<Rightarrow> Some DBNegative
   | Inr sourceDB \<Rightarrow>
       if sourceDB < 0 \<or> targetDB < 0 then Some DBNegative
       else if sk = ''cluster'' \<and> sourceDB \<noteq> 0 then Some ClusterSourceDB
       else if tk = ''cluster'' \<and> (targetDB \<noteq> 0 \<or> n \<noteq> 1) then Some ClusterTargetDB
       else if targetDB \<in> set seen then Some TargetDBTwice
       else validate_dbs sk tk n (targetDB # seen) rest)"

definition validateTask :: "(string \<Rightarrow> bool) \<Rightarrow> task \<Rightarrow> connection \<Rightarrow> connection \<Rightarrow> web_error option" where
  "validateTask compiles t source target =
     (if TrimSpace (t_Name t) = [] then Some TaskNameEmpty
      else if SourceID t = [] \<or> TargetID t = [] then Some ConnectionsMissing
      else if SourceID t = TargetID t \<or> c_Kind source = c_Kind target \<and> c_Address source \<noteq> [] \<and> c_Address source = c_Address target
        then Some SameConnection
      else if TargetPolicy t \<noteq> ''require_empty'' \<and> TargetPolicy t \<noteq> ''overwrite'' then Some TargetPolicyInvalid
      else if DBMap t = [] then Some NoDB
      else (case validate_dbs (c_Kind source) (c_Kind target) (length (DBMap t)) [] (DBMap t) of Some e \<Rightarrow> Some e
        | None \<Rightarrow>
            if \<not> list_all compiles (AllowRegex (t_Rules t) @ BlockRegex (t_Rules t)) then Some RegexInvalid
            else if \<not> list_all command_name (AllowCommands (t_Rules t) @ BlockCommands (t_Rules t)) then Some CommandInvalid
            else None))"

definition targetDBList :: "task \<Rightarrow> int list" where
  "targetDBList t = sort (remdups (map snd (DBMap t)))"

section \<open>Versions\<close>

type_synonym version = "int \<times> int \<times> int"

definition versionIsOlder :: "version \<Rightarrow> version \<Rightarrow> bool" where
  "versionIsOlder target source = (case (target, source) of ((a, b, c), (a', b', c')) \<Rightarrow>
     if a \<noteq> a' then a < a' else if b \<noteq> b' then b < b' else c < c')"

fun version_part :: "string list \<Rightarrow> nat \<Rightarrow> int" where
  "version_part ps i = (if i < length ps then ParseInt_val (ps ! i) else 0)"

fun info_field :: "string \<Rightarrow> string list \<Rightarrow> string option" where
  "info_field p [] = None"
| "info_field p (l # ls) = (if HasPrefix l p then Some (TrimSpace (drop (length p) l)) else info_field p ls)"

text \<open>\<^verbatim>\<open>redisVersion\<close> on the text of \<^verbatim>\<open>INFO server\<close>.\<close>

definition redisVersion :: "string \<Rightarrow> version option" where
  "redisVersion info = (case info_field ''redis_version:'' (Split (CHR 0x0A) info) of None \<Rightarrow> None
     | Some v \<Rightarrow> let ps = Split (CHR ''.'') v in Some (version_part ps 0, version_part ps 1, version_part ps 2))"

section \<open>Generated configuration\<close>

text \<open>
  \<^verbatim>\<open>json.Marshal\<close> of a string of ASCII characters (bytes above 127 are copied): quotes and backslashes are
  escaped, control characters and the characters \<^verbatim>\<open>< > &\<close> become \<^verbatim>\<open>\u00xx\<close>.
\<close>

definition hex_char :: "nat \<Rightarrow> char" where
  "hex_char n = char_of (if n < 10 then 48 + n else 87 + n)"

definition json_char :: "char \<Rightarrow> string" where
  "json_char c = (let n = (of_char c :: nat) in
     if c = CHR 0x22 \<or> c = CHR 0x5C then [CHR 0x5C, c]
     else if n = 8 then [CHR 0x5C, CHR ''b''] else if n = 12 then [CHR 0x5C, CHR ''f'']
     else if n = 10 then [CHR 0x5C, CHR ''n''] else if n = 13 then [CHR 0x5C, CHR ''r'']
     else if n = 9 then [CHR 0x5C, CHR ''t'']
     else if n < 32 \<or> c \<in> {CHR ''<'', CHR ''>'', CHR ''&''}
       then CHR 0x5C # ''u00'' @ [hex_char (n div 16), hex_char (n mod 16)]
     else [c])"

definition tomlString :: "string \<Rightarrow> string" where
  "tomlString s = [CHR 0x22] @ concat (map json_char s) @ [CHR 0x22]"

definition tomlStrings :: "string list \<Rightarrow> string" where
  "tomlStrings vs = ''['' @ Join (map tomlString vs) '', '' @ '']''"

definition fmt_bool :: "bool \<Rightarrow> string" where
  "fmt_bool b = (if b then ''true'' else ''false'')"

definition cfg_line :: "string \<Rightarrow> string \<Rightarrow> string" where
  "cfg_line k v = k @ '' = '' @ v @ [CHR 0x0A]"

definition writeEndpoint :: "string \<Rightarrow> connection \<Rightarrow> bool \<Rightarrow> string" where
  "writeEndpoint sec c isSource =
     ''['' @ sec @ '']'' @ [CHR 0x0A] @ cfg_line ''cluster'' (fmt_bool (c_Kind c = ''cluster'')) @
     cfg_line ''address'' (tomlString (c_Address c)) @
     cfg_line ''username'' (tomlString (Username c)) @ cfg_line ''password'' (tomlString (Password c)) @ cfg_line ''tls'' ''false'' @
     (if isSource then cfg_line ''sync_rdb'' ''true'' @ cfg_line ''sync_aof'' ''true'' @
        cfg_line ''prefer_replica'' (fmt_bool (c_Kind c = ''sentinel''))
      else cfg_line ''off_reply'' ''false'') @
     (if c_Kind c = ''sentinel'' then ''['' @ sec @ ''.sentinel]'' @ [CHR 0x0A] @
        cfg_line ''master_name'' (tomlString (SentinelMaster c)) @ cfg_line ''address'' (tomlString (SentinelAddress c)) @
        cfg_line ''username'' (tomlString (SentinelUsername c)) @ cfg_line ''password'' (tomlString (SentinelPassword c)) @
        cfg_line ''tls'' ''false''
      else [])"

text \<open>
  The source databases in increasing order, and the branches of the generated function: for each source
  database the target it is sent to, looked up under the number printed again.
\<close>

definition sourceDBs :: "task \<Rightarrow> int list" where
  "sourceDBs t = sort (map (ParseInt_val \<circ> fst) (DBMap t))"

definition db_branches :: "task \<Rightarrow> (int \<times> int) list" where
  "db_branches t = map (\<lambda>n. (n, case map_of (DBMap t) (Itoa n) of Some d \<Rightarrow> d | None \<Rightarrow> 0)) (sourceDBs t)"

fun function_text :: "string \<Rightarrow> (int \<times> int) list \<Rightarrow> string" where
  "function_text kw [] = ''end'' @ [CHR 0x0A]"
| "function_text kw ((s, d) # bs) = kw @ '' DB == '' @ Itoa s @ '' then shake.call('' @ Itoa d @ '', ARGV)'' @
     [CHR 0x0A] @ function_text ''elseif'' bs"

definition upper_trim :: "string \<Rightarrow> string" where
  "upper_trim v = ToUpper (TrimSpace v)"

definition generateConfig ::
    "(string \<Rightarrow> bool) \<Rightarrow> task \<Rightarrow> connection \<Rightarrow> connection \<Rightarrow> string \<Rightarrow> bool \<Rightarrow> web_error + string" where
  "generateConfig compiles t source0 target0 runDir downgrade =
     (case normalizeConnectionAuth source0 of Inl e \<Rightarrow> Inl e | Inr source \<Rightarrow>
     (case normalizeConnectionAuth target0 of Inl e \<Rightarrow> Inl e | Inr target \<Rightarrow>
     (case validateTask compiles t source target of Some e \<Rightarrow> Inl e | None \<Rightarrow> Inr (
        writeEndpoint ''sync_reader'' source True @ writeEndpoint ''redis_writer'' target False @
        ''[filter]'' @ [CHR 0x0A] @
        cfg_line ''allow_key_prefix'' (tomlStrings (AllowPrefixes (t_Rules t))) @
        cfg_line ''block_key_prefix'' (tomlStrings (BlockPrefixes (t_Rules t))) @
        cfg_line ''allow_key_regex'' (tomlStrings (AllowRegex (t_Rules t))) @
        cfg_line ''block_key_regex'' (tomlStrings (BlockRegex (t_Rules t))) @
        cfg_line ''allow_db'' (''['' @ Join (map Itoa (sourceDBs t)) '', '' @ '']'') @
        cfg_line ''allow_command'' (tomlStrings (map upper_trim (AllowCommands (t_Rules t)))) @
        cfg_line ''block_command'' (tomlStrings (map upper_trim (BlockCommands (t_Rules t)))) @
        cfg_line ''function'' (replicate 3 (CHR 0x27)) @ function_text ''if'' (db_branches t) @ replicate 3 (CHR 0x27) @ [CHR 0x0A] @
        ''[advanced]'' @ [CHR 0x0A] @ cfg_line ''dir'' (tomlString runDir) @
        cfg_line ''log_file'' (tomlString ''shake.log'') @ cfg_line ''log_level'' (tomlString ''info'') @ cfg_line ''log_interval'' ''5'' @
        cfg_line ''log_rotation'' ''true'' @ cfg_line ''log_max_size'' ''64'' @ cfg_line ''log_max_age'' ''7'' @
        cfg_line ''log_max_backups'' ''3'' @ cfg_line ''log_compress'' ''true'' @
        cfg_line ''rdb_restore_command_behavior'' (tomlString (if TargetPolicy t = ''overwrite'' then ''rewrite'' else ''panic'')) @
        cfg_line ''empty_db_before_sync'' ''false'' @
        (if downgrade then cfg_line ''target_redis_proto_max_bulk_len'' ''0'' else [])))))"

section \<open>Credentials\<close>

lemma TrimSpace_Nil [simp]: "TrimSpace [] = []"
  by (simp add: TrimSpace_def)

lemma normalizeCredentials_shape:
  "normalizeCredentials label mode u p = Inr (m', u', p') \<Longrightarrow>
     m' = ''none'' \<and> u' = [] \<and> p' = [] \<or> m' = ''password'' \<and> u' = [] \<and> p' \<noteq> [] \<or>
     m' = ''username'' \<and> TrimSpace u' \<noteq> [] \<and> p' = [] \<or> m' = ''username_password'' \<and> TrimSpace u' \<noteq> [] \<and> p' \<noteq> []"
  by (auto simp: normalizeCredentials_def Let_def split: if_splits)

lemma normalizeCredentials_idem:
  "normalizeCredentials label mode u p = Inr (m', u', p') \<Longrightarrow> normalizeCredentials label' m' u' p' = Inr (m', u', p')"
  by (drule normalizeCredentials_shape) (auto simp: normalizeCredentials_def inferAuthMode_def Let_def)

text \<open>A connection whose credentials fit their modes: exactly what normalisation produces and keeps.\<close>

definition creds_ok :: "string \<Rightarrow> string \<Rightarrow> string \<Rightarrow> bool" where
  "creds_ok m u p \<longleftrightarrow> normalizeCredentials [] m u p = Inr (m, u, p)"

definition auth_ok :: "connection \<Rightarrow> bool" where
  "auth_ok c \<longleftrightarrow> creds_ok (AuthMode c) (Username c) (Password c) \<and>
     (if c_Kind c = ''sentinel'' then creds_ok (SentinelAuthMode c) (SentinelUsername c) (SentinelPassword c)
      else SentinelAuthMode c = ''none'' \<and> SentinelUsername c = [] \<and> SentinelPassword c = [])"

lemma creds_ok_label: "creds_ok m u p \<Longrightarrow> normalizeCredentials label m u p = Inr (m, u, p)"
  unfolding creds_ok_def by (rule normalizeCredentials_idem)

lemma normalizeConnectionAuth_ok: "auth_ok c \<Longrightarrow> normalizeConnectionAuth c = Inr c"
  by (simp add: auth_ok_def normalizeConnectionAuth_def creds_ok_label split: if_splits)

lemma normalizeConnectionAuth_auth_ok:
  assumes "normalizeConnectionAuth c = Inr c'"
  shows "auth_ok c'"
proof -
  obtain m u p where r: "normalizeCredentials ''Redis'' (AuthMode c) (Username c) (Password c) = Inr (m, u, p)"
    using assms by (cases "normalizeCredentials ''Redis'' (AuthMode c) (Username c) (Password c)")
      (auto simp: normalizeConnectionAuth_def)
  have ok: "creds_ok m u p" using normalizeCredentials_idem [OF r] by (simp add: creds_ok_def)
  show ?thesis
  proof (cases "c_Kind c = ''sentinel''")
    case True
    then obtain m' u' p' where s: "normalizeCredentials ''Sentinel'' (SentinelAuthMode c) (SentinelUsername c) (SentinelPassword c) = Inr (m', u', p')"
      using assms r by (cases "normalizeCredentials ''Sentinel'' (SentinelAuthMode c) (SentinelUsername c) (SentinelPassword c)")
        (auto simp: normalizeConnectionAuth_def)
    have "creds_ok m' u' p'" using normalizeCredentials_idem [OF s] by (simp add: creds_ok_def)
    with True assms r s ok show ?thesis by (auto simp: normalizeConnectionAuth_def auth_ok_def)
  next
    case False
    with assms r ok show ?thesis by (auto simp: normalizeConnectionAuth_def auth_ok_def)
  qed
qed

lemma creds_ok_password: "creds_ok m u p \<Longrightarrow> m \<noteq> [] \<and> (keeps_password m \<or> p = [])"
  unfolding creds_ok_def by (drule normalizeCredentials_shape) (auto simp: keeps_password_def)

lemma auth_ok_sentinel: "auth_ok c \<Longrightarrow> SentinelAuthMode c \<noteq> [] \<and> (keeps_password (SentinelAuthMode c) \<or> SentinelPassword c = [])"
  by (auto simp: auth_ok_def dest: creds_ok_password split: if_splits)

lemma normalizeConnectionAuth_password_free:
  assumes "normalizeConnectionAuth c = Inr c'" "AuthMode c \<in> {''none'', ''username''}"
  shows "Password c' = []"
proof -
  have "AuthMode c' = AuthMode c"
  proof -
    obtain m u p where "normalizeCredentials ''Redis'' (AuthMode c) (Username c) (Password c) = Inr (m, u, p)" "AuthMode c' = m"
      using assms(1) by (cases "normalizeCredentials ''Redis'' (AuthMode c) (Username c) (Password c)")
        (auto simp: normalizeConnectionAuth_def Let_def split: sum.splits if_splits)
    moreover have "inferAuthMode (AuthMode c) (Username c) (Password c) = AuthMode c" using assms(2) by (auto simp: inferAuthMode_def)
    ultimately show ?thesis by (simp add: normalizeCredentials_def Let_def split: if_splits)
  qed
  moreover have "creds_ok (AuthMode c') (Username c') (Password c')"
    using normalizeConnectionAuth_auth_ok [OF assms(1)] by (simp add: auth_ok_def)
  ultimately show ?thesis using assms(2) creds_ok_password by (force simp: keeps_password_def)
qed

text \<open>
  The passwords of a stored connection are never shown, and they are not lost: what the interface shows
  of it has none, and saving back what was shown, unchanged, gives the stored connection again.  A
  password-free mode discards a stored password, and what is stored always fits its mode.
\<close>

theorem connection_passwords:
  assumes ok: "auth_ok c"
  shows "Password (fst (safe c)) = [] \<and> SentinelPassword (fst (safe c)) = [] \<and> prepareConnection (fst (safe c)) c = Inr c \<and>
    (\<forall>d old d'. prepareConnection d old = Inr d' \<longrightarrow> auth_ok d' \<and> (AuthMode d \<in> {''none'', ''username''} \<longrightarrow> Password d' = []))"
proof -
  have m: "AuthMode c \<noteq> []" "keeps_password (AuthMode c) \<or> Password c = []"
    using ok creds_ok_password by (auto simp: auth_ok_def)
  note s = auth_ok_sentinel [OF ok]
  let ?c = "fst (safe c)"
  have "?c = c\<lparr>Password := [], SentinelPassword := []\<rparr>" using m s by (simp add: safe_def inferAuthMode_def)
  moreover have "c\<lparr>Password := [], SentinelPassword := [], Password := Password c, SentinelPassword := SentinelPassword c\<rparr> = c" by simp
  ultimately have "prepareConnection ?c c = normalizeConnectionAuth c"
    using m s by (cases c) (auto simp: prepareConnection_def Let_def)
  then have "Password ?c = [] \<and> SentinelPassword ?c = [] \<and> prepareConnection ?c c = Inr c"
    using normalizeConnectionAuth_ok [OF ok] by (simp add: safe_def)
  moreover have "auth_ok d'" "AuthMode d \<in> {''none'', ''username''} \<longrightarrow> Password d' = []" if "prepareConnection d old = Inr d'" for d old d'
    using that normalizeConnectionAuth_auth_ok normalizeConnectionAuth_password_free [of _ d']
    unfolding prepareConnection_def Let_def by (blast, fastforce)
  ultimately show ?thesis by blast
qed

definition demo_connection :: connection where
  "demo_connection = no_connection\<lparr>c_ID := ''a'', c_Name := ''source'', c_Kind := ''standalone'', c_Address := ''10.0.0.1:6379'',
     AuthMode := ''password'', Password := ''secret'', SentinelAuthMode := ''none''\<rparr>"

theorem connection_passwords_witness:
  "prepareConnection (fst (safe demo_connection)) demo_connection = Inr demo_connection"
proof -
  have "auth_ok demo_connection" by code_simp
  from connection_passwords [OF this] show ?thesis by blast
qed

section \<open>Validated tasks\<close>

lemma validate_dbs_ok:
  "validate_dbs sk tk n seen ms = None \<Longrightarrow>
     (\<forall>(k, d) \<in> set ms. \<exists>s. Atoi k = Inr s \<and> 0 \<le> s \<and> 0 \<le> d \<and> (sk = ''cluster'' \<longrightarrow> s = 0) \<and> (tk = ''cluster'' \<longrightarrow> d = 0 \<and> n = 1)) \<and>
     distinct (map snd ms) \<and> set (map snd ms) \<inter> set seen = {}"
proof (induction ms arbitrary: seen)
  case (Cons m ms)
  obtain k d where m: "m = (k, d)" by (cases m)
  with Cons.prems obtain s where s: "Atoi k = Inr s" "0 \<le> s" "0 \<le> d" "sk = ''cluster'' \<longrightarrow> s = 0"
    "tk = ''cluster'' \<longrightarrow> d = 0 \<and> n = 1" "d \<notin> set seen" "validate_dbs sk tk n (d # seen) ms = None"
    by (auto split: sum.splits if_splits)
  with Cons.IH [OF s(7)] m show ?case by auto
qed simp

text \<open>The database keys are printed as the numbers they mean (no leading zeros or signs).\<close>

definition canonical_dbs :: "task \<Rightarrow> bool" where
  "canonical_dbs t \<longleftrightarrow> distinct (map fst (DBMap t)) \<and> (\<forall>(k, d) \<in> set (DBMap t). Itoa (ParseInt_val k) = k)"

text \<open>What the generated function does with an entry of database \<open>db\<close>: the target of its first matching branch, or no call.\<close>

definition route :: "(int \<times> int) list \<Rightarrow> int \<Rightarrow> int option" where
  "route bs db = map_of bs db"

lemma sourceDBs_set: "set (sourceDBs t) = (ParseInt_val \<circ> fst) ` set (DBMap t)"
  by (simp add: sourceDBs_def)

lemma route_branches:
  "route (db_branches t) db =
     (if db \<in> set (sourceDBs t) then Some (case map_of (DBMap t) (Itoa db) of Some d \<Rightarrow> d | None \<Rightarrow> 0) else None)"
proof -
  have "map_of (map (\<lambda>n. (n, f n)) xs) db = (if db \<in> set xs then Some (f db) else None)" for f :: "int \<Rightarrow> int" and xs
    by (induction xs) auto
  then show ?thesis by (simp add: route_def db_branches_def)
qed

lemma normalizeConnectionAuth_kind: "normalizeConnectionAuth c = Inr c' \<Longrightarrow> c_Kind c' = c_Kind c"
  by (auto simp: normalizeConnectionAuth_def Let_def split: sum.splits if_splits)

lemma generateConfig_validated:
  assumes "generateConfig compiles t source target runDir downgrade = Inr cfg"
  shows "\<exists>s' t'. validateTask compiles t s' t' = None \<and> c_Kind t' = c_Kind target"
proof -
  obtain s' where s: "normalizeConnectionAuth source = Inr s'"
    using assms by (cases "normalizeConnectionAuth source") (simp_all add: generateConfig_def)
  obtain t' where t: "normalizeConnectionAuth target = Inr t'"
    using assms s by (cases "normalizeConnectionAuth target") (simp_all add: generateConfig_def)
  have "validateTask compiles t s' t' = None"
    using assms s t by (cases "validateTask compiles t s' t'") (simp_all add: generateConfig_def)
  with t normalizeConnectionAuth_kind show ?thesis by blast
qed


definition demo_task :: task where
  "demo_task = \<lparr>t_ID = ''t'', t_Name = ''copy'', SourceID = ''a'', TargetID = ''b'', DBMap = [(''3'', 1), (''0'', 7)],
     t_Rules = \<lparr>AllowPrefixes = [], BlockPrefixes = [''tmp:''], AllowRegex = [], BlockRegex = [], AllowCommands = [],
       BlockCommands = [''flushall'']\<rparr>, TargetPolicy = ''require_empty''\<rparr>"

definition demo_target :: connection where
  "demo_target = demo_connection\<lparr>c_ID := ''b'', c_Address := ''10.0.0.2:6379''\<rparr>"

lemma demo_validated:
  "ms = [(''3'', 1), (''0'', 7)] \<or> ms = [(''03'', 5)] \<Longrightarrow>
     validateTask (\<lambda>_. True) (demo_task\<lparr>DBMap := ms\<rparr>) demo_connection demo_target = None"
proof -
  assume ms: "ms = [(''3'', 1), (''0'', 7)] \<or> ms = [(''03'', 5)]"
  have "validate_dbs ''standalone'' ''standalone'' (length ms) [] ms = None" using ms by (auto simp: parse_simps)
  moreover have "TrimSpace ''copy'' \<noteq> []" by (simp add: TrimSpace_def is_space_def)
  moreover have "command_name ''flushall''" by (simp add: command_name_def letter_def is_digit_def)
  ultimately show ?thesis using ms
    by (auto simp: validateTask_def demo_task_def demo_connection_def demo_target_def no_connection_def simp del: validate_dbs.simps)
qed

lemma demo_dbs: "ParseInt_val ''3'' = 3" "ParseInt_val ''0'' = 0" "ParseInt_val ''03'' = 3" "Itoa 3 = ''3''" "Itoa 0 = ''0''"
  by (simp_all add: ParseInt_val_def parse_simps) code_simp+

lemma demo_auth: "auth_ok demo_connection" "auth_ok demo_target"
  by code_simp+

lemma demo_config: "\<exists>cfg. generateConfig (\<lambda>_. True) demo_task demo_connection demo_target dir down = Inr cfg"
proof -
  have "demo_task\<lparr>DBMap := [(''3'', 1), (''0'', 7)]\<rparr> = demo_task" by (simp add: demo_task_def)
  then show ?thesis
    using demo_validated [of "[(''3'', 1), (''0'', 7)]"] by (simp add: generateConfig_def normalizeConnectionAuth_ok demo_auth)
qed


text \<open>
  A database key with a leading zero passes validation but is looked up under its plain number: the
  entries of the database are sent to database 0 instead of the chosen one.
\<close>

theorem leading_zero_sent_to_db_0:
  "validateTask (\<lambda>_. True) (demo_task\<lparr>DBMap := [(''03'', 5)]\<rparr>) demo_connection demo_target = None \<and>
     route (db_branches (demo_task\<lparr>DBMap := [(''03'', 5)]\<rparr>)) 3 = Some 0"
  using demo_validated [of "[(''03'', 5)]"] by (simp add: route_def db_branches_def sourceDBs_def demo_dbs)

text \<open>The version order is the lexicographic one: exactly one of older, equal and newer holds, and it is transitive.\<close>

theorem versionIsOlder_order:
  "\<not> versionIsOlder u u" "versionIsOlder u v \<or> u = v \<or> versionIsOlder v u"
  "versionIsOlder u v \<Longrightarrow> versionIsOlder v w \<Longrightarrow> versionIsOlder u w"
  by (auto simp: versionIsOlder_def split: prod.splits if_splits)

end
