(* ===== verification/RedisAuth.thy ===== *)
theory RedisAuth
  imports Handshake WebTask Progress
begin

text \<open>
  \<^verbatim>\<open>cmd/redisshakeweb/redis_auth.go\<close>: how the web process authenticates users without a password, which the client
  library does not do, and how it keeps the credentials of a Sentinel apart from those of the servers behind it.

  The client library go-redis is a parameter: it dials with the function it is given (\<open>resolve\<close> for the
  question to the Sentinel) and does its own handshake on the connection it gets.
\<close>

datatype dial_error = Unreachable | NoDeadline | Broken fault | AuthError rerr | UnexpectedReply | NoMaster | BadAddress

text \<open>
  \<open>dial\<close> as in the theory \<open>Handshake\<close>; \<open>ahead\<close> is the number of bytes that the buffered reader takes from the
  connection after the reply, which are lost with it; \<open>limits\<close> says whether the deadline can be set and reset.
\<close>

record dialer =
  dl_dial :: "string \<Rightarrow> string option"
  dl_ahead :: nat
  dl_limits :: "bool \<times> bool"

definition auth_exchange :: "dialer \<Rightarrow> string \<Rightarrow> conn \<Rightarrow> dial_error + conn" where
  "auth_exchange d username c =
     (if \<not> fst (dl_limits d) then Inl NoDeadline
      else (case Resp.ReadString (conn_in c) of Inl f \<Rightarrow> Inl (Broken f)
        | Inr (Inl e, s) \<Rightarrow> Inl (AuthError e)
        | Inr (Inr reply, s) \<Rightarrow>
            if reply \<noteq> ''OK'' then Inl UnexpectedReply
            else if \<not> snd (dl_limits d) then Inl NoDeadline
            else Inr (c\<lparr>conn_in := drop (dl_ahead d) s, conn_out := conn_out c @ argv_bytes [''AUTH'', username, []]\<rparr>)))"

definition redisAuthDialer :: "dialer \<Rightarrow> string \<Rightarrow> string \<Rightarrow> string \<Rightarrow> dial_error + conn" where
  "redisAuthDialer d username password address =
     (case dl_dial d address of None \<Rightarrow> Inl Unreachable
      | Some s \<Rightarrow> if username = [] \<or> password \<noteq> [] then Inr (open_conn s) else auth_exchange d username (open_conn s))"

text \<open>The function that \<^verbatim>\<open>sentinelEmptyPasswordClient\<close> dials with.\<close>

definition sentinelDialer ::
    "((string \<Rightarrow> dial_error + conn) \<Rightarrow> string \<Rightarrow> string \<Rightarrow> string list option) \<Rightarrow> dialer \<Rightarrow> connection \<Rightarrow> dial_error + conn" where
  "sentinelDialer resolve d c =
     (case resolve (redisAuthDialer d (SentinelUsername c) (SentinelPassword c)) (SentinelAddress c) (SentinelMaster c) of
        None \<Rightarrow> Inl NoMaster
      | Some [host, port] \<Rightarrow> redisAuthDialer d (Username c) (Password c) (JoinHostPort host port)
      | Some _ \<Rightarrow> Inl BadAddress)"

text \<open>The bytes sent before the library takes over: an \<^verbatim>\<open>AUTH\<close> with an empty password, for a named user without one.\<close>

definition greeting :: "string \<Rightarrow> string \<Rightarrow> string" where
  "greeting username password = (if username = [] \<or> password \<noteq> [] then [] else argv_bytes [''AUTH'', username, []])"

lemma redisAuthDialer_greets:
  "redisAuthDialer d username password address = Inr c \<Longrightarrow> conn_out c = greeting username password"
  by (auto simp: redisAuthDialer_def auth_exchange_def greeting_def open_conn_def split: option.splits sum.splits if_splits prod.splits)

text \<open>A connection for such a user is only handed on after the server said OK.\<close>

lemma redisAuthDialer_authenticates:
  assumes "redisAuthDialer d username [] address = Inr c" "username \<noteq> []"
  shows "\<exists>s s'. dl_dial d address = Some s \<and> Resp.ReadString s = Inr (Inr ''OK'', s') \<and> conn_in c = drop (dl_ahead d) s'"
  using assms by (auto simp: redisAuthDialer_def auth_exchange_def open_conn_def split: option.splits sum.splits if_splits prod.splits)

text \<open>
  What the master is told depends on the credentials of the master only: two connections that differ in the
  credentials of the Sentinel, and for which the Sentinel names the same master, greet it in the same way.
\<close>

lemma sentinel_scopes_apart:
  assumes "sentinelDialer resolve d c = Inr x"
  shows "conn_out x = greeting (Username c) (Password c)"
    and "\<exists>host port. resolve (redisAuthDialer d (SentinelUsername c) (SentinelPassword c)) (SentinelAddress c) (SentinelMaster c) = Some [host, port] \<and>
      redisAuthDialer d (Username c) (Password c) (JoinHostPort host port) = Inr x"
  using assms by (auto simp: sentinelDialer_def split: option.splits list.splits dest: redisAuthDialer_greets)

section \<open>Questions to the source\<close>

text \<open>
  \<^verbatim>\<open>replicationInfo\<close> of \<^verbatim>\<open>internal/client/replication.go\<close> up to its reply: what a fresh connection to an address yields,
  as the theory \<open>Progress\<close> takes it.  \<open>tlsOk\<close>: TLS is not used, or its configuration can be loaded.
\<close>

definition ask :: "parse_float \<Rightarrow> string list \<Rightarrow> conn \<Rightarrow> string + (reply \<times> conn)" where
  "ask pf argv c = (case ReadReply pf (conn_in c) of Inl f \<Rightarrow> Inl ''read failed''
     | Inr (Inl e, s) \<Rightarrow> Inl ''error reply''
     | Inr (Inr r, s) \<Rightarrow> Inr (r, c\<lparr>conn_in := s, conn_out := conn_out c @ argv_bytes argv\<rparr>))"

definition info_conn :: "(string \<Rightarrow> string option) \<Rightarrow> parse_float \<Rightarrow> bool \<Rightarrow> string \<Rightarrow> string \<Rightarrow> string \<Rightarrow> string + reply" where
  "info_conn dial pf tlsOk username password address =
     (if \<not> tlsOk then Inl ''tls config''
      else (case dial address of None \<Rightarrow> Inl ''dial failed''
        | Some s \<Rightarrow>
            (case (if username = [] \<and> password = [] then Inr (open_conn s)
                   else (case ask pf (if username \<noteq> [] then [''AUTH'', username, password] else [''AUTH'', password]) (open_conn s) of
                       Inl e \<Rightarrow> Inl e
                     | Inr (r, c) \<Rightarrow> if r \<noteq> RStr ''OK'' then Inl ''authentication failed'' else Inr c)) of
               Inl e \<Rightarrow> Inl e
             | Inr c \<Rightarrow> map_sum id fst (ask pf [''INFO'', ''replication''] c))))"

definition master_position :: "(string \<Rightarrow> string option) \<Rightarrow> parse_float \<Rightarrow> bool \<Rightarrow> string \<Rightarrow> string \<Rightarrow> string \<Rightarrow> string + masterPosition" where
  "master_position dial pf tlsOk username password address = ReadMasterPosition (info_conn dial pf tlsOk username password) address"

text \<open>A position comes from a server that was asked with the credentials given and that calls itself the master.\<close>

lemma master_position_from_master:
  assumes "master_position dial pf tlsOk username password address = Inr m"
  shows "tlsOk \<and> (\<exists>s tx. dial (mp_Node m) = Some s \<and> info_conn dial pf tlsOk username password (mp_Node m) = Inr (RStr tx) \<and>
    info_get (parseInfo tx) ''role'' = ''master'' \<and> 0 \<le> mp_Offset m \<and> mp_ReplicationID m \<noteq> [])"
proof -
  obtain info where "replicationInfo (info_conn dial pf tlsOk username password) (mp_Node m) = Inr info"
    "info_get info ''role'' = ''master''" "0 \<le> mp_Offset m" "mp_ReplicationID m \<noteq> []"
    using readMaster_hops_master [of 3 "info_conn dial pf tlsOk username password" address m] assms
    by (auto simp: master_position_def ReadMasterPosition_def)
  then obtain tx where tx: "info_conn dial pf tlsOk username password (mp_Node m) = Inr (RStr tx)" "info = parseInfo tx"
    by (auto simp: replicationInfo_def split: sum.splits reply.splits)
  then have "tlsOk" "dial (mp_Node m) \<noteq> None" by (auto simp: info_conn_def split: if_splits option.splits)
  with tx show ?thesis using \<open>info_get info ''role'' = ''master''\<close> \<open>0 \<le> mp_Offset m\<close> \<open>mp_ReplicationID m \<noteq> []\<close> by auto
qed

end
