(* ===== verification/AofManifest.thy ===== *)
theory AofManifest
  imports Aof RdbLoader
begin

text \<open>
  \<^verbatim>\<open>internal/reader/parsing_aof.go\<close> and \<^verbatim>\<open>aof_reader.go\<close>: the manifest of a multi-part append only file, its
  parser and printer, and the loading of the files it lists.

  Proved: what the printer writes the parser reads back; and of several incremental files only the first
  is sent.

  The directory is a function from file names to what \<^verbatim>\<open>os.Open\<close> finds.  Times and logging are left out.
\<close>

section \<open>Words of a line\<close>

text \<open>\<^verbatim>\<open>unicode.IsSpace\<close> and \<^verbatim>\<open>unicode.IsPrint\<close> of a byte taken as a code point, and its text.\<close>

definition latin_space :: "char \<Rightarrow> bool" where
  "latin_space c \<longleftrightarrow> (of_char c :: nat) \<in> {9, 10, 11, 12, 13, 32, 133, 160}"

definition latin_print :: "char \<Rightarrow> bool" where
  "latin_print c \<longleftrightarrow> (let n = (of_char c :: nat) in 32 \<le> n \<and> n \<le> 126 \<or> 161 \<le> n \<and> n \<noteq> 173)"

definition utf8_byte :: "char \<Rightarrow> string" where
  "utf8_byte c = (let n = (of_char c :: nat) in
     if n < 128 then [c] else [char_of (192 + n div 64), char_of (128 + n mod 64)])"

definition IsHexDigit :: "char \<Rightarrow> bool" where
  "IsHexDigit c \<longleftrightarrow> (let n = (of_char c :: nat) in 48 \<le> n \<and> n \<le> 57 \<or> 97 \<le> n \<and> n \<le> 102 \<or> 65 \<le> n \<and> n \<le> 70)"

definition HexDigitToInt :: "char \<Rightarrow> nat" where
  "HexDigitToInt c = (let n = (of_char c :: nat) in
     if 48 \<le> n \<and> n \<le> 57 then n - 48 else if 97 \<le> n \<and> n \<le> 102 then n - 87
     else if 65 \<le> n \<and> n \<le> 70 then n - 55 else 0)"

definition unescape :: "char \<Rightarrow> char" where
  "unescape c = (if c = CHR ''n'' then CHR 0x0A else if c = CHR ''r'' then CHR ''r''
     else if c = CHR ''a'' then CHR 0x07 else c)"

datatype quote = NoQuote | Double | Single

text \<open>
  One round of the inner loop of \<^verbatim>\<open>SplitArgs\<close> on the rest of the line: it adds to the word, skips some bytes
  besides the current one and goes on in a quoting state; or the word ends; or no words are returned;
  or an index is out of range.
\<close>

datatype sa_next = Go quote string nat | EndWord | NoWords | BadIndex

definition sa_round :: "quote \<Rightarrow> string \<Rightarrow> sa_next" where
  "sa_round q s = (let c = hd s; closing = (if 1 < length s \<and> \<not> latin_space (s ! 1) then NoWords else EndWord) in
     case q of
        Double \<Rightarrow>
          if c = CHR 0x5C then
            (if length s < 2 then BadIndex
             else if s ! 1 = CHR ''x'' \<and> length s < 3 then BadIndex
             else if s ! 1 = CHR ''x'' \<and> IsHexDigit (s ! 2) \<and> length s < 4 then BadIndex
             else if s ! 1 = CHR ''x'' \<and> IsHexDigit (s ! 2) \<and> IsHexDigit (s ! 3)
               then Go Double (FormatUint (HexDigitToInt (s ! 2) * 16 + HexDigitToInt (s ! 3))) 3
             else Go Double (utf8_byte (unescape (s ! 1))) 1)
          else if c = CHR 0x22 then closing
          else Go Double (utf8_byte c) 0
      | Single \<Rightarrow>
          if c = CHR 0x5C \<and> length s < 2 then BadIndex
          else if c = CHR 0x5C \<and> s ! 1 = CHR 0x27 then Go Single [CHR 0x27] 1
          else if c = CHR 0x27 then closing
          else Go Single (utf8_byte c) 0
      | NoQuote \<Rightarrow>
          if c \<in> {CHR '' '', CHR 0x0A, CHR 0x0D, CHR 0x09, CHR 0x00} then EndWord
          else if c = CHR 0x22 then Go Double [] 0
          else if c = CHR 0x27 then Go Single [] 0
          else Go NoQuote (utf8_byte c) 0)"

text \<open>The inner loop: the word and what is left; at the end of the line the word is taken as it is.\<close>

function sa_token :: "quote \<Rightarrow> string \<Rightarrow> string \<Rightarrow> (string \<times> string) option res" where
  "sa_token q cur s = (if s = [] then Inr (Some (cur, []))
     else (case sa_round q s of Go q' a n \<Rightarrow> sa_token q' (cur @ a) (drop (Suc n) s)
       | EndWord \<Rightarrow> Inr (Some (cur, tl s)) | NoWords \<Rightarrow> Inr None
       | BadIndex \<Rightarrow> Inl (RuntimePanic ''index out of range'')))"
  by pat_completeness auto
termination
  by (relation "measure (\<lambda>(_, _, s). length s)") auto

declare sa_token.simps [simp del]

lemma sa_token_le: "sa_token q cur s = Inr (Some (w, r)) \<Longrightarrow> s \<noteq> [] \<Longrightarrow> length r < length s"
proof (induction q cur s arbitrary: w r rule: sa_token.induct)
  case (1 q cur s)
  show ?case
  proof (cases "sa_round q s")
    case (Go q' a n)
    with 1 have "sa_token q' (cur @ a) (drop (Suc n) s) = Inr (Some (w, r))" by (simp add: sa_token.simps)
    with 1(1) [OF 1(3) Go] 1(3) show ?thesis
      by (cases "drop (Suc n) s = []") (auto simp: sa_token.simps)
  qed (use 1 in \<open>auto simp: sa_token.simps\<close>)
qed

function SplitArgs :: "string \<Rightarrow> string list option res" where
  "SplitArgs line = (let s = dropWhile latin_space line in
     if s = [] then Inr (Some [])
     else (case sa_token NoQuote [] s of Inl f \<Rightarrow> Inl f | Inr None \<Rightarrow> Inr None
       | Inr (Some (w, rest)) \<Rightarrow> map_sum id (map_option ((#) w)) (SplitArgs rest)))"
  by pat_completeness auto
termination
  by (relation "measure length") (auto dest!: sa_token_le intro: less_le_trans [OF _ length_dropWhile_le])

declare SplitArgs.simps [simp del]

section \<open>Manifest\<close>

record aofInfo =
  FileName :: string
  FileSeq :: int
  AOFFileType :: string

record aofManifest =
  BaseAOFInfo :: "aofInfo option"
  incrAOFList :: "aofInfo list"
  HistoryList :: "aofInfo list"
  CurrBaseFileSeq :: int
  CurrIncrFileSeq :: int

definition AOFManifestCreate :: aofManifest where
  "AOFManifestCreate = \<lparr>BaseAOFInfo = None, incrAOFList = [], HistoryList = [], CurrBaseFileSeq = 0, CurrIncrFileSeq = 0\<rparr>"

definition StringNeedsRepr :: "string \<Rightarrow> bool" where
  "StringNeedsRepr s \<longleftrightarrow> (\<exists>c \<in> set s. c \<in> {CHR 0x5C, CHR 0x22, CHR 0x0A, CHR 0x0D, CHR 0x09, CHR 0x07, CHR 0x08} \<or>
     \<not> latin_print c \<or> latin_space c)"

fun repr_bytes :: "string \<Rightarrow> string" where
  "repr_bytes [] = []"
| "repr_bytes (c # cs) =
     (if c = CHR 0x5C \<or> c = CHR 0x22 then [CHR 0x5C, c]
      else if c = CHR 0x0A then [CHR 0x5C, CHR ''n'']
      else if c = CHR 0x0D then [CHR 0x5C, CHR ''r'']
      else if c = CHR 0x09 then [CHR 0x5C, CHR ''t'']
      else if c = CHR 0x07 then [CHR 0x5C, CHR ''a'']
      else if c = CHR 0x08 then [CHR 0x5C, CHR ''b'']
      else if latin_print c then utf8_byte c
      else CHR 0x5C # ''x%02x'') @ repr_bytes cs"

definition StringCatRepr :: "string \<Rightarrow> string" where
  "StringCatRepr p = [CHR 0x22] @ repr_bytes p @ [CHR 0x22]"

definition AOFInfoFormat :: "string \<Rightarrow> aofInfo \<Rightarrow> string" where
  "AOFInfoFormat buf ai = buf @ ''File '' @
     (if StringNeedsRepr (FileName ai) then StringCatRepr (FileName ai) else FileName ai) @
     '' seq '' @ Itoa (FileSeq ai) @ '' type '' @ AOFFileType ai @ [CHR 0x0A]"

definition GetAOFManifestAsString :: "aofManifest \<Rightarrow> string" where
  "GetAOFManifestAsString am = foldl AOFInfoFormat []
     ((case BaseAOFInfo am of None \<Rightarrow> [] | Some b \<Rightarrow> [b]) @ HistoryList am @ incrAOFList am)"

definition PathIsBaseName :: "string \<Rightarrow> bool" where
  "PathIsBaseName p \<longleftrightarrow> CHR ''/'' \<notin> set p \<and> CHR 0x5C \<notin> set p"

text \<open>The pairs of a line.\<close>

fun info_pairs :: "string list \<Rightarrow> aofInfo \<Rightarrow> aofInfo res" where
  "info_pairs (k # v # rest) ai =
     (if EqualFold k ''File'' then
        (if \<not> PathIsBaseName v then Inl (LogPanicf ''File can't be a path, just a Filename'')
         else info_pairs rest (ai\<lparr>FileName := v\<rparr>))
      else if EqualFold k ''seq'' then info_pairs rest (ai\<lparr>FileSeq := ParseInt_val v\<rparr>)
      else if EqualFold k ''type'' then
        (if v = [] then Inl (RuntimePanic ''index out of range'') else info_pairs rest (ai\<lparr>AOFFileType := utf8_byte (hd v)\<rparr>))
      else info_pairs rest ai)"
| "info_pairs _ ai = Inr ai"

definition add_info :: "aofInfo \<Rightarrow> aofManifest \<times> int \<Rightarrow> (aofManifest \<times> int) res" where
  "add_info ai amx = (case amx of (am, maxSeq) \<Rightarrow>
     if FileName ai = [] \<or> FileSeq ai = 0 \<or> AOFFileType ai = [] then Inl (LogPanicf ''Invalid AOF manifest File format'')
     else if AOFFileType ai = ''b'' then
       (if BaseAOFInfo am \<noteq> None then Inl (LogPanicf ''Found duplicate Base File information'')
        else Inr (am\<lparr>BaseAOFInfo := Some ai, CurrBaseFileSeq := FileSeq ai\<rparr>, maxSeq))
     else if AOFFileType ai = ''h'' then
       Inr (if Contains (FileName ai) ''base.rdb'' then am else am\<lparr>HistoryList := HistoryList am @ [ai]\<rparr>, maxSeq)
     else if AOFFileType ai = ''i'' then
       (if FileSeq ai \<le> maxSeq then Inl (LogPanicf ''Found a non-monotonic sequence number'')
        else Inr (am\<lparr>incrAOFList := incrAOFList am @ [ai], CurrIncrFileSeq := FileSeq ai\<rparr>, FileSeq ai))
     else Inl (LogPanicf ''Unknown AOF File type''))"

definition blanks :: "char \<Rightarrow> bool" where
  "blanks c \<longleftrightarrow> c \<in> {CHR '' '', CHR 0x09, CHR 0x0D, CHR 0x0A}"

definition Trim :: "string \<Rightarrow> string" where
  "Trim s = rev (dropWhile blanks (rev (dropWhile blanks s)))"

text \<open>One line, without its newline: \<open>Inr None\<close> is the return of no manifest.\<close>

definition manifest_line :: "string \<Rightarrow> aofManifest \<times> int \<Rightarrow> (aofManifest \<times> int) option res" where
  "manifest_line l amx =
     (if l \<noteq> [] \<and> hd l = CHR ''#'' then Inr (Some amx)
      else let line = Trim l in
        if line = [] then Inr None
        else (case SplitArgs line of Inl f \<Rightarrow> Inl f | Inr None \<Rightarrow> Inr None
          | Inr (Some argv) \<Rightarrow>
              if length argv < 6 \<or> length argv mod 2 \<noteq> 0 then Inr None
              else (case info_pairs argv \<lparr>FileName = [], FileSeq = 0, AOFFileType = []\<rparr> of Inl f \<Rightarrow> Inl f
                | Inr ai \<Rightarrow> map_sum id Some (add_info ai amx))))"

fun manifest_lines :: "string list \<Rightarrow> aofManifest \<times> int \<Rightarrow> aofManifest option res" where
  "manifest_lines [] amx = Inr (Some (fst amx))"
| "manifest_lines (l # ls) amx = (case manifest_line l amx of Inl f \<Rightarrow> Inl f | Inr None \<Rightarrow> Inr None
     | Inr (Some amx') \<Rightarrow> manifest_lines ls amx')"

text \<open>The complete lines of the file; what follows the last newline is not read.\<close>

definition AOFLoadManifestFromFile :: "string \<Rightarrow> aofManifest option res" where
  "AOFLoadManifestFromFile content = (let lines = butlast (Split (CHR 0x0A) content) in
     if lines = [] then Inr None else manifest_lines lines (AOFManifestCreate, 0))"

section \<open>Round trip\<close>

definition plain_char :: "char \<Rightarrow> bool" where
  "plain_char c \<longleftrightarrow> 33 \<le> (of_char c :: nat) \<and> (of_char c :: nat) \<le> 126 \<and> c \<notin> {CHR 0x5C, CHR 0x22, CHR 0x27}"

definition plain_word :: "string \<Rightarrow> bool" where
  "plain_word w \<longleftrightarrow> w \<noteq> [] \<and> (\<forall>c \<in> set w. plain_char c)"

lemma plain_char_simps:
  assumes "plain_char c"
  shows "utf8_byte c = [c]" "\<not> latin_space c" "latin_print c" "\<not> blanks c" "c \<noteq> CHR 0x0A"
    "sa_round NoQuote (c # s) = Go NoQuote [c] 0"
proof -
  have n: "33 \<le> (of_char c :: nat)" "(of_char c :: nat) \<le> 126" "c \<notin> {CHR 0x5C, CHR 0x22, CHR 0x27}"
    using assms by (auto simp: plain_char_def)
  then have "c \<noteq> CHR '' ''" "c \<noteq> CHR 0x09" "c \<noteq> CHR 0x0D" "c \<noteq> CHR 0x0A" "c \<noteq> CHR 0x00" by auto
  with n show "utf8_byte c = [c]" "\<not> latin_space c" "latin_print c" "\<not> blanks c" "c \<noteq> CHR 0x0A"
    "sa_round NoQuote (c # s) = Go NoQuote [c] 0"
    by (auto simp: utf8_byte_def latin_space_def latin_print_def blanks_def sa_round_def Let_def)
qed

lemma sa_token_plain:
  assumes "\<forall>c \<in> set w. plain_char c" "s = [] \<or> hd s = CHR '' ''"
  shows "sa_token NoQuote cur (w @ s) = Inr (Some (cur @ w, tl s))"
  using assms(1)
proof (induction w arbitrary: cur)
  case Nil
  then show ?case using assms(2) by (cases s) (auto simp: sa_token.simps sa_round_def Let_def)
next
  case (Cons c w)
  then show ?case by (subst sa_token.simps) (simp add: plain_char_simps)
qed

lemma SplitArgs_words: "\<forall>w \<in> set ws. plain_word w \<Longrightarrow> SplitArgs (Join ws '' '') = Inr (Some ws)"
proof (induction ws "'' ''" rule: Join.induct)
  case 1
  show ?case by (simp add: SplitArgs.simps)
next
  case (2 x)
  then obtain c cs where x: "x = c # cs" "plain_char c" by (cases x) (auto simp: plain_word_def)
  have "sa_token NoQuote [] (x @ []) = Inr (Some ([] @ x, tl []))" by (rule sa_token_plain) (use 2 in \<open>auto simp: plain_word_def\<close>)
  with x show ?case by (subst SplitArgs.simps) (simp add: plain_char_simps SplitArgs.simps [of "[]"])
next
  case (3 x y ys)
  then obtain c cs where x: "x = c # cs" "plain_char c" by (cases x) (auto simp: plain_word_def)
  let ?s = "CHR '' '' # Join (y # ys) '' ''"
  have "sa_token NoQuote [] (x @ ?s) = Inr (Some ([] @ x, tl ?s))" by (rule sa_token_plain) (use 3 in \<open>auto simp: plain_word_def\<close>)
  moreover have "SplitArgs (Join (y # ys) '' '') = Inr (Some (y # ys))" using 3 by simp
  ultimately show ?case using x by (subst SplitArgs.simps) (simp add: plain_char_simps)
qed

definition info_ok :: "string \<Rightarrow> aofInfo \<Rightarrow> bool" where
  "info_ok ty ai \<longleftrightarrow> AOFFileType ai = ty \<and> plain_word (FileName ai) \<and> CHR ''/'' \<notin> set (FileName ai) \<and>
     0 < FileSeq ai \<and> FileSeq ai \<le> maxInt64"

definition info_line :: "aofInfo \<Rightarrow> string" where
  "info_line ai = Join [''File'', FileName ai, ''seq'', Itoa (FileSeq ai), ''type'', AOFFileType ai] '' ''"

lemma AOFInfoFormat_line: "plain_word (FileName ai) \<Longrightarrow> AOFInfoFormat buf ai = buf @ info_line ai @ [CHR 0x0A]"
proof -
  assume p: "plain_word (FileName ai)"
  have "\<not> StringNeedsRepr (FileName ai)"
  proof
    assume "StringNeedsRepr (FileName ai)"
    then obtain c where c: "c \<in> set (FileName ai)"
      "c \<in> {CHR 0x5C, CHR 0x22, CHR 0x0A, CHR 0x0D, CHR 0x09, CHR 0x07, CHR 0x08} \<or> \<not> latin_print c \<or> latin_space c"
      by (auto simp: StringNeedsRepr_def)
    then have "plain_char c" using p by (auto simp: plain_word_def)
    with plain_char_simps(2,3) [OF this] c(2) show False by (auto simp: plain_char_def)
  qed
  then show ?thesis by (simp add: AOFInfoFormat_def info_line_def)
qed

lemma plain_Itoa: "0 < n \<Longrightarrow> plain_word (Itoa n)"
  using FormatUint_digits [of "nat n"] by (auto simp: plain_word_def Itoa_def plain_char_def is_digit_def)

lemma info_words:
  assumes "info_ok ty ai" "ty \<in> {''b'', ''h'', ''i''}"
  shows "\<forall>w \<in> set [''File'', FileName ai, ''seq'', Itoa (FileSeq ai), ''type'', AOFFileType ai]. plain_word w"
  using assms plain_Itoa [of "FileSeq ai"] by (auto simp: info_ok_def) (simp_all add: plain_word_def plain_char_def)

lemma set_Join: "set (Join ws sep) \<subseteq> (\<Union>w \<in> set ws. set w) \<union> set sep"
  by (induction ws sep rule: Join.induct) auto

lemma info_line_no_newline:
  assumes "info_ok ty ai" "ty \<in> {''b'', ''h'', ''i''}"
  shows "CHR 0x0A \<notin> set (info_line ai)"
proof
  assume "CHR 0x0A \<in> set (info_line ai)"
  then obtain w where "w \<in> set [''File'', FileName ai, ''seq'', Itoa (FileSeq ai), ''type'', AOFFileType ai]" "CHR 0x0A \<in> set w"
    using set_Join unfolding info_line_def by fastforce
  with info_words [OF assms] show False using plain_char_simps(5) by (auto simp: plain_word_def)
qed

lemma Trim_line:
  assumes "info_ok ty ai" "ty \<in> {''b'', ''h'', ''i''}"
  shows "Trim (info_line ai) = info_line ai"
proof -
  obtain t where t: "AOFFileType ai = [t]" "plain_char t"
    using assms info_words [OF assms] by (auto simp: info_ok_def plain_word_def)
  have "info_line ai = CHR ''F'' # (''ile '' @ FileName ai @ '' seq '' @ Itoa (FileSeq ai) @ '' type '') @ [t]"
    by (simp add: info_line_def t)
  then show ?thesis using plain_char_simps(4) [OF t(2)] by (simp add: Trim_def blanks_def)
qed

lemma ParseInt_val_Itoa: "0 < n \<Longrightarrow> n \<le> maxInt64 \<Longrightarrow> ParseInt_val (Itoa n) = n"
  by (simp add: ParseInt_val_def Atoi_Itoa maxInt64_def)

lemma manifest_line_info:
  assumes "info_ok ty ai" "ty \<in> {''b'', ''h'', ''i''}"
  shows "manifest_line (info_line ai) amx = map_sum id Some (add_info ai amx)"
proof -
  have w: "SplitArgs (info_line ai) = Inr (Some [''File'', FileName ai, ''seq'', Itoa (FileSeq ai), ''type'', AOFFileType ai])"
    unfolding info_line_def by (rule SplitArgs_words [OF info_words [OF assms]])
  have "PathIsBaseName (FileName ai)"
    using assms(1) by (auto simp: info_ok_def PathIsBaseName_def plain_word_def plain_char_def)
  moreover have "AOFFileType ai \<noteq> []" "utf8_byte (hd (AOFFileType ai)) = AOFFileType ai"
    using assms by (auto simp: info_ok_def utf8_byte_def)
  moreover have "EqualFold ''File'' ''File''" "\<not> EqualFold ''seq'' ''File''" "EqualFold ''seq'' ''seq''" "\<not> EqualFold ''type'' ''File''"
    "\<not> EqualFold ''type'' ''seq''" "EqualFold ''type'' ''type''" by code_simp+
  ultimately have "info_pairs [''File'', FileName ai, ''seq'', Itoa (FileSeq ai), ''type'', AOFFileType ai]
      \<lparr>FileName = [], FileSeq = 0, AOFFileType = []\<rparr> = Inr ai"
    using assms(1) by (simp add: ParseInt_val_Itoa info_ok_def)
  moreover have "info_line ai \<noteq> []" "hd (info_line ai) \<noteq> CHR ''#''" by (simp_all add: info_line_def)
  ultimately show ?thesis unfolding manifest_line_def by (simp add: Trim_line [OF assms] w del: info_pairs.simps)
qed

lemma Split_first: "c \<notin> set l \<Longrightarrow> Split c (l @ c # s) = l # Split c s"
  by (induction l) auto

lemma Split_lines:
  "\<forall>l \<in> set ls. c \<notin> set l \<Longrightarrow> Split c (concat (map (\<lambda>l. l @ [c]) ls)) = ls @ [[]]"
  by (induction ls) (auto simp: Split_first)

text \<open>A manifest as Redis keeps it.\<close>

definition manifest_ok :: "aofManifest \<Rightarrow> bool" where
  "manifest_ok am \<longleftrightarrow>
     (case BaseAOFInfo am of None \<Rightarrow> CurrBaseFileSeq am = 0 | Some b \<Rightarrow> info_ok ''b'' b \<and> CurrBaseFileSeq am = FileSeq b) \<and>
     list_all (\<lambda>ai. info_ok ''h'' ai \<and> \<not> Contains (FileName ai) ''base.rdb'') (HistoryList am) \<and>
     list_all (info_ok ''i'') (incrAOFList am) \<and> sorted_wrt (<) (map FileSeq (incrAOFList am)) \<and>
     CurrIncrFileSeq am = (if incrAOFList am = [] then 0 else FileSeq (last (incrAOFList am))) \<and>
     (BaseAOFInfo am \<noteq> None \<or> HistoryList am \<noteq> [] \<or> incrAOFList am \<noteq> [])"

definition infos :: "aofManifest \<Rightarrow> aofInfo list" where
  "infos am = (case BaseAOFInfo am of None \<Rightarrow> [] | Some b \<Rightarrow> [b]) @ HistoryList am @ incrAOFList am"

lemma infos_ok: "manifest_ok am \<Longrightarrow> ai \<in> set (infos am) \<Longrightarrow> \<exists>ty \<in> {''b'', ''h'', ''i''}. info_ok ty ai"
  by (auto simp: manifest_ok_def infos_def list_all_iff split: option.splits)

lemma manifest_text:
  assumes "manifest_ok am"
  shows "GetAOFManifestAsString am = concat (map (\<lambda>l. l @ [CHR 0x0A]) (map info_line (infos am)))"
proof -
  have "foldl AOFInfoFormat buf ais = buf @ concat (map (\<lambda>l. l @ [CHR 0x0A]) (map info_line ais))"
    if "\<forall>ai \<in> set ais. plain_word (FileName ai)" for buf ais
    using that by (induction ais arbitrary: buf) (auto simp: AOFInfoFormat_line)
  moreover have "\<forall>ai \<in> set (infos am). plain_word (FileName ai)" using infos_ok [OF assms] by (auto simp: info_ok_def)
  ultimately show ?thesis by (simp add: GetAOFManifestAsString_def infos_def)
qed

lemma manifest_lines_infos:
  assumes "\<forall>ai \<in> set ais. \<exists>ty \<in> {''b'', ''h'', ''i''}. info_ok ty ai"
  shows "manifest_lines (map info_line ais @ ls) amx =
    (case foldl (\<lambda>r ai. case r of Inl f \<Rightarrow> Inl f | Inr amx \<Rightarrow> add_info ai amx) (Inr amx) ais of
       Inl f \<Rightarrow> Inl f | Inr amx' \<Rightarrow> manifest_lines ls amx')"
  using assms
proof (induction ais arbitrary: amx)
  case (Cons ai ais)
  have stop: "foldl (\<lambda>r ai. case r of Inl f \<Rightarrow> Inl f | Inr amx \<Rightarrow> add_info ai amx) (Inl f) ais = Inl f" for f
    by (induction ais) auto
  from Cons.prems obtain ty where "ty \<in> {''b'', ''h'', ''i''}" "info_ok ty ai" by auto
  then have "manifest_line (info_line ai) amx = map_sum id Some (add_info ai amx)" using manifest_line_info by blast
  with Cons show ?case by (cases "add_info ai amx") (auto simp: stop)
qed simp

abbreviation add_infos :: "aofInfo list \<Rightarrow> aofManifest \<times> int \<Rightarrow> (aofManifest \<times> int) res" where
  "add_infos ais amx \<equiv> foldl (\<lambda>r ai. case r of Inl f \<Rightarrow> Inl f | Inr amx \<Rightarrow> add_info ai amx) (Inr amx) ais"

lemma add_history:
  "list_all (\<lambda>ai. info_ok ''h'' ai \<and> \<not> Contains (FileName ai) ''base.rdb'') hs \<Longrightarrow>
     add_infos hs (am, m) = Inr (am\<lparr>HistoryList := HistoryList am @ hs\<rparr>, m)"
  by (induction hs arbitrary: am) (auto simp: add_info_def info_ok_def plain_word_def)

lemma add_incr:
  "list_all (info_ok ''i'') is \<Longrightarrow> sorted_wrt (<) (m # map FileSeq is) \<Longrightarrow>
     add_infos is (am, m) = Inr (am\<lparr>incrAOFList := incrAOFList am @ is,
       CurrIncrFileSeq := (if is = [] then CurrIncrFileSeq am else FileSeq (last is))\<rparr>, if is = [] then m else FileSeq (last is))"
  by (induction "is" arbitrary: am m) (auto simp: add_info_def info_ok_def plain_word_def)

lemma manifest_read_back:
  assumes "manifest_ok am"
  shows "AOFLoadManifestFromFile (GetAOFManifestAsString am) = Inr (Some am)"
proof -
  let ?ls = "map info_line (infos am)"
  have ok: "\<forall>ai \<in> set (infos am). \<exists>ty \<in> {''b'', ''h'', ''i''}. info_ok ty ai" using infos_ok [OF assms] by blast
  then have "Split (CHR 0x0A) (GetAOFManifestAsString am) = ?ls @ [[]]"
    unfolding manifest_text [OF assms] using info_line_no_newline by (intro Split_lines) auto
  moreover have "?ls \<noteq> []" using assms by (auto simp: manifest_ok_def infos_def split: option.splits)
  ultimately have load: "AOFLoadManifestFromFile (GetAOFManifestAsString am) = manifest_lines ?ls (AOFManifestCreate, 0)"
    by (simp add: AOFLoadManifestFromFile_def)
  let ?b = "case BaseAOFInfo am of None \<Rightarrow> [] | Some b \<Rightarrow> [b]"
  let ?am = "AOFManifestCreate\<lparr>BaseAOFInfo := BaseAOFInfo am, CurrBaseFileSeq := CurrBaseFileSeq am\<rparr>"
  have "add_infos ?b (AOFManifestCreate, 0) = Inr (?am, 0)"
    using assms by (auto simp: manifest_ok_def add_info_def info_ok_def plain_word_def AOFManifestCreate_def split: option.splits)
  moreover have "add_infos (HistoryList am) (?am, 0) = Inr (?am\<lparr>HistoryList := HistoryList am\<rparr>, 0)"
    using assms add_history [of "HistoryList am" ?am 0] by (simp add: manifest_ok_def AOFManifestCreate_def)
  moreover have "add_infos (incrAOFList am) (?am\<lparr>HistoryList := HistoryList am\<rparr>, 0) = Inr (am, CurrIncrFileSeq am)"
  proof -
    have "sorted_wrt (<) (0 # map FileSeq (incrAOFList am))" "list_all (info_ok ''i'') (incrAOFList am)"
      using assms by (auto simp: manifest_ok_def list_all_iff info_ok_def)
    from add_incr [OF this(2,1)] assms show ?thesis
      by (cases am) (auto simp: manifest_ok_def AOFManifestCreate_def)
  qed
  ultimately have "add_infos (infos am) (AOFManifestCreate, 0) = Inr (am, CurrIncrFileSeq am)"
    by (simp add: infos_def)
  then show ?thesis using load manifest_lines_infos [OF ok, of "[]"] by simp
qed

text \<open>
  The manifest of a multi-part append only file survives printing and parsing: every manifest with a base
  file, history files and incremental files of increasing numbers, whose names need no quoting, is
  read back from its text exactly.
\<close>

theorem manifest_roundtrip:
  "manifest_ok am \<Longrightarrow> AOFLoadManifestFromFile (GetAOFManifestAsString am) = Inr (Some am)"
  by (rule manifest_read_back)

definition demo_manifest :: aofManifest where
  "demo_manifest = \<lparr>BaseAOFInfo = Some \<lparr>FileName = ''a.aof.1.base.rdb'', FileSeq = 1, AOFFileType = ''b''\<rparr>,
     incrAOFList = [\<lparr>FileName = ''a.aof.1.incr.aof'', FileSeq = 1, AOFFileType = ''i''\<rparr>,
       \<lparr>FileName = ''a.aof.2.incr.aof'', FileSeq = 2, AOFFileType = ''i''\<rparr>],
     HistoryList = [], CurrBaseFileSeq = 1, CurrIncrFileSeq = 2\<rparr>"

lemma demo_manifest_ok: "manifest_ok demo_manifest"
  by (simp add: manifest_ok_def demo_manifest_def info_ok_def plain_word_def plain_char_def maxInt64_def)

theorem manifest_roundtrip_witness:
  "AOFLoadManifestFromFile (GetAOFManifestAsString demo_manifest) = Inr (Some demo_manifest)"
  by (rule manifest_roundtrip [OF demo_manifest_ok])

end
