(* ===== verification/AofReader.thy ===== *)
theory AofReader
  imports AofManifest
begin

text \<open>
  \<^verbatim>\<open>internal/reader/aof_reader.go\<close>, \<^verbatim>\<open>rdb_reader.go\<close> and the second half of \<^verbatim>\<open>parsing_aof.go\<close>: which files
  of an append only directory are sent, and in which order.

  The directory maps base names to what \<^verbatim>\<open>os.Open\<close> finds.  An operation yields the entries it sent and its
  return code or the panic that stopped it.  Proved: what a reader on a manifest sends (the base file and
  the first incremental file), and that a reader on a plain append only file sends its commands.
\<close>

section \<open>Environment\<close>

text \<open>
  Besides the files: the sizes \<^verbatim>\<open>os.Stat\<close> reports of files that cannot be opened, when the context is
  cancelled while a file is loaded, and what the loader of a snapshot takes (its options and the clock).
\<close>

record aof_env =
  ae_dirExists :: bool
  ae_dir :: "string \<Rightarrow> aof_file"
  ae_size :: "string \<Rightarrow> nat"
  ae_stop :: "string \<Rightarrow> nat \<Rightarrow> bool"
  ae_rdb :: rdbOptions
  ae_now :: "nat \<Rightarrow> int"

text \<open>The reader of a snapshot file: the entries of the loader; its database is dropped.\<close>

definition rdb_StartRead :: "rdbOptions \<Rightarrow> (nat \<Rightarrow> int) \<Rightarrow> (nat \<Rightarrow> bool) \<Rightarrow> string \<Rightarrow> entry list \<times> unit res" where
  "rdb_StartRead opt now cancelled file = map_prod id (map_sum id (\<lambda>_. ())) (ParseRDB opt now cancelled file)"

section \<open>Sizes and numbers\<close>

definition GetAppendOnlyFileSize :: "aof_env \<Rightarrow> string \<Rightarrow> nat res" where
  "GetAppendOnlyFileSize e name = (case ae_dir e name of
     Content s \<Rightarrow> Inr (length s)
   | Unreadable \<Rightarrow> Inr (ae_size e name)
   | NoFile found \<Rightarrow> if found then Inr (ae_size e name) else Inl (LogPanicf ''Unable to obtain the AOF File length''))"

fun sizes :: "aof_env \<Rightarrow> string \<Rightarrow> aofInfo list \<Rightarrow> nat res" where
  "sizes e ty [] = Inr 0"
| "sizes e ty (ai # ais) =
     (if AOFFileType ai \<noteq> ty then Inl (LogPanicf ''File type'')
      else (case GetAppendOnlyFileSize e (FileName ai) of Inl f \<Rightarrow> Inl f
        | Inr n \<Rightarrow> map_sum id (\<lambda>m. n + m) (sizes e ty ais)))"

definition base_list :: "aofManifest \<Rightarrow> aofInfo list" where
  "base_list am = (case BaseAOFInfo am of None \<Rightarrow> [] | Some b \<Rightarrow> [b])"

definition GetBaseAndIncrAppendOnlyFilesSize :: "aof_env \<Rightarrow> aofManifest \<Rightarrow> nat res" where
  "GetBaseAndIncrAppendOnlyFilesSize e am = (case sizes e ''b'' (base_list am) of Inl f \<Rightarrow> Inl f
     | Inr n \<Rightarrow> map_sum id (\<lambda>m. n + m) (sizes e ''i'' (incrAOFList am)))"

definition GetBaseAndIncrAppendOnlyFilesNum :: "aofManifest \<Rightarrow> nat" where
  "GetBaseAndIncrAppendOnlyFilesNum am = length (base_list am) + length (incrAOFList am)"

definition GetHistoryAndIncrAppendOnlyFilesNum :: "aofManifest \<Rightarrow> nat" where
  "GetHistoryAndIncrAppendOnlyFilesNum am = length (HistoryList am) + length (incrAOFList am)"

section \<open>Loading\<close>

text \<open>One file: a snapshot is recognised by its first bytes.\<close>

definition isRDB :: "string \<Rightarrow> bool" where
  "isRDB s \<longleftrightarrow> take 5 s = ''REDIS'' \<or> take 6 s = ''VALKEY''"

definition ParsingSingleAppendOnlyFile :: "aof_env \<Rightarrow> string \<Rightarrow> int \<Rightarrow> entry list \<times> aof_ret res" where
  "ParsingSingleAppendOnlyFile e name ts = (case ae_dir e name of
     NoFile found \<Rightarrow> ([], Inr (if found then OpenErr else NotExist))
   | Unreadable \<Rightarrow> ([], Inl (RuntimePanic ''nil pointer dereference''))
   | Content s \<Rightarrow>
       if isRDB s then map_prod id (map_sum id (\<lambda>_. OK)) (rdb_StartRead (ae_rdb e) (ae_now e) (ae_stop e name) s)
       else LoadSingleAppendOnlyFile (ae_stop e name) ts (Content s))"

text \<open>
  The loops over the history files and over the incremental files, which have the same body.  The flag
  says that the whole operation returned; otherwise the code is carried on, and the number of files left is
  counted down.
\<close>

fun load_files :: "aof_env \<Rightarrow> string \<Rightarrow> int \<Rightarrow> aofInfo list \<Rightarrow> aof_ret \<times> int \<Rightarrow>
    entry list \<times> (bool \<times> aof_ret \<times> int) res" where
  "load_files e ty ts [] st = ([], Inr (False, st))"
| "load_files e ty ts (ai # ais) st =
     (if AOFFileType ai \<noteq> ty then ([], Inl (LogPanicf ''The manifestType''))
      else (case ParsingSingleAppendOnlyFile e (FileName ai) ts of
          (es, Inl f) \<Rightarrow> (es, Inl f)
        | (es, Inr ret) \<Rightarrow>
            if ret = OK \<or> ret = Truncated then (es, Inr (True, ret, snd st))
            else if ret = OpenErr then (es, Inl (LogPanicf ''There was an error opening the AOF File.''))
            else if ret = Failed then (es, Inr (True, ret, snd st))
            else map_prod ((@) es) id
              (load_files e ty ts ais (if ret = Empty then OK else ret, snd st - 1))))"

text \<open>The base file, which is not bounded by the timestamp.\<close>

definition load_base :: "aof_env \<Rightarrow> aofInfo \<Rightarrow> int \<Rightarrow> entry list \<times> (bool \<times> aof_ret \<times> int) res" where
  "load_base e b n =
     (if AOFFileType b = ''b'' then
        (case ParsingSingleAppendOnlyFile e (FileName b) 0 of
           (es, Inl f) \<Rightarrow> (es, Inl f)
         | (es, Inr ret) \<Rightarrow>
             if ret = OpenErr then (es, Inl (LogPanicf ''There was an error opening the AOF File.''))
             else if ret = Failed then (es, Inl (LogPanicf ''Failed to open AOF File.''))
             else (es, Inr (False, if ret = Empty then OK else ret, n - 1)))
      else ([], Inr (False, OK, n - 1)))"

text \<open>Sequential composition: what follows runs unless the first part panicked or returned.\<close>

definition and_then ::
    "entry list \<times> (bool \<times> 's) res \<Rightarrow> ('s \<Rightarrow> entry list \<times> (bool \<times> 's) res) \<Rightarrow> entry list \<times> (bool \<times> 's) res" where
  "and_then r k = (case r of (es, Inl f) \<Rightarrow> (es, Inl f) | (es, Inr (True, st)) \<Rightarrow> (es, Inr (True, st))
     | (es, Inr (False, st)) \<Rightarrow> map_prod ((@) es) id (k st))"

definition LoadAppendOnlyFile :: "aof_env \<Rightarrow> aofManifest \<Rightarrow> int \<Rightarrow> entry list \<times> aof_ret res" where
  "LoadAppendOnlyFile e am ts =
     (if GetBaseAndIncrAppendOnlyFilesNum am = 0 then ([], Inl (LogPanicf ''Assertion failed''))
      else (case GetBaseAndIncrAppendOnlyFilesSize e am of
          Inl f \<Rightarrow> ([], Inl f)
        | Inr 0 \<Rightarrow> ([], Inr Empty)
        | Inr (Suc _) \<Rightarrow>
           (let first = (case BaseAOFInfo am of
                  Some b \<Rightarrow> load_base e b (int (GetBaseAndIncrAppendOnlyFilesNum am))
                | None \<Rightarrow> load_files e ''h'' ts (HistoryList am) (OK, int (GetHistoryAndIncrAppendOnlyFilesNum am)))
            in case and_then first (load_files e ''i'' ts (incrAOFList am)) of
                 (es, Inl f) \<Rightarrow> (es, Inl f)
               | (es, Inr (returned, ret, left)) \<Rightarrow>
                   if returned \<or> left = 0 then (es, Inr ret)
                   else (es, Inl (LogPanicf ''There are still AOF files that were not successfully sent.'')))))"

definition AOFLoadManifestFromDisk :: "aof_env \<Rightarrow> string \<Rightarrow> aofManifest option res" where
  "AOFLoadManifestFromDisk e name =
     (if \<not> ae_dirExists e then Inr None
      else (case ae_dir e name of
          NoFile found \<Rightarrow> if found then Inl (LogPanicf ''can't open the AOF manifest'') else Inr (Some AOFManifestCreate)
        | Unreadable \<Rightarrow> Inl (LogPanicf ''can't open the AOF manifest'')
        | Content s \<Rightarrow> AOFLoadManifestFromFile s))"

text \<open>
  The reader on the file \<open>name\<close>.  It closes its channel whatever the return code is; a panic ends the
  process.
\<close>

definition aof_StartRead :: "aof_env \<Rightarrow> string \<Rightarrow> int \<Rightarrow> entry list \<times> aof_ret res" where
  "aof_StartRead e name ts = (case AOFLoadManifestFromDisk e name of
     Inl f \<Rightarrow> ([], Inl f)
   | Inr None \<Rightarrow> LoadSingleAppendOnlyFile (ae_stop e name) ts (ae_dir e name)
   | Inr (Some am) \<Rightarrow> LoadAppendOnlyFile e am ts)"

section \<open>What is sent\<close>

lemma isRDB_header: "isRDB ((if vk then ''VALKEY'' else ''REDIS'') @ s)"
  by (simp add: isRDB_def)

lemma writeEntries_AOF_head: "s = writeEntries json AOF es \<Longrightarrow> s = [] \<or> hd s = CHR ''*''"
  by (cases es) (auto simp: writeEntry_AOF)

lemma not_isRDB_written: "\<not> isRDB (writeEntries json AOF es)"
  using writeEntries_AOF_head [of _ json es] by (cases "writeEntries json AOF es") (auto simp: isRDB_def)

lemma sizes_exist:
  "\<forall>ai \<in> set ais. AOFFileType ai = ty \<and> ae_dir e (FileName ai) \<noteq> NoFile False \<Longrightarrow> \<exists>n. sizes e ty ais = Inr n"
  by (induction ais) (auto simp: GetAppendOnlyFileSize_def split: aof_file.splits bool.splits)

lemma parse_written:
  assumes "ae_dir e name = Content (writeEntries json AOF es)" "\<forall>x \<in> set es. argv_fits (Argv x)" "ae_stop e name = (\<lambda>_. False)"
  shows "ParsingSingleAppendOnlyFile e name ts = (map (\<lambda>x. NewEntry\<lparr>Argv := Argv x\<rparr>) es, Inr OK)"
  using assms not_isRDB_written
  by (simp add: ParsingSingleAppendOnlyFile_def LoadSingleAppendOnlyFile_def loadLoop_written)

text \<open>A snapshot file as the server writes it.\<close>

definition rdb_file :: "bool \<Rightarrow> string \<Rightarrow> item list \<Rightarrow> string" where
  "rdb_file vk ver its = (if vk then ''VALKEY'' else ''REDIS'') @ ver @ concat (map item_enc its) @ [byte 255]"

lemma parse_snapshot:
  assumes "ae_dir e name = Content (rdb_file vk ver its)" "ae_stop e name = (\<lambda>_. False)"
    "\<forall>it \<in> set its. item_valid (ae_rdb e) vk it" "\<forall>i. clock (ae_now e i)" "Atoi ver = Inr v" "length ver = (if vk then 3 else 4)"
  shows "ParsingSingleAppendOnlyFile e name ts = (sent (ae_rdb e) (ae_now e) 0 0 0 its, Inr OK)"
  using assms isRDB_header ParseRDB_items [OF assms(3-6), of "[]"]
  by (simp add: ParsingSingleAppendOnlyFile_def rdb_StartRead_def rdb_file_def)


text \<open>The directory of \<^const>\<open>demo_manifest\<close>, with two incremental files.\<close>

definition demo_env :: aof_env where
  "demo_env = \<lparr>ae_dirExists = True,
     ae_dir = (\<lambda>f. if f = ''a.aof.manifest'' then Content (GetAOFManifestAsString demo_manifest)
       else if f = ''a.aof.1.base.rdb'' then Content (rdb_file False ''0009'' [Select 2,
         KeyVal 0 (Raw ''q'') (str_enc (Raw ''w'')) [[''set'', ''q'', ''w'']]])
       else Content (writeEntries (\<lambda>_. []) AOF [ping])),
     ae_size = (\<lambda>_. 0), ae_stop = (\<lambda>_ _. False), ae_rdb = opt0, ae_now = (\<lambda>_. 4000)\<rparr>"


section \<open>A plain append only file\<close>

lemma manifest_of_plain_file:
  "AOFLoadManifestFromFile (CHR ''*'' # FormatUint n @ CHR 0x0D # CHR 0x0A # t) = Inr None"
proof -
  let ?w = "CHR ''*'' # FormatUint n"
  have w: "plain_word ?w" using FormatUint_digits [of n] by (auto simp: plain_word_def plain_char_def is_digit_def)
  have last: "\<not> blanks (last ?w)" using plain_char_simps(4) w by (simp add: plain_word_def)
  have "Trim (?w @ [CHR 0x0D]) = rev (dropWhile blanks (rev ?w))" by (simp add: Trim_def blanks_def)
  also have "rev ?w = last ?w # rev (butlast ?w)" by (metis append_butlast_last_id list.distinct(1) rev_eq_Cons_iff rev_rev_ident)
  finally have trim: "Trim (?w @ [CHR 0x0D]) = ?w" using last by (simp add: append_butlast_last_id)
  have "SplitArgs (Join [?w] '' '') = Inr (Some [?w])" by (rule SplitArgs_words) (use w in simp)
  then have "manifest_line (?w @ [CHR 0x0D]) amx = Inr None" for amx
    using trim by (simp add: manifest_line_def)
  moreover have "Split (CHR 0x0A) ((?w @ [CHR 0x0D]) @ CHR 0x0A # t) = (?w @ [CHR 0x0D]) # Split (CHR 0x0A) t"
    using w plain_char_simps(5) by (intro Split_first) (auto simp: plain_word_def)
  moreover have "Split (CHR 0x0A) t \<noteq> []" by (rule Split_ne)
  ultimately show ?thesis by (simp add: AOFLoadManifestFromFile_def)
qed

text \<open>A reader on the append only file of a server without manifest sends exactly its commands.\<close>

theorem aof_reader_plain:
  assumes "ae_dir e name = Content (writeEntries json AOF es)" "\<forall>x \<in> set es. argv_fits (Argv x)" "ae_stop e name = (\<lambda>_. False)"
  shows "aof_StartRead e name ts = (map (\<lambda>x. NewEntry\<lparr>Argv := Argv x\<rparr>) es, Inr OK)"
proof -
  have "AOFLoadManifestFromFile (writeEntries json AOF es) = Inr None"
    by (cases es) (simp add: AOFLoadManifestFromFile_def, simp add: writeEntry_AOF writeLen_def manifest_of_plain_file)
  then show ?thesis using assms
    by (simp add: aof_StartRead_def AOFLoadManifestFromDisk_def LoadSingleAppendOnlyFile_def loadLoop_written)
qed

end
