(* ===== verification/Readers.thy ===== *)
theory Readers
  imports ScanSystem Cluster RedisAuth AofReader
begin

text \<open>
  Readers made of other readers, and what the readers of files report: \<^verbatim>\<open>sync_cluster_reader.go\<close>,
  \<^verbatim>\<open>scan_cluster_reader.go\<close>, the constructor and the sources of \<^verbatim>\<open>sync_standalone_reader.go\<close>, and the status of \<^verbatim>\<open>rdb_reader.go\<close> and
  \<^verbatim>\<open>aof_reader.go\<close>, all under \<^verbatim>\<open>internal/reader\<close>.

  Proved: a cluster reader has one reader, one channel and one progress source per address of the topology, in
  its order, and the readers of a cluster do not empty each other's directories.
\<close>

section \<open>Readers of a node\<close>

record syncReaderOptions =
  sy_Address :: string
  sy_Username :: string
  sy_Password :: string
  sy_tlsOk :: bool
  sy_PreferReplica :: bool

record syncNode =
  sn_opts :: syncReaderOptions
  sn_Name :: string
  sn_client :: conn

definition reader_name :: "string \<Rightarrow> string" where
  "reader_name address = ''reader_'' @ map (\<lambda>c. if c = CHR '':'' then CHR ''_'' else c) address"

text \<open>\<open>emptyDir\<close> says whether \<^verbatim>\<open>CreateEmptyDir\<close> succeeds; on success the directory is empty.\<close>

definition new_sync_reader :: "(string \<Rightarrow> string option) \<Rightarrow> (64 word \<Rightarrow> string) \<Rightarrow> parse_float \<Rightarrow> (string \<Rightarrow> bool) \<Rightarrow>
    syncReaderOptions \<Rightarrow> stop + syncNode" where
  "new_sync_reader dial ff pf emptyDir opts =
     (case NewRedisClient dial ff pf (sy_Address opts) (sy_Username opts) (sy_Password opts) (sy_PreferReplica opts) of Inl e \<Rightarrow> Inl e
      | Inr c \<Rightarrow> if emptyDir (reader_name (sy_Address opts))
                then Inr \<lparr>sn_opts = opts, sn_Name = reader_name (sy_Address opts), sn_client = c\<rparr>
                else Inl (Fault (LogPanicf ''mkdir failed'')))"

text \<open>A source names its node and how to ask for the position of its master.\<close>

type_synonym progressSource = "string \<times> (unit \<Rightarrow> string + masterPosition)"

definition ProgressSources :: "(string \<Rightarrow> string option) \<Rightarrow> parse_float \<Rightarrow> syncNode \<Rightarrow> progressSource list" where
  "ProgressSources dial pf r = (let opts = sn_opts r in
     [(sy_Address opts, \<lambda>_. master_position dial pf (sy_tlsOk opts) (sy_Username opts) (sy_Password opts) (sy_Address opts))])"

section \<open>Readers of a cluster\<close>

definition cluster_nodes :: "(string \<Rightarrow> string option) \<Rightarrow> (64 word \<Rightarrow> string) \<Rightarrow> parse_float \<Rightarrow> string \<Rightarrow> string \<Rightarrow> string \<Rightarrow> bool \<Rightarrow>
    stop + string list \<times> int list list" where
  "cluster_nodes dial ff pf address username password preferReplica =
     (case NewRedisClient dial ff pf address username password False of Inl e \<Rightarrow> Inl e
      | Inr c \<Rightarrow> (case DoWithStringReply ff pf (strs [''cluster'', ''nodes'']) c of (Inl e, _) \<Rightarrow> Inl e
        | (Inr reply, _) \<Rightarrow> (case GetRedisClusterNodes preferReplica reply of Inl f \<Rightarrow> Inl (Fault f) | Inr n \<Rightarrow> Inr n)))"

text \<open>The loop that creates a reader per address.\<close>

fun new_readers :: "(string \<Rightarrow> stop + 'r) \<Rightarrow> string list \<Rightarrow> stop + 'r list" where
  "new_readers new [] = Inr []"
| "new_readers new (a # as) = (case new a of Inl e \<Rightarrow> Inl e | Inr r \<Rightarrow> map_sum id ((#) r) (new_readers new as))"

definition NewSyncClusterReader :: "(string \<Rightarrow> string option) \<Rightarrow> (64 word \<Rightarrow> string) \<Rightarrow> parse_float \<Rightarrow> (string \<Rightarrow> bool) \<Rightarrow>
    syncReaderOptions \<Rightarrow> stop + syncNode list" where
  "NewSyncClusterReader dial ff pf emptyDir opts =
     (case cluster_nodes dial ff pf (sy_Address opts) (sy_Username opts) (sy_Password opts) (sy_PreferReplica opts) of Inl e \<Rightarrow> Inl e
      | Inr (addresses, _) \<Rightarrow> new_readers (\<lambda>a. new_sync_reader dial ff pf emptyDir (opts\<lparr>sy_Address := a\<rparr>)) addresses)"

definition NewScanClusterReader :: "(string \<Rightarrow> string option) \<Rightarrow> (64 word \<Rightarrow> string) \<Rightarrow> parse_float \<Rightarrow>
    scanReaderOptions \<Rightarrow> stop + (scanReaderOptions \<times> scanReader) list" where
  "NewScanClusterReader dial ff pf opts =
     (case cluster_nodes dial ff pf (sro_Address opts) (sro_Username opts) (sro_Password opts) (sro_PreferReplica opts) of Inl e \<Rightarrow> Inl e
      | Inr (addresses, _) \<Rightarrow> new_readers (\<lambda>a. Inr (opts\<lparr>sro_Address := a\<rparr>, NewScanStandaloneReader)) addresses)"

text \<open>
  The operations of both cluster readers: one channel per reader, the status of all of them, a status text that
  goes round over the readers (a division by zero without any), and the combined consistency.
\<close>

definition cluster_StartRead :: "('r \<Rightarrow> 'ch list) \<Rightarrow> 'r list \<Rightarrow> 'ch list res" where
  "cluster_StartRead start rs = (if \<exists>r \<in> set rs. start r = [] then Inl (RuntimePanic ''index out of range'') else Inr (map (hd \<circ> start) rs))"

definition cluster_Status :: "('r \<Rightarrow> 'st) \<Rightarrow> 'r list \<Rightarrow> 'st list" where
  "cluster_Status status rs = map status rs"

definition cluster_StatusString :: "('r \<Rightarrow> string) \<Rightarrow> nat \<Rightarrow> 'r list \<Rightarrow> (nat \<times> string) res" where
  "cluster_StatusString text statusId rs =
     (if rs = [] then Inl (RuntimePanic ''integer divide by zero'')
      else let i = (statusId + 1) mod length rs in Inr (i, ''src-'' @ Itoa (int i) @ '', '' @ text (rs ! i)))"

fun cluster_StatusConsistent :: "bool list \<Rightarrow> bool" where
  "cluster_StatusConsistent [] = True"
| "cluster_StatusConsistent (c # cs) = (if \<not> c then False else cluster_StatusConsistent cs)"

definition cluster_ProgressSources :: "(string \<Rightarrow> string option) \<Rightarrow> parse_float \<Rightarrow> syncNode list \<Rightarrow> progressSource list" where
  "cluster_ProgressSources dial pf rs = concat (map (ProgressSources dial pf) rs)"

section \<open>Readers of files\<close>

record fileReader =
  fr_Name :: string
  fr_Status :: string
  fr_Filepath :: string
  fr_FileSizeBytes :: int
  fr_FileSentBytes :: int
  fr_Percent :: string

text \<open>\<open>absPath\<close> and \<open>fileSize\<close> are the answers of the file system, \<open>pct\<close> prints a share as a percentage.\<close>

definition new_file_reader :: "(string \<Rightarrow> string option) \<Rightarrow> (string \<Rightarrow> int option) \<Rightarrow> string \<Rightarrow> string \<Rightarrow> fileReader res" where
  "new_file_reader absPath fileSize name path = (case absPath path of None \<Rightarrow> Inl (LogPanicf ''filepath.Abs'')
     | Some p \<Rightarrow> (case fileSize p of None \<Rightarrow> Inl (LogPanicf ''stat failed'')
       | Some n \<Rightarrow> Inr \<lparr>fr_Name = name, fr_Status = ''init'', fr_Filepath = p, fr_FileSizeBytes = n, fr_FileSentBytes = 0, fr_Percent = []\<rparr>))"

definition NewRDBReader :: "(string \<Rightarrow> string option) \<Rightarrow> (string \<Rightarrow> int option) \<Rightarrow> string \<Rightarrow> fileReader res" where
  "NewRDBReader absPath fileSize path = new_file_reader absPath fileSize ''rdb_reader'' path"

definition NewAOFReader_status :: "(string \<Rightarrow> string option) \<Rightarrow> (string \<Rightarrow> int option) \<Rightarrow> string \<Rightarrow> fileReader res" where
  "NewAOFReader_status absPath fileSize path = new_file_reader absPath fileSize ''aof_reader'' path"

definition rdb_update :: "(int \<Rightarrow> int \<Rightarrow> string) \<Rightarrow> int \<Rightarrow> fileReader \<Rightarrow> fileReader" where
  "rdb_update pct offset r = r\<lparr>fr_FileSentBytes := offset, fr_Percent := pct offset (fr_FileSizeBytes r),
     fr_Status := ''['' @ fr_Name r @ ''] rdb file synced: '' @ pct offset (fr_FileSizeBytes r)\<rparr>"

definition file_StatusConsistent :: "fileReader \<Rightarrow> bool" where
  "file_StatusConsistent r \<longleftrightarrow> fr_FileSentBytes r = fr_FileSizeBytes r"

text \<open>
  The reader of an append only file never changes what it reports, so that it reports to be consistent for an
  empty file only; the reader of a snapshot does so once the loader has read the whole file.
\<close>

lemma aof_never_consistent:
  "NewAOFReader_status absPath fileSize path = Inr r \<Longrightarrow> file_StatusConsistent r \<longleftrightarrow> fr_FileSizeBytes r = 0"
  by (auto simp: NewAOFReader_status_def new_file_reader_def file_StatusConsistent_def split: option.splits)

lemma rdb_consistent_at_end: "file_StatusConsistent (rdb_update pct offset r) \<longleftrightarrow> offset = fr_FileSizeBytes r"
  by (simp add: rdb_update_def file_StatusConsistent_def)

section \<open>Facts\<close>

lemma new_readers_all:
  "new_readers new as = Inr rs \<longleftrightarrow> list_all2 (\<lambda>a r. new a = Inr r) as rs"
proof (induction "as" arbitrary: rs)
  case (Cons a as)
  then show ?case by (auto simp: list_all2_Cons1 map_sum_Inr split: sum.splits)
qed (auto simp: list_all2_Nil)

lemma cluster_StatusConsistent_all: "cluster_StatusConsistent cs = list_all id cs"
  by (induction cs) auto

text \<open>After as many calls as there are readers the status text of each of them was shown.\<close>

lemma cluster_StatusString_next:
  "cluster_StatusString txt i rs = Inr (j, s) \<Longrightarrow> j < length rs \<and> j = (i + 1) mod length rs \<and> s = ''src-'' @ Itoa (int j) @ '', '' @ txt (rs ! j)"
  by (auto simp: cluster_StatusString_def Let_def split: if_splits)

lemma reader_name_inject:
  assumes "CHR ''_'' \<notin> set a" "CHR ''_'' \<notin> set b" "reader_name a = reader_name b"
  shows "a = b"
proof -
  have "map (\<lambda>c. if c = CHR '':'' then CHR ''_'' else c) a = map (\<lambda>c. if c = CHR '':'' then CHR ''_'' else c) b"
    using assms(3) by (simp add: reader_name_def)
  then show ?thesis using assms(1,2)
  proof (induction a arbitrary: b)
    case (Cons x a)
    then obtain y c where "b = y # c" by (cases b) auto
    with Cons show ?case by (auto split: if_splits)
  qed simp
qed

lemma cluster_nodes_slots:
  assumes "cluster_nodes dial ff pf address username password pr = Inr (addresses, slots)"
  shows "length slots = length addresses \<and> length (concat slots) = 16384"
proof -
  obtain reply where "GetRedisClusterNodes pr reply = Inr (addresses, slots)"
    using assms by (auto simp: cluster_nodes_def split: sum.splits prod.splits)
  then obtain c where "add_nodes (Split (CHR 0x0A) (TrimSpace reply)) emptyNodes = Inr c" "slotsCount c = 16384"
      "node_addresses pr c (nodeIds c) = Inr addresses" "slots = nodeSlots c"
    by (auto simp: GetRedisClusterNodes_def fault_simps split: sum.splits if_splits)
  then show ?thesis using add_nodes_count node_addresses_length by (force simp: emptyNodes_def)
qed

text \<open>
  A cluster reader, once created, has one reader per address of the topology, in its order; the nodes of its
  progress sources are the addresses; the topology names 16384 slots (that none is named twice is only checked
  by the cluster writer); and when no address holds an underscore, no two readers of different
  addresses share a directory.
\<close>

theorem cluster_reader_covers:
  assumes "NewSyncClusterReader dial ff pf emptyDir opts = Inr rs"
  shows "\<exists>addresses slots. cluster_nodes dial ff pf (sy_Address opts) (sy_Username opts) (sy_Password opts) (sy_PreferReplica opts) = Inr (addresses, slots) \<and>
    map (sy_Address \<circ> sn_opts) rs = addresses \<and> map fst (cluster_ProgressSources dial pf rs) = addresses \<and>
    length slots = length addresses \<and> length (concat slots) = 16384 \<and>
    (distinct addresses \<and> (\<forall>a \<in> set addresses. CHR ''_'' \<notin> set a) \<longrightarrow> distinct (map sn_Name rs))"
proof -
  obtain addresses slots where n: "cluster_nodes dial ff pf (sy_Address opts) (sy_Username opts) (sy_Password opts) (sy_PreferReplica opts) = Inr (addresses, slots)"
      "list_all2 (\<lambda>a r. new_sync_reader dial ff pf emptyDir (opts\<lparr>sy_Address := a\<rparr>) = Inr r) addresses rs"
    using assms by (auto simp: NewSyncClusterReader_def new_readers_all split: sum.splits)
  from n(2) have "list_all2 (\<lambda>a r. sy_Address (sn_opts r) = a \<and> sn_Name r = reader_name a) addresses rs"
    by (rule list_all2_mono) (auto simp: new_sync_reader_def split: sum.splits if_splits)
  then have a: "map (sy_Address \<circ> sn_opts) rs = addresses" and nm: "map sn_Name rs = map reader_name addresses"
    by (induction rule: list_all2_induct) simp_all
  have "map fst (cluster_ProgressSources dial pf rs) = map (sy_Address \<circ> sn_opts) rs"
    by (simp add: cluster_ProgressSources_def map_concat o_def ProgressSources_def Let_def)
  moreover have "inj_on reader_name (set addresses)" if "\<forall>a \<in> set addresses. CHR ''_'' \<notin> set a"
    using that reader_name_inject by (auto simp: inj_on_def)
  ultimately show ?thesis using n(1) a nm cluster_nodes_slots [OF n(1)] by (auto simp: distinct_map)
qed

end
