(* ===== verification/FunctionFilter.thy ===== *)
theory FunctionFilter
  imports Kernel
begin

text \<open>
  \<^verbatim>\<open>internal/filter/function.go\<close>: how the user's function is created, and the pool of interpreters it runs on.

  The interpreter gopher-lua is a parameter: \<open>parse\<close> and \<open>compile\<close> of a text, a fresh machine, and what a
  compiled function does on a machine with the global variables set (the calls of \<^verbatim>\<open>shake.call\<close> or an error, and the
  machine afterwards).  Machines go back to the pool and are used again, so that what a script leaves in them is seen by
  later entries; the theory \<open>Kernel\<close> has a script as a function of the global variables alone.  Proved: for a script that
  does not depend on what earlier runs left behind the two agree, whichever machines the pool hands out.
\<close>

record ('c, 'p, 'vm) interpreter =
  lua_parse :: "string \<Rightarrow> string + 'c"
  lua_compile :: "'c \<Rightarrow> string + 'p"
  lua_new :: 'vm
  lua_run :: "'p \<Rightarrow> luaGlobals \<Rightarrow> 'vm \<Rightarrow> (string + (int \<times> string list) list) \<times> 'vm"

definition NewFunctionFilter :: "('c, 'p, 'vm) interpreter \<Rightarrow> string \<Rightarrow> 'p option res" where
  "NewFunctionFilter it luaCode =
     (if luaCode = [] then Inr None
      else (case lua_parse it (TrimSpace luaCode) of Inl err \<Rightarrow> Inl (LogPanicf (''parse lua code failed: '' @ err))
        | Inr chunk \<Rightarrow> (case lua_compile it chunk of Inl err \<Rightarrow> Inl (LogPanicf (''compile lua code failed: '' @ err))
          | Inr p \<Rightarrow> Inr (Some p))))"

text \<open>
  \<^verbatim>\<open>RunFunction\<close> with the pool: \<open>get\<close> is the machine the pool hands out, if any (the pool may also drop machines).
\<close>

definition pool_get :: "('c, 'p, 'vm) interpreter \<Rightarrow> nat option \<Rightarrow> 'vm list \<Rightarrow> 'vm \<times> 'vm list" where
  "pool_get it get pool = (case get of Some i \<Rightarrow> if i < length pool then (pool ! i, take i pool @ drop (Suc i) pool) else (lua_new it, pool)
     | None \<Rightarrow> (lua_new it, pool))"

definition RunFunction_pool :: "('c, 'p, 'vm) interpreter \<Rightarrow> 'p option \<Rightarrow> nat option \<Rightarrow> entry \<Rightarrow> 'vm list \<Rightarrow> entry list res \<times> 'vm list" where
  "RunFunction_pool it runtime get e pool = (case runtime of None \<Rightarrow> (Inr [e], pool)
     | Some p \<Rightarrow> (case pool_get it get pool of (vm, rest) \<Rightarrow>
        (case lua_run it p (globals_of e) vm of
           (Inl err, vm') \<Rightarrow> (Inl (LogPanicf (''load function script failed: '' @ err)), vm' # rest)
         | (Inr calls, vm') \<Rightarrow> (Inr (map (\<lambda>(db, argv). NewEntry\<lparr>DbId := db, Argv := argv\<rparr>) calls), vm' # rest))))"

text \<open>The entries one after the other, with what the pool hands out for each.\<close>

fun run_entries :: "('c, 'p, 'vm) interpreter \<Rightarrow> 'p option \<Rightarrow> (nat option \<times> entry) list \<Rightarrow> 'vm list \<Rightarrow> entry list res list" where
  "run_entries it runtime [] pool = []"
| "run_entries it runtime ((get, e) # es) pool =
     (case RunFunction_pool it runtime get e pool of (r, pool') \<Rightarrow> r # run_entries it runtime es pool')"

text \<open>A script that does not depend on what earlier runs left behind in the machine.\<close>

definition stateless :: "('c, 'p, 'vm) interpreter \<Rightarrow> 'p \<Rightarrow> bool" where
  "stateless it p \<longleftrightarrow> (\<forall>g vm. fst (lua_run it p g vm) = fst (lua_run it p g (lua_new it)))"

definition script_of :: "('c, 'p, 'vm) interpreter \<Rightarrow> 'p \<Rightarrow> script" where
  "script_of it p g = fst (lua_run it p g (lua_new it))"

lemma RunFunction_pool_script:
  assumes "\<And>p. runtime = Some p \<Longrightarrow> stateless it p"
  shows "fst (RunFunction_pool it runtime get e pool) = RunFunction (map_option (script_of it) runtime) e"
proof (cases runtime)
  case (Some p)
  obtain vm rest where g: "pool_get it get pool = (vm, rest)" by force
  have "fst (lua_run it p (globals_of e) vm) = script_of it p (globals_of e)"
    using assms [OF Some] by (simp add: stateless_def script_of_def)
  then show ?thesis
    by (cases "lua_run it p (globals_of e) vm") (auto simp: RunFunction_pool_def RunFunction_def Some g split: sum.splits)
qed (simp add: RunFunction_pool_def RunFunction_def)

lemma pool_is_invisible:
  assumes "\<And>p. runtime = Some p \<Longrightarrow> stateless it p"
  shows "run_entries it runtime es pool = map (\<lambda>(_, e). RunFunction (map_option (script_of it) runtime) e) es"
proof (induction es arbitrary: pool)
  case (Cons x es)
  obtain get e where "x = (get, e)" by force
  moreover have "fst (RunFunction_pool it runtime get e pool) = RunFunction (map_option (script_of it) runtime) e"
    by (rule RunFunction_pool_script) (rule assms)
  ultimately show ?case using Cons by (cases "RunFunction_pool it runtime get e pool") auto
qed simp

text \<open>
  A text of spaces is not taken for the absence of a function: it becomes the empty script, which makes no calls, so
  that every entry is dropped.  (The parser accepts an empty text and the empty script makes no calls.)
\<close>

lemma blank_function_drops_everything:
  assumes "code \<noteq> []" "TrimSpace code = []"
    and "lua_parse it [] = Inr chunk" "lua_compile it chunk = Inr p" "\<And>g vm. lua_run it p g vm = (Inr [], vm)"
  shows "NewFunctionFilter it code = Inr (Some p) \<and> fst (RunFunction_pool it (Some p) get e pool) = Inr []"
  using assms by (auto simp: NewFunctionFilter_def RunFunction_pool_def split: prod.splits)

end
