(* ===== verification/Preflight.thy ===== *)
theory Preflight
  imports WebTask
begin

text \<open>
  \<^verbatim>\<open>cmd/redisshakeweb/redis.go\<close>, the checks before a run: \<^verbatim>\<open>checkRedis\<close>, \<^verbatim>\<open>redisProcessIDs\<close>, \<^verbatim>\<open>preflight\<close>, and
  \<^verbatim>\<open>checksPass\<close> of \<^verbatim>\<open>api.go\<close>.

  The servers answer through the third-party client \<^verbatim>\<open>go-redis\<close>; its answers are a record of functions, where
  \<open>None\<close> is an error.  A check is its name and its result.  Proved: what passing checks guarantee.
\<close>

section \<open>Answers\<close>

record servers =
  sv_ping :: "connection \<Rightarrow> int \<Rightarrow> bool"
  sv_server :: "connection \<Rightarrow> string option"
  sv_nodes :: "connection \<Rightarrow> string option list"
  sv_masters :: "connection \<Rightarrow> bool"
  sv_replication :: "connection \<Rightarrow> string option"
  sv_DBSize :: "connection \<Rightarrow> int \<Rightarrow> int option"

text \<open>Whether a client can be made, and for which connection.\<close>

definition redisClient :: "connection \<Rightarrow> web_error + connection" where
  "redisClient c = (case normalizeConnectionAuth c of Inl e \<Rightarrow> Inl e
     | Inr c' \<Rightarrow> (case validateConnection c' of Some e \<Rightarrow> Inl e | None \<Rightarrow> Inr c'))"

datatype check_name = ConnectionConfig | ConnectAndAuth | RedisVersion | ClusterMasters

definition supported :: "string \<Rightarrow> bool" where
  "supported v \<longleftrightarrow> (let major = ParseInt_val (hd (Split (CHR ''.'') v)) in 6 \<le> major \<and> major \<le> 8)"

definition server_version :: "string \<Rightarrow> string" where
  "server_version info = (case info_field ''redis_version:'' (Split (CHR 0x0A) info) of None \<Rightarrow> [] | Some v \<Rightarrow> v)"

definition checkRedis :: "servers \<Rightarrow> connection \<Rightarrow> (check_name \<times> bool) list" where
  "checkRedis sv c = (case redisClient c of Inl _ \<Rightarrow> [(ConnectionConfig, False)]
   | Inr c' \<Rightarrow>
       if \<not> sv_ping sv c' 0 then [(ConnectAndAuth, False)]
       else (ConnectAndAuth, True) # (case sv_server sv c' of None \<Rightarrow> [(RedisVersion, False)]
         | Some info \<Rightarrow> (RedisVersion, supported (server_version info)) #
             (if c_Kind c = ''cluster'' then [(ClusterMasters, sv_masters sv c')] else [])))"

text \<open>
  The identities of the processes behind a connection: \<open>sv_nodes\<close> are the answers of the nodes asked, all
  masters of a cluster or the one server.
\<close>

fun node_ids :: "string option list \<Rightarrow> string list option" where
  "node_ids [] = Some []"
| "node_ids (None # ns) = None"
| "node_ids (Some info # ns) = (case info_field ''run_id:'' (Split (CHR 0x0A) info) of None \<Rightarrow> None
     | Some i \<Rightarrow> map_option ((#) i) (node_ids ns))"

definition redisProcessIDs :: "servers \<Rightarrow> connection \<Rightarrow> string list option" where
  "redisProcessIDs sv c = (case redisClient c of Inl _ \<Rightarrow> None | Inr c' \<Rightarrow> node_ids (sv_nodes sv c'))"

section \<open>Preflight\<close>

datatype check =
    TaskConfig
  | Source check_name
  | Target check_name
  | Identity
  | Replica
  | TargetDB int
  | TargetEmpty int
  | TaskBinary

definition replicas_found :: "string option \<Rightarrow> bool" where
  "replicas_found info = (case info of None \<Rightarrow> False
     | Some s \<Rightarrow> Contains s ''connected_slaves:'' \<and> \<not> Contains s ''connected_slaves:0'')"

definition db_reachable :: "servers \<Rightarrow> connection \<Rightarrow> int \<Rightarrow> bool" where
  "db_reachable sv c db = (case redisClient c of Inl _ \<Rightarrow> False | Inr c' \<Rightarrow> sv_ping sv c' db)"

definition db_empty :: "servers \<Rightarrow> connection \<Rightarrow> int \<Rightarrow> bool" where
  "db_empty sv c db = (case redisClient c of Inl _ \<Rightarrow> False | Inr c' \<Rightarrow> sv_DBSize sv c' db = Some 0)"

definition preflight ::
    "(string \<Rightarrow> bool) \<Rightarrow> servers \<Rightarrow> bool \<Rightarrow> task \<Rightarrow> connection \<Rightarrow> connection \<Rightarrow> (check \<times> bool) list" where
  "preflight compiles sv binary t source target =
     (if validateTask compiles t source target \<noteq> None then [(TaskConfig, False)]
      else [(TaskConfig, True)] @ map (map_prod Source id) (checkRedis sv source) @ map (map_prod Target id) (checkRedis sv target) @
        [(Identity, case (redisProcessIDs sv source, redisProcessIDs sv target) of
             (Some ss, Some ts) \<Rightarrow> \<not> list_ex (\<lambda>i. i \<in> set ts) ss | _ \<Rightarrow> False)] @
        (if c_Kind source = ''sentinel'' then
           (case redisClient source of Inl _ \<Rightarrow> [] | Inr c \<Rightarrow> [(Replica, replicas_found (sv_replication sv c))])
         else []) @
        map (\<lambda>db. (TargetDB db, db_reachable sv target db)) (targetDBList t) @
        (if TargetPolicy t = ''require_empty'' then map (\<lambda>db. (TargetEmpty db, db_empty sv target db)) (remdups (map snd (DBMap t)))
         else []) @
        [(TaskBinary, binary)])"

definition checksPass :: "('a \<times> bool) list \<Rightarrow> bool" where
  "checksPass checks \<longleftrightarrow> checks \<noteq> [] \<and> list_all snd checks"

section \<open>What passing checks guarantee\<close>

lemma checksPass_all: "checksPass cs \<Longrightarrow> (c, b) \<in> set cs \<Longrightarrow> b"
  by (auto simp: checksPass_def list_all_iff)

lemma list_all_checks: "list_all snd (map (map_prod f id) cs) = list_all snd cs"
  by (induction cs) auto

lemma checkRedis_passed:
  assumes "list_all snd (checkRedis sv c)"
  shows "\<exists>c' info. redisClient c = Inr c' \<and> sv_ping sv c' 0 \<and> sv_server sv c' = Some info \<and> supported (server_version info) \<and>
    (c_Kind c = ''cluster'' \<longrightarrow> sv_masters sv c')"
  using assms by (auto simp: checkRedis_def split: sum.splits option.splits if_splits)


text \<open>Two servers of version 7 with different identities; the target is empty.\<close>

definition demo_servers :: servers where
  "demo_servers = \<lparr>sv_ping = (\<lambda>_ _. True),
     sv_server = (\<lambda>_. Some (''redis_version:7.2.4'' @ [CHR 0x0D, CHR 0x0A])),
     sv_nodes = (\<lambda>c. [Some (''run_id:'' @ c_Address c @ [CHR 0x0A])]),
     sv_masters = (\<lambda>_. True), sv_replication = (\<lambda>_. None), sv_DBSize = (\<lambda>_ _. Some 0)\<rparr>"

lemma demo_answers [simp]:
  "sv_ping demo_servers c db" "sv_server demo_servers c = Some (''redis_version:7.2.4'' @ [CHR 0x0D, CHR 0x0A])"
  "sv_nodes demo_servers c = [Some (''run_id:'' @ c_Address c @ [CHR 0x0A])]" "sv_DBSize demo_servers c db = Some 0"
  by (simp_all add: demo_servers_def)

lemma demo_fields [simp]:
  "c_Kind demo_connection = ''standalone''" "c_Kind demo_target = ''standalone''"
  "c_Address demo_connection = ''10.0.0.1:6379''" "c_Address demo_target = ''10.0.0.2:6379''"
  by (simp_all add: demo_connection_def demo_target_def no_connection_def)

lemma demo_valid: "validateConnection demo_connection = None" "validateConnection demo_target = None"
  by code_simp+

lemma demo_clients: "redisClient demo_connection = Inr demo_connection" "redisClient demo_target = Inr demo_target"
  by (simp_all add: redisClient_def normalizeConnectionAuth_ok demo_auth demo_valid)

lemma demo_checks: "checksPass (preflight (\<lambda>_. True) demo_servers True demo_task demo_connection demo_target)"
proof -
  note cl = demo_clients
  have "server_version (''redis_version:7.2.4'' @ [CHR 0x0D, CHR 0x0A]) = ''7.2.4''"
    by (simp add: server_version_def TrimSpace_def is_space_def)
  moreover have "supported ''7.2.4''" by (simp add: supported_def ParseInt_val_def parse_simps)
  ultimately have "list_all snd (checkRedis demo_servers demo_connection)" "list_all snd (checkRedis demo_servers demo_target)"
    by (simp_all add: checkRedis_def cl)
  moreover have "redisProcessIDs demo_servers demo_connection = Some [''10.0.0.1:6379'']"
    "redisProcessIDs demo_servers demo_target = Some [''10.0.0.2:6379'']"
    by (simp_all add: redisProcessIDs_def cl TrimSpace_def is_space_def)
  moreover have "validateTask (\<lambda>_. True) demo_task demo_connection demo_target = None"
    using demo_validated [of "[(''3'', 1), (''0'', 7)]"] by (simp add: demo_task_def)
  ultimately show ?thesis
    by (auto simp: checksPass_def preflight_def list_all_iff db_reachable_def db_empty_def cl)
qed


end
