(* ===== verification/Runner.thy ===== *)
theory Runner
  imports Preflight
begin

text \<open>
  \<^verbatim>\<open>cmd/redisshakeweb/runner.go\<close>, the run and task tables of \<^verbatim>\<open>store.go\<close> and the handlers of \<^verbatim>\<open>api.go\<close> that change
  them: which synchronisations may run at the same time and how a run ends.

  The state is the content of the database, the map of processes under the mutex, and what handlers have
  read so far; handlers and goroutines interleave as steps.  Proved in every reachable state: at
  most five processes, at most one unfinished run per task, no two tasks that write to the same
  connection at once, and that rows and processes agree; and how a status may change.  Identifiers come
  from \<^verbatim>\<open>crypto/rand\<close>: a fresh one was never drawn before.
\<close>

section \<open>State\<close>

datatype runStatus = STARTING | RUNNING | STOPPING | STOPPED | FAILED

datatype runPhase = UNKNOWN | FULL_SYNC | INCREMENTAL

datatype run_error = NoError | EndedUnexpectedly | Exited string | Interrupted

record runRow =
  r_TaskID :: string
  r_Status :: runStatus
  r_Phase :: runPhase
  r_Error :: run_error
  r_PID :: nat

record runProcess =
  p_pid :: nat
  stopping :: bool

text \<open>
  \<open>w_exited\<close>: runs that \<^verbatim>\<open>watchRun\<close> has taken out of the map and not yet written to the table.  \<open>w_deleting\<close>:
  tasks whose deletion passed its check.  \<open>w_starting\<close>: what \<^verbatim>\<open>startTask\<close> read before it takes the mutex.
  \<open>w_used\<close>: the identifiers drawn so far.
\<close>

record web =
  w_conns :: "(string \<times> connection) list"
  w_tasks :: "task list"
  w_runs :: "(string \<times> runRow) list"
  w_active :: "(string \<times> runProcess) list"
  w_exited :: "(string \<times> bool \<times> string option) list"
  w_deleting :: "string list"
  w_starting :: "(task \<times> connection \<times> connection) list"
  w_used :: "string list"

definition unfinished :: "runStatus \<Rightarrow> bool" where
  "unfinished s \<longleftrightarrow> s \<in> {STARTING, RUNNING, STOPPING}"

definition activeRun :: "string \<Rightarrow> web \<Rightarrow> bool" where
  "activeRun tid w \<longleftrightarrow> list_ex (\<lambda>(_, r). r_TaskID r = tid \<and> unfinished (r_Status r)) (w_runs w)"

definition update_run :: "string \<Rightarrow> (runRow \<Rightarrow> runRow) \<Rightarrow> web \<Rightarrow> web" where
  "update_run i f w = w\<lparr>w_runs := map (\<lambda>(j, r). (j, if j = i then f r else r)) (w_runs w)\<rparr>"

section \<open>Starting\<close>

datatype start_error = TooMany | TaskRunning | TargetUnknown | TargetBusy | NoBinary | SystemError | NoVersions | BadConfig web_error

text \<open>What the outside answers while a run is started.\<close>

record start_env =
  e_servers :: servers
  e_binary :: bool
  e_system :: bool
  e_compiles :: "string \<Rightarrow> bool"
  e_pid :: nat
  e_runDir :: string

definition same_target :: "connection \<Rightarrow> connection \<Rightarrow> bool" where
  "same_target other target \<longleftrightarrow> c_ID other = c_ID target \<or>
     c_Kind other = c_Kind target \<and> c_Address other = c_Address target \<and>
     SentinelMaster other = SentinelMaster target \<and> SentinelAddress other = SentinelAddress target"

text \<open>\<open>None\<close> is an error.  The identities of the target are read once, for the first task that needs them.\<close>

fun busy_loop :: "servers \<Rightarrow> web \<Rightarrow> connection \<Rightarrow> task list \<Rightarrow> bool option" where
  "busy_loop sv w target [] = Some False"
| "busy_loop sv w target (t # ts) =
     (if \<not> activeRun (t_ID t) w then busy_loop sv w target ts
      else (case map_of (w_conns w) (TargetID t) of None \<Rightarrow> None
        | Some other \<Rightarrow>
            if same_target other target then Some True
            else (case redisProcessIDs sv target of None \<Rightarrow> None
              | Some tis \<Rightarrow> (case redisProcessIDs sv other of None \<Rightarrow> None
                | Some ois \<Rightarrow> if list_ex (\<lambda>i. i \<in> set ois) tis then Some True else busy_loop sv w target ts))))"

definition targetBusy :: "servers \<Rightarrow> web \<Rightarrow> connection \<Rightarrow> bool option" where
  "targetBusy sv w target = busy_loop sv w target (w_tasks w)"

definition version_of :: "servers \<Rightarrow> connection \<Rightarrow> version option" where
  "version_of sv c = (case redisClient c of Inl _ \<Rightarrow> None
     | Inr c' \<Rightarrow> (case sv_server sv c' of None \<Rightarrow> None | Some info \<Rightarrow> redisVersion info))"

definition new_run :: "task \<Rightarrow> nat \<Rightarrow> runRow" where
  "new_run t pid = \<lparr>r_TaskID = t_ID t, r_Status = RUNNING, r_Phase = UNKNOWN, r_Error = NoError, r_PID = pid\<rparr>"

text \<open>
  \<^verbatim>\<open>startRun\<close>, with the mutex held throughout; \<open>i\<close> is the identifier drawn.  The table has a unique index
  on the task of unfinished runs: an insert that violates it fails, and the process is killed.
  \<open>e_system\<close> stands for all calls of the operating system on the way, of which none changes the state.
\<close>

definition startRun :: "start_env \<Rightarrow> string \<Rightarrow> task \<Rightarrow> connection \<Rightarrow> connection \<Rightarrow> web \<Rightarrow> start_error + web" where
  "startRun e i t source target w =
     (if 5 \<le> length (w_active w) then Inl TooMany
      else if activeRun (t_ID t) w then Inl TaskRunning
      else (case targetBusy (e_servers e) w target of None \<Rightarrow> Inl TargetUnknown
        | Some True \<Rightarrow> Inl TargetBusy
        | Some False \<Rightarrow>
            if \<not> e_binary e then Inl NoBinary
            else if \<not> e_system e then Inl SystemError
            else (case (version_of (e_servers e) source, version_of (e_servers e) target) of
                (Some vs, Some vt) \<Rightarrow>
                  (case generateConfig (e_compiles e) t source target (e_runDir e) (versionIsOlder vt vs) of
                     Inl err \<Rightarrow> Inl (BadConfig err)
                   | Inr _ \<Rightarrow>
                       if i \<in> fst ` set (w_runs w) \<or> activeRun (t_ID t) w then Inl SystemError
                       else Inr (w\<lparr>w_runs := w_runs w @ [(i, new_run t (e_pid e))],
                                   w_active := (i, \<lparr>p_pid = e_pid e, stopping = False\<rparr>) # w_active w\<rparr>))
              | _ \<Rightarrow> Inl NoVersions)))"

section \<open>Stopping and ending\<close>

definition set_stopping :: "string \<Rightarrow> web \<Rightarrow> web" where
  "set_stopping i w = w\<lparr>w_active := map (\<lambda>(j, p). (j, if j = i then p\<lparr>stopping := True\<rparr> else p)) (w_active w)\<rparr>"

text \<open>\<^verbatim>\<open>stopRun\<close>: whether the run was there, and the state; the signal sent has no effect on the state.\<close>

definition stopRun :: "string \<Rightarrow> web \<Rightarrow> bool \<times> web" where
  "stopRun i w = (case map_of (w_active w) i of None \<Rightarrow> (False, w)
     | Some p \<Rightarrow> if stopping p then (True, w)
         else (True, update_run i (\<lambda>r. r\<lparr>r_Status := STOPPING\<rparr>) (set_stopping i w)))"

definition shutdown :: "web \<Rightarrow> web" where
  "shutdown w = w\<lparr>w_active := map (\<lambda>(j, p). (j, p\<lparr>stopping := True\<rparr>)) (w_active w)\<rparr>"

text \<open>\<^verbatim>\<open>watchRun\<close> after the process ended with an exit error or not: under the mutex, then the update.\<close>

definition watch_remove :: "string \<Rightarrow> string option \<Rightarrow> web \<Rightarrow> web" where
  "watch_remove i err w = w\<lparr>w_active := filter (\<lambda>(j, _). j \<noteq> i) (w_active w),
     w_exited := (i, (case map_of (w_active w) i of Some p \<Rightarrow> stopping p | None \<Rightarrow> False), err) # w_exited w\<rparr>"

definition end_run :: "bool \<Rightarrow> string option \<Rightarrow> runRow \<Rightarrow> runRow" where
  "end_run stopped err r =
     (if stopped then r\<lparr>r_Status := STOPPED, r_Error := NoError\<rparr>
      else r\<lparr>r_Status := FAILED, r_Error := (case err of None \<Rightarrow> EndedUnexpectedly | Some s \<Rightarrow> Exited s)\<rparr>)"

definition watch_update :: "string \<times> bool \<times> string option \<Rightarrow> web \<Rightarrow> web" where
  "watch_update x w = (case x of (i, stopped, err) \<Rightarrow>
     (update_run i (end_run stopped err) w)\<lparr>w_exited := removeAll x (w_exited w)\<rparr>)"

text \<open>\<^verbatim>\<open>trackPhase\<close>: the phase a log line shows, if any (the source compares lower-case texts).\<close>

definition lower_char :: "char \<Rightarrow> char" where
  "lower_char c = (let n = (of_char c :: nat) in if 65 \<le> n \<and> n \<le> 90 then char_of (n + 32) else c)"

definition phase_of_line :: "string \<Rightarrow> runPhase option" where
  "phase_of_line l0 = (let l = map lower_char l0 in
     if Contains l ''syncing aof'' then Some INCREMENTAL
     else if Contains l ''syncing rdb'' \<or> Contains l ''receiving rdb'' then Some FULL_SYNC else None)"

definition track_lines :: "string \<Rightarrow> string list \<Rightarrow> web \<Rightarrow> web" where
  "track_lines i ls w = foldl (\<lambda>w l. case phase_of_line l of None \<Rightarrow> w | Some p \<Rightarrow> update_run i (\<lambda>r. r\<lparr>r_Phase := p\<rparr>) w) w ls"

text \<open>
  A restart of the service: the processes of unfinished runs are waited for; if one is still alive the
  service does not start, otherwise these runs are marked as interrupted.
\<close>

definition markInterrupted :: "web \<Rightarrow> web" where
  "markInterrupted w = w\<lparr>w_runs := map (\<lambda>(i, r). (i,
     if unfinished (r_Status r) then r\<lparr>r_Status := FAILED, r_Error := Interrupted\<rparr> else r)) (w_runs w)\<rparr>"

definition reconcileOldRuns :: "(nat \<Rightarrow> bool) \<Rightarrow> web \<Rightarrow> web option" where
  "reconcileOldRuns alive w =
     (if list_ex (\<lambda>(_, r). unfinished (r_Status r) \<and> 0 < r_PID r \<and> alive (r_PID r)) (w_runs w) then None
      else Some (markInterrupted w))"

definition forget :: "web \<Rightarrow> web" where
  "forget w = w\<lparr>w_active := [], w_exited := [], w_deleting := [], w_starting := []\<rparr>"

section \<open>Handlers on connections and tasks\<close>

definition saveConnection :: "connection \<Rightarrow> web \<Rightarrow> web" where
  "saveConnection c w = w\<lparr>w_conns := (c_ID c, c) # filter (\<lambda>(i, _). i \<noteq> c_ID c) (w_conns w)\<rparr>"

definition createConnection :: "string \<Rightarrow> connection \<Rightarrow> web \<Rightarrow> web_error + web" where
  "createConnection i c w = (case prepareConnection c no_connection of Inl e \<Rightarrow> Inl e
     | Inr c' \<Rightarrow> (case validateConnection c' of Some e \<Rightarrow> Inl e
        | None \<Rightarrow> Inr (saveConnection (c'\<lparr>c_ID := i\<rparr>) w)))"

text \<open>
  \<open>Inr None\<close>: there is no such connection.  A handler reads before it writes, and others may come in
  between: \<open>w0\<close> is the state it read.
\<close>

definition updateConnection :: "string \<Rightarrow> connection \<Rightarrow> web \<Rightarrow> web \<Rightarrow> web_error + web option" where
  "updateConnection i c w0 w = (case map_of (w_conns w0) i of None \<Rightarrow> Inr None
     | Some old \<Rightarrow> (case prepareConnection (c\<lparr>c_ID := i\<rparr>) old of Inl e \<Rightarrow> Inl e
        | Inr c' \<Rightarrow> (case validateConnection c' of Some e \<Rightarrow> Inl e
           | None \<Rightarrow> Inr (Some (saveConnection c' w)))))"

definition referenced :: "string \<Rightarrow> web \<Rightarrow> bool" where
  "referenced i w \<longleftrightarrow> list_ex (\<lambda>t. SourceID t = i \<or> TargetID t = i) (w_tasks w)"

definition deleteConnection :: "string \<Rightarrow> web \<Rightarrow> web \<Rightarrow> bool \<times> web" where
  "deleteConnection i w0 w =
     (if referenced i w0 then (False, w) else (True, w\<lparr>w_conns := filter (\<lambda>(j, _). j \<noteq> i) (w_conns w)\<rparr>))"

definition saveTask :: "task \<Rightarrow> web \<Rightarrow> web" where
  "saveTask t w = w\<lparr>w_tasks := t # filter (\<lambda>t'. t_ID t' \<noteq> t_ID t) (w_tasks w)\<rparr>"

definition createTask :: "string \<Rightarrow> task \<Rightarrow> web \<Rightarrow> web option" where
  "createTask i t w =
     (if TrimSpace (t_Name t) = [] then None
      else Some (saveTask (t\<lparr>t_ID := i, TargetPolicy := (if TargetPolicy t = [] then ''require_empty'' else TargetPolicy t)\<rparr>) w))"

definition find_task :: "string \<Rightarrow> web \<Rightarrow> task option" where
  "find_task i w = find (\<lambda>t. t_ID t = i) (w_tasks w)"

definition copyTask :: "string \<Rightarrow> string \<Rightarrow> string \<Rightarrow> web \<Rightarrow> web \<Rightarrow> web option" where
  "copyTask sfx i old w0 w = map_option (\<lambda>t. saveTask (t\<lparr>t_ID := i, t_Name := t_Name t @ sfx\<rparr>) w) (find_task old w0)"

definition delete_task :: "string \<Rightarrow> web \<Rightarrow> web" where
  "delete_task i w = w\<lparr>w_tasks := filter (\<lambda>t. t_ID t \<noteq> i) (w_tasks w)\<rparr>"

definition taskConnections :: "string \<Rightarrow> web \<Rightarrow> (task \<times> connection \<times> connection) option" where
  "taskConnections i w = (case find_task i w of None \<Rightarrow> None
     | Some t \<Rightarrow> (case (map_of (w_conns w) (SourceID t), map_of (w_conns w) (TargetID t)) of
          (Some s, Some d) \<Rightarrow> Some (t, s, d) | _ \<Rightarrow> None))"

section \<open>Steps\<close>

definition draw :: "string \<Rightarrow> web \<Rightarrow> web" where
  "draw i w = w\<lparr>w_used := i # w_used w\<rparr>"

inductive web_step :: "web \<Rightarrow> web \<Rightarrow> bool" where
  create_connection: "\<lbrakk>i \<notin> set (w_used w); createConnection i c (draw i w) = Inr w'\<rbrakk> \<Longrightarrow> web_step w w'"
| update_connection: "updateConnection i c w0 w = Inr (Some w') \<Longrightarrow> web_step w w'"
| remove_connection: "deleteConnection i w0 w = (b, w') \<Longrightarrow> web_step w w'"
| create_task: "\<lbrakk>i \<notin> set (w_used w); createTask i t (draw i w) = Some w'\<rbrakk> \<Longrightarrow> web_step w w'"
| copy_task: "\<lbrakk>i \<notin> set (w_used w); copyTask sfx i old w0 (draw i w) = Some w'\<rbrakk> \<Longrightarrow> web_step w w'"
| check_delete: "\<not> activeRun i w \<Longrightarrow> web_step w (w\<lparr>w_deleting := i # w_deleting w\<rparr>)"
| remove_task: "i \<in> set (w_deleting w) \<Longrightarrow> web_step w ((delete_task i w)\<lparr>w_deleting := remove1 i (w_deleting w)\<rparr>)"
| read_start: "\<lbrakk>taskConnections i w = Some (t, s, d); checksPass (preflight compiles sv binary t s d)\<rbrakk>
    \<Longrightarrow> web_step w (w\<lparr>w_starting := (t, s, d) # w_starting w\<rparr>)"
| start_run: "\<lbrakk>(t, s, d) \<in> set (w_starting w); i \<notin> set (w_used w); startRun e i t s d (draw i w) = Inr w'\<rbrakk>
    \<Longrightarrow> web_step w (w'\<lparr>w_starting := remove1 (t, s, d) (w_starting w)\<rparr>)"
| start_fails: "\<lbrakk>(t, s, d) \<in> set (w_starting w); i \<notin> set (w_used w); startRun e i t s d (draw i w) = Inl err\<rbrakk>
    \<Longrightarrow> web_step w ((draw i w)\<lparr>w_starting := remove1 (t, s, d) (w_starting w)\<rparr>)"
| stop_run: "stopRun i w = (b, w') \<Longrightarrow> web_step w w'"
| shut_down: "web_step w (shutdown w)"
| process_ends: "i \<in> fst ` set (w_active w) \<Longrightarrow> web_step w (watch_remove i err w)"
| row_updated: "x \<in> set (w_exited w) \<Longrightarrow> web_step w (watch_update x w)"
| phase_seen: "web_step w (track_lines i ls w)"
| restart: "reconcileOldRuns alive (forget w) = Some w' \<Longrightarrow> web_step w w'"

definition web_init :: web where
  "web_init = \<lparr>w_conns = [], w_tasks = [], w_runs = [], w_active = [], w_exited = [], w_deleting = [], w_starting = [], w_used = []\<rparr>"

inductive web_reachable :: "web \<Rightarrow> bool" where
  init: "web_reachable web_init"
| step: "web_reachable w \<Longrightarrow> web_step w w' \<Longrightarrow> web_reachable w'"

section \<open>Rows and processes\<close>

definition row :: "web \<Rightarrow> string \<Rightarrow> runRow option" where
  "row w = map_of (w_runs w)"

definition live :: "web \<Rightarrow> string set" where
  "live w = fst ` set (w_active w) \<union> fst ` set (w_exited w)"

text \<open>
  Unfinished rows are exactly those with a process or an ending under way; a row that is shown as
  stopping has its process marked; and a task has at most one unfinished row.
\<close>

definition rows_inv :: "web \<Rightarrow> bool" where
  "rows_inv w \<longleftrightarrow> distinct (map fst (w_runs w)) \<and> distinct (map fst (w_active w)) \<and> length (w_active w) \<le> 5 \<and>
     distinct (map fst (w_exited w)) \<and> fst ` set (w_active w) \<inter> fst ` set (w_exited w) = {} \<and>
     live w \<subseteq> dom (row w) \<and> (\<forall>i r. row w i = Some r \<longrightarrow> unfinished (r_Status r) = (i \<in> live w)) \<and>
     (\<forall>i j r q. row w i = Some r \<and> row w j = Some q \<and> i \<in> live w \<and> j \<in> live w \<and> r_TaskID r = r_TaskID q \<longrightarrow> i = j)"

lemma activeRun_row:
  assumes "distinct (map fst (w_runs w))"
  shows "activeRun tid w \<longleftrightarrow> (\<exists>i r. row w i = Some r \<and> r_TaskID r = tid \<and> unfinished (r_Status r))"
  using map_of_eq_Some_iff [OF assms] by (auto simp: activeRun_def row_def list_ex_iff)

lemma map_of_update: "map_of (map (\<lambda>(j, r). (j, if j = i then f r else r)) xs) j = map_option (\<lambda>r. if j = i then f r else r) (map_of xs j)"
  by (induction xs) auto

lemma row_update: "row (update_run i f w) j = map_option (\<lambda>r. if j = i then f r else r) (row w j)"
  by (simp add: row_def update_run_def map_of_update)

lemma update_run_other [simp]:
  "w_active (update_run i f w) = w_active w" "w_exited (update_run i f w) = w_exited w" "live (update_run i f w) = live w"
  "w_tasks (update_run i f w) = w_tasks w" "w_conns (update_run i f w) = w_conns w" "w_starting (update_run i f w) = w_starting w"
  "w_used (update_run i f w) = w_used w" "map fst (w_runs (update_run i f w)) = map fst (w_runs w)"
  by (auto simp: update_run_def live_def)

text \<open>The invariant looks at the rows, the processes and the endings only.\<close>

lemma rows_inv_cong:
  "w_runs w' = w_runs w \<Longrightarrow> w_active w' = w_active w \<Longrightarrow> w_exited w' = w_exited w \<Longrightarrow> rows_inv w' = rows_inv w"
  by (simp add: rows_inv_def live_def row_def)

lemma unfinished_simps [simp]:
  "unfinished STARTING" "unfinished RUNNING" "unfinished STOPPING" "\<not> unfinished STOPPED" "\<not> unfinished FAILED"
  by (simp_all add: unfinished_def)

lemma rows_inv_keys:
  assumes "rows_inv w"
  shows "distinct (map fst (w_runs w))" "distinct (map fst (w_active w))" "length (w_active w) \<le> 5"
    "distinct (map fst (w_exited w))" "fst ` set (w_active w) \<inter> fst ` set (w_exited w) = {}" "live w \<subseteq> dom (row w)"
  using assms unfolding rows_inv_def by simp_all

lemma rows_inv_unfinished: "rows_inv w \<Longrightarrow> row w i = Some r \<Longrightarrow> unfinished (r_Status r) = (i \<in> live w)"
  unfolding rows_inv_def by (elim conjE) simp

lemma rows_inv_one:
  assumes "rows_inv w" "row w i = Some r" "row w j = Some q" "i \<in> live w" "j \<in> live w" "r_TaskID r = r_TaskID q"
  shows "i = j"
proof -
  have "\<forall>i j r q. row w i = Some r \<and> row w j = Some q \<and> i \<in> live w \<and> j \<in> live w \<and> r_TaskID r = r_TaskID q \<longrightarrow> i = j"
    using assms(1) unfolding rows_inv_def by (elim conjE)
  with assms(2-6) show ?thesis by simp
qed

lemma rows_invI:
  assumes "distinct (map fst (w_runs w))" "distinct (map fst (w_active w))" "length (w_active w) \<le> 5"
    "distinct (map fst (w_exited w))" "fst ` set (w_active w) \<inter> fst ` set (w_exited w) = {}" "live w \<subseteq> dom (row w)"
    "\<And>i r. row w i = Some r \<Longrightarrow> unfinished (r_Status r) = (i \<in> live w)"
    "\<And>i j r q. row w i = Some r \<Longrightarrow> row w j = Some q \<Longrightarrow> i \<in> live w \<Longrightarrow> j \<in> live w \<Longrightarrow> r_TaskID r = r_TaskID q \<Longrightarrow> i = j"
  shows "rows_inv w"
proof -
  have "\<forall>i r. row w i = Some r \<longrightarrow> unfinished (r_Status r) = (i \<in> live w)" using assms(7) by simp
  moreover have "\<forall>i j r q. row w i = Some r \<and> row w j = Some q \<and> i \<in> live w \<and> j \<in> live w \<and> r_TaskID r = r_TaskID q \<longrightarrow> i = j"
    using assms(8) by blast
  ultimately show ?thesis unfolding rows_inv_def using assms(1-6) by (intro conjI)
qed

text \<open>Changes that keep the runs and processes and, of each row, its task and whether it is finished.\<close>

lemma rows_inv_sim:
  assumes inv: "rows_inv w" and keys: "map fst (w_runs w') = map fst (w_runs w)" "map fst (w_active w') = map fst (w_active w)"
    "map fst (w_exited w') = map fst (w_exited w)"
    and rows: "\<And>i r. row w' i = Some r \<Longrightarrow> \<exists>q. row w i = Some q \<and> r_TaskID r = r_TaskID q \<and> unfinished (r_Status r) = unfinished (r_Status q)"
  shows "rows_inv w'"
proof -
  have s: "fst ` set (w_active w') = fst ` set (w_active w)" "fst ` set (w_exited w') = fst ` set (w_exited w)"
    using arg_cong [OF keys(2), of set] arg_cong [OF keys(3), of set] by simp_all
  then have live: "live w' = live w" by (simp add: live_def)
  have "dom (row w') = fst ` set (w_runs w')" "dom (row w) = fst ` set (w_runs w)" by (simp_all add: row_def dom_map_of_conv_image_fst)
  then have dom: "dom (row w') = dom (row w)" using arg_cong [OF keys(1), of set] by simp
  have len: "length (w_active w') = length (w_active w)" using arg_cong [OF keys(2), of length] by simp
  show ?thesis
  proof (rule rows_invI)
    show "unfinished (r_Status r) = (i \<in> live w')" if "row w' i = Some r" for i r
      using rows [OF that] rows_inv_unfinished [OF inv] by (auto simp: live)
    show "i = j" if h: "row w' i = Some r" "row w' j = Some q" "i \<in> live w'" "j \<in> live w'" "r_TaskID r = r_TaskID q" for i j r q
    proof -
      obtain r' q' where x: "row w i = Some r'" "r_TaskID r = r_TaskID r'" "row w j = Some q'" "r_TaskID q = r_TaskID q'"
        using rows [OF h(1)] rows [OF h(2)] by blast
      have "r_TaskID r' = r_TaskID q'" using x(2,4) h(5) by metis
      from rows_inv_one [OF inv x(1,3) h(3,4) [unfolded live] this] show ?thesis .
    qed
    show "distinct (map fst (w_runs w'))" "distinct (map fst (w_active w'))" "length (w_active w') \<le> 5" "distinct (map fst (w_exited w'))"
      using rows_inv_keys(1-4) [OF inv] by (simp_all only: keys len)
    show "fst ` set (w_active w') \<inter> fst ` set (w_exited w') = {}" "live w' \<subseteq> dom (row w')"
      using rows_inv_keys(5,6) [OF inv] by (simp_all only: s live dom)
  qed
qed

lemma rows_inv_update:
  assumes "rows_inv w" "\<And>r. row w i = Some r \<Longrightarrow> r_TaskID (f r) = r_TaskID r \<and> unfinished (r_Status (f r)) = unfinished (r_Status r)"
  shows "rows_inv (update_run i f w)"
  using assms(1) by (rule rows_inv_sim) (use assms(2) in \<open>auto simp: row_update split: if_splits\<close>)

lemma rows_inv_stopRun:
  assumes "rows_inv w" "stopRun i w = (b, w')"
  shows "rows_inv w'"
proof (cases "map_of (w_active w) i")
  case None
  with assms show ?thesis by (simp add: stopRun_def)
next
  case (Some p)
  then have "i \<in> live w" by (force simp: live_def dest: map_of_SomeD)
  then have "unfinished (r_Status r)" if "row w i = Some r" for r using assms(1) that by (simp add: rows_inv_def)
  moreover have "rows_inv (set_stopping i w)"
    using assms(1) by (rule rows_inv_sim) (auto simp: set_stopping_def row_def)
  ultimately have "rows_inv (update_run i (\<lambda>r. r\<lparr>r_Status := STOPPING\<rparr>) (set_stopping i w))"
    by (intro rows_inv_update) (auto simp: unfinished_def row_def set_stopping_def)
  with Some assms show ?thesis by (auto simp: stopRun_def split: if_splits)
qed

lemma rows_inv_shutdown: "rows_inv w \<Longrightarrow> rows_inv (shutdown w)"
  by (erule rows_inv_sim) (auto simp: shutdown_def row_def)

lemma rows_inv_track: "rows_inv w \<Longrightarrow> rows_inv (track_lines i ls w)"
proof (induction ls arbitrary: w)
  case (Cons l ls)
  have "rows_inv (case phase_of_line l of None \<Rightarrow> w | Some p \<Rightarrow> update_run i (\<lambda>r. r\<lparr>r_Phase := p\<rparr>) w)"
    using Cons.prems by (auto intro!: rows_inv_update split: option.splits)
  from Cons.IH [OF this] show ?case by (simp add: track_lines_def)
qed (simp add: track_lines_def)

lemma rows_inv_remove:
  assumes inv: "rows_inv w" and i: "i \<in> fst ` set (w_active w)"
  shows "rows_inv (watch_remove i err w)"
proof -
  let ?w = "watch_remove i err w"
  have a: "fst ` set (w_active ?w) = fst ` set (w_active w) - {i}" "w_runs ?w = w_runs w"
    "map fst (w_exited ?w) = i # map fst (w_exited w)" by (auto simp: watch_remove_def)
  then have live: "live ?w = live w" using i by (auto simp: live_def watch_remove_def)
  have n: "distinct (map fst (w_active ?w))" "length (w_active ?w) \<le> 5"
    using rows_inv_keys [OF inv] by (auto simp: watch_remove_def distinct_map_filter intro: le_trans [OF length_filter_le])
  have row: "row ?w = row w" by (simp add: row_def watch_remove_def)
  show ?thesis
  proof (rule rows_invI)
    show "distinct (map fst (w_exited ?w))" using rows_inv_keys(4,5) [OF inv] i by (auto simp: watch_remove_def)
    show "fst ` set (w_active ?w) \<inter> fst ` set (w_exited ?w) = {}"
      unfolding a(1) using rows_inv_keys(5) [OF inv] arg_cong [OF a(3), of set] by auto
    show "unfinished (r_Status r) = (j \<in> live ?w)" if "row ?w j = Some r" for j r
      using rows_inv_unfinished [OF inv] that by (simp add: live row)
    show "k = j" if "row ?w k = Some r" "row ?w j = Some q" "k \<in> live ?w" "j \<in> live ?w" "r_TaskID r = r_TaskID q" for k j r q
      using rows_inv_one [OF inv, of k r j q] that by (simp add: live row)
  qed (use rows_inv_keys [OF inv] n in \<open>simp_all add: a(2) live row\<close>)
qed

lemma rows_inv_row_updated:
  assumes inv: "rows_inv w" and x: "x \<in> set (w_exited w)"
  shows "rows_inv (watch_update x w)"
proof -
  obtain i stopped err where xi: "x = (i, stopped, err)" by (cases x)
  let ?w = "watch_update x w"
  have "inj_on fst (set (w_exited w))" using inv by (simp add: rows_inv_def distinct_map)
  from inj_on_image_set_diff [OF this, of "set (w_exited w)" "{x}"] x
  have e: "fst ` set (w_exited ?w) = fst ` set (w_exited w) - {i}" by (simp add: watch_update_def xi)
  have "i \<in> fst ` set (w_exited w)" using x xi by force
  then have ia: "i \<notin> fst ` set (w_active w)" using inv by (auto simp: rows_inv_def)
  have [simp]: "w_active ?w = w_active w" "map fst (w_runs ?w) = map fst (w_runs w)" by (auto simp: watch_update_def update_run_def xi)
  have live: "live ?w = live w - {i}" using e ia by (auto simp: live_def)
  have row: "row ?w j = map_option (\<lambda>r. if j = i then end_run stopped err r else r) (row w j)" for j
    by (simp add: watch_update_def row_def update_run_def map_of_update xi)
  have fin: "\<not> unfinished (r_Status (end_run stopped err r))" for r by (simp add: end_run_def)
  have dom: "dom (row ?w) = dom (row w)" by (auto simp: row dom_def)
  show ?thesis
  proof (rule rows_invI)
    show "distinct (map fst (w_exited ?w))"
      using rows_inv_keys(4) [OF inv] by (simp add: watch_update_def removeAll_filter_not_eq distinct_map_filter xi)
    show "unfinished (r_Status r) = (j \<in> live ?w)" if "row ?w j = Some r" for j r
      using that rows_inv_unfinished [OF inv] fin by (cases "j = i") (auto simp: live row)
    show "k = j" if "row ?w k = Some r" "row ?w j = Some q" "k \<in> live ?w" "j \<in> live ?w" "r_TaskID r = r_TaskID q" for k j r q
      using that rows_inv_one [OF inv, of k r j q] by (auto simp: live row)
    show "fst ` set (w_active ?w) \<inter> fst ` set (w_exited ?w) = {}" using rows_inv_keys(5) [OF inv] by (auto simp: e)
    show "live ?w \<subseteq> dom (row ?w)" using rows_inv_keys(6) [OF inv] by (auto simp: live dom)
  qed (use rows_inv_keys [OF inv] in simp_all)
qed

lemma rows_inv_restart:
  assumes "rows_inv w" "reconcileOldRuns alive (forget w) = Some w'"
  shows "rows_inv w' \<and> (\<forall>i r. row w' i = Some r \<longrightarrow> \<not> unfinished (r_Status r))"
proof -
  have w': "w' = markInterrupted (forget w)" using assms(2) by (auto simp: reconcileOldRuns_def split: if_splits)
  have "map_of (map (\<lambda>(i, r). (i, g r)) xs) i = map_option g (map_of xs i)" for g :: "runRow \<Rightarrow> runRow" and xs and i :: string
    by (induction xs) auto
  then have "row w' i = map_option (\<lambda>r. if unfinished (r_Status r) then r\<lparr>r_Status := FAILED, r_Error := Interrupted\<rparr> else r) (row w i)" for i
    by (simp add: w' row_def markInterrupted_def forget_def)
  then have fin: "\<not> unfinished (r_Status r)" if "row w' i = Some r" for i r
    using that by (cases "row w i") (auto split: if_split_asm)
  have keys: "map fst (w_runs w') = map fst (w_runs w)" by (auto simp: w' markInterrupted_def forget_def)
  have none: "w_active w' = []" "w_exited w' = []" by (simp_all add: w' markInterrupted_def forget_def)
  have "rows_inv w'" by (rule rows_invI) (use fin rows_inv_keys [OF assms(1)] in \<open>simp_all add: live_def none keys\<close>)
  with fin show ?thesis by blast
qed

lemma startRun_ok:
  assumes "startRun e i t s d w = Inr w'"
  shows "length (w_active w) < 5" "\<not> activeRun (t_ID t) w" "targetBusy (e_servers e) w d = Some False" "i \<notin> fst ` set (w_runs w)"
    "w' = w\<lparr>w_runs := w_runs w @ [(i, new_run t (e_pid e))], w_active := (i, \<lparr>p_pid = e_pid e, stopping = False\<rparr>) # w_active w\<rparr>"
  using assms by (auto simp: startRun_def split: if_splits option.splits bool.splits sum.splits)

lemma dom_row: "dom (row w) = fst ` set (w_runs w)"
  by (simp add: row_def dom_map_of_conv_image_fst)

lemma activeRun_live:
  assumes "rows_inv w"
  shows "activeRun tid w \<longleftrightarrow> (\<exists>i r. row w i = Some r \<and> r_TaskID r = tid \<and> i \<in> live w)"
  using activeRun_row [OF rows_inv_keys(1) [OF assms]] rows_inv_unfinished [OF assms] by metis

lemma startRun_row:
  assumes "startRun e i t s d w = Inr w'"
  shows "row w' j = (if j = i then Some (new_run t (e_pid e)) else row w j)" "live w' = insert i (live w)" "row w i = None"
proof -
  note ok = startRun_ok [OF assms]
  have "row w i = None" using ok(4) by (simp add: row_def map_of_eq_None_iff)
  then show "row w' j = (if j = i then Some (new_run t (e_pid e)) else row w j)" "row w i = None"
    by (auto simp: ok(5) row_def map_add_def split: option.splits)
  show "live w' = insert i (live w)" by (auto simp: ok(5) live_def)
qed

lemma rows_inv_start:
  assumes inv: "rows_inv w" and s: "startRun e i t s d w = Inr w'"
  shows "rows_inv w'"
proof -
  note ok = startRun_ok [OF s] and row = startRun_row [OF s]
  have i: "i \<notin> live w" using rows_inv_keys(6) [OF inv] row(3) by auto
  then have ia: "i \<notin> fst ` set (w_active w)" "i \<notin> fst ` set (w_exited w)" by (auto simp: live_def)
  have none: "r_TaskID r \<noteq> t_ID t" if "row w j = Some r" "j \<in> live w" for j r
    using ok(2) that activeRun_live [OF inv] by blast
  show ?thesis
  proof (rule rows_invI)
    show "unfinished (r_Status r) = (j \<in> live w')" if "row w' j = Some r" for j r
      using that rows_inv_unfinished [OF inv, of j r] by (auto simp: row(1,2) new_run_def split: if_splits)
    show "k = j" if "row w' k = Some r" "row w' j = Some q" "k \<in> live w'" "j \<in> live w'" "r_TaskID r = r_TaskID q" for k j r q
      using that none [of k r] none [of j q] rows_inv_one [OF inv, of k r j q] i by (auto simp: row(1,2) new_run_def split: if_splits)
    show "live w' \<subseteq> dom (row w')" using rows_inv_keys(6) [OF inv] by (auto simp: row(1,2))
    show "distinct (map fst (w_runs w'))" "distinct (map fst (w_active w'))" "distinct (map fst (w_exited w'))" "length (w_active w') \<le> 5"
      using rows_inv_keys(1-4) [OF inv] ok(1,4) ia by (auto simp: ok(5))
    show "fst ` set (w_active w') \<inter> fst ` set (w_exited w') = {}" using rows_inv_keys(5) [OF inv] ia by (auto simp: ok(5))
  qed
qed

text \<open>A step that leaves the runs alone.\<close>

definition same_runs :: "web \<Rightarrow> web \<Rightarrow> bool" where
  "same_runs w w' \<longleftrightarrow> w_runs w' = w_runs w \<and> w_active w' = w_active w \<and> w_exited w' = w_exited w"

lemma same_runs_handlers:
  "createConnection i c (draw i w) = Inr w' \<Longrightarrow> same_runs w w'"
  "updateConnection i c w0 w = Inr (Some w') \<Longrightarrow> same_runs w w'"
  "deleteConnection i w0 w = (b, w') \<Longrightarrow> same_runs w w'"
  "createTask i t (draw i w) = Some w' \<Longrightarrow> same_runs w w'"
  "copyTask sfx i old w0 (draw i w) = Some w' \<Longrightarrow> same_runs w w'"
  by (auto simp: same_runs_def createConnection_def updateConnection_def deleteConnection_def createTask_def copyTask_def
      saveConnection_def saveTask_def draw_def split: sum.splits option.splits if_splits)

lemma same_runs_inv: "same_runs w w' \<Longrightarrow> rows_inv w \<Longrightarrow> rows_inv w'"
  using rows_inv_cong [of w' w] by (simp add: same_runs_def)

lemma same_runs_simps [simp]:
  "same_runs w (draw i w)" "same_runs w (w\<lparr>w_deleting := ds\<rparr>)" "same_runs w (w\<lparr>w_starting := ss\<rparr>)"
  "same_runs w ((delete_task i w)\<lparr>w_deleting := ds\<rparr>)" "same_runs w ((draw i w)\<lparr>w_starting := ss\<rparr>)"
  by (simp_all add: same_runs_def draw_def delete_task_def)

lemma rows_inv_step: "web_step w w' \<Longrightarrow> rows_inv w \<Longrightarrow> rows_inv w'"
proof (induction rule: web_step.induct)
  case (start_run t s d w i e w')
  have "rows_inv (draw i w)" by (rule same_runs_inv [OF _ start_run.prems]) simp
  from rows_inv_start [OF this start_run.hyps(3)] show ?case by (rule same_runs_inv [rotated]) simp
next
  case (restart alive w w')
  then show ?case using rows_inv_restart by blast
qed (blast intro: same_runs_simps same_runs_inv same_runs_handlers rows_inv_stopRun rows_inv_shutdown rows_inv_remove
    rows_inv_row_updated rows_inv_track)+

interpretation web: transition_system web_init web_step web_reachable
proof
  show "I w" if "web_reachable w" "I web_init" "\<And>w w'. \<lbrakk>web_reachable w; I w; web_step w w'\<rbrakk> \<Longrightarrow> I w'" for w I
    using that by (induction rule: web_reachable.induct) blast+
qed (rule web_reachable.init, rule web_reachable.step)

lemma rows_inv_init: "rows_inv web_init"
  by (rule rows_invI) (simp_all add: web_init_def live_def row_def)

lemma rows_inv_reachable: "web_reachable w \<Longrightarrow> rows_inv w"
  by (erule web.invariant, rule rows_inv_init) (rule rows_inv_step)

section \<open>Tasks and targets\<close>

definition start_ok :: "task list \<Rightarrow> string list \<Rightarrow> task \<times> connection \<times> connection \<Rightarrow> bool" where
  "start_ok ts used x \<longleftrightarrow> c_ID (snd (snd x)) = TargetID (fst x) \<and> t_ID (fst x) \<in> set used \<and>
     (\<forall>t' \<in> set ts. t_ID t' = t_ID (fst x) \<longrightarrow> t' = fst x)"

definition tasks_inv :: "web \<Rightarrow> bool" where
  "tasks_inv w \<longleftrightarrow> (\<forall>(j, c) \<in> set (w_conns w). c_ID c = j) \<and> distinct (map t_ID (w_tasks w)) \<and>
     (\<forall>t \<in> set (w_tasks w). t_ID t \<in> set (w_used w)) \<and>
     (\<forall>x \<in> set (w_starting w). start_ok (w_tasks w) (w_used w) x)"

lemma start_ok_mono: "start_ok ts us x \<Longrightarrow> set ts' \<subseteq> set ts \<Longrightarrow> set us \<subseteq> set us' \<Longrightarrow> start_ok ts' us' x"
  by (auto simp: start_ok_def)

lemma normalizeConnectionAuth_id: "normalizeConnectionAuth c = Inr c' \<Longrightarrow> c_ID c' = c_ID c"
  by (auto simp: normalizeConnectionAuth_def Let_def split: sum.splits if_splits)

lemma prepareConnection_id: "prepareConnection c old = Inr c' \<Longrightarrow> c_ID c' = c_ID c"
  unfolding prepareConnection_def Let_def by (drule normalizeConnectionAuth_id) (simp split: if_splits)

lemma tasks_inv_conns:
  "tasks_inv w \<Longrightarrow> tasks_inv (saveConnection c w)" "tasks_inv w \<Longrightarrow> tasks_inv (draw i w)"
  "tasks_inv w \<Longrightarrow> deleteConnection i w0 w = (b, w') \<Longrightarrow> tasks_inv w'"
  by (auto simp: tasks_inv_def saveConnection_def draw_def deleteConnection_def intro: start_ok_mono split: if_splits)

lemma tasks_inv_save:
  assumes "tasks_inv w" "t_ID t \<notin> set (w_used w)"
  shows "tasks_inv (saveTask t (draw (t_ID t) w))"
proof -
  have "\<forall>t' \<in> set (w_tasks w). t_ID t' \<noteq> t_ID t" "\<forall>x \<in> set (w_starting w). t_ID (fst x) \<noteq> t_ID t"
    using assms by (auto simp: tasks_inv_def start_ok_def)
  then show ?thesis using assms(1) by (auto simp: tasks_inv_def saveTask_def draw_def distinct_map_filter start_ok_def)
qed

lemma tasks_inv_read:
  assumes inv: "tasks_inv w" and r: "taskConnections i w = Some (t, s, d)"
  shows "tasks_inv (w\<lparr>w_starting := (t, s, d) # w_starting w\<rparr>)"
proof -
  have t: "t \<in> set (w_tasks w)" and d: "map_of (w_conns w) (TargetID t) = Some d"
    using r by (auto simp: taskConnections_def find_task_def find_Some_iff in_set_conv_nth split: option.splits)
  have "t' = t" if "t' \<in> set (w_tasks w)" "t_ID t' = t_ID t" for t'
    using inj_onD [of t_ID "set (w_tasks w)" t' t] that t inv by (simp add: tasks_inv_def distinct_map)
  moreover have "c_ID d = TargetID t" using map_of_SomeD [OF d] inv by (auto simp: tasks_inv_def)
  ultimately have "start_ok (w_tasks w) (w_used w) (t, s, d)" using inv t by (auto simp: tasks_inv_def start_ok_def)
  with inv show ?thesis by (simp add: tasks_inv_def)
qed

text \<open>Tasks, connections, handlers under way and identifiers stay or get fewer.\<close>

lemma tasks_inv_less:
  assumes "tasks_inv w" "w_conns w' = w_conns w" "w_used w' = w_used w" "w_tasks w' = filter P (w_tasks w)"
    and sub: "set (w_starting w') \<subseteq> set (w_starting w)"
  shows "tasks_inv w'"
proof -
  have "start_ok (w_tasks w') (w_used w') x" if "x \<in> set (w_starting w')" for x
  proof (rule start_ok_mono)
    show "start_ok (w_tasks w) (w_used w) x" using assms(1) subsetD [OF sub that] by (simp add: tasks_inv_def)
  qed (simp_all add: assms(3,4))
  then show ?thesis using assms(1-4) by (simp add: tasks_inv_def distinct_map_filter)
qed

lemma tasks_inv_same:
  "tasks_inv w \<Longrightarrow> w_conns w' = w_conns w \<Longrightarrow> w_used w' = w_used w \<Longrightarrow> w_tasks w' = w_tasks w \<Longrightarrow>
     set (w_starting w') \<subseteq> set (w_starting w) \<Longrightarrow> tasks_inv w'"
  using tasks_inv_less [of w w' "\<lambda>_. True"] by simp

lemma track_lines_other:
  "w_conns (track_lines i ls w) = w_conns w" "w_used (track_lines i ls w) = w_used w" "w_tasks (track_lines i ls w) = w_tasks w"
  "w_starting (track_lines i ls w) = w_starting w" "live (track_lines i ls w) = live w"
  by (induction ls arbitrary: w) (auto simp: track_lines_def split: option.splits)

lemma tasks_inv_step: "web_step w w' \<Longrightarrow> tasks_inv w \<Longrightarrow> tasks_inv w'"
proof (induction rule: web_step.induct)
  case (create_connection i w c w')
  then show ?case by (auto simp: createConnection_def intro!: tasks_inv_conns split: sum.splits option.splits)
next
  case (update_connection i c w0 w w')
  then show ?case by (auto simp: updateConnection_def intro!: tasks_inv_conns split: sum.splits option.splits)
next
  case (remove_connection i w0 w b w')
  then show ?case by (blast intro: tasks_inv_conns)
next
  case (create_task i w t w')
  let ?t = "t\<lparr>t_ID := i, TargetPolicy := (if TargetPolicy t = [] then ''require_empty'' else TargetPolicy t)\<rparr>"
  have "w' = saveTask ?t (draw i w)" using create_task.hyps(2) by (simp add: createTask_def split: if_splits)
  then show ?case using tasks_inv_save [of w ?t] create_task by simp
next
  case (copy_task i w sfx old w0 w')
  then obtain t where "w' = saveTask (t\<lparr>t_ID := i, t_Name := t_Name t @ sfx\<rparr>) (draw i w)" by (auto simp: copyTask_def)
  then show ?case using tasks_inv_save [of w "t\<lparr>t_ID := i, t_Name := t_Name t @ sfx\<rparr>"] copy_task by simp
next
  case (check_delete i w)
  show ?case by (rule tasks_inv_same [OF check_delete.prems]) simp_all
next
  case (remove_task i w)
  show ?case by (rule tasks_inv_less [OF remove_task.prems, of _ "\<lambda>t. t_ID t \<noteq> i"]) (simp_all add: delete_task_def)
next
  case (read_start i w t s d compiles sv binary)
  then show ?case by (blast intro: tasks_inv_read)
next
  case (start_run t s d w i e w')
  show ?case by (rule tasks_inv_same [OF tasks_inv_conns(2) [OF start_run.prems, of i]])
    (simp_all add: startRun_ok(5) [OF start_run.hyps(3)] draw_def set_remove1_subset)
next
  case (start_fails t s d w i e err)
  show ?case by (rule tasks_inv_same [OF tasks_inv_conns(2) [OF start_fails.prems, of i]])
    (simp_all add: draw_def set_remove1_subset)
next
  case (restart alive w w')
  then show ?case by (auto simp: reconcileOldRuns_def markInterrupted_def forget_def intro: tasks_inv_same [of w] split: if_splits)
next
  case (stop_run i w b w')
  show ?case by (rule tasks_inv_same [OF stop_run.prems])
    (use stop_run.hyps in \<open>auto simp: stopRun_def set_stopping_def update_run_def split: option.splits if_splits\<close>)
next
  case (row_updated x w)
  show ?case by (rule tasks_inv_same [OF row_updated.prems]) (auto simp: watch_update_def update_run_def split: prod.splits)
next
  case (phase_seen w i ls)
  show ?case by (rule tasks_inv_same [OF phase_seen]) (auto simp: track_lines_other)
qed (auto simp: shutdown_def watch_remove_def intro: tasks_inv_same)

text \<open>How a row may change: never its task, and its status only while it is unfinished.\<close>

definition moves :: "runStatus \<Rightarrow> runStatus \<Rightarrow> bool" where
  "moves s s' \<longleftrightarrow> s' = s \<or> unfinished s \<and> (s' = STOPPING \<or> \<not> unfinished s')"

definition follows :: "runRow \<Rightarrow> runRow \<Rightarrow> bool" where
  "follows q r \<longleftrightarrow> r_TaskID r = r_TaskID q \<and> moves (r_Status q) (r_Status r)"

lemma moves_refl [simp]: "moves s s" "follows q q" "follows q (q\<lparr>r_Phase := p\<rparr>)"
  by (simp_all add: moves_def follows_def)

lemma follows_update:
  "row w j = Some q \<Longrightarrow> (j = i \<Longrightarrow> follows q (f q)) \<Longrightarrow> \<exists>r. row (update_run i f w) j = Some r \<and> follows q r"
  by (simp add: row_update)

lemma row_same_runs: "same_runs w w' \<Longrightarrow> row w' = row w \<and> live w' = live w"
  by (simp add: same_runs_def row_def live_def)

lemma row_other [simp]: "row (delete_task i w) = row w" "row (draw i w) = row w" "live (delete_task i w) = live w" "live (draw i w) = live w"
  by (simp_all add: row_def live_def delete_task_def draw_def)

lemma track_lines_row: "row w j = Some q \<Longrightarrow> \<exists>p. row (track_lines i ls w) j = Some (q\<lparr>r_Phase := p\<rparr>)"
proof (induction ls arbitrary: w q)
  case Nil
  then show ?case by (auto simp: track_lines_def intro!: exI [of _ "r_Phase q"])
next
  case (Cons l ls)
  obtain w1 where w1: "w1 = (case phase_of_line l of None \<Rightarrow> w | Some p \<Rightarrow> update_run i (\<lambda>r. r\<lparr>r_Phase := p\<rparr>) w)" by simp
  then have "\<exists>p. row w1 j = Some (q\<lparr>r_Phase := p\<rparr>)"
    using Cons.prems by (auto simp: row_update intro: exI [of _ "r_Phase q"] split: option.splits)
  then obtain p where "row w1 j = Some (q\<lparr>r_Phase := p\<rparr>)" by blast
  from Cons.IH [OF this] show ?case by (simp add: track_lines_def w1)
qed

lemma stopRun_row:
  assumes "rows_inv w" "stopRun i w = (b, w')" "row w j = Some q"
  shows "\<exists>r. row w' j = Some r \<and> follows q r" "live w' = live w"
proof -
  have "map fst (w_active (set_stopping i w)) = map fst (w_active w)" "w_exited (set_stopping i w) = w_exited w"
    by (auto simp: set_stopping_def)
  from arg_cong [OF this(1), of set] this(2) have live: "live (set_stopping i w) = live w" by (simp add: live_def)
  have row: "row (set_stopping i w) = row w" by (simp add: row_def set_stopping_def)
  have "w' = w \<or> w' = update_run i (\<lambda>r. r\<lparr>r_Status := STOPPING\<rparr>) (set_stopping i w)"
    using assms(2) by (cases "map_of (w_active w) i") (auto simp: stopRun_def split: if_splits)
  with live show "live w' = live w" by (elim disjE) simp_all
  show "\<exists>r. row w' j = Some r \<and> follows q r"
  proof (cases "map_of (w_active w) i")
    case None
    then show ?thesis using assms by (auto simp: stopRun_def)
  next
    case (Some p)
    then have "i \<in> live w" by (force simp: live_def dest: map_of_SomeD)
    then have "j = i \<Longrightarrow> unfinished (r_Status q)" using rows_inv_unfinished [OF assms(1,3)] by simp
    then have "\<exists>r. row (update_run i (\<lambda>r. r\<lparr>r_Status := STOPPING\<rparr>) (set_stopping i w)) j = Some r \<and> follows q r"
      using assms(3) by (intro follows_update) (auto simp: row follows_def moves_def)
    with Some assms show ?thesis by (auto simp: stopRun_def split: if_splits)
  qed
qed

lemma watch_update_row:
  assumes "rows_inv w" "x \<in> set (w_exited w)" "row w j = Some q"
  shows "\<exists>r. row (watch_update x w) j = Some r \<and> follows q r" "live (watch_update x w) \<subseteq> live w"
proof -
  obtain i st err where x: "x = (i, st, err)" by (cases x)
  have "i \<in> live w" using assms(2) x by (force simp: live_def)
  then have "j = i \<Longrightarrow> unfinished (r_Status q)" using rows_inv_unfinished [OF assms(1,3)] by simp
  then have "j = i \<Longrightarrow> follows q (end_run st err q)" by (auto simp: follows_def moves_def end_run_def)
  then show "\<exists>r. row (watch_update x w) j = Some r \<and> follows q r"
    using follows_update [OF assms(3), of i "end_run st err"] by (simp add: watch_update_def x row_def)
  show "live (watch_update x w) \<subseteq> live w" by (auto simp: live_def watch_update_def x update_run_def)
qed

lemma restart_row:
  assumes "reconcileOldRuns alive (forget w) = Some w'" "row w j = Some q"
  shows "\<exists>r. row w' j = Some r \<and> follows q r"
proof -
  have w': "w' = markInterrupted (forget w)" using assms(1) by (auto simp: reconcileOldRuns_def split: if_splits)
  have "map_of (map (\<lambda>(i, r). (i, g r)) xs) j = map_option g (map_of xs j)" for g :: "runRow \<Rightarrow> runRow" and xs
    by (induction xs) auto
  then have "row w' j = Some (if unfinished (r_Status q) then q\<lparr>r_Status := FAILED, r_Error := Interrupted\<rparr> else q)"
    using assms(2) by (simp add: w' row_def markInterrupted_def forget_def)
  then show ?thesis by (auto simp: follows_def moves_def)
qed

text \<open>Rows are never removed, and change as allowed.\<close>

lemma row_step: "web_step w w' \<Longrightarrow> rows_inv w \<Longrightarrow> row w j = Some q \<Longrightarrow> \<exists>r. row w' j = Some r \<and> follows q r"
proof (induction rule: web_step.induct)
  case (start_run t s d w i e w')
  have "row (draw i w) j = Some q" using start_run by (simp add: row_def draw_def)
  moreover from this have "j \<noteq> i" using startRun_row(3) [OF start_run.hyps(3)] by auto
  ultimately show ?case using startRun_row(1) [OF start_run.hyps(3), of j] by (simp add: row_def)
next
  case (phase_seen w i ls)
  then show ?case using track_lines_row [of w j q i ls] moves_refl(3) by metis
next
  case (stop_run i w b w')
  then show ?case using stopRun_row(1) by blast
next
  case (row_updated x w)
  then show ?case using watch_update_row(1) by blast
next
  case (restart alive w w')
  then show ?case using restart_row by blast
next
  case (shut_down w)
  then show ?case by (simp add: row_def shutdown_def)
next
  case (process_ends i w err)
  then show ?case by (simp add: row_def watch_remove_def)
qed (auto dest!: row_same_runs [OF same_runs_handlers(1)] row_same_runs [OF same_runs_handlers(2)] row_same_runs [OF same_runs_handlers(3)]
    row_same_runs [OF same_runs_handlers(4)] row_same_runs [OF same_runs_handlers(5)] simp: row_same_runs [OF same_runs_simps(2)]
    row_same_runs [OF same_runs_simps(3)] row_same_runs [OF same_runs_simps(4)] row_same_runs [OF same_runs_simps(5)])

text \<open>No two tasks that run at the same time write to the same connection.\<close>

definition target_inv :: "web \<Rightarrow> bool" where
  "target_inv w \<longleftrightarrow> (\<forall>t \<in> set (w_tasks w). \<forall>t' \<in> set (w_tasks w).
     activeRun (t_ID t) w \<and> activeRun (t_ID t') w \<and> TargetID t = TargetID t' \<longrightarrow> t = t')"

definition used_inv :: "web \<Rightarrow> bool" where
  "used_inv w \<longleftrightarrow> (\<forall>i r. row w i = Some r \<longrightarrow> r_TaskID r \<in> set (w_used w))"

text \<open>Steps other than a start: no row is new, and no ended run comes back.\<close>

definition no_start :: "web \<Rightarrow> web \<Rightarrow> bool" where
  "no_start w w' \<longleftrightarrow> dom (row w') \<subseteq> dom (row w) \<and> live w' \<subseteq> live w \<and> set (w_used w) \<subseteq> set (w_used w') \<and>
     (\<forall>t \<in> set (w_tasks w'). t \<in> set (w_tasks w) \<or> t_ID t \<notin> set (w_used w))"

lemma no_start_row: "no_start w w' \<Longrightarrow> row w' i = Some r \<Longrightarrow> \<exists>q. row w i = Some q"
  unfolding no_start_def by (elim conjE) (blast dest: subsetD intro: domI)

lemma no_start_active:
  assumes "web_step w w'" "rows_inv w" "no_start w w'" "activeRun tid w'"
  shows "activeRun tid w"
proof -
  have inv': "rows_inv w'" using rows_inv_step assms(1,2) by blast
  obtain i r where r: "row w' i = Some r" "r_TaskID r = tid" "i \<in> live w'" using assms(4) activeRun_live [OF inv'] by blast
  obtain q where q: "row w i = Some q" using no_start_row [OF assms(3) r(1)] by blast
  have live: "i \<in> live w" using assms(3) r(3) by (auto simp: no_start_def)
  obtain r' where "row w' i = Some r'" "follows q r'" using row_step [OF assms(1,2) q] by blast
  then have "r_TaskID q = tid" using r by (simp add: follows_def)
  with q live show ?thesis using activeRun_live [OF assms(2)] by blast
qed

lemma no_start_used:
  assumes "web_step w w'" "rows_inv w" "no_start w w'" "used_inv w"
  shows "used_inv w'"
  unfolding used_inv_def
proof (intro allI impI)
  fix i r assume r: "row w' i = Some r"
  from no_start_row [OF assms(3) this] obtain q where q: "row w i = Some q" by blast
  obtain r' where "row w' i = Some r'" "follows q r'" using row_step [OF assms(1,2) q] by blast
  with r q assms(3,4) show "r_TaskID r \<in> set (w_used w')" by (auto simp: follows_def used_inv_def no_start_def)
qed

lemma no_start_target:
  assumes "web_step w w'" "rows_inv w" "no_start w w'" "used_inv w" "target_inv w"
  shows "target_inv w'"
proof -
  have "t \<in> set (w_tasks w) \<and> activeRun (t_ID t) w" if "t \<in> set (w_tasks w')" "activeRun (t_ID t) w'" for t
  proof -
    have a: "activeRun (t_ID t) w" using no_start_active [OF assms(1-3) that(2)] .
    then have "t_ID t \<in> set (w_used w)" using activeRun_live [OF assms(2)] assms(4) unfolding used_inv_def by metis
    with a that(1) assms(3) show ?thesis by (auto simp: no_start_def)
  qed
  then show ?thesis using assms(5) unfolding target_inv_def by blast
qed

lemma same_runs_no_start:
  "same_runs w w' \<Longrightarrow> set (w_used w) \<subseteq> set (w_used w') \<Longrightarrow> \<forall>t \<in> set (w_tasks w'). t \<in> set (w_tasks w) \<or> t_ID t \<notin> set (w_used w) \<Longrightarrow>
     no_start w w'"
  using row_same_runs [of w w'] by (simp add: no_start_def)

lemma no_start_handlers:
  "i \<notin> set (w_used w) \<Longrightarrow> createConnection i c (draw i w) = Inr w' \<Longrightarrow> no_start w w'"
  "updateConnection i c w0 w = Inr (Some w') \<Longrightarrow> no_start w w'"
  "deleteConnection i w0 w = (b, w') \<Longrightarrow> no_start w w'"
  "i \<notin> set (w_used w) \<Longrightarrow> createTask i t (draw i w) = Some w' \<Longrightarrow> no_start w w'"
  "i \<notin> set (w_used w) \<Longrightarrow> copyTask sfx i old w0 (draw i w) = Some w' \<Longrightarrow> no_start w w'"
proof -
  show "no_start w w'" if "createConnection i c (draw i w) = Inr w'"
    by (rule same_runs_no_start [OF same_runs_handlers(1) [OF that]])
      (use that in \<open>auto simp: createConnection_def saveConnection_def draw_def split: sum.splits option.splits\<close>)
  show "no_start w w'" if "updateConnection i c w0 w = Inr (Some w')"
    by (rule same_runs_no_start [OF same_runs_handlers(2) [OF that]])
      (use that in \<open>auto simp: updateConnection_def saveConnection_def split: sum.splits option.splits\<close>)
  show "no_start w w'" if "deleteConnection i w0 w = (b, w')"
    by (rule same_runs_no_start [OF same_runs_handlers(3) [OF that]])
      (use that in \<open>auto simp: deleteConnection_def split: if_splits\<close>)
  show "no_start w w'" if "i \<notin> set (w_used w)" "createTask i t (draw i w) = Some w'"
    by (rule same_runs_no_start [OF same_runs_handlers(4) [OF that(2)]])
      (use that in \<open>auto simp: createTask_def saveTask_def draw_def split: if_splits\<close>)
  show "no_start w w'" if "i \<notin> set (w_used w)" "copyTask sfx i old w0 (draw i w) = Some w'"
    by (rule same_runs_no_start [OF same_runs_handlers(5) [OF that(2)]])
      (use that in \<open>auto simp: copyTask_def saveTask_def draw_def\<close>)
qed

lemma dom_row_keys: "map fst (w_runs w') = map fst (w_runs w) \<Longrightarrow> dom (row w') = dom (row w)"
  unfolding dom_row by (metis list.set_map)

lemma live_keys:
  "map fst (w_active w') = map fst (w_active w) \<Longrightarrow> w_exited w' = w_exited w \<Longrightarrow> live w' = live w"
  unfolding live_def by (metis list.set_map)

lemma track_lines_keys: "map fst (w_runs (track_lines i ls w)) = map fst (w_runs w)"
  by (induction ls arbitrary: w) (auto simp: track_lines_def split: option.splits)

lemma no_start_runner:
  "rows_inv w \<Longrightarrow> stopRun i w = (b, w') \<Longrightarrow> no_start w w'"
  "no_start w (shutdown w)"
  "i \<in> fst ` set (w_active w) \<Longrightarrow> no_start w (watch_remove i err w)"
  "no_start w (watch_update x w)"
  "no_start w (track_lines i ls w)"
  "reconcileOldRuns alive (forget w) = Some w' \<Longrightarrow> no_start w w'"
proof -
  show "no_start w w'" if "stopRun i w = (b, w')"
  proof -
    have "w' = w \<or> w' = update_run i (\<lambda>r. r\<lparr>r_Status := STOPPING\<rparr>) (set_stopping i w)"
      using that by (cases "map_of (w_active w) i") (auto simp: stopRun_def split: if_splits)
    moreover have "map fst (w_active (set_stopping i w)) = map fst (w_active w)" "w_exited (set_stopping i w) = w_exited w"
      "map fst (w_runs (set_stopping i w)) = map fst (w_runs w)" by (auto simp: set_stopping_def)
    moreover have "w_used (set_stopping i w) = w_used w" "w_tasks (set_stopping i w) = w_tasks w" by (simp_all add: set_stopping_def)
    ultimately have "map fst (w_runs w') = map fst (w_runs w)" "map fst (w_active w') = map fst (w_active w)" "w_exited w' = w_exited w"
      "w_used w' = w_used w" "w_tasks w' = w_tasks w" by (elim disjE; simp)+
    with live_keys [of w' w] dom_row_keys [of w' w] show ?thesis by (simp add: no_start_def)
  qed
  show "no_start w (shutdown w)"
  proof -
    have "map fst (w_active (shutdown w)) = map fst (w_active w)" "w_exited (shutdown w) = w_exited w" by (auto simp: shutdown_def)
    from live_keys [OF this] show ?thesis using dom_row_keys [of "shutdown w" w] by (simp add: no_start_def) (simp add: shutdown_def)
  qed
  show "no_start w (watch_remove i err w)" if "i \<in> fst ` set (w_active w)"
    using that by (auto simp: no_start_def watch_remove_def live_def row_def)
  show "no_start w (watch_update x w)"
  proof -
    obtain i st err where x: "x = (i, st, err)" by (cases x)
    have "map fst (w_runs (watch_update x w)) = map fst (w_runs w)" by (auto simp: watch_update_def update_run_def x)
    from dom_row_keys [OF this] show ?thesis by (auto simp: no_start_def watch_update_def update_run_def live_def x)
  qed
  show "no_start w (track_lines i ls w)"
    using dom_row_keys [OF track_lines_keys, of i ls w] by (simp add: no_start_def track_lines_other)
  show "no_start w w'" if "reconcileOldRuns alive (forget w) = Some w'"
  proof -
    have w': "w' = markInterrupted (forget w)" using that by (auto simp: reconcileOldRuns_def split: if_splits)
    have "map fst (w_runs w') = map fst (w_runs w)" by (auto simp: w' markInterrupted_def forget_def)
    from dom_row_keys [OF this] show ?thesis by (simp add: no_start_def) (simp add: live_def w' markInterrupted_def forget_def)
  qed
qed

lemma busy_loop_free:
  "busy_loop sv w target ts = Some False \<Longrightarrow> t \<in> set ts \<Longrightarrow> activeRun (t_ID t) w \<Longrightarrow>
     \<exists>other. map_of (w_conns w) (TargetID t) = Some other \<and> \<not> same_target other target"
  by (induction ts) (auto split: if_splits option.splits)

lemma start_run_target:
  assumes inv: "rows_inv w" "tasks_inv w" "target_inv w" "used_inv w" and x: "(t, s, d) \<in> set (w_starting w)"
    and i: "i \<notin> set (w_used w)" and s: "startRun e i t s d (draw i w) = Inr w'"
  shows "target_inv w' \<and> used_inv w'"
proof -
  let ?w = "draw i w"
  note row = startRun_row [OF s] and ok = startRun_ok [OF s]
  have invd: "rows_inv ?w" by (rule same_runs_inv [OF _ inv(1)]) simp
  have st: "start_ok (w_tasks w) (w_used w) (t, s, d)" using inv(2) x by (simp add: tasks_inv_def)
  have act: "tid = t_ID t \<or> activeRun tid ?w" if a: "activeRun tid w'" for tid
  proof -
    obtain j r where r: "row w' j = Some r" "r_TaskID r = tid" "j \<in> live w'"
      using a activeRun_live [OF rows_inv_start [OF invd s]] by blast
    show ?thesis
    proof (cases "j = i")
      case True
      then show ?thesis using r row(1) [of j] by (simp add: new_run_def)
    next
      case False
      then have "row ?w j = Some r" "j \<in> live ?w" using r row(1) [of j] row(2) by simp_all
      then show ?thesis using activeRun_live [OF invd, of tid] r(2) by blast
    qed
  qed
  have same: "activeRun tid ?w = activeRun tid w" for tid by (simp add: activeRun_def draw_def)
  have tasks: "w_tasks w' = w_tasks w" "w_used w' = i # w_used w" by (simp_all add: ok(5) draw_def)
  have excl: "t' = t" if g: "t' \<in> set (w_tasks w)" "activeRun (t_ID t') w'" "TargetID t' = TargetID t" for t'
  proof (cases "t_ID t' = t_ID t")
    case True
    then show ?thesis using st g(1) by (simp add: start_ok_def)
  next
    case False
    then have "activeRun (t_ID t') ?w" using act g(2) by blast
    moreover have "busy_loop (e_servers e) ?w d (w_tasks w) = Some False" using ok(3) by (simp add: targetBusy_def draw_def)
    ultimately obtain other where o: "map_of (w_conns w) (TargetID t') = Some other" "\<not> same_target other d"
      using busy_loop_free [of _ ?w d "w_tasks w" t'] g(1) by (auto simp: draw_def)
    have "c_ID other = TargetID t'" using map_of_SomeD [OF o(1)] inv(2) by (auto simp: tasks_inv_def)
    then show ?thesis using o(2) st g(3) by (simp add: same_target_def start_ok_def)
  qed
  have "target_inv w'"
    unfolding target_inv_def tasks
  proof (intro ballI impI, elim conjE)
    fix t1 t2 assume h: "t1 \<in> set (w_tasks w)" "t2 \<in> set (w_tasks w)" "activeRun (t_ID t1) w'" "activeRun (t_ID t2) w'" "TargetID t1 = TargetID t2"
    consider "t_ID t1 = t_ID t" | "t_ID t2 = t_ID t" | "activeRun (t_ID t1) w" "activeRun (t_ID t2) w"
      using act [OF h(3)] act [OF h(4)] same by blast
    then show "t1 = t2"
    proof cases
      case 1
      then have "t1 = t" using st h(1) by (simp add: start_ok_def)
      with excl [OF h(2,4)] h(5) show ?thesis by simp
    next
      case 2
      then have "t2 = t" using st h(2) by (simp add: start_ok_def)
      with excl [OF h(1,3)] h(5) show ?thesis by simp
    qed (use inv(3) h in \<open>auto simp: target_inv_def\<close>)
  qed
  moreover have "used_inv w'" using inv(4) st row(1) tasks by (auto simp: used_inv_def new_run_def start_ok_def)
  ultimately show ?thesis by blast
qed

lemma targets_step:
  assumes "web_step w w'" "rows_inv w" "tasks_inv w" "target_inv w" "used_inv w"
  shows "target_inv w' \<and> used_inv w'"
proof -
  have "no_start w w' \<Longrightarrow> ?thesis" using no_start_target no_start_used assms by blast
  with assms show ?thesis
  proof (induction rule: web_step.induct)
    case (start_run t s d w i e w')
    have "target_inv w' \<and> used_inv w'" using start_run_target [OF start_run.prems(1-4) start_run.hyps] .
    then show ?case by (simp add: target_inv_def used_inv_def activeRun_def row_def)
  next
    case (restart alive w w')
    then show ?case using no_start_runner(6) by blast
  next
    case (check_delete i w)
    then show ?case using same_runs_no_start [OF same_runs_simps(2)] by simp
  next
    case (remove_task i w)
    then show ?case using same_runs_no_start [OF same_runs_simps(4)] by (simp add: delete_task_def)
  next
    case (read_start i w t s d compiles sv binary)
    then show ?case using same_runs_no_start [OF same_runs_simps(3)] by simp
  next
    case (start_fails t s d w i e err)
    then show ?case using same_runs_no_start [OF same_runs_simps(5)] by (simp add: draw_def subset_insertI)
  qed (blast intro: no_start_handlers no_start_runner)+
qed

lemma web_inv_reachable: "web_reachable w \<Longrightarrow> rows_inv w \<and> tasks_inv w \<and> target_inv w \<and> used_inv w"
proof (erule web.invariant)
  show "rows_inv web_init \<and> tasks_inv web_init \<and> target_inv web_init \<and> used_inv web_init"
    using rows_inv_init by (simp add: tasks_inv_def target_inv_def used_inv_def web_init_def row_def)
qed (use rows_inv_step tasks_inv_step targets_step in blast)


text \<open>
  C39. A run's history is never rewritten: its row stays, belongs to the same task, and once it is shown as
  stopped or failed no step of any handler or goroutine changes that; before, it only becomes
  stopping, stopped or failed.  After a restart of the service no row is left unfinished.
\<close>

theorem run_status_final:
  assumes "web_reachable w" "web_step w w'" "row w i = Some q"
  shows "(\<exists>r. row w' i = Some r \<and> r_TaskID r = r_TaskID q \<and>
      (r_Status r = r_Status q \<or> unfinished (r_Status q) \<and> r_Status r \<in> {STOPPING, STOPPED, FAILED})) \<and>
    (\<forall>alive w1 j r. reconcileOldRuns alive (forget w) = Some w1 \<and> row w1 j = Some r \<longrightarrow> r_Status r \<in> {STOPPED, FAILED})"
proof -
  have inv: "rows_inv w" using rows_inv_reachable [OF assms(1)] .
  have fin: "s \<in> {STOPPED, FAILED}" if "\<not> unfinished s" for s using that by (cases s) simp_all
  obtain r where "row w' i = Some r" "follows q r" using row_step [OF assms(2) inv assms(3)] by blast
  then have "\<exists>r. row w' i = Some r \<and> r_TaskID r = r_TaskID q \<and>
      (r_Status r = r_Status q \<or> unfinished (r_Status q) \<and> r_Status r \<in> {STOPPING, STOPPED, FAILED})"
    using fin by (auto simp: follows_def moves_def)
  then show ?thesis using rows_inv_restart [OF inv] fin by blast
qed

section \<open>A run of the service\<close>

text \<open>Two connections and a task are made, and the task is started.\<close>

definition demo_start_env :: start_env where
  "demo_start_env = \<lparr>e_servers = demo_servers, e_binary = True, e_system = True, e_compiles = (\<lambda>_. True), e_pid = 42, e_runDir = ''run''\<rparr>"

definition demo_saved :: web where
  "demo_saved = web_init\<lparr>w_conns := [(''b'', demo_target), (''a'', demo_connection)], w_tasks := [demo_task], w_used := [''t'', ''b'', ''a'']\<rparr>"

lemma demo_version: "version_of demo_servers c = Some (7, 2, 4)" if "redisClient c = Inr c'"
proof -
  have "redisVersion (''redis_version:7.2.4'' @ [CHR 0x0D, CHR 0x0A]) = Some (7, 2, 4)"
    by (simp add: redisVersion_def TrimSpace_def is_space_def ParseInt_val_def parse_simps Let_def)
  then show ?thesis using that by (simp add: version_of_def)
qed

lemma demo_saved_reachable: "web_reachable demo_saved"
proof -
  let ?w1 = "web_init\<lparr>w_conns := [(''a'', demo_connection)], w_used := [''a'']\<rparr>"
  let ?w2 = "web_init\<lparr>w_conns := [(''b'', demo_target), (''a'', demo_connection)], w_used := [''b'', ''a'']\<rparr>"
  have pc: "prepareConnection demo_connection no_connection = Inr demo_connection" "prepareConnection demo_target no_connection = Inr demo_target"
    using demo_auth by (simp_all add: prepareConnection_def normalizeConnectionAuth_ok keeps_password_def)
      (simp_all add: demo_connection_def demo_target_def no_connection_def)
  have "createConnection ''a'' demo_connection (draw ''a'' web_init) = Inr ?w1"
    using pc demo_valid by (simp add: createConnection_def saveConnection_def draw_def web_init_def) (simp add: demo_connection_def)
  then have r1: "web_reachable ?w1" by (intro web_reachable.step [OF web_reachable.init] web_step.create_connection) (auto simp: web_init_def)
  have "createConnection ''b'' demo_target (draw ''b'' ?w1) = Inr ?w2"
    using pc demo_valid by (simp add: createConnection_def saveConnection_def draw_def web_init_def) (simp add: demo_target_def)
  then have r2: "web_reachable ?w2" by (intro web_reachable.step [OF r1] web_step.create_connection) auto
  have "createTask ''t'' demo_task (draw ''t'' ?w2) = Some demo_saved"
    by (simp add: createTask_def saveTask_def draw_def web_init_def demo_saved_def) (simp add: demo_task_def TrimSpace_def is_space_def)
  then show ?thesis by (intro web_reachable.step [OF r2] web_step.create_task) auto
qed

lemma task_fields:
  "t_Rules (t\<lparr>t_ID := k\<rparr>) = t_Rules t" "TargetPolicy (t\<lparr>t_ID := k\<rparr>) = TargetPolicy t" "DBMap (t\<lparr>t_ID := k\<rparr>) = DBMap t"
  "t_Name (t\<lparr>t_ID := k\<rparr>) = t_Name t" "SourceID (t\<lparr>t_ID := k\<rparr>) = SourceID t" "TargetID (t\<lparr>t_ID := k\<rparr>) = TargetID t"
  by simp_all

lemma generateConfig_id: "generateConfig compiles (t\<lparr>t_ID := k\<rparr>) s d dir down = generateConfig compiles t s d dir down"
  unfolding generateConfig_def validateTask_def db_branches_def sourceDBs_def task_fields ..

lemma demo_starts:
  assumes "length (w_active w) < 5" "\<not> activeRun k w" "targetBusy demo_servers w demo_target = Some False" "i \<notin> fst ` set (w_runs w)"
  shows "startRun demo_start_env i (demo_task\<lparr>t_ID := k\<rparr>) demo_connection demo_target w =
    Inr (w\<lparr>w_runs := w_runs w @ [(i, new_run (demo_task\<lparr>t_ID := k\<rparr>) 42)], w_active := (i, \<lparr>p_pid = 42, stopping = False\<rparr>) # w_active w\<rparr>)"
proof -
  obtain cfg where "generateConfig (\<lambda>_. True) demo_task demo_connection demo_target ''run'' False = Inr cfg" using demo_config by blast
  moreover have "\<not> versionIsOlder v v" for v by (simp add: versionIsOlder_def split: prod.splits)
  ultimately show ?thesis using assms demo_version demo_clients
    by (simp add: startRun_def demo_start_env_def generateConfig_id)
qed

definition demo_read :: web where
  "demo_read = demo_saved\<lparr>w_starting := [(demo_task, demo_connection, demo_target)]\<rparr>"

lemma demo_task_ids: "demo_task\<lparr>t_ID := ''t''\<rparr> = demo_task" "SourceID demo_task = ''a''" "TargetID demo_task = ''b''" "t_ID demo_task = ''t''"
  by (simp_all add: demo_task_def)

lemma demo_read_reachable: "web_reachable demo_read"
proof -
  have "taskConnections ''t'' demo_saved = Some (demo_task, demo_connection, demo_target)"
    by (simp add: taskConnections_def find_task_def demo_saved_def demo_task_ids)
  from web_reachable.step [OF demo_saved_reachable web_step.read_start [OF this demo_checks]] show ?thesis
    by (simp add: demo_read_def demo_saved_def web_init_def)
qed

definition demo_running :: web where
  "demo_running = demo_saved\<lparr>w_runs := [(''r'', new_run demo_task 42)], w_active := [(''r'', \<lparr>p_pid = 42, stopping = False\<rparr>)],
     w_used := [''r'', ''t'', ''b'', ''a'']\<rparr>"

lemma demo_running_step: "web_step demo_read demo_running"
proof -
  have "targetBusy demo_servers (draw ''r'' demo_read) demo_target = Some False" "\<not> activeRun ''t'' (draw ''r'' demo_read)"
    by (simp_all add: targetBusy_def activeRun_def draw_def demo_read_def demo_saved_def web_init_def)
  from demo_starts [OF _ this(2,1), of "''r''", unfolded demo_task_ids]
  have s: "startRun demo_start_env ''r'' demo_task demo_connection demo_target (draw ''r'' demo_read) =
      Inr (demo_running\<lparr>w_starting := [(demo_task, demo_connection, demo_target)]\<rparr>)"
    by (simp add: demo_read_def draw_def demo_running_def demo_saved_def web_init_def)
  have u: "''r'' \<notin> set (w_used demo_read)" by (simp add: demo_read_def demo_saved_def)
  have x: "(demo_task, demo_connection, demo_target) \<in> set (w_starting demo_read)" by (simp add: demo_read_def)
  from web_step.start_run [OF x u s] show ?thesis by (simp add: demo_read_def demo_running_def demo_saved_def web_init_def)
qed

lemma demo_running_reachable: "web_reachable demo_running"
  by (rule web_reachable.step [OF demo_read_reachable demo_running_step])


theorem run_status_final_witness:
  "\<exists>r. row (snd (stopRun ''r'' demo_running)) ''r'' = Some r \<and> r_TaskID r = ''t'' \<and> (r_Status r = RUNNING \<or> r_Status r \<in> {STOPPING, STOPPED, FAILED})"
proof -
  have "row demo_running ''r'' = Some (new_run demo_task 42)" by (simp add: row_def demo_running_def)
  moreover have "web_step demo_running (snd (stopRun ''r'' demo_running))" by (rule web_step.stop_run [of _ _ "fst (stopRun ''r'' demo_running)"]) simp
  ultimately show ?thesis using run_status_final [OF demo_running_reachable] by (fastforce simp: new_run_def demo_task_ids)
qed

text \<open>
  A deletion that was checked before the task was started, and carried out after, hides the run from the
  check of the target: a second task can be started that writes to the same connection as the
  run under way.
\<close>

lemma preflight_id: "preflight compiles sv b (t\<lparr>t_ID := k\<rparr>) s d = preflight compiles sv b t s d"
  unfolding preflight_def validateTask_def targetDBList_def task_fields ..

theorem deletion_hides_target:
  "\<exists>w1 w1' w2 w2' t t'. web_reachable w1 \<and> startRun demo_start_env ''r'' t demo_connection demo_target (draw ''r'' w1) = Inr w1' \<and>
     web_reachable w2 \<and> startRun demo_start_env ''q'' t' demo_connection demo_target (draw ''q'' w2) = Inr w2' \<and>
     t_ID t \<noteq> t_ID t' \<and> map fst (w_active w2') = [''q'', ''r'']"
proof -
  let ?x = "(demo_task, demo_connection, demo_target)" and ?u = "demo_task\<lparr>t_ID := ''u''\<rparr>"
  let ?w1 = "demo_read\<lparr>w_deleting := [''t'']\<rparr>"
  let ?w1' = "(demo_running\<lparr>w_deleting := [''t'']\<rparr>)\<lparr>w_starting := [?x]\<rparr>"
  let ?w3 = "demo_running\<lparr>w_tasks := []\<rparr>"
  let ?w4 = "demo_running\<lparr>w_tasks := [?u], w_used := [''u'', ''r'', ''t'', ''b'', ''a'']\<rparr>"
  let ?w5 = "?w4\<lparr>w_starting := [(?u, demo_connection, demo_target)]\<rparr>"
  note defs = demo_read_def demo_running_def demo_saved_def web_init_def draw_def
  have "\<not> activeRun ''t'' demo_read" by (simp add: activeRun_def defs)
  from web_reachable.step [OF demo_read_reachable web_step.check_delete [OF this]]
  have r1: "web_reachable ?w1" by (simp add: defs)
  have "targetBusy demo_servers (draw ''r'' ?w1) demo_target = Some False" "\<not> activeRun ''t'' (draw ''r'' ?w1)"
    by (simp_all add: targetBusy_def activeRun_def defs)
  from demo_starts [OF _ this(2,1), of "''r''", unfolded demo_task_ids]
  have s1: "startRun demo_start_env ''r'' demo_task demo_connection demo_target (draw ''r'' ?w1) = Inr ?w1'" by (simp add: defs)
  have "?x \<in> set (w_starting ?w1)" "''r'' \<notin> set (w_used ?w1)" by (simp_all add: defs)
  from web_reachable.step [OF r1 web_step.start_run [OF this s1]]
  have "web_reachable (demo_running\<lparr>w_deleting := [''t'']\<rparr>)" by (simp add: defs)
  from web_reachable.step [OF this web_step.remove_task [of "''t''"]] have r3: "web_reachable ?w3" by (simp add: defs delete_task_def demo_task_ids)
  have "createTask ''u'' demo_task (draw ''u'' ?w3) = Some ?w4"
    by (simp add: createTask_def saveTask_def defs) (simp add: demo_task_def TrimSpace_def is_space_def)
  from web_reachable.step [OF r3 web_step.create_task [OF _ this]] have r4: "web_reachable ?w4" by (simp add: defs)
  have "taskConnections ''u'' ?w4 = Some (?u, demo_connection, demo_target)"
    by (simp add: taskConnections_def find_task_def defs demo_task_ids)
  from web_reachable.step [OF r4 web_step.read_start [OF this]] demo_checks have r5: "web_reachable ?w5"
    by (simp add: preflight_id) (simp add: defs)
  have "targetBusy demo_servers (draw ''q'' ?w5) demo_target = Some False" "\<not> activeRun ''u'' (draw ''q'' ?w5)"
    by (simp_all add: targetBusy_def activeRun_def defs new_run_def demo_task_ids)
  from demo_starts [OF _ this(2,1), of "''q''"]
  obtain w2' where s2: "startRun demo_start_env ''q'' ?u demo_connection demo_target (draw ''q'' ?w5) = Inr w2'" "map fst (w_active w2') = [''q'', ''r'']"
    by (simp add: defs)
  have "t_ID demo_task \<noteq> t_ID ?u" by (simp add: demo_task_ids)
  note facts = r1 s1 r5 s2(1) this s2(2)
  show ?thesis by (intro exI conjI) (rule facts)+
qed

section \<open>Console output\<close>

text \<open>\<^verbatim>\<open>boundedWriter\<close>: the file, what may still be written, and the length reported; writing to the file succeeds.\<close>

definition bw_Write :: "string \<Rightarrow> string \<times> int \<Rightarrow> nat \<times> string \<times> int" where
  "bw_Write p w = (case w of (file, remaining) \<Rightarrow>
     if remaining \<le> 0 then (length p, file, remaining)
     else let p' = (if remaining < int (length p) then take (nat remaining) p else p)
          in (length p, file @ p', remaining - int (length p')))"

text \<open>The console file holds the first mebibyte of what the process prints, and the process never sees a short write.\<close>

theorem console_bounded:
  "(let (_, w) = foldl (\<lambda>(ns, w) p. case bw_Write p w of (n, w') \<Rightarrow> (ns @ [n], w')) ([], ([], 2 ^ 20)) ps in fst w) = take (2 ^ 20) (concat ps)"
  "fst (bw_Write p w) = length p"
proof -
  let ?f = "\<lambda>(ns, w) p. case bw_Write p w of (n, w') \<Rightarrow> (ns @ [n], w')"
  have one: "bw_Write p (take n xs, int (n - length xs)) = (length p, take n (xs @ p), int (n - length (xs @ p)))" for p xs n
    by (auto simp: bw_Write_def Let_def nat_diff_distrib')
  have "\<exists>ns'. foldl ?f (ns, (take n xs, int (n - length xs))) ps = (ns', (take n (xs @ concat ps), int (n - length (xs @ concat ps))))" for n xs ns
  proof (induction ps arbitrary: xs ns)
    case (Cons p ps)
    from Cons.IH [of "ns @ [length p]" "xs @ p"] show ?case by (simp add: one)
  qed simp
  from this [of "[]" "2 ^ 20" "[]"]
  show "(let (_, w) = foldl ?f ([], ([], 2 ^ 20)) ps in fst w) = take (2 ^ 20) (concat ps)" by auto
  show "fst (bw_Write p w) = length p" by (simp add: bw_Write_def Let_def split: prod.splits)
qed

end
