(* ===== verification/WebAuth.thy ===== *)
theory WebAuth
  imports GoLib
begin

text \<open>
  \<^verbatim>\<open>cmd/redisshakeweb/auth.go\<close>: the administrator, the sessions, the limit on failed logins and the guard in
  front of every protected handler.

  SHA-256, HMAC and Argon2 are parameters; a stored password hash is the salt followed by the derived key
  (the base64 text is represented by the bytes it stands for).  Times are in seconds.  A request
  is handled in one step and leaves an event in the history.  Proved: who gets past the guard, that the
  administrator is created once, and the limit on failed logins.
\<close>

section \<open>State\<close>

record crypto =
  sha :: "string \<Rightarrow> string"
  hmac :: "string \<Rightarrow> string"
  argon :: "string \<Rightarrow> string \<Rightarrow> string"

record auth =
  a_admin :: "(string \<times> string) option"
  a_sessions :: "(string \<times> int) list"
  loginFailures :: nat
  loginWindow :: int

definition auth_init :: auth where
  "auth_init = \<lparr>a_admin = None, a_sessions = [], loginFailures = 0, loginWindow = - (10 ^ 10)\<rparr>"

datatype http = OK200 | Created201 | BadRequest400 | Unauthorized401 | Forbidden403 | Conflict409 | TooMany429 | Error500

definition passwordHash :: "crypto \<Rightarrow> string \<Rightarrow> string \<Rightarrow> string" where
  "passwordHash cr salt password = salt @ argon cr password salt"

definition passwordMatches :: "crypto \<Rightarrow> string \<Rightarrow> string \<Rightarrow> bool" where
  "passwordMatches cr password stored \<longleftrightarrow> length stored = 48 \<and> argon cr password (take 16 stored) = drop 16 stored"

definition name_char :: "char \<Rightarrow> bool" where
  "name_char c \<longleftrightarrow> (let n = (of_char c :: nat) in 65 \<le> n \<and> n \<le> 90 \<or> 97 \<le> n \<and> n \<le> 122 \<or> 48 \<le> n \<and> n \<le> 57 \<or> n = 95)"

definition adminUsername :: "string \<Rightarrow> bool" where
  "adminUsername s \<longleftrightarrow> 3 \<le> length s \<and> length s \<le> 32 \<and> list_all name_char s \<and> \<not> is_digit (hd s) \<and> hd s \<noteq> CHR ''_''"

text \<open>The number of characters of a UTF-8 text: the bytes that do not continue one.\<close>

definition rune_count :: "string \<Rightarrow> nat" where
  "rune_count s = length (filter (\<lambda>c. \<not> (128 \<le> (of_char c :: nat) \<and> (of_char c :: nat) < 192)) s)"

definition password_ok :: "string \<Rightarrow> bool" where
  "password_ok p \<longleftrightarrow> p \<noteq> [] \<and> rune_count p \<le> 128"

section \<open>Handlers\<close>

text \<open>
  \<open>origin_ok\<close>: there is no \<^verbatim>\<open>Origin\<close> header or it names this host; \<open>input = None\<close>: the body is not the expected
  JSON; \<open>salt\<close>: the random bytes drawn.
\<close>

definition bootstrapInit :: "crypto \<Rightarrow> bool \<Rightarrow> (string \<times> string) option \<Rightarrow> string \<Rightarrow> auth \<Rightarrow> http \<times> auth" where
  "bootstrapInit cr origin_ok input salt s =
     (if \<not> origin_ok then (Forbidden403, s)
      else (case input of None \<Rightarrow> (BadRequest400, s)
        | Some (username, password) \<Rightarrow>
            if \<not> adminUsername username then (BadRequest400, s)
            else if \<not> password_ok password then (BadRequest400, s)
            else (case a_admin s of Some _ \<Rightarrow> (Conflict409, s)
              | None \<Rightarrow> (Created201, s\<lparr>a_admin := Some (username, passwordHash cr salt password)\<rparr>))))"

definition window :: "int \<Rightarrow> auth \<Rightarrow> auth" where
  "window now s = (if 60 < now - loginWindow s then s\<lparr>loginWindow := now, loginFailures := 0\<rparr> else s)"

definition week :: int where "week = 7 * 24 * 3600"

definition credentials_match :: "crypto \<Rightarrow> string \<times> string \<Rightarrow> auth \<Rightarrow> bool" where
  "credentials_match cr up s = (case a_admin s of None \<Rightarrow> False
     | Some (username, h) \<Rightarrow> fst up = username \<and> passwordMatches cr (snd up) h)"

definition login :: "crypto \<Rightarrow> int \<Rightarrow> (string \<times> string) option \<Rightarrow> string \<Rightarrow> auth \<Rightarrow> http \<times> auth" where
  "login cr now input token s0 = (let s = window now s0 in
     if 10 \<le> loginFailures s then (TooMany429, s)
     else (case input of None \<Rightarrow> (BadRequest400, s)
       | Some up \<Rightarrow>
           if \<not> credentials_match cr up s then (Unauthorized401, s\<lparr>loginFailures := loginFailures s + 1\<rparr>)
           else if sha cr token \<in> fst ` set (a_sessions s) then (Error500, s)
           else (OK200, s\<lparr>a_sessions := (sha cr token, now + week) # a_sessions s, loginFailures := 0\<rparr>)))"

definition csrf :: "crypto \<Rightarrow> string \<Rightarrow> string" where
  "csrf cr token = hmac cr (''csrf:'' @ sha cr token)"

definition authenticated :: "crypto \<Rightarrow> int \<Rightarrow> string option \<Rightarrow> auth \<Rightarrow> string option" where
  "authenticated cr now cookie s = (case cookie of None \<Rightarrow> None
     | Some v \<Rightarrow> if length v < 32 then None
         else (case map_of (a_sessions s) (sha cr v) of None \<Rightarrow> None
           | Some expiry \<Rightarrow> if expiry \<le> now then None else Some v))"

text \<open>The guard: an error, or the token for which the handler runs.\<close>

definition requireAuth :: "crypto \<Rightarrow> int \<Rightarrow> string option \<Rightarrow> string \<Rightarrow> string \<Rightarrow> auth \<Rightarrow> http + string" where
  "requireAuth cr now cookie meth header s = (case authenticated cr now cookie s of None \<Rightarrow> Inl Unauthorized401
     | Some token \<Rightarrow>
         if meth \<noteq> ''GET'' \<and> meth \<noteq> ''HEAD'' \<and> header \<noteq> csrf cr token then Inl Forbidden403 else Inr token)"

definition logout :: "crypto \<Rightarrow> string \<Rightarrow> auth \<Rightarrow> auth" where
  "logout cr token s = s\<lparr>a_sessions := filter (\<lambda>(d, _). d \<noteq> sha cr token) (a_sessions s)\<rparr>"

definition changePassword :: "crypto \<Rightarrow> (string \<times> string) option \<Rightarrow> string \<Rightarrow> auth \<Rightarrow> http \<times> auth" where
  "changePassword cr input salt s = (case input of None \<Rightarrow> (BadRequest400, s)
     | Some (old, new) \<Rightarrow>
         if \<not> password_ok new then (BadRequest400, s)
         else (case a_admin s of None \<Rightarrow> (Forbidden403, s)
           | Some (username, h) \<Rightarrow>
               if \<not> passwordMatches cr old h then (Forbidden403, s)
               else (OK200, s\<lparr>a_admin := Some (username, passwordHash cr salt new), a_sessions := []\<rparr>)))"

section \<open>Histories\<close>

datatype event = Bootstrapped | LoggedIn string int | LoginFailed int | LoggedOut string | PasswordChanged

text \<open>
  The states the service can be in, with what happened so far, the latest first.  Logging out and changing the
  password go through the guard.
\<close>

inductive auth_run :: "crypto \<Rightarrow> event list \<Rightarrow> auth \<Rightarrow> bool" for cr where
  start: "auth_run cr [] auth_init"
| boot: "\<lbrakk>auth_run cr h s; bootstrapInit cr ok input salt s = (Created201, s')\<rbrakk> \<Longrightarrow> auth_run cr (Bootstrapped # h) s'"
| log_in: "\<lbrakk>auth_run cr h s; login cr now (Some up) token s = (OK200, s')\<rbrakk> \<Longrightarrow> auth_run cr (LoggedIn token now # h) s'"
| log_in_fails: "\<lbrakk>auth_run cr h s; login cr now input token s = (Unauthorized401, s')\<rbrakk> \<Longrightarrow> auth_run cr (LoginFailed now # h) s'"
| log_in_refused: "\<lbrakk>auth_run cr h s; login cr now input token s = (r, s'); r \<noteq> OK200; r \<noteq> Unauthorized401\<rbrakk> \<Longrightarrow> auth_run cr h s'"
| log_out: "\<lbrakk>auth_run cr h s; requireAuth cr now cookie ''POST'' header s = Inr token\<rbrakk>
    \<Longrightarrow> auth_run cr (LoggedOut token # h) (logout cr token s)"
| change_pw: "\<lbrakk>auth_run cr h s; requireAuth cr now cookie ''POST'' header s = Inr token;
    changePassword cr input salt s = (OK200, s')\<rbrakk> \<Longrightarrow> auth_run cr (PasswordChanged # h) s'"

text \<open>The session of digest \<open>d\<close> is open: opened by a login and not ended by a logout or a password change since.\<close>

fun opened :: "crypto \<Rightarrow> string \<Rightarrow> event list \<Rightarrow> int option" where
  "opened cr d [] = None"
| "opened cr d (LoggedIn token now # h) = (if sha cr token = d then Some now else opened cr d h)"
| "opened cr d (LoggedOut token # h) = (if sha cr token = d then None else opened cr d h)"
| "opened cr d (PasswordChanged # h) = None"
| "opened cr d (_ # h) = opened cr d h"

lemma map_of_filter_key: "map_of (filter (\<lambda>(d, _). d \<noteq> k) xs) d = (if d = k then None else map_of xs d)"
  by (induction xs) auto

lemma login_effect:
  "login cr now (Some up) token s = (OK200, s') \<Longrightarrow>
     a_sessions s' = (sha cr token, now + week) # a_sessions s \<and> a_admin s' = a_admin s \<and> credentials_match cr up s \<and> loginFailures s' = 0"
  "login cr now input token s = (r, s') \<Longrightarrow> r \<noteq> OK200 \<Longrightarrow> a_sessions s' = a_sessions s \<and> a_admin s' = a_admin s"
  by (auto simp: login_def Let_def window_def credentials_match_def split: if_splits option.splits)

lemma sessions_opened: "auth_run cr h s \<Longrightarrow> map_of (a_sessions s) d = map_option (\<lambda>t. t + week) (opened cr d h)"
proof (induction arbitrary: d rule: auth_run.induct)
  case start
  show ?case by (simp add: auth_init_def)
next
  case (boot h s ok input salt s')
  then show ?case by (auto simp: bootstrapInit_def split: if_splits option.splits)
next
  case (log_in h s now up token s')
  then show ?case using login_effect(1) by fastforce
next
  case (log_in_fails h s now input token s')
  then show ?case using login_effect(2) [OF log_in_fails.hyps(2)] by simp
next
  case (log_in_refused h s now input token r s')
  then show ?case using login_effect(2) [OF log_in_refused.hyps(2,3)] by simp
next
  case (log_out h s now cookie header token)
  then show ?case by (simp add: logout_def map_of_filter_key)
next
  case (change_pw h s now cookie header token input salt s')
  then show ?case by (auto simp: changePassword_def split: if_splits option.splits)
qed

text \<open>
  C26. A protected handler only runs for a session that was opened by a login with the administrator's
  credentials less than a week before and not ended since, by a logout or by any change of the
  password; and a request that changes state also carries the token bound to that session.
\<close>

theorem guard_sound:
  assumes "auth_run cr h s" "requireAuth cr now cookie meth header s = Inr token"
  shows "cookie = Some token \<and> (\<exists>t. opened cr (sha cr token) h = Some t \<and> now < t + week) \<and>
    (meth \<noteq> ''GET'' \<and> meth \<noteq> ''HEAD'' \<longrightarrow> header = csrf cr token)"
proof -
  have a: "authenticated cr now cookie s = Some token" "meth \<noteq> ''GET'' \<and> meth \<noteq> ''HEAD'' \<longrightarrow> header = csrf cr token"
    using assms(2) by (auto simp: requireAuth_def split: option.splits if_splits)
  then have "cookie = Some token" "\<exists>e. map_of (a_sessions s) (sha cr token) = Some e \<and> now < e"
    by (auto simp: authenticated_def split: option.splits if_splits)
  with sessions_opened [OF assms(1), of "sha cr token"] a(2) show ?thesis by auto
qed

text \<open>Example: functions with the right lengths, an administrator and a login.\<close>

definition demo_crypto :: crypto where
  "demo_crypto = \<lparr>sha = (\<lambda>s. s), hmac = (\<lambda>s. s), argon = (\<lambda>p salt. replicate 32 (hd p))\<rparr>"

definition demo_token :: string where "demo_token = replicate 43 (CHR ''k'')"

definition demo_session :: auth where
  "demo_session = \<lparr>a_admin = Some (''root'', replicate 16 (CHR ''s'') @ replicate 32 (CHR ''p'')),
     a_sessions = [(demo_token, 100 + week)], loginFailures = 0, loginWindow = 100\<rparr>"

lemma demo_session_run: "auth_run demo_crypto [LoggedIn demo_token 100, Bootstrapped] demo_session"
proof -
  let ?s = "auth_init\<lparr>a_admin := Some (''root'', replicate 16 (CHR ''s'') @ replicate 32 (CHR ''p''))\<rparr>"
  have "bootstrapInit demo_crypto True (Some (''root'', ''pw'')) (replicate 16 (CHR ''s'')) auth_init = (Created201, ?s)"
    by (simp add: bootstrapInit_def adminUsername_def name_char_def is_digit_def password_ok_def rune_count_def passwordHash_def
        demo_crypto_def auth_init_def)
  from auth_run.boot [OF auth_run.start this] have r: "auth_run demo_crypto [Bootstrapped] ?s" .
  have "login demo_crypto 100 (Some (''root'', ''pw'')) demo_token ?s = (OK200, demo_session)"
    by (simp add: login_def window_def credentials_match_def passwordMatches_def demo_crypto_def auth_init_def demo_session_def)
  from auth_run.log_in [OF r this] show ?thesis .
qed

theorem guard_sound_witness:
  "\<exists>t. opened demo_crypto demo_token [LoggedIn demo_token 100, Bootstrapped] = Some t \<and> (200::int) < t + week"
proof -
  have "requireAuth demo_crypto 200 (Some demo_token) ''GET'' [] demo_session = Inr demo_token"
    by (simp add: requireAuth_def authenticated_def demo_session_def demo_crypto_def week_def) (simp add: demo_token_def)
  from guard_sound [OF demo_session_run this] show ?thesis by (simp add: demo_crypto_def)
qed

section \<open>Administrator and limits\<close>

text \<open>The administrator is created once; only a password change touches the stored hash, and it ends all sessions.\<close>

theorem admin_created_once:
  "auth_run cr h s \<Longrightarrow> length (filter (\<lambda>e. e = Bootstrapped) h) = (if a_admin s = None then 0 else 1) \<and>
     (\<forall>token t. LoggedIn token t \<in> set h \<longrightarrow> a_admin s \<noteq> None)"
proof (induction rule: auth_run.induct)
  case (boot h s ok input salt s')
  then show ?case by (auto simp: bootstrapInit_def split: if_splits option.splits)
next
  case (log_in h s now up token s')
  then show ?case using login_effect(1) [OF log_in.hyps(2)] by (auto simp: credentials_match_def split: option.splits)
next
  case (log_in_fails h s now input token s')
  then show ?case using login_effect(2) [OF log_in_fails.hyps(2)] by simp
next
  case (log_in_refused h s now input token r s')
  then show ?case using login_effect(2) [OF log_in_refused.hyps(2,3)] by simp
next
  case (change_pw h s now cookie header token input salt s')
  then show ?case by (auto simp: changePassword_def split: if_splits option.splits)
qed (simp_all add: auth_init_def logout_def)

text \<open>
  Requests handled one after the other fail at most ten logins in a window of a minute: the counter never
  exceeds ten, and at ten every login is refused until the window ends, with the right password too.
\<close>

theorem login_limit:
  "auth_run cr h s \<Longrightarrow> loginFailures s \<le> 10"
  "loginFailures s = 10 \<Longrightarrow> now - loginWindow s \<le> 60 \<Longrightarrow> login cr now input token s = (TooMany429, s)"
proof -
  show "loginFailures s \<le> 10" if "auth_run cr h s"
    using that by (induction rule: auth_run.induct)
      (auto simp: auth_init_def bootstrapInit_def login_def window_def logout_def changePassword_def Let_def split: if_splits option.splits)
qed (simp add: login_def window_def)

text \<open>A password that was set is accepted, if the random salt and the derived key have their lengths.\<close>

theorem password_accepted:
  "length salt = 16 \<Longrightarrow> length (argon cr p salt) = 32 \<Longrightarrow> passwordMatches cr p (passwordHash cr salt p)"
  by (simp add: passwordMatches_def passwordHash_def)

end
