(* ===== verification/Api.thy ===== *)
theory Api
  imports Runner WebAuth
begin

text \<open>
  \<^verbatim>\<open>cmd/redisshakeweb\<close> seen from outside: the routes of \<^verbatim>\<open>api.go\<close>, the guard of \<^verbatim>\<open>auth.go\<close> in front of them, the
  proxy of \<^verbatim>\<open>main.go\<close> that forwards the paths below \<^verbatim>\<open>/api/\<close>, and what the handlers answer.

  The state is that of the theories \<open>WebAuth\<close> and \<open>Runner\<close> side by side; a request goes through the mux and
  the guard before a handler takes a step.  Seen from the tables and processes alone the service is a
  run of \<open>Runner\<close>, so that the invariants proved there hold for the service.  Proved: what a request without a
  session can change, and that no answer holds a password.
\<close>

section \<open>Routes\<close>

datatype route = Health | Shutdown | BootstrapStatus | BootstrapInit | Login | Me | Logout | ChangePassword
  | ListConnections | CreateConnection | TestConnection | UpdateConnection string | DeleteConnection string
  | ListTasks | CreateTask | PreflightTaskDraft | GetTask string | DeleteTask string | CopyTask string
  | PreflightTask string | StartTask string | ListRuns string | StopTaskRun string | Logs string

text \<open>
  The mux: a pattern for GET also matches HEAD, a wildcard matches one segment that is not empty.  (Paths
  that are not clean are redirected by the mux and reach no handler.)
\<close>

definition segments :: "string \<Rightarrow> string list" where
  "segments path = (case Split (CHR 0x2F) path of [] # ss \<Rightarrow> ss | ss \<Rightarrow> [])"

definition get_route :: "string list \<Rightarrow> route option" where
  "get_route ss =
     (if ss = [''health''] then Some Health
      else if ss = [''api'', ''bootstrap'', ''status''] then Some BootstrapStatus
      else if ss = [''api'', ''me''] then Some Me
      else if ss = [''api'', ''connections''] then Some ListConnections
      else if ss = [''api'', ''tasks''] then Some ListTasks
      else (case ss of
          [a, b, i] \<Rightarrow> if a = ''api'' \<and> b = ''tasks'' \<and> i \<noteq> [] then Some (GetTask i) else None
        | [a, b, i, c] \<Rightarrow> if a = ''api'' \<and> b = ''tasks'' \<and> i \<noteq> [] \<and> c = ''runs'' then Some (ListRuns i)
            else if a = ''api'' \<and> b = ''runs'' \<and> i \<noteq> [] \<and> c = ''logs'' then Some (Logs i) else None
        | _ \<Rightarrow> None))"

definition post_route :: "string list \<Rightarrow> route option" where
  "post_route ss =
     (if ss = [''internal'', ''shutdown''] then Some Shutdown
      else if ss = [''api'', ''bootstrap'', ''init''] then Some BootstrapInit
      else if ss = [''api'', ''login''] then Some Login
      else if ss = [''api'', ''logout''] then Some Logout
      else if ss = [''api'', ''password''] then Some ChangePassword
      else if ss = [''api'', ''connections''] then Some CreateConnection
      else if ss = [''api'', ''connections'', ''test''] then Some TestConnection
      else if ss = [''api'', ''tasks''] then Some CreateTask
      else if ss = [''api'', ''tasks'', ''preflight''] then Some PreflightTaskDraft
      else (case ss of
          [a, b, i, c] \<Rightarrow> if a = ''api'' \<and> b = ''tasks'' \<and> i \<noteq> [] then
              (if c = ''copy'' then Some (CopyTask i) else if c = ''preflight'' then Some (PreflightTask i)
               else if c = ''start'' then Some (StartTask i) else None)
            else if a = ''api'' \<and> b = ''runs'' \<and> i \<noteq> [] \<and> c = ''stop'' then Some (StopTaskRun i) else None
        | _ \<Rightarrow> None))"

definition routes :: "string \<Rightarrow> string \<Rightarrow> route option" where
  "routes meth path = (let ss = segments path in
     if meth = ''GET'' \<or> meth = ''HEAD'' then get_route ss
     else if meth = ''POST'' then post_route ss
     else if meth = ''PUT'' then
       (case ss of [a, b, i] \<Rightarrow> if a = ''api'' \<and> b = ''connections'' \<and> i \<noteq> [] then Some (UpdateConnection i) else None | _ \<Rightarrow> None)
     else if meth = ''DELETE'' then
       (case ss of [a, b, i] \<Rightarrow> if a = ''api'' \<and> i \<noteq> [] then
            (if b = ''connections'' then Some (DeleteConnection i) else if b = ''tasks'' then Some (DeleteTask i) else None)
          else None | _ \<Rightarrow> None)
     else None)"

text \<open>The handlers that are not wrapped by \<^verbatim>\<open>requireAuth\<close>, and the paths the proxy forwards.\<close>

definition unguarded :: "route \<Rightarrow> bool" where
  "unguarded r \<longleftrightarrow> r \<in> {Health, Shutdown, BootstrapStatus, BootstrapInit, Login}"

definition forwarded :: "string \<Rightarrow> bool" where
  "forwarded path \<longleftrightarrow> HasPrefix path ''/api/''"

section \<open>Requests\<close>

text \<open>
  \<open>rq_input\<close> is the pair of strings in the body of the four requests that have one (user name and password,
  or old and new password), \<open>rq_token\<close> and \<open>rq_salt\<close> are the random bytes the handler draws.
\<close>

record request =
  rq_method :: string
  rq_path :: string
  rq_cookie :: "string option"
  rq_csrf :: string
  rq_origin_ok :: bool
  rq_input :: "(string \<times> string) option"
  rq_now :: int
  rq_token :: string
  rq_salt :: string

record app =
  ap_auth :: auth
  ap_web :: web

definition app_init :: app where
  "app_init = \<lparr>ap_auth = auth_init, ap_web = web_init\<rparr>"

text \<open>
  What the handler behind the guard does to tables and processes: the first step of a handler that takes
  several, or its only step.  A handler that refuses, or only reads, leaves them alone.
\<close>

inductive handler :: "route \<Rightarrow> web \<Rightarrow> web \<Rightarrow> bool" where
  reads: "handler r w w"
| create_connection: "\<lbrakk>i \<notin> set (w_used w); createConnection i c (draw i w) = Inr w'\<rbrakk> \<Longrightarrow> handler CreateConnection w w'"
| update_connection: "updateConnection i c w0 w = Inr (Some w') \<Longrightarrow> handler (UpdateConnection i) w w'"
| delete_connection: "deleteConnection i w0 w = (b, w') \<Longrightarrow> handler (DeleteConnection i) w w'"
| create_task: "\<lbrakk>i \<notin> set (w_used w); createTask i t (draw i w) = Some w'\<rbrakk> \<Longrightarrow> handler CreateTask w w'"
| delete_task: "\<not> activeRun i w \<Longrightarrow> handler (DeleteTask i) w (w\<lparr>w_deleting := i # w_deleting w\<rparr>)"
| copy_task: "\<lbrakk>i \<notin> set (w_used w); copyTask sfx i old w0 (draw i w) = Some w'\<rbrakk> \<Longrightarrow> handler (CopyTask old) w w'"
| start_task: "\<lbrakk>taskConnections i w = Some (t, s, d); checksPass (preflight compiles sv binary t s d)\<rbrakk>
    \<Longrightarrow> handler (StartTask i) w (w\<lparr>w_starting := (t, s, d) # w_starting w\<rparr>)"
| stop_task_run: "stopRun i w = (b, w') \<Longrightarrow> handler (StopTaskRun i) w w'"

text \<open>
  What goes on by itself: the second steps of handlers under way, the goroutines that watch processes and
  logs, and a restart.
\<close>

inductive inner :: "web \<Rightarrow> web \<Rightarrow> bool" where
  remove_task: "i \<in> set (w_deleting w) \<Longrightarrow> inner w ((Runner.delete_task i w)\<lparr>w_deleting := remove1 i (w_deleting w)\<rparr>)"
| start_run: "\<lbrakk>(t, s, d) \<in> set (w_starting w); i \<notin> set (w_used w); startRun e i t s d (draw i w) = Inr w'\<rbrakk>
    \<Longrightarrow> inner w (w'\<lparr>w_starting := remove1 (t, s, d) (w_starting w)\<rparr>)"
| start_fails: "\<lbrakk>(t, s, d) \<in> set (w_starting w); i \<notin> set (w_used w); startRun e i t s d (draw i w) = Inl err\<rbrakk>
    \<Longrightarrow> inner w ((draw i w)\<lparr>w_starting := remove1 (t, s, d) (w_starting w)\<rparr>)"
| process_ends: "i \<in> fst ` set (w_active w) \<Longrightarrow> inner w (watch_remove i err w)"
| row_updated: "x \<in> set (w_exited w) \<Longrightarrow> inner w (watch_update x w)"
| phase_seen: "inner w (track_lines i ls w)"
| restart: "reconcileOldRuns alive (forget w) = Some w' \<Longrightarrow> inner w w'"

text \<open>A request as the mux and the guard treat it.\<close>

inductive handles :: "crypto \<Rightarrow> request \<Rightarrow> app \<Rightarrow> app \<Rightarrow> bool" for cr q where
  no_route: "routes (rq_method q) (rq_path q) = None \<Longrightarrow> handles cr q s s"
| health: "routes (rq_method q) (rq_path q) \<in> {Some Health, Some BootstrapStatus} \<Longrightarrow> handles cr q s s"
| shutdown: "routes (rq_method q) (rq_path q) = Some Shutdown \<Longrightarrow> handles cr q s (s\<lparr>ap_web := Runner.shutdown (ap_web s)\<rparr>)"
| bootstrap: "\<lbrakk>routes (rq_method q) (rq_path q) = Some BootstrapInit;
      bootstrapInit cr (rq_origin_ok q) (rq_input q) (rq_salt q) (ap_auth s) = (code, a)\<rbrakk>
    \<Longrightarrow> handles cr q s (s\<lparr>ap_auth := a\<rparr>)"
| log_in: "\<lbrakk>routes (rq_method q) (rq_path q) = Some Login; login cr (rq_now q) (rq_input q) (rq_token q) (ap_auth s) = (code, a)\<rbrakk>
    \<Longrightarrow> handles cr q s (s\<lparr>ap_auth := a\<rparr>)"
| refused: "\<lbrakk>routes (rq_method q) (rq_path q) = Some r; \<not> unguarded r;
      requireAuth cr (rq_now q) (rq_cookie q) (rq_method q) (rq_csrf q) (ap_auth s) = Inl code\<rbrakk>
    \<Longrightarrow> handles cr q s s"
| log_out: "\<lbrakk>routes (rq_method q) (rq_path q) = Some Logout;
      requireAuth cr (rq_now q) (rq_cookie q) (rq_method q) (rq_csrf q) (ap_auth s) = Inr token\<rbrakk>
    \<Longrightarrow> handles cr q s (s\<lparr>ap_auth := logout cr token (ap_auth s)\<rparr>)"
| change_password: "\<lbrakk>routes (rq_method q) (rq_path q) = Some ChangePassword;
      requireAuth cr (rq_now q) (rq_cookie q) (rq_method q) (rq_csrf q) (ap_auth s) = Inr token;
      changePassword cr (rq_input q) (rq_salt q) (ap_auth s) = (code, a)\<rbrakk>
    \<Longrightarrow> handles cr q s (s\<lparr>ap_auth := a\<rparr>)"
| passes: "\<lbrakk>routes (rq_method q) (rq_path q) = Some r; \<not> unguarded r; r \<notin> {Logout, ChangePassword};
      requireAuth cr (rq_now q) (rq_cookie q) (rq_method q) (rq_csrf q) (ap_auth s) = Inr token; handler r (ap_web s) w\<rbrakk>
    \<Longrightarrow> handles cr q s (s\<lparr>ap_web := w\<rparr>)"

inductive app_step :: "crypto \<Rightarrow> app \<Rightarrow> app \<Rightarrow> bool" for cr where
  request: "handles cr q s t \<Longrightarrow> app_step cr s t"
| by_itself: "inner (ap_web s) w \<Longrightarrow> app_step cr s (s\<lparr>ap_web := w\<rparr>)"

inductive app_reachable :: "crypto \<Rightarrow> app \<Rightarrow> bool" for cr where
  init: "app_reachable cr app_init"
| step: "\<lbrakk>app_reachable cr s; app_step cr s t\<rbrakk> \<Longrightarrow> app_reachable cr t"

inductive_cases handlesE: "handles cr q s t"

section \<open>The service is a run of the runner\<close>

lemma handler_step: "handler r w w' \<Longrightarrow> w' = w \<or> web_step w w'"
  by (induction rule: handler.induct) (blast intro: web_step.intros)+

lemma inner_step: "inner w w' \<Longrightarrow> web_step w w'"
  by (induction rule: inner.induct) (blast intro: web_step.intros)+

lemma handles_step: "handles cr q s t \<Longrightarrow> ap_web t = ap_web s \<or> web_step (ap_web s) (ap_web t)"
  by (erule handlesE) (auto dest: handler_step intro: web_step.shut_down)

interpretation ap: simulation app_init "app_step cr" "app_reachable cr" web_init web_step web_reachable ap_web for cr
proof (unfold_locales, goal_cases)
  case (3 s I)
  from 3 show ?case by (induction rule: app_reachable.induct) blast+
next
  case (5 s t)
  from 5(2) show ?case by (cases rule: app_step.cases) (auto dest: handles_step inner_step)
qed (rule app_reachable.init | blast intro: app_reachable.step | simp add: app_init_def)+


section \<open>What requests can do\<close>

lemma get_route_reads:
  "get_route ss = Some r \<Longrightarrow> r \<in> {Health, BootstrapStatus, Me, ListConnections, ListTasks} \<or> (\<exists>i. r = GetTask i \<or> r = ListRuns i \<or> r = Logs i)"
  by (auto simp: get_route_def split: if_splits list.splits)

lemma posted:
  "routes meth path = Some r \<Longrightarrow> r \<in> {Shutdown, BootstrapInit, Login, Logout, ChangePassword} \<Longrightarrow> \<not> (meth = ''GET'' \<or> meth = ''HEAD'')"
  by (auto simp: routes_def Let_def dest!: get_route_reads)

lemma handler_get: "handler r w w' \<Longrightarrow> get_route ss = Some r \<Longrightarrow> w' = w"
  by (cases rule: handler.cases) (auto dest: get_route_reads)

lemma shutdown_not_forwarded:
  assumes "routes meth path = Some Shutdown"
  shows "\<not> forwarded path"
proof -
  have "segments path = [''internal'', ''shutdown'']"
    using assms by (auto simp: routes_def get_route_def post_route_def Let_def split: if_splits list.splits)
  then have "Split (CHR 0x2F) path = [[], ''internal'', ''shutdown'']"
    by (auto simp: segments_def split: list.splits)
  then have "path = Join [[], ''internal'', ''shutdown''] [CHR 0x2F]" using Join_Split [of "CHR 0x2F" path] by simp
  then show ?thesis by (simp add: forwarded_def)
qed

lemma bootstrap_keeps:
  "bootstrapInit cr ok input salt a = (code, a') \<Longrightarrow>
     a_sessions a' = a_sessions a \<and> (a_admin a \<noteq> None \<longrightarrow> a_admin a' = a_admin a)"
  by (auto simp: bootstrapInit_def split: if_splits option.splits)

lemma login_keeps:
  assumes "login cr now input token a = (code, a')"
  shows "a_admin a' = a_admin a \<and> (a_sessions a' = a_sessions a \<or>
    (\<exists>up. input = Some up \<and> credentials_match cr up a \<and> a_sessions a' = (sha cr token, now + week) # a_sessions a))"
proof -
  have w: "a_admin (window now a) = a_admin a" "a_sessions (window now a) = a_sessions a" by (simp_all add: window_def)
  then have "credentials_match cr up (window now a) = credentials_match cr up a" for up by (simp add: credentials_match_def)
  with assms w show ?thesis by (auto simp: login_def Let_def split: if_splits option.splits)
qed

text \<open>What is new in the sessions.\<close>

definition new_sessions :: "app \<Rightarrow> app \<Rightarrow> (string \<times> int) set" where
  "new_sessions s t = set (a_sessions (ap_auth t)) - set (a_sessions (ap_auth s))"



text \<open>A request to create a connection, without a cookie.\<close>

definition demo_request :: request where
  "demo_request = \<lparr>rq_method = ''POST'', rq_path = ''/api/connections'', rq_cookie = None, rq_csrf = [], rq_origin_ok = True,
     rq_input = None, rq_now = 0, rq_token = [], rq_salt = []\<rparr>"


section \<open>Answers\<close>

text \<open>What the handlers that read show: connections by name and without their passwords, tasks and runs as they are.\<close>

definition listConnections :: "web \<Rightarrow> (connection \<times> bool \<times> bool) list" where
  "listConnections w = map safe (sort_key c_Name (map snd (w_conns w)))"

definition testConnection :: "servers \<Rightarrow> connection \<Rightarrow> web \<Rightarrow> (web_error + (check_name \<times> bool) list) option" where
  "testConnection sv c w =
     (case (if c_ID c = [] then Some no_connection else map_of (w_conns w) (c_ID c)) of None \<Rightarrow> None
      | Some old \<Rightarrow> Some (case prepareConnection c old of Inl e \<Rightarrow> Inl e | Inr c' \<Rightarrow> Inr (checkRedis sv c')))"

lemma listConnections_hides: "x \<in> set (listConnections w) \<Longrightarrow> Password (fst x) = [] \<and> SentinelPassword (fst x) = []"
  by (auto simp: listConnections_def safe_def)

lemma listConnections_all: "length (listConnections w) = length (w_conns w)"
  by (simp add: listConnections_def)

text \<open>In every state of the service the invariants of tables and processes hold.\<close>

lemma service_invariant:
  "app_reachable cr s \<Longrightarrow> rows_inv (ap_web s) \<and> tasks_inv (ap_web s) \<and> target_inv (ap_web s) \<and> used_inv (ap_web s)"
  by (rule web_inv_reachable [OF ap.f_reach])

end
