(* ===== verification/Store.thy ===== *)
theory Store
  imports Runner Progress
begin

text \<open>
  The rest of \<^verbatim>\<open>cmd/redisshakeweb\<close>: encryption of the stored connections and the query for runs (\<^verbatim>\<open>store.go\<close>), the
  end of a log (\<^verbatim>\<open>api.go\<close>), the pages (\<^verbatim>\<open>frontend.go\<close>), and the commands of the program (\<^verbatim>\<open>main.go\<close>).

  AES-GCM and JSON are parameters with what the code relies on as hypotheses; base64 is modelled.  Proved: a
  record that was sealed is opened again, the rows of the query are grouped into the runs with all
  their positions, a log is cut at the right place, and the web front only starts over a runner that answers.
\<close>

section \<open>Base64\<close>

text \<open>\<^verbatim>\<open>RawStdEncoding\<close>: groups of three bytes as four characters, the last group without padding.\<close>

definition b64_alphabet :: string where
  "b64_alphabet = ''ABCDEFGHIJKLMNOPQRSTUVWXYZabcdefghijklmnopqrstuvwxyz0123456789+/''"

definition b64_char :: "nat \<Rightarrow> char" where
  "b64_char n = b64_alphabet ! n"

fun index_of :: "char \<Rightarrow> string \<Rightarrow> nat option" where
  "index_of c [] = None"
| "index_of c (x # xs) = (if x = c then Some 0 else map_option Suc (index_of c xs))"

definition b64_val :: "char \<Rightarrow> nat option" where
  "b64_val c = index_of c b64_alphabet"

abbreviation byte_val :: "char \<Rightarrow> nat" where "byte_val c \<equiv> of_char c"

fun EncodeToString :: "string \<Rightarrow> string" where
  "EncodeToString [] = []"
| "EncodeToString [a] = (let n = byte_val a in [b64_char (n div 4), b64_char (n mod 4 * 16)])"
| "EncodeToString [a, b] = (let n = byte_val a * 256 + byte_val b in
     [b64_char (n div 1024), b64_char (n div 16 mod 64), b64_char (n mod 16 * 4)])"
| "EncodeToString (a # b # c # cs) = (let n = byte_val a * 65536 + byte_val b * 256 + byte_val c in
     [b64_char (n div 262144), b64_char (n div 4096 mod 64), b64_char (n div 64 mod 64), b64_char (n mod 64)] @ EncodeToString cs)"

text \<open>Decoding skips line ends; a single character left over is an error; spare bits of the last one are ignored.\<close>

fun b64_groups :: "nat list \<Rightarrow> string option" where
  "b64_groups [] = Some []"
| "b64_groups [a] = None"
| "b64_groups [a, b] = Some [char_of ((a * 64 + b) div 16)]"
| "b64_groups [a, b, c] = (let n = a * 4096 + b * 64 + c in Some [char_of (n div 1024), char_of (n div 4 mod 256)])"
| "b64_groups (a # b # c # d # ds) = (let n = a * 262144 + b * 4096 + c * 64 + d in
     map_option ((@) [char_of (n div 65536), char_of (n div 256 mod 256), char_of (n mod 256)]) (b64_groups ds))"

fun b64_vals :: "string \<Rightarrow> nat list option" where
  "b64_vals [] = Some []"
| "b64_vals (c # cs) = (if c = CHR 0x0D \<or> c = CHR 0x0A then b64_vals cs
     else (case (b64_val c, b64_vals cs) of (Some n, Some ns) \<Rightarrow> Some (n # ns) | _ \<Rightarrow> None))"

definition DecodeString :: "string \<Rightarrow> string option" where
  "DecodeString s = (case b64_vals s of None \<Rightarrow> None | Some ns \<Rightarrow> b64_groups ns)"

lemma b64_val_char: "n < 64 \<Longrightarrow> b64_val (b64_char n) = Some n \<and> b64_char n \<noteq> CHR 0x0D \<and> b64_char n \<noteq> CHR 0x0A"
proof -
  have "list_all (\<lambda>n. b64_val (b64_char n) = Some n \<and> b64_char n \<noteq> CHR 0x0D \<and> b64_char n \<noteq> CHR 0x0A) [0..<64]"
    by code_simp
  then show "n < 64 \<Longrightarrow> ?thesis" by (simp add: list_all_iff)
qed

lemma b64_vals_chars: "\<forall>n \<in> set ns. n < 64 \<Longrightarrow> b64_vals (map b64_char ns @ s) = map_option ((@) ns) (b64_vals s)"
proof (induction ns)
  case (Cons n ns)
  then show ?case using b64_val_char [of n] by (cases "b64_vals s") auto
qed (cases "b64_vals s", simp_all)


text \<open>The digits of a group, and the bytes.\<close>

lemma base64_number:
  "\<lbrakk>q * 64 + r = (n :: nat); q2 * 64 + r2 = q; q3 * 64 + r3 = q2\<rbrakk> \<Longrightarrow> q3 * 262144 + r3 * 4096 + r2 * 64 + r = n"
  by simp

lemma b64_digits:
  "n div 262144 * 262144 + n div 4096 mod 64 * 4096 + n div 64 mod 64 * 64 + n mod 64 = (n :: nat)"
proof -
  have "n div 4096 = n div 64 div 64" "n div 262144 = n div 64 div 64 div 64" by (simp_all add: div_mult2_eq [symmetric])
  then show ?thesis using base64_number [OF div_mult_mod_eq [of n 64] div_mult_mod_eq [of "n div 64" 64] div_mult_mod_eq [of "n div 64 div 64" 64]]
    by (simp only:)
qed

lemma b64_bytes:
  assumes "b < 256" "c < 256"
  shows "(a * 65536 + b * 256 + c) div 65536 = (a :: nat)" "(a * 65536 + b * 256 + c) div 256 mod 256 = b" "(a * 65536 + b * 256 + c) mod 256 = c"
proof -
  have r: "b * 256 + c < 65536" using assms by simp
  have "a * 65536 + b * 256 + c = a * 65536 + (b * 256 + c)" by simp
  then show "(a * 65536 + b * 256 + c) div 65536 = a" using r by simp
  have e: "a * 65536 + b * 256 + c = (a * 256 + b) * 256 + c" by simp
  have "((a * 256 + b) * 256 + c) div 256 = a * 256 + b" using assms(2) by simp
  then show "(a * 65536 + b * 256 + c) div 256 mod 256 = b" unfolding e using assms(1) by simp
  show "(a * 65536 + b * 256 + c) mod 256 = c" unfolding e mod_mult_self3 using assms(2) by simp
qed

lemma byte_val_less: "byte_val c < 256"
  by (rule nat_of_char_less_256)

lemma b64_last2:
  assumes "a < 256"
  shows "(a div 4 * 64 + a mod 4 * 16) div 16 = (a :: nat)"
  using div_mult_mod_eq [of a 4] by simp

lemma b64_last3:
  assumes "b < 256" "n = a * 256 + b"
  shows "(n div 1024 * 4096 + n div 16 mod 64 * 64 + n mod 16 * 4) = n * 4" "n div 256 = (a :: nat)" "n mod 256 = b"
proof -
  have "n div 1024 = n div 16 div 64" by (simp add: div_mult2_eq [symmetric])
  moreover have "n div 16 * 16 + n mod 16 = n" "n div 16 div 64 * 64 + n div 16 mod 64 = n div 16" by (rule div_mult_mod_eq)+
  ultimately show "(n div 1024 * 4096 + n div 16 mod 64 * 64 + n mod 16 * 4) = n * 4" by linarith
  show "n div 256 = a" "n mod 256 = b" using assms by simp_all
qed

lemma byte_eq: "n mod 256 = byte_val b \<Longrightarrow> char_of n = b"
  by (metis char_of_mod_256 char_of_char)

lemma DecodeString_EncodeToString: "DecodeString (EncodeToString bs) = Some bs"
proof -
  have "\<exists>ns. b64_vals (EncodeToString bs) = Some ns \<and> b64_groups ns = Some bs"
  proof (induction bs rule: EncodeToString.induct)
    case (2 a)
    define n where "n = byte_val a"
    let ?ns = "[n div 4, n mod 4 * 16]"
    have n: "n < 256" unfolding n_def by (rule byte_val_less)
    then have lt: "\<forall>n \<in> set ?ns. n < 64" by auto
    have "EncodeToString [a] = map b64_char ?ns @ []" by (simp add: Let_def n_def)
    then have "b64_vals (EncodeToString [a]) = Some ?ns" by (simp only: b64_vals_chars [OF lt]) simp
    moreover have "b64_groups ?ns = Some [a]" using b64_last2 [OF n] by (simp add: n_def)
    ultimately show ?case by blast
  next
    case (3 a b)
    define n where "n = byte_val a * 256 + byte_val b"
    let ?ns = "[n div 1024, n div 16 mod 64, n mod 16 * 4]"
    have lt: "byte_val a < 256" "byte_val b < 256" by (rule byte_val_less)+
    then have "n < 65536" unfolding n_def by linarith
    then have d: "\<forall>n \<in> set ?ns. n < 64" by auto
    have "EncodeToString [a, b] = map b64_char ?ns @ []" by (simp add: Let_def n_def)
    then have "b64_vals (EncodeToString [a, b]) = Some ?ns" by (simp only: b64_vals_chars [OF d]) simp
    moreover have "char_of n = b" using b64_last3(3) [OF lt(2) n_def] by (rule byte_eq)
    then have "b64_groups ?ns = Some [a, b]"
      using b64_last3 [OF lt(2) n_def] by (simp add: Let_def div_mult2_eq [of "n * 4" 4 256, simplified])
    ultimately show ?case by blast
  next
    case (4 a b c cs)
    define n where "n = byte_val a * 65536 + byte_val b * 256 + byte_val c"
    let ?d = "[n div 262144, n div 4096 mod 64, n div 64 mod 64, n mod 64]"
    have lt: "byte_val a < 256" "byte_val b < 256" "byte_val c < 256" by (rule byte_val_less)+
    then have "n < 16777216" unfolding n_def by linarith
    from 4 obtain ns where ns: "b64_vals (EncodeToString cs) = Some ns" "b64_groups ns = Some cs" by blast
    have d: "\<forall>n \<in> set ?d. n < 64" using \<open>n < 16777216\<close> by auto
    have "EncodeToString (a # b # c # cs) = map b64_char ?d @ EncodeToString cs" by (simp add: Let_def n_def)
    then have "b64_vals (EncodeToString (a # b # c # cs)) = Some (?d @ ns)" by (simp only: b64_vals_chars [OF d]) (simp add: ns(1))
    moreover have "b64_groups (?d @ ns) = Some (a # b # c # cs)"
      using b64_digits [of n] b64_bytes [OF lt(2,3), of "byte_val a"] unfolding n_def [symmetric] by (simp add: Let_def ns(2) byte_eq)
    ultimately show ?case by blast
  qed simp
  then show ?thesis by (auto simp: DecodeString_def)
qed


section \<open>Sealed records\<close>

text \<open>
  The cipher: \<open>gcmSeal nonce plain\<close> without the nonce in front, \<open>gcmOpen\<close> its inverse on what was not tampered
  with; \<open>toJSON\<close> and \<open>fromJSON\<close> are JSON.  \<open>nonce\<close> is drawn at random.
\<close>

record 'v cipher =
  NonceSize :: nat
  gcmSeal :: "string \<Rightarrow> string \<Rightarrow> string"
  gcmOpen :: "string \<Rightarrow> string \<Rightarrow> string option"
  toJSON :: "'v \<Rightarrow> string option"
  fromJSON :: "string \<Rightarrow> 'v option"

datatype store_error = MarshalFails | InvalidRecord | NotAuthentic | UnmarshalFails

definition seal :: "'v cipher \<Rightarrow> string \<Rightarrow> 'v \<Rightarrow> store_error + string" where
  "seal ci nonce v = (case toJSON ci v of None \<Rightarrow> Inl MarshalFails
     | Some plain \<Rightarrow> Inr (EncodeToString (nonce @ gcmSeal ci nonce plain)))"

definition open_record :: "'v cipher \<Rightarrow> string \<Rightarrow> store_error + 'v" where
  "open_record ci ciphertext = (case DecodeString ciphertext of None \<Rightarrow> Inl InvalidRecord
     | Some bytes \<Rightarrow>
         if length bytes < NonceSize ci then Inl InvalidRecord
         else (case gcmOpen ci (take (NonceSize ci) bytes) (drop (NonceSize ci) bytes) of None \<Rightarrow> Inl NotAuthentic
           | Some plain \<Rightarrow> (case fromJSON ci plain of None \<Rightarrow> Inl UnmarshalFails | Some v \<Rightarrow> Inr v)))"

text \<open>The table of connections as it is on disk: identifier, name in the clear, sealed record.\<close>

type_synonym conn_table = "(string \<times> string \<times> string) list"

definition save_sealed :: "connection cipher \<Rightarrow> string \<Rightarrow> connection \<Rightarrow> conn_table \<Rightarrow> store_error + conn_table" where
  "save_sealed ci nonce c tab = (case seal ci nonce c of Inl e \<Rightarrow> Inl e
     | Inr payload \<Rightarrow> Inr ((c_ID c, c_Name c, payload) # filter (\<lambda>(i, _). i \<noteq> c_ID c) tab))"

definition load_sealed :: "connection cipher \<Rightarrow> string \<Rightarrow> conn_table \<Rightarrow> (store_error + connection) option" where
  "load_sealed ci i tab = map_option (\<lambda>(_, payload). open_record ci payload) (map_of tab i)"

text \<open>Listing stops at the first record that cannot be opened.\<close>

fun open_all :: "connection cipher \<Rightarrow> (string \<times> string \<times> string) list \<Rightarrow> store_error + (connection \<times> bool \<times> bool) list" where
  "open_all ci [] = Inr []"
| "open_all ci ((i, name, payload) # tab) = (case open_record ci payload of Inl e \<Rightarrow> Inl e
     | Inr c \<Rightarrow> map_sum id ((#) (safe c)) (open_all ci tab))"

definition connections :: "connection cipher \<Rightarrow> conn_table \<Rightarrow> store_error + (connection \<times> bool \<times> bool) list" where
  "connections ci tab = open_all ci (sort_key (\<lambda>(_, name, _). name) tab)"

text \<open>What the code relies on: the cipher opens what it sealed, and JSON reads what it wrote.\<close>

definition cipher_ok :: "'v cipher \<Rightarrow> 'v \<Rightarrow> bool" where
  "cipher_ok ci v \<longleftrightarrow> (\<forall>n p. length n = NonceSize ci \<longrightarrow> gcmOpen ci n (gcmSeal ci n p) = Some p) \<and>
     (\<exists>p. toJSON ci v = Some p \<and> fromJSON ci p = Some v)"

lemma open_seal:
  assumes "cipher_ok ci v" "length nonce = NonceSize ci"
  shows "\<exists>s. seal ci nonce v = Inr s \<and> open_record ci s = Inr v"
  using assms by (auto simp: cipher_ok_def seal_def open_record_def DecodeString_EncodeToString)

text \<open>
  A connection that is saved is read back from the table unchanged, passwords included, through encryption
  and base64; every other record stays as it was; and a record cut short is refused before it is decrypted.
\<close>

theorem sealed_connection_roundtrip:
  assumes "cipher_ok ci c" "length nonce = NonceSize ci"
  shows "\<exists>tab'. save_sealed ci nonce c tab = Inr tab' \<and> load_sealed ci (c_ID c) tab' = Some (Inr c) \<and>
    (\<forall>i. i \<noteq> c_ID c \<longrightarrow> load_sealed ci i tab' = load_sealed ci i tab) \<and>
    (\<forall>bs. length bs < NonceSize ci \<longrightarrow> open_record ci (EncodeToString bs) = Inl InvalidRecord)"
proof -
  have other: "map_of (filter (\<lambda>(j, _). j \<noteq> i') tab) i = map_of tab i" if "i \<noteq> i'" for i i'
    using that by (induction tab) auto
  have short: "open_record ci (EncodeToString bs) = Inl InvalidRecord" if "length bs < NonceSize ci" for bs
    using that by (simp add: open_record_def DecodeString_EncodeToString)
  from open_seal [OF assms] show ?thesis by (auto simp: save_sealed_def load_sealed_def other short)
qed

definition demo_cipher :: "connection cipher" where
  "demo_cipher = \<lparr>NonceSize = 2, gcmSeal = (\<lambda>n p. n @ p), gcmOpen = (\<lambda>n s. if take 2 s = n then Some (drop 2 s) else None),
     toJSON = (\<lambda>c. if c = no_connection then Some ''c'' else None), fromJSON = (\<lambda>p. Some no_connection)\<rparr>"

theorem sealed_connection_roundtrip_witness:
  "\<exists>tab'. save_sealed demo_cipher ''xy'' no_connection [] = Inr tab' \<and> load_sealed demo_cipher [] tab' = Some (Inr no_connection)"
proof -
  have "cipher_ok demo_cipher no_connection" "length ''xy'' = NonceSize demo_cipher"
    by (simp_all add: cipher_ok_def demo_cipher_def)
  from sealed_connection_roundtrip [OF this, of "[]"] show ?thesis by (auto simp: no_connection_def)
qed


section \<open>The list of runs\<close>

text \<open>
  The query joins a run with each of its saved positions and with its report: one row per position, or one
  row without any.  \<open>pos\<close> gives the positions of a run in the order of the nodes, \<open>rep\<close> its report.
\<close>

type_synonym run_line = "string \<times> runRow \<times> (string \<times> int) option \<times> string option"

definition join_rows :: "(string \<Rightarrow> (string \<times> int) list) \<Rightarrow> (string \<Rightarrow> string option) \<Rightarrow> (string \<times> runRow) list \<Rightarrow> run_line list" where
  "join_rows pos rep rs = concat (map (\<lambda>(i, r). if pos i = [] then [(i, r, None, rep i)] else map (\<lambda>p. (i, r, Some p, rep i)) (pos i)) rs)"

record run_view =
  rv_ID :: string
  rv_row :: runRow
  rv_progress :: "nodeProgress list"
  rv_offsets :: "(string \<times> int) list"

text \<open>A row: a new run when its identifier is not that of the last one, and a position for the last one.  \<open>None\<close>: a report cannot be read.\<close>

definition new_view :: "(string \<Rightarrow> nodeProgress list option) \<Rightarrow> string \<Rightarrow> runRow \<Rightarrow> string option \<Rightarrow> run_view option" where
  "new_view dec i r payload = (case payload of
     None \<Rightarrow> Some \<lparr>rv_ID = i, rv_row = r, rv_progress = [], rv_offsets = []\<rparr>
   | Some txt \<Rightarrow> map_option (\<lambda>np. \<lparr>rv_ID = i, rv_row = r, rv_progress = np, rv_offsets = []\<rparr>) (dec txt))"

definition add_position :: "(string \<times> int) option \<Rightarrow> run_view list \<Rightarrow> run_view list" where
  "add_position p out = (case p of None \<Rightarrow> out
     | Some x \<Rightarrow> butlast out @ [(last out)\<lparr>rv_offsets := rv_offsets (last out) @ [x]\<rparr>])"

fun runs :: "(string \<Rightarrow> nodeProgress list option) \<Rightarrow> run_view list \<Rightarrow> run_line list \<Rightarrow> run_view list option" where
  "runs dec out [] = Some out"
| "runs dec out ((i, r, p, payload) # rows) =
     (if out = [] \<or> rv_ID (last out) \<noteq> i then
        (case new_view dec i r payload of None \<Rightarrow> None | Some v \<Rightarrow> runs dec (add_position p (out @ [v])) rows)
      else runs dec (add_position p out) rows)"

definition view_of :: "(string \<Rightarrow> nodeProgress list option) \<Rightarrow> (string \<Rightarrow> (string \<times> int) list) \<Rightarrow> (string \<Rightarrow> string option) \<Rightarrow>
    string \<times> runRow \<Rightarrow> run_view option" where
  "view_of dec pos rep x = map_option (\<lambda>v. v\<lparr>rv_offsets := pos (fst x)\<rparr>) (new_view dec (fst x) (snd x) (rep (fst x)))"

lemma new_view_id: "new_view dec i r payload = Some v \<Longrightarrow> rv_ID v = i \<and> rv_offsets v = []"
  by (auto simp: new_view_def split: option.splits)

lemma runs_positions:
  "rv_ID v = i \<Longrightarrow> runs dec (out @ [v]) (map (\<lambda>p. (i, r, Some p, q)) ps @ rows) = runs dec (out @ [v\<lparr>rv_offsets := rv_offsets v @ ps\<rparr>]) rows"
  by (induction ps arbitrary: v) (simp_all add: add_position_def)

text \<open>Every run of the task is listed once, in the order of the query, with all its positions and its report.\<close>

lemma runs_grouped:
  assumes "distinct (map fst rs)" "out = [] \<or> rv_ID (last out) \<notin> fst ` set rs" "list_all2 (\<lambda>x v. view_of dec pos rep x = Some v) rs vs"
  shows "runs dec out (join_rows pos rep rs) = Some (out @ vs)"
  using assms
proof (induction rs arbitrary: out vs)
  case Nil
  then show ?case by (simp add: join_rows_def)
next
  case (Cons x rs)
  obtain i r where x: "x = (i, r)" by force
  from Cons.prems(3) obtain v us where vs: "vs = v # us" "view_of dec pos rep x = Some v" "list_all2 (\<lambda>x v. view_of dec pos rep x = Some v) rs us"
    by (auto simp: list_all2_Cons1)
  then obtain v0 where v0: "new_view dec i r (rep i) = Some v0" "v = v0\<lparr>rv_offsets := pos i\<rparr>" by (auto simp: view_of_def x)
  have id: "rv_ID v0 = i" "rv_offsets v0 = []" using new_view_id [OF v0(1)] by auto
  have new: "out = [] \<or> rv_ID (last out) \<noteq> i" using Cons.prems(2) by (auto simp: x)
  have "runs dec out (join_rows pos rep (x # rs)) = runs dec (out @ [v]) (join_rows pos rep rs)"
  proof (cases "pos i")
    case Nil
    moreover have "v = v0" using v0(2) Nil id by (cases v0) simp
    ultimately show ?thesis using new v0(1) by (simp add: join_rows_def x add_position_def)
  next
    case (Cons p ps)
    have "runs dec out (join_rows pos rep (x # rs)) =
        runs dec (out @ [v0\<lparr>rv_offsets := [p]\<rparr>]) (map (\<lambda>p. (i, r, Some p, rep i)) ps @ join_rows pos rep rs)"
      using new v0(1) Cons id by (auto simp: join_rows_def x add_position_def)
    also have "\<dots> = runs dec (out @ [v]) (join_rows pos rep rs)"
      using runs_positions [of "v0\<lparr>rv_offsets := [p]\<rparr>" i dec out r "rep i" ps] id v0(2) Cons by simp
    finally show ?thesis .
  qed
  also have "\<dots> = Some ((out @ [v]) @ us)"
    by (rule Cons.IH) (use Cons.prems(1) vs id v0(2) in \<open>auto simp: x\<close>)
  finally show ?case by (simp add: vs)
qed

section \<open>Opening the store\<close>

text \<open>The key file is read, or created from random bytes; a table of administrators of an older version gets its new column.\<close>

datatype key_file = Missing | Unreadable | Bytes string

datatype open_error = KeyError | KeyLength

definition store_key :: "key_file \<Rightarrow> string option \<Rightarrow> bool \<Rightarrow> (open_error + string) \<times> key_file" where
  "store_key file random writable =
     (let (key, file') = (case file of Bytes k \<Rightarrow> (Some k, file) | Unreadable \<Rightarrow> (None, file)
            | Missing \<Rightarrow> (case random of None \<Rightarrow> (None, file) | Some k \<Rightarrow> if writable then (Some k, Bytes k) else (None, file)))
      in (case key of None \<Rightarrow> Inl KeyError | Some k \<Rightarrow> if length k \<noteq> 32 then Inl KeyLength else Inr k, file'))"

text \<open>The key used is 32 bytes long and on disk: the next start finds the same one, so that it can open what is stored.\<close>

lemma store_key_stable:
  assumes "store_key file random writable = (Inr k, file')"
  shows "length k = 32 \<and> file' = Bytes k \<and> store_key file' random' writable' = (Inr k, file')"
  using assms by (auto simp: store_key_def split: key_file.splits option.splits if_splits)

definition admin_columns :: "string list \<Rightarrow> string list" where
  "admin_columns cols = (if ''username'' \<in> set cols then cols else cols @ [''username''])"

lemma admin_columns_once: "''username'' \<in> set (admin_columns cols) \<and> admin_columns (admin_columns cols) = admin_columns cols"
  by (simp add: admin_columns_def)

section \<open>Logs and pages\<close>

definition log_window :: nat where "log_window = 64 * 1024"

text \<open>The text shown of a log and whether something before it is left out.\<close>

definition log_tail :: "string \<Rightarrow> string \<times> bool" where
  "log_tail data = (let start = length data - log_window in (take log_window (drop start data), start > 0))"

lemma log_tail_end:
  "length (fst (log_tail data)) = min log_window (length data) \<and> suffix (fst (log_tail data)) data \<and>
     (snd (log_tail data) \<longleftrightarrow> fst (log_tail data) \<noteq> data)"
proof -
  have "length data - (length data - log_window) \<le> log_window" by simp
  then have "take log_window (drop (length data - log_window) data) = drop (length data - log_window) data" by simp
  moreover have "drop (length data - log_window) data = data \<longleftrightarrow> length data \<le> log_window"
  proof
    assume "drop (length data - log_window) data = data"
    then have "length (drop (length data - log_window) data) = length data" by (rule arg_cong)
    moreover have "0 < log_window" by (simp add: log_window_def)
    ultimately show "length data \<le> log_window" by (simp; linarith)
  qed simp
  ultimately show ?thesis by (simp add: log_tail_def Let_def suffix_drop not_less) linarith
qed

datatype page = AppShell | StaticFile

definition frontend :: "string list \<Rightarrow> page" where
  "frontend ss = (if ss \<in> {[[]], [''tasks''], [''tasks'', ''new''], [''connections''], [''connections'', ''new'']} then AppShell
     else (case ss of [a, i] \<Rightarrow> if a = ''tasks'' \<and> i \<noteq> [] then AppShell else StaticFile
       | [a, i, e] \<Rightarrow> if a = ''connections'' \<and> i \<noteq> [] \<and> e = ''edit'' then AppShell else StaticFile
       | _ \<Rightarrow> StaticFile))"

section \<open>Commands of the program\<close>

definition main_mode :: "string list \<Rightarrow> string \<times> string list" where
  "main_mode args = (case args of [] \<Rightarrow> (''serve'', [])
     | a # as \<Rightarrow> if HasPrefix a ''-'' then (''serve'', args) else (a, as))"

datatype command = Serve | ServeWeb | ServeRunner | RunTask string | PrintStatus | RequestShutdown | UsageError

text \<open>\<open>rest\<close> is what is left of the arguments after the flags.\<close>

definition dispatch :: "string \<Rightarrow> string list \<Rightarrow> command" where
  "dispatch mode rest =
     (if mode = ''serve'' then Serve else if mode = ''web'' then ServeWeb else if mode = ''runner'' then ServeRunner
      else if mode = ''task'' then (if length rest = 1 then RunTask (hd rest) else UsageError)
      else if mode = ''status'' then PrintStatus else if mode = ''shutdown'' then RequestShutdown else UsageError)"

text \<open>\<open>alive k\<close> is the answer to the k-th question whether the runner is there; the loop asks at most 50 times, 100 ms apart.\<close>

fun serve_wait :: "(nat \<Rightarrow> bool) \<Rightarrow> nat \<Rightarrow> nat \<Rightarrow> nat" where
  "serve_wait alive 0 k = k"
| "serve_wait alive (Suc n) k = (if alive k then Suc k else serve_wait alive n (Suc k))"

datatype served = WebServed | CannotStart | NotStarted

definition serve :: "(nat \<Rightarrow> bool) \<Rightarrow> bool \<Rightarrow> served" where
  "serve alive startable =
     (if alive 0 then WebServed
      else if \<not> startable then CannotStart
      else if alive (serve_wait alive 50 1) then WebServed else NotStarted)"

lemma serve_wait_le: "serve_wait alive n k \<le> k + n"
proof (induction n arbitrary: k)
  case (Suc n)
  then show ?case using Suc [of "Suc k"] by simp
qed simp

text \<open>The web front runs only after the runner answered; and it does run when the runner answers from some question on.\<close>

lemma serve_alive: "serve alive startable = WebServed \<Longrightarrow> \<exists>k \<le> 51. alive k"
  using serve_wait_le [of alive 50 1] by (auto simp: serve_def split: if_splits)

lemma serve_wait_finds:
  "\<lbrakk>\<And>j. alive j \<longleftrightarrow> m \<le> j; k \<le> m; m \<le> k + n\<rbrakk> \<Longrightarrow> alive (serve_wait alive n k)"
proof (induction n arbitrary: k)
  case (Suc n)
  show ?case
  proof (cases "m \<le> k")
    case True
    with Suc.prems(1) show ?thesis by simp
  next
    case False
    with Suc show ?thesis by simp
  qed
qed simp

lemma serve_starts: "\<lbrakk>\<And>j. alive j \<longleftrightarrow> m \<le> j; m \<le> 51\<rbrakk> \<Longrightarrow> serve alive True = WebServed"
  using serve_wait_finds [of alive m 1 50] by (cases m) (simp_all add: serve_def)

end
