(* ===== verification/Daemon.thy ===== *)
theory Daemon
  imports Api Store
begin

text \<open>
  The processes of the web service: \<^verbatim>\<open>serveRunner\<close> of \<^verbatim>\<open>cmd/redisshakeweb/runner.go\<close>, the options and clients of \<^verbatim>\<open>main.go\<close>, and
  the handlers of \<^verbatim>\<open>api.go\<close> that only read.

  The theory \<open>Runner\<close> describes one runner at a time over the tables.  Here any number of runner processes are
  started on the same data directory, fail at any step, or are killed.  Proved: thanks to the lock on the directory only
  one of them is past the lock, only that one touches the tables and the socket, and seen from the tables it is a run of the single
  runner with restarts, so that all its invariants hold.
\<close>

section \<open>Runners on a data directory\<close>

datatype runner_pc = NotRun | DirMade | HasLock | HasStore | Reconciled | Serving | Exited

record host =
  h_pc :: "nat \<Rightarrow> runner_pc"
  h_lock :: "nat option"
  h_socket :: "nat option"
  h_web :: web

definition host_init :: host where
  "host_init = \<lparr>h_pc = (\<lambda>_. NotRun), h_lock = None, h_socket = None, h_web = web_init\<rparr>"

definition past_lock :: "runner_pc \<Rightarrow> bool" where
  "past_lock pc \<longleftrightarrow> pc \<in> {HasLock, HasStore, Reconciled, Serving}"

definition goes :: "nat \<Rightarrow> runner_pc \<Rightarrow> host \<Rightarrow> host" where
  "goes p pc h = h\<lparr>h_pc := (h_pc h)(p := pc)\<rparr>"

text \<open>
  The end of a process: deferred calls, or the operating system, release the lock if the process holds it.  A process that ends
  by itself after \<^verbatim>\<open>Listen\<close> removes the socket before it releases the lock; one that is killed leaves it behind.
\<close>

definition exits :: "bool \<Rightarrow> nat \<Rightarrow> host \<Rightarrow> host" where
  "exits killed p h = (goes p Exited h)\<lparr>h_lock := (if h_lock h = Some p then None else h_lock h),
     h_socket := (if h_pc h p = Serving \<and> \<not> killed then None else h_socket h)\<rparr>"

text \<open>Each rule is a statement of \<^verbatim>\<open>serveRunner\<close> that succeeds; \<open>fails\<close> is the return with an error at any of them.\<close>

inductive host_step :: "host \<Rightarrow> host \<Rightarrow> bool" where
  make_dir: "h_pc h p = NotRun \<Longrightarrow> host_step h (goes p DirMade h)"
| take_lock: "\<lbrakk>h_pc h p = DirMade; h_lock h = None\<rbrakk> \<Longrightarrow> host_step h ((goes p HasLock h)\<lparr>h_lock := Some p\<rparr>)"
| lock_busy: "\<lbrakk>h_pc h p = DirMade; h_lock h \<noteq> None\<rbrakk> \<Longrightarrow> host_step h (exits False p h)"
| open_store: "h_pc h p = HasLock \<Longrightarrow> host_step h (goes p HasStore h)"
| reconcile: "\<lbrakk>h_pc h p = HasStore; reconcileOldRuns alive (forget (h_web h)) = Some w\<rbrakk> \<Longrightarrow> host_step h ((goes p Reconciled h)\<lparr>h_web := w\<rparr>)"
| still_running: "\<lbrakk>h_pc h p = HasStore; reconcileOldRuns alive (forget (h_web h)) = None\<rbrakk> \<Longrightarrow> host_step h (exits False p h)"
| listen: "h_pc h p = Reconciled \<Longrightarrow> host_step h ((goes p Serving h)\<lparr>h_socket := Some p\<rparr>)"
| work: "\<lbrakk>h_pc h p = Serving; handler r (h_web h) w \<or> inner (h_web h) w \<or> w = Runner.shutdown (h_web h)\<rbrakk> \<Longrightarrow> host_step h (h\<lparr>h_web := w\<rparr>)"
| fails: "h_pc h p \<notin> {Serving, Exited} \<Longrightarrow> host_step h (exits False p h)"
| closed: "h_pc h p = Serving \<Longrightarrow> host_step h (exits False p h)"
| killed: "h_pc h p \<noteq> Exited \<Longrightarrow> host_step h (exits True p h)"

inductive host_reachable :: "host \<Rightarrow> bool" where
  init: "host_reachable host_init"
| step: "host_reachable h \<Longrightarrow> host_step h h' \<Longrightarrow> host_reachable h'"

lemma host_web_step: "host_step h h' \<Longrightarrow> h_web h' = h_web h \<or> web_step (h_web h) (h_web h')"
  by (induction rule: host_step.induct)
    (auto simp: goes_def exits_def dest: handler_step inner_step intro: web_step.restart web_step.shut_down)

interpretation hs: simulation host_init host_step host_reachable web_init web_step web_reachable h_web
proof (unfold_locales, goal_cases)
  case (3 s I)
  from 3 show ?case by (induction rule: host_reachable.induct) blast+
next
  case (5 s t)
  then show ?case using host_web_step [of s t] by auto
qed (rule host_reachable.init | blast intro: host_reachable.step | simp add: host_init_def)+

definition lock_inv :: "host \<Rightarrow> bool" where
  "lock_inv h \<longleftrightarrow> (\<forall>p. past_lock (h_pc h p) \<longleftrightarrow> h_lock h = Some p) \<and> (\<forall>p. h_pc h p = Serving \<longrightarrow> h_socket h = Some p)"

lemma past_lock_simps [simp]:
  "past_lock HasLock" "past_lock HasStore" "past_lock Reconciled" "past_lock Serving"
  "\<not> past_lock NotRun" "\<not> past_lock DirMade" "\<not> past_lock Exited"
  by (simp_all add: past_lock_def)

lemma lock_inv_step:
  assumes "host_step h h'" "lock_inv h"
  shows "lock_inv h'"
proof -
  have l: "past_lock (h_pc h p) \<longleftrightarrow> h_lock h = Some p" for p using assms(2) by (simp add: lock_inv_def)
  have s: "h_lock h = Some p \<and> h_socket h = Some p" if "h_pc h p = Serving" for p
    using that l [of p] assms(2) by (simp add: lock_inv_def)
  have lk: "past_lock pc \<longleftrightarrow> h_lock h = Some p" if "h_pc h p = pc" for p pc using l [of p] that by simp
  have u: "p = q" if "h_pc h p = Serving" "h_pc h q = Serving" for p q using s [OF that(1)] s [OF that(2)] by simp
  have "lock_inv (exits b p h)" for b p by (auto simp: lock_inv_def goes_def exits_def l dest: s u)
  with assms(1) show ?thesis
    by (cases rule: host_step.cases) (simp_all, (force simp: lock_inv_def goes_def l dest: s lk)+)
qed

lemma lock_inv_reachable: "host_reachable h \<Longrightarrow> lock_inv h"
  by (erule hs.conc.invariant, simp add: lock_inv_def past_lock_def host_init_def) (rule lock_inv_step)

text \<open>
  However many runners are started, fail and are killed on a data directory: at most one is past the lock, a
  serving one owns the socket, and the tables satisfy the invariants of a single runner.
\<close>

theorem one_runner:
  assumes "host_reachable h"
  shows "(past_lock (h_pc h p) \<and> past_lock (h_pc h q) \<longrightarrow> p = q) \<and> (h_pc h p = Serving \<longrightarrow> h_socket h = Some p) \<and>
    rows_inv (h_web h) \<and> tasks_inv (h_web h) \<and> target_inv (h_web h) \<and> used_inv (h_web h)"
  using lock_inv_reachable [OF assms] web_inv_reachable [OF hs.f_reach [OF assms]] by (auto simp: lock_inv_def)

text \<open>Only the runner past the lock changes the tables.\<close>

lemma only_holder_writes:
  assumes "host_reachable h" "host_step h h'" "h_web h' \<noteq> h_web h"
  shows "\<exists>p. h_lock h = Some p \<and> past_lock (h_pc h p)"
  using assms(2,3) lock_inv_reachable [OF assms(1)]
  by (induction rule: host_step.induct) (auto simp: goes_def exits_def lock_inv_def past_lock_def)

section \<open>Options and clients\<close>

definition defaultDataDir :: "string \<Rightarrow> string option \<Rightarrow> string" where
  "defaultDataDir env home = (if env \<noteq> [] then env else (case home of None \<Rightarrow> ''.redis-shake-web'' | Some h \<Rightarrow> h @ ''/.redis-shake-web''))"

definition socketDir :: "string \<Rightarrow> string \<Rightarrow> string" where
  "socketDir flag dataDir = (if flag = [] then dataDir else flag)"

text \<open>\<open>ask\<close> is what the runner's socket answers: nothing, or a status code.\<close>

definition runnerAlive :: "(string \<Rightarrow> string \<Rightarrow> nat option) \<Rightarrow> bool" where
  "runnerAlive ask = (case ask ''GET'' ''/health'' of None \<Rightarrow> False | Some code \<Rightarrow> code = 200)"

definition requestShutdown :: "(string \<Rightarrow> string \<Rightarrow> nat option) \<Rightarrow> string option" where
  "requestShutdown ask = (case ask ''POST'' ''/internal/shutdown'' of None \<Rightarrow> Some ''unreachable''
     | Some code \<Rightarrow> if code \<noteq> 200 then Some (''shutdown returned '' @ Itoa (int code)) else None)"

text \<open>The front hands a request for \<^verbatim>\<open>/api/\<close> to the runner and its answer back unchanged.\<close>

definition proxy :: "('req \<Rightarrow> (nat \<times> 'body) option) \<Rightarrow> 'req \<Rightarrow> nat \<times> 'body option" where
  "proxy runner q = (case runner q of None \<Rightarrow> (503, None) | Some (code, body) \<Rightarrow> (code, Some body))"

section \<open>Handlers that read\<close>

datatype 'a answer = Answer nat 'a | Refused nat

definition connectionsForTask :: "task \<Rightarrow> web \<Rightarrow> (task \<times> connection \<times> connection) option" where
  "connectionsForTask t w = (case map_of (w_conns w) (SourceID t) of None \<Rightarrow> None
     | Some s \<Rightarrow> (case map_of (w_conns w) (TargetID t) of None \<Rightarrow> None | Some d \<Rightarrow> Some (t, s, d)))"

definition getTask :: "string \<Rightarrow> web \<Rightarrow> task answer" where
  "getTask i w = (case find_task i w of None \<Rightarrow> Refused 404 | Some t \<Rightarrow> Answer 200 t)"

definition preflightTaskDraft :: "(string \<Rightarrow> bool) \<Rightarrow> servers \<Rightarrow> bool \<Rightarrow> task \<Rightarrow> web \<Rightarrow> (check \<times> bool) list answer" where
  "preflightTaskDraft compiles sv binary t w = (case connectionsForTask t w of None \<Rightarrow> Refused 400
     | Some (t, s, d) \<Rightarrow> Answer 200 (preflight compiles sv binary t s d))"

definition preflightTask :: "(string \<Rightarrow> bool) \<Rightarrow> servers \<Rightarrow> bool \<Rightarrow> string \<Rightarrow> web \<Rightarrow> (check \<times> bool) list answer" where
  "preflightTask compiles sv binary i w = (case taskConnections i w of None \<Rightarrow> Refused 404
     | Some (t, s, d) \<Rightarrow> Answer 200 (preflight compiles sv binary t s d))"

text \<open>\<^verbatim>\<open>startTask\<close>: the checks that did not pass, or what \<^verbatim>\<open>startRun\<close> says.\<close>

definition startTask :: "(string \<Rightarrow> bool) \<Rightarrow> servers \<Rightarrow> bool \<Rightarrow> start_env \<Rightarrow> string \<Rightarrow> string \<Rightarrow> web \<Rightarrow>
    (((check \<times> bool) list + start_error) + web) answer" where
  "startTask compiles sv binary e i rid w = (case taskConnections i w of None \<Rightarrow> Refused 404
     | Some (t, s, d) \<Rightarrow>
         let checks = preflight compiles sv binary t s d in
         if \<not> checksPass checks then Answer 409 (Inl (Inl checks))
         else (case startRun e rid t s d w of Inl err \<Rightarrow> Answer 409 (Inl (Inr err)) | Inr w' \<Rightarrow> Answer 201 (Inr w')))"

text \<open>\<open>files\<close> is what can be opened under the directory of a run.\<close>

definition logs :: "(string \<Rightarrow> string \<Rightarrow> string option) \<Rightarrow> string \<Rightarrow> web \<Rightarrow> (string \<times> bool) answer" where
  "logs files i w =
     (if map_of (w_runs w) i = None then Refused 404
      else (case (case files i ''shake.log'' of None \<Rightarrow> files i ''console.log'' | Some d \<Rightarrow> Some d) of
          None \<Rightarrow> Refused 404 | Some d \<Rightarrow> Answer 200 (log_tail d)))"

definition hasAdmin :: "auth \<Rightarrow> bool" where
  "hasAdmin a \<longleftrightarrow> a_admin a \<noteq> None"

lemma connectionsForTask_stored: "find_task i w = Some t \<Longrightarrow> taskConnections i w = connectionsForTask t w"
  by (simp add: taskConnections_def connectionsForTask_def split: option.splits)

text \<open>
  The check of a draft and of the stored task agree, and a task is started only if that check, with the same answers of the
  servers, passes.
\<close>

lemma preflight_agrees:
  assumes "find_task i w = Some t" "connectionsForTask t w \<noteq> None"
  shows "preflightTask compiles sv binary i w = preflightTaskDraft compiles sv binary t w"
  using assms by (auto simp: preflightTask_def preflightTaskDraft_def connectionsForTask_stored)

lemma startTask_checked:
  assumes "startTask compiles sv binary e i rid w = Answer 201 r"
  shows "\<exists>checks w'. preflightTask compiles sv binary i w = Answer 200 checks \<and> checksPass checks \<and> r = Inr w'"
  using assms by (auto simp: startTask_def preflightTask_def Let_def split: option.splits if_splits sum.splits)

text \<open>No file is opened for a name that is not the identifier of a run.\<close>

lemma logs_known_runs_only: "logs files i w = Answer code x \<Longrightarrow> i \<in> fst ` set (w_runs w) \<and> code = 200"
  by (auto simp: logs_def map_of_eq_None_iff split: if_splits option.splits)

end
