(* ===== verification/Status.thy ===== *)
theory Status
  imports Complex_Main "HOL-Library.Word" GoLib
begin

text \<open>
  \<^verbatim>\<open>internal/status\<close>: the counters of entries read and written, the ticker and the status handler.

  Every access to the shared record is a closure sent on a channel and run by one goroutine, so that
  the operations are functions on the record, run one after the other.  Counts are 64-bit words; a
  rate is a real number (the source rounds to \<^verbatim>\<open>float64\<close>).  Proved: the total counts are the sums over the
  commands, and what the ticker does not do.
\<close>

section \<open>Counters\<close>

record entryCount =
  ReadCount :: "64 word"
  ReadOps :: real
  WriteCount :: "64 word"
  WriteOps :: real
  lastReadCount :: "64 word"
  lastWriteCount :: "64 word"
  lastUpdateTimestampSec :: real

definition zeroCount :: entryCount where
  "zeroCount = \<lparr>ReadCount = 0, ReadOps = 0, WriteCount = 0, WriteOps = 0, lastReadCount = 0, lastWriteCount = 0, lastUpdateTimestampSec = 0\<rparr>"

definition UpdateOPS :: "real \<Rightarrow> entryCount \<Rightarrow> entryCount" where
  "UpdateOPS now e =
     (if lastUpdateTimestampSec e \<noteq> 0 then
        let dt = now - lastUpdateTimestampSec e
        in e\<lparr>ReadOps := real (unat (ReadCount e - lastReadCount e)) / dt, WriteOps := real (unat (WriteCount e - lastWriteCount e)) / dt,
             lastReadCount := ReadCount e, lastWriteCount := WriteCount e, lastUpdateTimestampSec := now\<rparr>
      else e\<lparr>lastUpdateTimestampSec := now\<rparr>)"

record stat =
  Consistent :: bool
  TotalEntriesCount :: entryCount
  PerCmdEntriesCount :: "(string \<times> entryCount) list"
  lastConsistent :: bool

definition stat_init :: stat where
  "stat_init = \<lparr>Consistent = False, TotalEntriesCount = zeroCount, PerCmdEntriesCount = [], lastConsistent = False\<rparr>"

definition countOf :: "string \<Rightarrow> stat \<Rightarrow> entryCount" where
  "countOf cmd s = (case map_of (PerCmdEntriesCount s) cmd of Some e \<Rightarrow> e | None \<Rightarrow> zeroCount)"

fun put :: "string \<Rightarrow> 'v \<Rightarrow> (string \<times> 'v) list \<Rightarrow> (string \<times> 'v) list" where
  "put k v [] = [(k, v)]"
| "put k v ((k', v') # r) = (if k' = k then (k, v) # r else (k', v') # put k v r)"

definition AddReadCount :: "string \<Rightarrow> stat \<Rightarrow> stat" where
  "AddReadCount cmd s = (let e = countOf cmd s in
     s\<lparr>TotalEntriesCount := (TotalEntriesCount s)\<lparr>ReadCount := ReadCount (TotalEntriesCount s) + 1\<rparr>,
       PerCmdEntriesCount := put cmd (e\<lparr>ReadCount := ReadCount e + 1\<rparr>) (PerCmdEntriesCount s)\<rparr>)"

definition AddWriteCount :: "string \<Rightarrow> stat \<Rightarrow> stat" where
  "AddWriteCount cmd s = (let e = countOf cmd s in
     s\<lparr>TotalEntriesCount := (TotalEntriesCount s)\<lparr>WriteCount := WriteCount (TotalEntriesCount s) + 1\<rparr>,
       PerCmdEntriesCount := put cmd (e\<lparr>WriteCount := WriteCount e + 1\<rparr>) (PerCmdEntriesCount s)\<rparr>)"

text \<open>
  A tick: \<open>rc\<close> and \<open>wc\<close> say whether reader and writer report to be consistent.  The loop over the commands updates
  copies of the map's values, which are dropped.
\<close>

definition tick :: "real \<Rightarrow> bool \<Rightarrow> bool \<Rightarrow> stat \<Rightarrow> stat" where
  "tick now rc wc s = (let c = lastConsistent s \<and> rc \<and> wc in
     s\<lparr>Consistent := c, lastConsistent := c, TotalEntriesCount := UpdateOPS now (TotalEntriesCount s)\<rparr>)"

definition Handler :: "bool \<Rightarrow> bool \<Rightarrow> stat \<Rightarrow> stat" where
  "Handler rc wc s = s\<lparr>Consistent := rc \<and> wc\<rparr>"

inductive stat_reachable :: "stat \<Rightarrow> bool" where
  init: "stat_reachable stat_init"
| count_read: "stat_reachable s \<Longrightarrow> stat_reachable (AddReadCount cmd s)"
| count_write: "stat_reachable s \<Longrightarrow> stat_reachable (AddWriteCount cmd s)"
| ticked: "stat_reachable s \<Longrightarrow> stat_reachable (tick now rc wc s)"
| handled: "stat_reachable s \<Longrightarrow> stat_reachable (Handler rc wc s)"

section \<open>Facts\<close>

lemma map_of_put: "map_of (put k v m) = (map_of m)(k \<mapsto> v)"
  by (induction m) auto

lemma sum_put:
  "(\<Sum>(_, e) \<leftarrow> put k v m. f e) = (\<Sum>(_, e) \<leftarrow> m. f e) + f v - (case map_of m k of Some e \<Rightarrow> f e | None \<Rightarrow> (0 :: 64 word))"
  by (induction m) auto

text \<open>
  In every state the total counts are the sums over the commands (modulo \<open>2 ^ 64\<close>); the ticker's own flag is
  never set, so that after a tick the status says inconsistent whatever reader and writer report; and the
  rates of the single commands stay 0.
\<close>

theorem status_counts:
  "stat_reachable s \<Longrightarrow> ReadCount (TotalEntriesCount s) = (\<Sum>(_, e) \<leftarrow> PerCmdEntriesCount s. ReadCount e) \<and>
     WriteCount (TotalEntriesCount s) = (\<Sum>(_, e) \<leftarrow> PerCmdEntriesCount s. WriteCount e) \<and>
     \<not> Consistent (tick now rc wc s) \<and> (\<forall>cmd. ReadOps (countOf cmd s) = 0 \<and> WriteOps (countOf cmd s) = 0)"
proof -
  have "ReadCount (TotalEntriesCount s) = (\<Sum>(_, e) \<leftarrow> PerCmdEntriesCount s. ReadCount e) \<and>
     WriteCount (TotalEntriesCount s) = (\<Sum>(_, e) \<leftarrow> PerCmdEntriesCount s. WriteCount e) \<and>
     \<not> lastConsistent s \<and> (\<forall>cmd. ReadOps (countOf cmd s) = 0 \<and> WriteOps (countOf cmd s) = 0)" if "stat_reachable s"
    using that
  proof (induction rule: stat_reachable.induct)
    case (count_read s cmd)
    then show ?case by (auto simp: AddReadCount_def Let_def sum_put countOf_def map_of_put zeroCount_def split: option.splits)
  next
    case (count_write s cmd)
    then show ?case by (auto simp: AddWriteCount_def Let_def sum_put countOf_def map_of_put zeroCount_def split: option.splits)
  qed (auto simp: stat_init_def zeroCount_def countOf_def tick_def UpdateOPS_def Handler_def Let_def)
  then show "stat_reachable s \<Longrightarrow> ?thesis" by (simp add: tick_def Let_def)
qed

end
