(* ===== verification/Spec2Isabelle.thy ===== *)
theory Spec2Isabelle
  imports Aof Progress EntryFilter Writer ClusterSystem Handshake SyncStream Startup Readers FunctionFilter Daemon Status
begin

text \<open>
  RedisShake-Web copies the data of a Redis server or cluster into another one and keeps the copy up to date,
  and has a web service that manages such tasks.  This development models the program and proves
  what makes it correct.  Paths are relative to \<^verbatim>\<open>src/\<close>.

  \<^bold>\<open>The program.\<close>  A task process (\<^verbatim>\<open>internal/kernel/run.go\<close>) creates a reader and a writer from its configuration.
  The reader delivers entries, one command each: a replica of the source (\<^verbatim>\<open>reader/sync_*\<close>: handshake, snapshot,
  replication stream through files on disk), a scan of its keys (\<^verbatim>\<open>reader/scan_*\<close>), a snapshot file, or an append only
  file.  One goroutine per reader channel registers the position of an entry with the tracker (\<^verbatim>\<open>internal/progress\<close>),
  parses it (\<^verbatim>\<open>internal/commands\<close>), filters it (\<^verbatim>\<open>internal/filter\<close>), runs the user's Lua function and writes the results to
  the writer (\<^verbatim>\<open>internal/writer\<close>: one server, a cluster, or a file).  The writer calls the completion callback of an
  entry when the target has answered, and the tracker then moves the position that is shown and
  saved.  The web service (\<^verbatim>\<open>cmd/redisshakeweb\<close>) stores connections and tasks, checks a task before it runs, generates its
  configuration, and starts, watches and stops task processes.

  \<^bold>\<open>How code is translated.\<close>  A struct is a record, an enumeration a datatype, a function a HOL function of the same
  name; Go's errors, \<^verbatim>\<open>log.Panicf\<close> (which ends the process) and run-time panics are values of a sum type (\<open>fault\<close>,
  \<open>'a res\<close> in \<open>Prelude\<close>).  Checksums, counters and packed encodings are words or carry their wrap-around; lengths and
  offsets that the source holds in an \<^verbatim>\<open>int64\<close> are integers with the range checks the source makes.  Concurrent parts are
  inductive step relations whose steps are the accesses to shared state; a theorem about a reachable
  state holds for every interleaving.  Third-party code (Lua, go-redis, SQLite, TOML, AES-GCM, JSON), servers, clocks
  and the file system are parameters; a hypothesis about them is a premise of the theorem that needs it.

  \<^bold>\<open>Theories.\<close>
  \<^item> \<open>Prelude\<close>: faults, byte readers, the locales \<open>stream_reader\<close>, \<open>transition_system\<close> and \<open>simulation\<close>.
    \<open>GoLib\<close>: what is used of \<^verbatim>\<open>strconv\<close>, \<^verbatim>\<open>strings\<close> and \<^verbatim>\<open>bufio\<close>.
  \<^item> \<open>Crc\<close>: \<^verbatim>\<open>utils/crc16.go\<close>, \<^verbatim>\<open>crc64.go\<close>.  The tables compute the remainders of the two polynomials.
  \<^item> \<open>CommandTable\<close>, \<open>Commands\<close>: \<^verbatim>\<open>internal/commands\<close>.  The table is well typed, keys are arguments at the
    indices reported, slots follow the rule of the cluster, and which faults are possible.
  \<^item> \<open>Resp\<close>, \<open>RespStream\<close>: \<^verbatim>\<open>client/proto\<close>.  Reading terminates on every input, what is written is read back, a
    complete reply does not depend on what follows.
  \<^item> \<open>Entry\<close>, \<open>Ownership\<close>: \<^verbatim>\<open>internal/entry\<close>.  Split callbacks fire exactly once and last, also when the atomic steps
    of the parts interleave and when parts are split again.
  \<^item> \<open>Progress\<close>: tracker, recorder, report and master position refine an abstract history of completions.
  \<^item> \<open>EntryFilter\<close>: the filter equals its specification.  \<open>Kernel\<close>: the goroutines of \<^verbatim>\<open>kernel/run.go\<close>.
    \<open>FunctionFilter\<close>: \<^verbatim>\<open>filter/function.go\<close> with its pool of interpreters.
  \<^item> \<open>Writer\<close>: the standalone writer with its queues, pipeline and replies: order, databases, bounds, and
    what holds after \<^verbatim>\<open>Close\<close>.  \<open>Aof\<close>: file writer and loader.
  \<^item> \<open>Cluster\<close>: topology, routing table, routing of entries.
  \<^item> \<open>System\<close>, \<open>Finish\<close>: kernel, tracker, callbacks and standalone writer together: what a position means, and what
    a finished run has done.  \<open>ClusterSystem\<close>: the same with a cluster as target.
  \<^item> \<open>RdbStructure\<close>, \<open>RdbTypes\<close>, \<open>RdbValues\<close>, \<open>RdbLoader\<close>: \<^verbatim>\<open>internal/rdb\<close>.  The decoders invert the encodings,
    rewritten values rebuild the value on a reference server, and the loader sends the keys of a file.
  \<^item> \<open>Rotate\<close>: \<^verbatim>\<open>utils/file_rotate\<close>, the stream on disk.  \<open>UniqueQueue\<close>: \<^verbatim>\<open>utils/unique_queue.go\<close>.
  \<^item> \<open>Client\<close>, \<open>Handshake\<close>, \<open>SyncReader\<close>, \<open>SyncStream\<close>: \<^verbatim>\<open>client/redis.go\<close> and \<^verbatim>\<open>reader/sync_standalone_reader.go\<close>, from
    dialling to the incremental phase.  \<open>ScanReader\<close>, \<open>ScanSystem\<close>: \<^verbatim>\<open>reader/scan_standalone_reader.go\<close>, the
    answers to its questions and its goroutines with the queue: a finished run copied every key that was listed.
  \<^item> \<open>AofManifest\<close>, \<open>AofReader\<close>: the readers of files.  \<open>Readers\<close>: readers of clusters, and what readers report.
  \<^item> \<open>Startup\<close>: \<^verbatim>\<open>internal/config\<close>, the lock and the first half of \<^verbatim>\<open>Run\<close>.  \<open>Status\<close>: \<^verbatim>\<open>internal/status\<close>.
  \<^item> \<open>WebTask\<close>, \<open>Preflight\<close>, \<open>WebAuth\<close>, \<open>Runner\<close>, \<open>Api\<close>, \<open>Store\<close>, \<open>RedisAuth\<close>, \<open>Daemon\<close>: \<^verbatim>\<open>cmd/redisshakeweb\<close>.
    Tables, processes and sessions keep their invariants, also when runners are started twice or killed (\<open>Daemon\<close>).

  \<^bold>\<open>Interfaces.\<close>  \<open>stream_reader\<close> is the contract of a decoder, interpreted on the decoder of all value types; \<open>position_tracker\<close>
  (in \<open>Progress\<close>) that of the tracker, interpreted as \<open>trk\<close> and used by the composed systems.  Every transition
  system is an interpretation of \<open>transition_system\<close> (\<open>fw\<close>, \<open>sp\<close>, \<open>rot\<close>, \<open>uq\<close>, \<open>wr\<close>, \<open>web\<close>); the composed ones interpret
  \<open>simulation\<close>, so that their parts inherit invariants: \<open>sys\<close> onto the writer, \<open>cn\<close> onto each node's writer, \<open>ss\<close> onto
  the files of the stream, \<open>sc\<close> onto the unique queue, \<open>ap\<close> and \<open>hs\<close> onto the runner.

  \<^bold>\<open>Bounds.\<close>  The recursion of \<^verbatim>\<open>ReadReply\<close> is bounded by the length of the input, which is proved enough.  Other loops
  terminate by a measure.  The concrete runs that show hypotheses to be satisfiable are computed
  from the executable versions of the step relations (\<open>w_exec\<close>, \<open>sys_exec\<close>, \<open>cs_exec\<close> and others), which are proved to take
  steps of the relation.

  \<^bold>\<open>Limits of the model.\<close>  A call of a completion callback is one step in the composed systems; that its atomic steps
  may interleave is proved separately in \<open>Entry\<close>.  Channels are lists with their capacity.  Time only appears as
  time stamps and as answers of the environment, so that nothing is claimed of deadlines.  Replies are assumed to be
  switched on (\<open>\<not> OffReply\<close>) where acknowledgement matters; \<open>Startup\<close> shows that positions are not
  recorded otherwise.

  \<^bold>\<open>Not modelled.\<close>  Log formatting and log files (\<^verbatim>\<open>internal/log\<close>), \<^verbatim>\<open>utils/pprof.go\<close>, \<^verbatim>\<open>utils/ncpu.go\<close>, the helpers on directories
  in \<^verbatim>\<open>utils/file.go\<close>, detaching a process (\<^verbatim>\<open>process_unix.go\<close>), the HTTP servers and the static pages: input and output
  without logic of their own.  The Lua interpreter behind \<^verbatim>\<open>filter/function.go\<close> and the drivers and ciphers of
  \<^verbatim>\<open>cmd/redisshakeweb\<close> are third-party.  The programs under \<^verbatim>\<open>tests/\<close> drive the binary against real servers.
\<close>

end
